(* ===== verification/Net_Prelude.thy ===== *)
theory Net_Prelude
  imports "HOL-Library.Word"
begin

unbundle bit_operations_syntax

section \<open>Shared vocabulary of the development\<close>

text \<open>
  What every component of the server shares: Go byte slices as lists of 8-bit words, the
  outcome of a Go function that may return an error or panic, checked slice reads and
  in-place buffer writes, and the big-endian integers of \<^verbatim>\<open>encoding/binary\<close>.

  A Go function that can index a slice, slice it or dereference a pointer is given a result
  in \<open>('e, 'a) res\<close>: \<open>Ok\<close> is a normal return, \<open>Err\<close> a returned error, \<open>Panic\<close> a run-time
  panic. The checked operations below panic exactly where the Go run time does, so "this code
  never panics" is a theorem about the model and not a convention.
\<close>

named_theorems go_simps \<open>checked slice operations and the outcome monad\<close>
named_theorems wire_simps \<open>big-endian encodings of machine integers\<close>

type_synonym byte = "8 word"
type_synonym bytes = "byte list"
type_synonym u16 = "16 word"
type_synonym u32 = "32 word"
type_synonym u64 = "64 word"

text \<open>The bytes of a Go string literal.\<close>

definition str :: "string \<Rightarrow> bytes" where
  "str s = map of_char s"

subsection \<open>Outcomes: return, error, panic\<close>

datatype ('e, 'a) res = Ok 'a | Err 'e | Panic

fun rbind :: "('e, 'a) res \<Rightarrow> ('a \<Rightarrow> ('e, 'b) res) \<Rightarrow> ('e, 'b) res" where
  "rbind (Ok a) f = f a"
| "rbind (Err e) f = Err e"
| "rbind Panic f = Panic"

text \<open>\<^verbatim>\<open>fmt.Errorf("...: %w", err)\<close>: wrap an error on its way out.\<close>

fun rwrap :: "('e \<Rightarrow> 'f) \<Rightarrow> ('e, 'a) res \<Rightarrow> ('f, 'a) res" where
  "rwrap g (Ok a) = Ok a"
| "rwrap g (Err e) = Err (g e)"
| "rwrap g Panic = Panic"

lemma rbind_cong [fundef_cong]:
  "m = m' \<Longrightarrow> (\<And>a. m' = Ok a \<Longrightarrow> f a = f' a) \<Longrightarrow> rbind m f = rbind m' f'"
  by (cases m') auto

lemma rbind_eq_Ok: "rbind m f = Ok b \<longleftrightarrow> (\<exists>a. m = Ok a \<and> f a = Ok b)"
  by (cases m) auto

lemma rbind_eq_Err: "rbind m f = Err e \<longleftrightarrow> m = Err e \<or> (\<exists>a. m = Ok a \<and> f a = Err e)"
  by (cases m) auto

lemma rbind_eq_Panic: "rbind m f = Panic \<longleftrightarrow> m = Panic \<or> (\<exists>a. m = Ok a \<and> f a = Panic)"
  by (cases m) auto

lemma rbind_assoc: "rbind (rbind m f) g = rbind m (\<lambda>a. rbind (f a) g)"
  by (cases m) auto

lemma rwrap_eq_Ok: "rwrap g m = Ok b \<longleftrightarrow> m = Ok b"
  by (cases m) auto

lemma rwrap_eq_Err: "rwrap g m = Err e \<longleftrightarrow> (\<exists>e'. m = Err e' \<and> e = g e')"
  by (cases m) auto

lemma rwrap_eq_Panic: "rwrap g m = Panic \<longleftrightarrow> m = Panic"
  by (cases m) auto

lemmas rbind_eqs = rbind_eq_Ok rbind_eq_Err rbind_eq_Panic
  rwrap_eq_Ok rwrap_eq_Err rwrap_eq_Panic

lemma if_res_ne_Panic: "(if b then x else y) \<noteq> Panic \<longleftrightarrow> (b \<longrightarrow> x \<noteq> Panic) \<and> (\<not> b \<longrightarrow> y \<noteq> Panic)"
  by simp

subsection \<open>Slices\<close>

text \<open>
  Reading \<^verbatim>\<open>xs[i]\<close>, slicing \<^verbatim>\<open>xs[i:j]\<close> and slicing \<^verbatim>\<open>xs[i:]\<close>. Go bounds a slice expression by the
  capacity; the model bounds it by the length, so it panics at least wherever Go does.
\<close>

definition idx :: "'a list \<Rightarrow> nat \<Rightarrow> ('e, 'a) res" where
  "idx xs i = (if i < length xs then Ok (xs ! i) else Panic)"

definition slice_at :: "'a list \<Rightarrow> nat \<Rightarrow> nat \<Rightarrow> ('e, 'a list) res" where
  "slice_at xs i j = (if i \<le> j \<and> j \<le> length xs then Ok (take (j - i) (drop i xs)) else Panic)"

definition slice_from :: "'a list \<Rightarrow> nat \<Rightarrow> ('e, 'a list) res" where
  "slice_from xs i = (if i \<le> length xs then Ok (drop i xs) else Panic)"

text \<open>
  Writing into a buffer: \<^verbatim>\<open>buf[i] = v\<close>, and \<^verbatim>\<open>copy(buf[i:j], src)\<close>, which writes
  \<^verbatim>\<open>min(j-i, len(src))\<close> bytes and panics on bad bounds.
\<close>

definition set_at :: "nat \<Rightarrow> 'a \<Rightarrow> 'a list \<Rightarrow> ('e, 'a list) res" where
  "set_at i v buf = (if i < length buf then Ok (buf[i := v]) else Panic)"

definition copy_at :: "nat \<Rightarrow> nat \<Rightarrow> 'a list \<Rightarrow> 'a list \<Rightarrow> ('e, 'a list) res" where
  "copy_at i j src buf =
     (if i \<le> j \<and> j \<le> length buf
      then Ok (take i buf @ take (j - i) src @ drop (i + min (j - i) (length src)) buf)
      else Panic)"

text \<open>A zero-filled buffer, \<^verbatim>\<open>make([]byte, n)\<close>, and a read of a fixed array filled by \<^verbatim>\<open>copy\<close>.\<close>

definition make_bytes :: "nat \<Rightarrow> bytes" where
  "make_bytes n = replicate n 0"

definition nthz :: "bytes \<Rightarrow> nat \<Rightarrow> byte" where
  "nthz bs i = (if i < length bs then bs ! i else 0)"

lemma length_make_bytes [simp]: "length (make_bytes n) = n"
  by (simp add: make_bytes_def)

lemma idx_Ok [go_simps]: "i < length xs \<Longrightarrow> idx xs i = Ok (xs ! i)"
  by (simp add: idx_def)

lemma idx_0_Ok [go_simps]: "Suc 0 \<le> length xs \<Longrightarrow> idx xs 0 = Ok (xs ! 0)"
  by (cases xs) (simp_all add: idx_def)

lemma slice_at_Ok [go_simps]:
  "i \<le> j \<Longrightarrow> j \<le> length xs \<Longrightarrow> slice_at xs i j = Ok (take (j - i) (drop i xs))"
  by (simp add: slice_at_def)

lemma slice_from_Ok [go_simps]: "i \<le> length xs \<Longrightarrow> slice_from xs i = Ok (drop i xs)"
  by (simp add: slice_from_def)

lemma set_at_Ok [go_simps]: "i < length buf \<Longrightarrow> set_at i v buf = Ok (buf[i := v])"
  by (simp add: set_at_def)

lemma copy_at_Ok [go_simps]:
  "i \<le> j \<Longrightarrow> j \<le> length buf \<Longrightarrow> copy_at i j src buf =
     Ok (take i buf @ take (j - i) src @ drop (i + min (j - i) (length src)) buf)"
  by (simp add: copy_at_def)

lemma list_split_at: "n \<le> length xs \<Longrightarrow> \<exists>ys zs. xs = ys @ zs \<and> length ys = n"
  by (metis append_take_drop_id length_take min.absorb2)

subsection \<open>Byte streams\<close>

text \<open>
  An \<^verbatim>\<open>io.Reader\<close> is the bytes it will still deliver and the error it returns behind them.
  \<^verbatim>\<open>io.ReadFull\<close> turns \<^verbatim>\<open>io.EOF\<close> into \<^verbatim>\<open>io.ErrUnexpectedEOF\<close> when it has read something, and
  returns \<^verbatim>\<open>io.EOF\<close> itself when it has read nothing of a non-empty buffer.
\<close>

datatype io_error = EOF | UnexpectedEOF | OtherIO nat

type_synonym reader = "bytes \<times> io_error"

definition ReadFull :: "nat \<Rightarrow> reader \<Rightarrow> (io_error, bytes \<times> reader) res" where
  "ReadFull n r =
     (if n \<le> length (fst r) then Ok (take n (fst r), drop n (fst r), snd r)
      else Err (if snd r = EOF \<and> fst r \<noteq> [] then UnexpectedEOF else snd r))"

lemma ReadFull_append: "ReadFull (length a) (a @ b, e) = Ok (a, b, e)"
  by (simp add: ReadFull_def)

lemma ReadFull_ne_Panic [simp]: "ReadFull n r \<noteq> Panic"
  by (simp add: ReadFull_def)

subsection \<open>Big-endian integers\<close>

text \<open>
  \<^verbatim>\<open>binary.BigEndian.Uint16\<close> and \<^verbatim>\<open>Uint32\<close>, as the standard library computes them (shifts and
  or), and the bytes \<^verbatim>\<open>PutUint16\<close> and \<^verbatim>\<open>PutUint32\<close> store.
\<close>

definition u16_of :: "byte \<Rightarrow> byte \<Rightarrow> u16" where
  "u16_of b0 b1 = push_bit 8 (ucast b0) OR ucast b1"

definition u32_of :: "byte \<Rightarrow> byte \<Rightarrow> byte \<Rightarrow> byte \<Rightarrow> u32" where
  "u32_of b0 b1 b2 b3 =
     push_bit 24 (ucast b0) OR push_bit 16 (ucast b1) OR push_bit 8 (ucast b2) OR ucast b3"

definition u16_bytes :: "u16 \<Rightarrow> bytes" where
  "u16_bytes v = [ucast (drop_bit 8 v), ucast v]"

definition u32_bytes :: "u32 \<Rightarrow> bytes" where
  "u32_bytes v = [ucast (drop_bit 24 v), ucast (drop_bit 16 v), ucast (drop_bit 8 v), ucast v]"

definition u64_bytes :: "u64 \<Rightarrow> bytes" where
  "u64_bytes v = [ucast (drop_bit 56 v), ucast (drop_bit 48 v), ucast (drop_bit 40 v),
     ucast (drop_bit 32 v), ucast (drop_bit 24 v), ucast (drop_bit 16 v), ucast (drop_bit 8 v),
     ucast v]"

definition be_u16 :: "bytes \<Rightarrow> ('e, u16) res" where
  "be_u16 b = (if 2 \<le> length b then Ok (u16_of (b ! 0) (b ! 1)) else Panic)"

definition be_u32 :: "bytes \<Rightarrow> ('e, u32) res" where
  "be_u32 b = (if 4 \<le> length b then Ok (u32_of (b ! 0) (b ! 1) (b ! 2) (b ! 3)) else Panic)"

text \<open>\<^verbatim>\<open>binary.BigEndian.PutUint16(buf[i:j], v)\<close>: slice, then store.\<close>

definition put_u16 :: "nat \<Rightarrow> nat \<Rightarrow> u16 \<Rightarrow> bytes \<Rightarrow> ('e, bytes) res" where
  "put_u16 i j v buf =
     (if i \<le> j \<and> j \<le> length buf \<and> 2 \<le> j - i
      then Ok (take i buf @ u16_bytes v @ drop (i + 2) buf) else Panic)"

definition put_u32 :: "nat \<Rightarrow> nat \<Rightarrow> u32 \<Rightarrow> bytes \<Rightarrow> ('e, bytes) res" where
  "put_u32 i j v buf =
     (if i \<le> j \<and> j \<le> length buf \<and> 4 \<le> j - i
      then Ok (take i buf @ u32_bytes v @ drop (i + 4) buf) else Panic)"

lemma be_u16_Ok [go_simps]: "2 \<le> length b \<Longrightarrow> be_u16 b = Ok (u16_of (b ! 0) (b ! 1))"
  by (simp add: be_u16_def)

lemma be_u32_Ok [go_simps]:
  "4 \<le> length b \<Longrightarrow> be_u32 b = Ok (u32_of (b ! 0) (b ! 1) (b ! 2) (b ! 3))"
  by (simp add: be_u32_def)

lemma be_u16_take [go_simps]:
  "2 \<le> length b \<Longrightarrow> be_u16 (take 2 b) = Ok (u16_of (b ! 0) (b ! 1))"
  "i + 2 \<le> length b \<Longrightarrow> be_u16 (take 2 (drop i b)) = Ok (u16_of (b ! i) (b ! Suc i))"
  by (simp_all add: be_u16_def)

lemma be_u32_take [go_simps]:
  "i + 4 \<le> length b \<Longrightarrow> be_u32 (take 4 (drop i b)) =
     Ok (u32_of (b ! i) (b ! Suc i) (b ! (i + 2)) (b ! (i + 3)))"
  by (simp add: be_u32_def)

lemma put_u16_Ok [go_simps]:
  "i + 2 \<le> j \<Longrightarrow> j \<le> length buf \<Longrightarrow>
     put_u16 i j v buf = Ok (take i buf @ u16_bytes v @ drop (i + 2) buf)"
  by (simp add: put_u16_def)

lemma put_u32_Ok [go_simps]:
  "i + 4 \<le> j \<Longrightarrow> j \<le> length buf \<Longrightarrow>
     put_u32 i j v buf = Ok (take i buf @ u32_bytes v @ drop (i + 4) buf)"
  by (simp add: put_u32_def)

lemma length_u16_bytes [simp]: "length (u16_bytes v) = 2"
  by (simp add: u16_bytes_def)

lemma length_u32_bytes [simp]: "length (u32_bytes v) = 4"
  by (simp add: u32_bytes_def)

lemma length_u64_bytes [simp]: "length (u64_bytes v) = 8"
  by (simp add: u64_bytes_def)

lemma u16_of_u16_bytes [simp, wire_simps]: "u16_of (ucast (drop_bit 8 v)) (ucast v) = v"
  by (rule bit_word_eqI) (auto simp: u16_of_def bit_simps)

lemma u32_of_u32_bytes [simp, wire_simps]:
  "u32_of (ucast (drop_bit 24 v)) (ucast (drop_bit 16 v)) (ucast (drop_bit 8 v)) (ucast v) = v"
proof (rule bit_word_eqI)
  fix n assume n: "n < LENGTH(32)"
  then consider "n < 8" | "8 \<le> n" "n < 16" | "16 \<le> n" "n < 24" | "24 \<le> n" "n < 32"
    using n by (cases "n < 8"; cases "n < 16"; cases "n < 24") (auto simp: not_less)
  then show "bit (u32_of (ucast (drop_bit 24 v)) (ucast (drop_bit 16 v)) (ucast (drop_bit 8 v))
      (ucast v)) n = bit v n"
    by cases (auto simp: u32_of_def bit_simps)
qed

lemma u16_of_hi [simp, wire_simps]: "ucast (drop_bit 8 (u16_of a b)) = a"
  by (rule bit_word_eqI) (auto simp: u16_of_def bit_simps dest: bit_imp_le_length)

lemma u16_of_lo [simp, wire_simps]: "ucast (u16_of a b) = b"
  by (rule bit_word_eqI) (auto simp: u16_of_def bit_simps)

lemma u16_bytes_of [simp, wire_simps]: "u16_bytes (u16_of a b) = [a, b]"
  by (simp add: u16_bytes_def)

lemma u16_bytes_inject [simp]: "u16_bytes v = u16_bytes w \<longleftrightarrow> v = w"
  by (auto simp: u16_bytes_def) (metis u16_of_u16_bytes)

lemma u32_bytes_inject [simp]: "u32_bytes v = u32_bytes w \<longleftrightarrow> v = w"
  by (auto simp: u32_bytes_def) (metis u32_of_u32_bytes)

lemma u16_bytes_nth [wire_simps]:
  "u16_bytes v ! 0 = ucast (drop_bit 8 v)" "u16_bytes v ! Suc 0 = ucast v"
  by (simp_all add: u16_bytes_def)

lemma u16_of_0 [simp]: "u16_of 0 0 = 0"
  by (simp add: u16_of_def)

lemma unat_byte_lt: "unat (b :: byte) < 256"
  using unsigned_less [of b, where 'a = nat] by simp

lemma unat_u16_lt: "unat (v :: u16) < 65536"
  using unsigned_less [of v, where 'a = nat] by simp

lemma unat_ucast_u16 [simp]: "unat (ucast (v :: u16) :: u32) = unat v"
  using unat_u16_lt [of v] by (simp add: unsigned_ucast_eq take_bit_nat_eq_self)

lemma unat_ucast_byte [simp]:
  "unat (ucast (b :: byte) :: u16) = unat b" "unat (ucast b :: u32) = unat b"
  using unat_byte_lt [of b] by (simp_all add: unsigned_ucast_eq take_bit_nat_eq_self)

lemma unat_u16_of: "unat (u16_of a b) = unat a * 256 + unat b"
proof -
  have "u16_of a b = push_bit 8 (ucast a) + ucast b"
    unfolding u16_of_def
    by (rule disjunctive_add [symmetric]) (auto simp: bit_simps dest: bit_imp_le_length)
  also have "\<dots> = of_nat (unat a * 256 + unat b)"
    by (simp add: push_bit_eq_mult mult.commute)
  finally have "unat (u16_of a b) = (unat a * 256 + unat b) mod 2 ^ 16"
    by (simp only: unat_of_nat) simp
  moreover have "unat a < 256" "unat b < 256"
    by (rule unat_byte_lt)+
  ultimately show ?thesis by simp
qed

end
