(* ===== verification/Checksum.thy ===== *)
theory Checksum
  imports Net_Prelude
begin

unbundle bit_operations_syntax

section \<open>The Internet checksum\<close>

text \<open>
  The same two loops compute the IPv4 header checksum (\<^verbatim>\<open>model/serialize.go\<close>), the TCP checksum
  (\<^verbatim>\<open>tcp/send.go\<close>) and the ICMP checksum (\<^verbatim>\<open>icmp/server.go\<close>): a \<^verbatim>\<open>uint32\<close> accumulator over the
  big-endian byte pairs, and the end-around-carry loop \<^verbatim>\<open>for sum > 0xFFFF\<close>. The lemmas relate
  them to the unbounded sum of the 16-bit words, and show that storing the complement makes the
  receiver's sum a multiple of 65535.
\<close>

subsection \<open>The loops\<close>

text \<open>The loop over byte pairs; its bound \<^verbatim>\<open>i < len-1\<close> leaves a trailing odd byte out.\<close>

fun add_words :: "u32 \<Rightarrow> bytes \<Rightarrow> u32" where
  "add_words s (a # b # bs) = add_words (s + ucast (u16_of a b)) bs"
| "add_words s _ = s"

text \<open>\<^verbatim>\<open>if len%2 == 1 { sum += uint32(last) << 8 }\<close>\<close>

definition add_odd :: "u32 \<Rightarrow> bytes \<Rightarrow> u32" where
  "add_odd s bs = (if odd (length bs) then s + push_bit 8 (ucast (last bs)) else s)"

lemma unat_fold_step:
  "unat (drop_bit 16 s + (s AND 0xFFFF)) = unat s div 65536 + unat s mod 65536" for s :: u32
proof -
  have hi: "unat (drop_bit 16 s) = unat s div 65536"
    by (simp add: unat_drop_bit_eq) (simp add: drop_bit_eq_div)
  have "s AND 0xFFFF = take_bit 16 s"
    by (simp add: take_bit_eq_mask mask_eq_exp_minus_1)
  then have lo: "unat (s AND 0xFFFF) = unat s mod 65536"
    by (simp add: take_bit_eq_mod unat_mod_distrib)
  have "unat s < 4294967296"
    using unsigned_less [of s, where 'a = nat] by simp
  then have "unat s div 65536 + unat s mod 65536 < 2 ^ 32"
    by simp
  then show ?thesis
    by (simp add: unat_word_ariths hi lo)
qed

function fold_carry :: "u32 \<Rightarrow> u32" where
  "fold_carry s =
     (if 0xFFFF < s then fold_carry (drop_bit 16 s + (s AND 0xFFFF)) else s)"
  by pat_completeness auto
termination
proof (relation "measure unat")
  fix s :: u32 assume "0xFFFF < s"
  then have "65536 \<le> unat s" by (simp add: word_less_nat_alt)
  then have "1 \<le> unat s div 65536" by (simp add: Suc_le_eq div_greater_zero_iff)
  moreover have "unat s = 65536 * (unat s div 65536) + unat s mod 65536" by simp
  ultimately have "unat s div 65536 + unat s mod 65536 < unat s" by linarith
  then show "(drop_bit 16 s + (s AND 0xFFFF), s) \<in> measure unat"
    by (simp only: in_measure unat_fold_step)
qed simp

declare fold_carry.simps [simp del]

text \<open>\<^verbatim>\<open>^uint16(sum)\<close> after the carry loop: the value stored in the checksum field.\<close>

definition complement16 :: "u32 \<Rightarrow> u16" where
  "complement16 s = NOT (ucast (fold_carry s))"

subsection \<open>The sum over unbounded integers\<close>

fun word_sum :: "bytes \<Rightarrow> nat" where
  "word_sum (a # b # bs) = unat (u16_of a b) + word_sum bs"
| "word_sum [a] = 256 * unat a"
| "word_sum [] = 0"

text \<open>
  What a receiver checks (RFC 1071): the one's-complement sum of all words, checksum included, is
  all ones, that is, the sum is a positive multiple of 65535.
\<close>

definition checksum_verifies :: "bytes \<Rightarrow> bool" where
  "checksum_verifies bs \<longleftrightarrow> 0 < word_sum bs \<and> word_sum bs mod 65535 = 0"

lemma word_sum_append: "even (length xs) \<Longrightarrow> word_sum (xs @ ys) = word_sum xs + word_sum ys"
  by (induction xs rule: word_sum.induct) auto

lemma word_sum_bound: "word_sum bs \<le> 65535 * ((length bs + 1) div 2)"
proof (induction bs rule: word_sum.induct)
  case (1 a b bs)
  then show ?case using unat_u16_lt [of "u16_of a b"] by simp
next
  case (2 a)
  then show ?case using unat_byte_lt [of a] by simp
qed simp

lemma word_sum_u16_bytes [simp]: "word_sum (u16_bytes v @ bs) = unat v + word_sum bs"
  by (simp add: u16_bytes_def)

lemma unat_high_byte: "unat (push_bit 8 (ucast a :: u32)) = 256 * unat a" for a :: byte
  using unat_byte_lt [of a] by (simp add: push_bit_eq_mult unat_word_ariths)

lemma unat_add_words_odd:
  "unat s + word_sum bs < 2 ^ 32 \<Longrightarrow>
     unat (add_odd (add_words s bs) bs) = unat s + word_sum bs"
proof (induction s bs rule: add_words.induct)
  case (1 s a b bs)
  have "unat (s + ucast (u16_of a b)) = unat s + unat (u16_of a b)"
    using "1.prems" by (simp add: unat_word_ariths)
  then show ?case using "1.IH" "1.prems"
    by (simp add: add_odd_def split: if_splits)
qed (simp_all add: add_odd_def unat_word_ariths unat_high_byte)

lemma unat_add_words:
  "even (length bs) \<Longrightarrow> unat s + word_sum bs < 2 ^ 32 \<Longrightarrow>
     unat (add_words s bs) = unat s + word_sum bs"
  using unat_add_words_odd [of s bs] by (simp add: add_odd_def)

subsection \<open>The end-around carry\<close>

lemma fold_carry_le: "unat (fold_carry s) \<le> 65535"
  by (induction s rule: fold_carry.induct)
     (subst fold_carry.simps, auto simp: word_less_nat_alt)

lemma fold_carry_mod: "unat (fold_carry s) mod 65535 = unat s mod 65535"
proof (induction s rule: fold_carry.induct)
  case (1 s)
  show ?case
  proof (cases "0xFFFF < s")
    case True
    let ?q = "unat s div 65536" and ?r = "unat s mod 65536"
    have "unat s = 65535 * ?q + (?q + ?r)" by simp
    then have "unat s mod 65535 = (?q + ?r) mod 65535" by (metis mod_mult_self4)
    with 1 [OF True] True show ?thesis
      by (subst fold_carry.simps) (simp only: unat_fold_step if_True)
  next
    case False
    then show ?thesis by (subst fold_carry.simps) simp
  qed
qed

lemma fold_carry_pos: "0 < unat s \<Longrightarrow> 0 < unat (fold_carry s)"
proof (induction s rule: fold_carry.induct)
  case (1 s)
  show ?case
  proof (cases "0xFFFF < s")
    case True
    then have "65536 \<le> unat s" by (simp add: word_less_nat_alt)
    then have "0 < unat (drop_bit 16 s + (s AND 0xFFFF))"
      by (simp add: unat_fold_step div_greater_zero_iff)
    with "1.IH" [OF True] True show ?thesis by (subst fold_carry.simps) simp
  next
    case False
    with "1.prems" show ?thesis by (subst fold_carry.simps) simp
  qed
qed

lemma unat_not16: "unat (NOT w) = 65535 - unat w" for w :: u16
proof -
  have "NOT w = - 1 - w" by (simp add: not_eq_complement)
  moreover have "w \<le> - 1" by simp
  moreover have "unat (- 1 :: u16) = 65535" by (simp add: unsigned_minus_1_eq_mask mask_eq_exp_minus_1)
  ultimately show ?thesis by (simp only: unat_sub)
qed

lemma unat_complement16: "unat (complement16 s) = 65535 - unat (fold_carry s)"
proof -
  have "unat (ucast (fold_carry s) :: u16) = unat (fold_carry s)"
    using fold_carry_le [of s] by (simp add: unsigned_ucast_eq take_bit_nat_eq_self)
  then show ?thesis by (simp add: complement16_def unat_not16)
qed

text \<open>Adding the complement makes the sum verify, whatever was summed.\<close>

lemma complement16_verifies:
  "0 < unat s + unat (complement16 s) \<and> (unat s + unat (complement16 s)) mod 65535 = 0"
proof -
  let ?f = "unat (fold_carry s)"
  have le: "?f \<le> 65535" by (rule fold_carry_le)
  have "(unat s + (65535 - ?f)) mod 65535 = (?f + (65535 - ?f)) mod 65535"
    by (metis fold_carry_mod mod_add_left_eq)
  also have "\<dots> = 0" using le by simp
  finally have m: "(unat s + unat (complement16 s)) mod 65535 = 0"
    by (simp add: unat_complement16)
  have "0 < unat s \<or> ?f = 0"
    using fold_carry_mod [of s] le by (auto simp: fold_carry.simps [of s] word_less_nat_alt)
  then have "0 < unat s + unat (complement16 s)"
    by (auto simp: unat_complement16)
  with m show ?thesis by simp
qed

text \<open>
  The lemma the three users share: a buffer whose checksum field (at an even offset) was zero
  while summing verifies once the complement is stored there.
\<close>

lemma checksum_inserted:
  assumes "even (length pre)"
    and "unat s = word_sum (pre @ [0, 0] @ post) + extra"
  shows "0 < word_sum (pre @ u16_bytes (complement16 s) @ post) + extra \<and>
    (word_sum (pre @ u16_bytes (complement16 s) @ post) + extra) mod 65535 = 0"
proof -
  have "word_sum (pre @ u16_bytes (complement16 s) @ post) + extra =
      unat s + unat (complement16 s)"
    using assms by (simp add: word_sum_append u16_of_def)
  then show ?thesis using complement16_verifies [of s] by simp
qed

end
