(* ===== verification/Packet_Model.thy ===== *)
theory Packet_Model
  imports Checksum
begin

unbundle bit_operations_syntax

section \<open>Frames, packets and segments (package model)\<close>

text \<open>
  The three header formats of \<^verbatim>\<open>model/model.go\<close>, their parsers (\<^verbatim>\<open>model/parse.go\<close>) and their
  serializers (\<^verbatim>\<open>model/serialize.go\<close>). A parser reads the buffer through the checked slice
  operations; a serializer allocates the buffer and writes into it field by field, as the Go
  does, and the layout lemmas show what the finished buffer holds.
\<close>

subsection \<open>model.go\<close>

text \<open>\<^verbatim>\<open>[4]byte\<close> and \<^verbatim>\<open>[6]byte\<close>: fixed arrays, so their length is part of the type.\<close>

datatype ip4 = IP4 byte byte byte byte
datatype mac = MAC byte byte byte byte byte byte

fun ip4_bytes :: "ip4 \<Rightarrow> bytes" where
  "ip4_bytes (IP4 a b c d) = [a, b, c, d]"

fun mac_bytes :: "mac \<Rightarrow> bytes" where
  "mac_bytes (MAC a b c d e f) = [a, b, c, d, e, f]"

text \<open>\<^verbatim>\<open>copy(arr[:], bs)\<close> into a zeroed array.\<close>

definition ip4_of :: "bytes \<Rightarrow> ip4" where
  "ip4_of bs = IP4 (nthz bs 0) (nthz bs 1) (nthz bs 2) (nthz bs 3)"

definition mac_of :: "bytes \<Rightarrow> mac" where
  "mac_of bs = MAC (nthz bs 0) (nthz bs 1) (nthz bs 2) (nthz bs 3) (nthz bs 4) (nthz bs 5)"

record IPv4Packet =
  Version :: byte
  IHL :: byte
  TotalLen :: u16
  TTL :: byte
  Protocol :: byte
  ip_Checksum :: u16
  ip_SrcIP :: ip4
  ip_DstIP :: ip4
  ip_Payload :: bytes

record TCPSegment =
  SourcePort :: u16
  DestPort :: u16
  SeqNum :: u32
  AckNum :: u32
  DataOffset :: byte
  Reserved :: byte
  Flags :: byte
  Window :: u16
  tcp_Checksum :: u16
  UrgPointer :: u16
  Options :: bytes
  tcp_Payload :: bytes

record EthernetFrame =
  DstMAC :: mac
  SrcMAC :: mac
  EtherType :: u16
  eth_Payload :: bytes

subsection \<open>parse.go\<close>

text \<open>The errors, with the numbers their messages print.\<close>

datatype parse_error =
    FrameTooShort nat
  | IPv4TooShort nat
  | IPv4HeaderTruncated byte nat
  | TCPTooShort nat
  | TCPHeaderTruncated byte nat

definition ParseEthernetFrame :: "bytes \<Rightarrow> nat \<Rightarrow> (parse_error, EthernetFrame) res" where
  "ParseEthernetFrame buf n =
     (if n < 14 then Err (FrameTooShort n)
      else rbind (slice_at buf 0 6) (\<lambda>d.
           rbind (slice_at buf 6 12) (\<lambda>s.
           rbind (slice_at buf 12 14) (\<lambda>t.
           rbind (be_u16 t) (\<lambda>ty.
           rbind (slice_at buf 14 n) (\<lambda>pl.
             Ok \<lparr>DstMAC = mac_of d, SrcMAC = mac_of s, EtherType = ty, eth_Payload = pl\<rparr>))))))"

definition ParseIPv4Packet :: "bytes \<Rightarrow> (parse_error, IPv4Packet) res" where
  "ParseIPv4Packet buf =
     (if length buf < 20 then Err (IPv4TooShort (length buf))
      else rbind (idx buf 0) (\<lambda>b0.
           let version = drop_bit 4 b0; ihl = b0 AND 0x0F in
           rbind (slice_at buf 2 4) (\<lambda>tl. rbind (be_u16 tl) (\<lambda>totalLen.
           rbind (idx buf 8) (\<lambda>ttl.
           rbind (idx buf 9) (\<lambda>proto.
           rbind (slice_at buf 10 12) (\<lambda>ck. rbind (be_u16 ck) (\<lambda>checksum.
           rbind (slice_at buf 12 16) (\<lambda>src.
           rbind (slice_at buf 16 20) (\<lambda>dst.
           let headerLen = unat ihl * 4 in
           if length buf < headerLen then Err (IPv4HeaderTruncated ihl (length buf))
           else
             let end0 = unat totalLen;
                 end1 = (if end0 < headerLen \<or> length buf < end0 then length buf else end0) in
             rbind (slice_at buf headerLen end1) (\<lambda>pl.
               Ok \<lparr>Version = version, IHL = ihl, TotalLen = totalLen, TTL = ttl, Protocol = proto,
                   ip_Checksum = checksum, ip_SrcIP = ip4_of src, ip_DstIP = ip4_of dst,
                   ip_Payload = pl\<rparr>)))))))))))"

definition ParseTCPSegment :: "bytes \<Rightarrow> (parse_error, TCPSegment) res" where
  "ParseTCPSegment buf =
     (if length buf < 20 then Err (TCPTooShort (length buf))
      else rbind (slice_at buf 0 2) (\<lambda>sp. rbind (be_u16 sp) (\<lambda>sport.
           rbind (slice_at buf 2 4) (\<lambda>dp. rbind (be_u16 dp) (\<lambda>dport.
           rbind (slice_at buf 4 8) (\<lambda>sq. rbind (be_u32 sq) (\<lambda>seqn.
           rbind (slice_at buf 8 12) (\<lambda>ak. rbind (be_u32 ak) (\<lambda>ackn.
           rbind (idx buf 12) (\<lambda>b12.
           let off = drop_bit 4 b12; reserved = b12 AND 0x0F in
           rbind (idx buf 13) (\<lambda>flags.
           rbind (slice_at buf 14 16) (\<lambda>wn. rbind (be_u16 wn) (\<lambda>window.
           rbind (slice_at buf 16 18) (\<lambda>ck. rbind (be_u16 ck) (\<lambda>checksum.
           rbind (slice_at buf 18 20) (\<lambda>up. rbind (be_u16 up) (\<lambda>urg.
           let headerLen = unat off * 4 in
           if length buf < headerLen then Err (TCPHeaderTruncated off (length buf))
           else
             rbind (if 20 < headerLen then slice_at buf 20 headerLen else Ok []) (\<lambda>opts.
             rbind (slice_from buf headerLen) (\<lambda>pl.
               Ok \<lparr>SourcePort = sport, DestPort = dport, SeqNum = seqn, AckNum = ackn,
                   DataOffset = off, Reserved = reserved, Flags = flags, Window = window,
                   tcp_Checksum = checksum, UrgPointer = urg, Options = opts,
                   tcp_Payload = pl\<rparr>)))))))))))))))))))"

subsection \<open>serialize.go\<close>

definition Eth_FlushToBytes :: "EthernetFrame \<Rightarrow> ('e, bytes) res" where
  "Eth_FlushToBytes e =
     (let buf = make_bytes (14 + length (eth_Payload e)) in
      rbind (copy_at 0 6 (mac_bytes (DstMAC e)) buf) (\<lambda>buf.
      rbind (copy_at 6 12 (mac_bytes (SrcMAC e)) buf) (\<lambda>buf.
      rbind (put_u16 12 14 (EtherType e) buf) (\<lambda>buf.
        copy_at 14 (length buf) (eth_Payload e) buf))))"

text \<open>
  The IPv4 header is built with a zero checksum field, summed over \<^verbatim>\<open>headerLen\<close> bytes (an even
  number), and the complement is stored into bytes 10 and 11 before the payload is copied in.
\<close>

definition IPv4_FlushToBytes :: "IPv4Packet \<Rightarrow> ('e, bytes) res" where
  "IPv4_FlushToBytes p =
     (let headerLen = unat (IHL p) * 4;
          buf = make_bytes (headerLen + length (ip_Payload p)) in
      rbind (set_at 0 (push_bit 4 (Version p) OR IHL p) buf) (\<lambda>buf.
      rbind (set_at 1 0 buf) (\<lambda>buf.
      rbind (put_u16 2 4 (of_nat (headerLen + length (ip_Payload p))) buf) (\<lambda>buf.
      rbind (put_u16 4 6 0 buf) (\<lambda>buf.
      rbind (put_u16 6 8 0 buf) (\<lambda>buf.
      rbind (set_at 8 (TTL p) buf) (\<lambda>buf.
      rbind (set_at 9 (Protocol p) buf) (\<lambda>buf.
      rbind (put_u16 10 12 0 buf) (\<lambda>buf.
      rbind (copy_at 12 16 (ip4_bytes (ip_SrcIP p)) buf) (\<lambda>buf.
      rbind (copy_at 16 20 (ip4_bytes (ip_DstIP p)) buf) (\<lambda>buf.
      let s = add_words 0 (take headerLen buf) in
      rbind (put_u16 10 12 (complement16 s) buf) (\<lambda>buf.
        copy_at headerLen (length buf) (ip_Payload p) buf))))))))))))"

definition TCP_FlushToBytes :: "TCPSegment \<Rightarrow> ('e, bytes) res" where
  "TCP_FlushToBytes t =
     (let headerLen = unat (DataOffset t) * 4;
          buf = make_bytes (headerLen + length (tcp_Payload t)) in
      rbind (put_u16 0 2 (SourcePort t) buf) (\<lambda>buf.
      rbind (put_u16 2 4 (DestPort t) buf) (\<lambda>buf.
      rbind (put_u32 4 8 (SeqNum t) buf) (\<lambda>buf.
      rbind (put_u32 8 12 (AckNum t) buf) (\<lambda>buf.
      rbind (set_at 12 (push_bit 4 (DataOffset t) OR Reserved t) buf) (\<lambda>buf.
      rbind (set_at 13 (Flags t) buf) (\<lambda>buf.
      rbind (put_u16 14 16 (Window t) buf) (\<lambda>buf.
      rbind (put_u16 16 18 0 buf) (\<lambda>buf.
      rbind (put_u16 18 20 (UrgPointer t) buf) (\<lambda>buf.
      rbind (if 0 < length (Options t) then copy_at 20 headerLen (Options t) buf else Ok buf)
        (\<lambda>buf.
        copy_at headerLen (length buf) (tcp_Payload t) buf)))))))))))"

subsection \<open>Buffer layouts\<close>

lemma length_ip4_bytes [simp]: "length (ip4_bytes a) = 4"
  by (cases a) simp

lemma length_mac_bytes [simp]: "length (mac_bytes a) = 6"
  by (cases a) simp

lemma mac_of_mac_bytes [simp]: "mac_of (mac_bytes m) = m"
  by (cases m) (simp add: mac_of_def nthz_def)

lemma ip4_of_ip4_bytes [simp]: "ip4_of (ip4_bytes a) = a"
  by (cases a) (simp add: ip4_of_def nthz_def)

lemma ip4_bytes_inject [simp]: "ip4_bytes a = ip4_bytes b \<longleftrightarrow> a = b"
  by (cases a; cases b) auto

lemma make_bytes_split: "make_bytes (n + m) = make_bytes n @ make_bytes m"
  by (simp add: make_bytes_def replicate_add)

lemma make_bytes_20:
  "make_bytes 20 = [0, 0, 0, 0, 0, 0, 0, 0, 0, 0, 0, 0, 0, 0, 0, 0, 0, 0, 0, 0]"
  by (simp add: make_bytes_def numeral_eq_Suc)

lemma make_bytes_14: "make_bytes 14 = [0, 0, 0, 0, 0, 0, 0, 0, 0, 0, 0, 0, 0, 0]"
  by (simp add: make_bytes_def numeral_eq_Suc)

lemma make_bytes_drop [simp]: "drop n (make_bytes m) = make_bytes (m - n)"
  by (simp add: make_bytes_def)

lemma make_bytes_0 [simp]: "make_bytes 0 = []"
  by (simp add: make_bytes_def)

lemma take_drop_20:
  "take (20 + k) (x0 # x1 # x2 # x3 # x4 # x5 # x6 # x7 # x8 # x9 #
     x10 # x11 # x12 # x13 # x14 # x15 # x16 # x17 # x18 # x19 # xs) =
     x0 # x1 # x2 # x3 # x4 # x5 # x6 # x7 # x8 # x9 #
     x10 # x11 # x12 # x13 # x14 # x15 # x16 # x17 # x18 # x19 # take k xs"
  "drop (20 + k) (x0 # x1 # x2 # x3 # x4 # x5 # x6 # x7 # x8 # x9 #
     x10 # x11 # x12 # x13 # x14 # x15 # x16 # x17 # x18 # x19 # xs) =
     drop k xs"
  by (simp_all add: numeral_eq_Suc)

lemma Eth_layout:
  "Eth_FlushToBytes e =
     Ok (mac_bytes (DstMAC e) @ mac_bytes (SrcMAC e) @ u16_bytes (EtherType e) @ eth_Payload e)"
  by (cases "DstMAC e"; cases "SrcMAC e")
     (simp add: Eth_FlushToBytes_def Let_def make_bytes_split make_bytes_14 go_simps
       u16_bytes_def)

text \<open>
  The 20 fixed bytes of each header, in order: this is the reference layout (RFC 791, RFC 9293)
  the serializers are compared with.
\<close>

definition ipv4_head :: "IPv4Packet \<Rightarrow> u16 \<Rightarrow> bytes" where
  "ipv4_head p ck =
     [push_bit 4 (Version p) OR IHL p, 0]
     @ u16_bytes (of_nat (unat (IHL p) * 4 + length (ip_Payload p)))
     @ [0, 0, 0, 0, TTL p, Protocol p] @ u16_bytes ck
     @ ip4_bytes (ip_SrcIP p) @ ip4_bytes (ip_DstIP p)"

definition tcp_head :: "TCPSegment \<Rightarrow> u16 \<Rightarrow> bytes" where
  "tcp_head t ck =
     u16_bytes (SourcePort t) @ u16_bytes (DestPort t) @ u32_bytes (SeqNum t)
     @ u32_bytes (AckNum t) @ [push_bit 4 (DataOffset t) OR Reserved t, Flags t]
     @ u16_bytes (Window t) @ u16_bytes ck @ u16_bytes (UrgPointer t)"

lemma length_ipv4_head [simp]: "length (ipv4_head p ck) = 20"
  by (simp add: ipv4_head_def)

lemma length_tcp_head [simp]: "length (tcp_head t ck) = 20"
  by (simp add: tcp_head_def)

definition ipv4_checksum :: "IPv4Packet \<Rightarrow> u16" where
  "ipv4_checksum p =
     complement16 (add_words 0 (ipv4_head p 0 @ make_bytes (unat (IHL p) * 4 - 20)))"

lemma IPv4_layout:
  assumes "5 \<le> unat (IHL p)"
  shows "IPv4_FlushToBytes p =
    Ok (ipv4_head p (ipv4_checksum p) @ make_bytes (unat (IHL p) * 4 - 20) @ ip_Payload p)"
proof -
  define k where "k = unat (IHL p) * 4 - 20"
  have hl: "unat (IHL p) * 4 = 20 + k" using assms by (simp add: k_def)
  show ?thesis
    unfolding IPv4_FlushToBytes_def Let_def hl make_bytes_split make_bytes_20 ipv4_checksum_def
      ipv4_head_def
    by (cases "ip_SrcIP p"; cases "ip_DstIP p")
       (simp del: add_words.simps add: go_simps upd_conv_take_nth_drop u16_bytes_def
         take_drop_20)
qed

lemma TCP_layout:
  assumes "5 \<le> unat (DataOffset t)" "length (Options t) \<le> unat (DataOffset t) * 4 - 20"
  shows "TCP_FlushToBytes t =
    Ok (tcp_head t 0 @ Options t @ make_bytes (unat (DataOffset t) * 4 - 20 - length (Options t))
        @ tcp_Payload t)"
proof -
  define k where "k = unat (DataOffset t) * 4 - 20"
  have hl: "unat (DataOffset t) * 4 = 20 + k" using assms by (simp add: k_def)
  have "length (Options t) \<le> k" using assms(2) by (simp add: k_def)
  then show ?thesis
    unfolding TCP_FlushToBytes_def Let_def hl make_bytes_split make_bytes_20 tcp_head_def
    by (simp add: go_simps upd_conv_take_nth_drop u16_bytes_def u32_bytes_def min_def
        take_drop_20)
qed

subsection \<open>No parser panics\<close>

lemma parse_eth_total: "n \<le> length buf \<Longrightarrow> ParseEthernetFrame buf n \<noteq> Panic"
  by (auto simp: ParseEthernetFrame_def go_simps not_less min_def)

lemma parse_ip_total: "ParseIPv4Packet buf \<noteq> Panic"
  by (auto simp: ParseIPv4Packet_def go_simps not_less Let_def)

lemma parse_tcp_total: "ParseTCPSegment buf \<noteq> Panic"
  by (auto simp: ParseTCPSegment_def go_simps not_less Let_def)

lemmas parsers_total [simp] = parse_eth_total parse_ip_total parse_tcp_total

subsection \<open>Nibbles of the first header byte\<close>

lemma nibble_bits: "h < 16 \<Longrightarrow> bit h n \<Longrightarrow> n < 4" for h :: byte
  using less_mask_eq [of h 4] bit_and_iff [of h "mask 4" n] by (auto simp: bit_mask_iff)

lemma nibble_lo: "h < 16 \<Longrightarrow> (push_bit 4 v OR h) AND 0x0F = h" for h v :: byte
proof -
  assume h: "h < 16"
  have "(0x0F :: byte) = mask 4" by (simp add: mask_eq_exp_minus_1)
  moreover have "(push_bit 4 v OR h) AND mask 4 = h"
    by (rule bit_word_eqI) (auto simp: bit_simps dest: nibble_bits [OF h])
  ultimately show ?thesis by (simp only:)
qed

lemma nibble_hi: "v < 16 \<Longrightarrow> h < 16 \<Longrightarrow> drop_bit 4 (push_bit 4 v OR h) = v" for h v :: byte
  by (rule bit_word_eqI)
     (auto simp: bit_simps dest: bit_imp_le_length nibble_bits)

lemma nibble_hi_or:
  "v < 16 \<Longrightarrow> h < 16 \<Longrightarrow> drop_bit 4 (push_bit 4 v) OR drop_bit 4 h = v" for h v :: byte
  using nibble_hi [of v h] by (simp only: drop_bit_or)

subsection \<open>Parsing what was serialized\<close>

lemma Ethernet_parse_flush:
  "rbind (Eth_FlushToBytes e) (\<lambda>bs. ParseEthernetFrame bs (length bs)) = Ok e"
  by (simp add: Eth_layout ParseEthernetFrame_def go_simps u16_bytes_def)

lemma IPv4_parse_flush:
  assumes "Version p < 16" "5 \<le> unat (IHL p)" "IHL p < 16"
    and "unat (IHL p) * 4 + length (ip_Payload p) < 65536"
  shows "rbind (IPv4_FlushToBytes p) (\<lambda>bs. ParseIPv4Packet (bs @ pad)) =
    Ok (p\<lparr>TotalLen := of_nat (unat (IHL p) * 4 + length (ip_Payload p)),
          ip_Checksum := ipv4_checksum p\<rparr>)"
proof -
  define k where "k = unat (IHL p) * 4 - 20"
  have hl: "unat (IHL p) * 4 = 20 + k" using assms by (simp add: k_def)
  have tl: "unat (of_nat (20 + k + length (ip_Payload p)) :: u16) = 20 + k + length (ip_Payload p)"
    using assms(4) unfolding hl by (simp only: unat_of_nat) simp
  obtain a b c d where src: "ip_SrcIP p = IP4 a b c d" by (cases "ip_SrcIP p")
  obtain a' b' c' d' where dst: "ip_DstIP p = IP4 a' b' c' d'" by (cases "ip_DstIP p")
  show ?thesis
    unfolding IPv4_layout [OF assms(2)] rbind.simps ParseIPv4Packet_def
    using assms(1,3)
    by (auto simp del: of_nat_add simp add: go_simps hl tl ipv4_head_def Let_def nibble_lo
        nibble_hi_or src dst u16_bytes_def ip4_of_def nthz_def take_drop_20
        intro!: IPv4Packet.equality)
qed

lemma TCP_parse_head:
  assumes "5 \<le> unat (DataOffset t)" "DataOffset t < 16" "Reserved t < 16"
    and "length (Options t) = unat (DataOffset t) * 4 - 20"
  shows "ParseTCPSegment (tcp_head t ck @ Options t @ tcp_Payload t) = Ok (t\<lparr>tcp_Checksum := ck\<rparr>)"
proof -
  define k where "k = unat (DataOffset t) * 4 - 20"
  have hl: "unat (DataOffset t) * 4 = 20 + k" "length (Options t) = k"
    using assms(1,4) by (simp_all add: k_def)
  have nil: "k = 0 \<Longrightarrow> Options t = []" using hl(2) by simp
  show ?thesis
    unfolding ParseTCPSegment_def using assms(2,3)
    by (auto simp add: go_simps hl tcp_head_def Let_def nibble_lo nibble_hi_or u16_bytes_def
        u32_bytes_def take_drop_20 wire_simps nil intro!: TCPSegment.equality)
qed

lemma TCP_parse_flush:
  assumes "5 \<le> unat (DataOffset t)" "DataOffset t < 16" "Reserved t < 16"
    and "length (Options t) = unat (DataOffset t) * 4 - 20"
  shows "rbind (TCP_FlushToBytes t) ParseTCPSegment = Ok (t\<lparr>tcp_Checksum := 0\<rparr>)"
  using assms by (simp add: TCP_layout TCP_parse_head)

subsection \<open>The header checksum\<close>

lemma ipv4_head_split:
  "ipv4_head p ck = take 10 (ipv4_head p 0) @ u16_bytes ck @ drop 12 (ipv4_head p 0)"
  by (simp add: ipv4_head_def u16_bytes_def)

lemma ipv4_header_sum:
  assumes "5 \<le> unat (IHL p)"
  shows "checksum_verifies (ipv4_head p (ipv4_checksum p) @ make_bytes (unat (IHL p) * 4 - 20))"
proof -
  let ?z = "make_bytes (unat (IHL p) * 4 - 20)"
  let ?h = "ipv4_head p 0 @ ?z"
  have len: "length ?h \<le> 1020" "even (length ?h)"
    using unat_byte_lt [of "IHL p"] assms by simp_all
  have "word_sum ?h < 2 ^ 32" using word_sum_bound [of ?h] len(1) by simp
  then have sum: "unat (add_words 0 ?h) = word_sum ?h" using len(2) by (simp add: unat_add_words)
  have "?h = take 10 (ipv4_head p 0) @ [0, 0] @ (drop 12 (ipv4_head p 0) @ ?z)"
    using ipv4_head_split [of p 0] by (simp add: u16_bytes_def)
  then have "unat (add_words 0 ?h) =
      word_sum (take 10 (ipv4_head p 0) @ [0, 0] @ (drop 12 (ipv4_head p 0) @ ?z)) + 0"
    using sum by (simp only: add_0_right)
  from checksum_inserted [OF _ this] show ?thesis
    unfolding ipv4_checksum_def [symmetric] checksum_verifies_def
    by (simp add: ipv4_head_split [of p "ipv4_checksum p"])
qed

subsection \<open>Properties\<close>

text \<open>
  No parser panics: whatever bytes arrive (and however short the frame), parsing a frame, a
  packet and a segment returns a value or an error.
\<close>

theorem parsers_never_panic:
  "ParseEthernetFrame buf (length buf) \<noteq> Panic \<and> ParseIPv4Packet buf \<noteq> Panic
    \<and> ParseTCPSegment buf \<noteq> Panic"
  by simp

text \<open>
  An IPv4 packet with a legal header, serialized and parsed again, is the same packet with its
  length and checksum filled in, and bytes after the datagram (Ethernet padding) do not reach the
  payload.
\<close>

theorem ipv4_roundtrip_ignores_padding:
  assumes "Version p < 16" "5 \<le> unat (IHL p)" "IHL p < 16"
    and "unat (IHL p) * 4 + length (ip_Payload p) < 65536"
  shows "rbind (IPv4_FlushToBytes p) (\<lambda>bs. ParseIPv4Packet (bs @ pad)) =
    Ok (p\<lparr>TotalLen := of_nat (unat (IHL p) * 4 + length (ip_Payload p)),
          ip_Checksum := ipv4_checksum p\<rparr>)"
  using assms by (rule IPv4_parse_flush)

theorem ipv4_roundtrip_ignores_padding_witness:
  "rbind (IPv4_FlushToBytes \<lparr>Version = 4, IHL = 5, TotalLen = 0, TTL = 64, Protocol = 6,
      ip_Checksum = 0, ip_SrcIP = IP4 10 0 0 1, ip_DstIP = IP4 10 0 0 2, ip_Payload = [7, 8]\<rparr>)
      (\<lambda>bs. ParseIPv4Packet (bs @ [0, 0, 0])) =
    Ok \<lparr>Version = 4, IHL = 5, TotalLen = 22, TTL = 64, Protocol = 6,
      ip_Checksum = ipv4_checksum \<lparr>Version = 4, IHL = 5, TotalLen = 0, TTL = 64, Protocol = 6,
        ip_Checksum = 0, ip_SrcIP = IP4 10 0 0 1, ip_DstIP = IP4 10 0 0 2, ip_Payload = [7, 8]\<rparr>,
      ip_SrcIP = IP4 10 0 0 1, ip_DstIP = IP4 10 0 0 2, ip_Payload = [7, 8]\<rparr>"
  using ipv4_roundtrip_ignores_padding [of "\<lparr>Version = 4, IHL = 5, TotalLen = 0, TTL = 64,
      Protocol = 6, ip_Checksum = 0, ip_SrcIP = IP4 10 0 0 1, ip_DstIP = IP4 10 0 0 2,
      ip_Payload = [7, 8]\<rparr>" "[0, 0, 0]"]
  by simp

text \<open>
  A TCP segment whose data offset matches its options, serialized and parsed again, is the same
  segment with a zero checksum field.
\<close>

theorem tcp_segment_roundtrip:
  assumes "5 \<le> unat (DataOffset t)" "DataOffset t < 16" "Reserved t < 16"
    and "length (Options t) = unat (DataOffset t) * 4 - 20"
  shows "rbind (TCP_FlushToBytes t) ParseTCPSegment = Ok (t\<lparr>tcp_Checksum := 0\<rparr>)"
  using assms by (rule TCP_parse_flush)

theorem tcp_segment_roundtrip_witness:
  "rbind (TCP_FlushToBytes \<lparr>SourcePort = 443, DestPort = 50000, SeqNum = 7, AckNum = 9,
      DataOffset = 6, Reserved = 0, Flags = 0x12, Window = 65535, tcp_Checksum = 5,
      UrgPointer = 0, Options = [2, 4, 5, 180], tcp_Payload = [1, 2, 3]\<rparr>) ParseTCPSegment =
    Ok \<lparr>SourcePort = 443, DestPort = 50000, SeqNum = 7, AckNum = 9,
      DataOffset = 6, Reserved = 0, Flags = 0x12, Window = 65535, tcp_Checksum = 0,
      UrgPointer = 0, Options = [2, 4, 5, 180], tcp_Payload = [1, 2, 3]\<rparr>"
  using tcp_segment_roundtrip [of "\<lparr>SourcePort = 443, DestPort = 50000, SeqNum = 7, AckNum = 9,
      DataOffset = 6, Reserved = 0, Flags = 0x12, Window = 65535, tcp_Checksum = 5,
      UrgPointer = 0, Options = [2, 4, 5, 180], tcp_Payload = [1, 2, 3]\<rparr>"]
  by simp

text \<open>
  The header of every serialized IPv4 packet passes the receiver's checksum: its 16-bit words,
  checksum included, sum to a positive multiple of 65535.
\<close>

theorem ipv4_header_checksum_verifies:
  assumes "5 \<le> unat (IHL p)"
  shows "\<exists>bs. IPv4_FlushToBytes p = Ok bs \<and> checksum_verifies (take (unat (IHL p) * 4) bs)"
  using assms ipv4_header_sum [of p] by (simp add: IPv4_layout)

theorem ipv4_header_checksum_verifies_witness:
  "\<exists>bs. IPv4_FlushToBytes \<lparr>Version = 4, IHL = 5, TotalLen = 0, TTL = 64, Protocol = 6,
      ip_Checksum = 0, ip_SrcIP = IP4 10 0 0 1, ip_DstIP = IP4 10 0 0 2, ip_Payload = [7]\<rparr> =
      Ok bs \<and> checksum_verifies (take 20 bs)"
  using ipv4_header_checksum_verifies [of "\<lparr>Version = 4, IHL = 5, TotalLen = 0, TTL = 64,
      Protocol = 6, ip_Checksum = 0, ip_SrcIP = IP4 10 0 0 1, ip_DstIP = IP4 10 0 0 2,
      ip_Payload = [7]\<rparr>"]
  by simp

end
