(* ===== verification/Tcp_Seq.thy ===== *)
theory Tcp_Seq
  imports Net_Prelude
begin

unbundle bit_operations_syntax

section \<open>Sequence numbers and options (tcp/seq.go, tcp/options.go)\<close>

text \<open>
  The modular comparisons of 32-bit sequence numbers, related to the unbounded positions of a
  byte stream, and the MSS option: its parser over an arbitrary options block and its builder.
\<close>

subsection \<open>seq.go\<close>

text \<open>\<^verbatim>\<open>int32(a-b)\<close>: the 32-bit difference wraps, and its signed reading is compared with 0.\<close>

definition seqLT :: "u32 \<Rightarrow> u32 \<Rightarrow> bool" where
  "seqLT a b \<longleftrightarrow> sint (a - b) < 0"

definition seqLE :: "u32 \<Rightarrow> u32 \<Rightarrow> bool" where
  "seqLE a b \<longleftrightarrow> sint (a - b) \<le> 0"

definition seqGT :: "u32 \<Rightarrow> u32 \<Rightarrow> bool" where
  "seqGT a b \<longleftrightarrow> 0 < sint (a - b)"

definition seqGE :: "u32 \<Rightarrow> u32 \<Rightarrow> bool" where
  "seqGE a b \<longleftrightarrow> 0 \<le> sint (a - b)"

lemma sint_cases:
  "sint (w :: u32) = (if uint w < 2147483648 then uint w else uint w - 4294967296)"
proof -
  have m: "uint w = sint w mod 4294967296"
    using uint_sint [of w] by (simp add: take_bit_eq_mod)
  have "- 2147483648 \<le> sint w" "sint w < 2147483648"
    using sint_ge [of w] sint_lt [of w] by simp_all
  moreover have "sint w < 0 \<Longrightarrow> sint w mod 4294967296 = sint w + 4294967296"
    using calculation mod_add_self2 [of "sint w" 4294967296]
    by (subst mod_add_self2 [symmetric], subst mod_pos_pos_trivial) auto
  ultimately show ?thesis using m by (cases "sint w < 0") auto
qed

lemma uint_lt_u32: "uint (w :: u32) < 4294967296"
  using uint_lt2p [of w] by simp

lemma sint_unat:
  "0 < sint (d :: u32) \<longleftrightarrow> 0 < unat d \<and> unat d < 2147483648"
  "0 \<le> sint d \<longleftrightarrow> unat d < 2147483648"
proof -
  obtain n where n: "uint d = int n" "unat d = n" using that by (metis uint_nat)
  then have "n < 4294967296" using uint_lt_u32 [of d] by simp
  then show "0 < sint d \<longleftrightarrow> 0 < unat d \<and> unat d < 2147483648"
    and "0 \<le> sint d \<longleftrightarrow> unat d < 2147483648"
    unfolding sint_cases n by auto
qed

lemma seqGT_unat: "seqGT a b \<longleftrightarrow> 0 < unat (a - b) \<and> unat (a - b) < 2147483648"
  unfolding seqGT_def by (rule sint_unat)

lemma seqGE_unat: "seqGE a b \<longleftrightarrow> unat (a - b) < 2147483648"
  unfolding seqGE_def by (rule sint_unat)

lemma seqLE_not_GT: "seqLE a b \<longleftrightarrow> \<not> seqGT a b"
  by (auto simp: seqGT_def seqLE_def)

lemma seqLT_not_GE: "seqLT a b \<longleftrightarrow> \<not> seqGE a b"
  by (auto simp: seqGE_def seqLT_def)

lemma seq_refl [simp]: "seqLE a a" "seqGE a a" "\<not> seqLT a a" "\<not> seqGT a a"
  by (simp_all add: seqLE_def seqGE_def seqLT_def seqGT_def)

text \<open>
  The sequence number of position \<open>x\<close> of a stream is \<open>x mod 2^32\<close>. Within a distance of less
  than \<open>2^31\<close> the difference of two sequence numbers is the difference of the positions.
\<close>

lemma unat_diff_of_nat:
  assumes "x \<le> y" "y - x < 4294967296"
  shows "unat (of_nat y - of_nat x :: u32) = y - x"
proof -
  have "(of_nat y - of_nat x :: u32) = of_nat (y - x)" using assms(1) by (simp add: of_nat_diff)
  then show ?thesis using assms(2) by (simp only: unat_of_nat) simp
qed

lemma unat_diff_of_nat_neg:
  assumes "x < y" "y - x < 4294967296"
  shows "unat (of_nat x - of_nat y :: u32) = 4294967296 - (y - x)"
proof -
  have "(of_nat x - of_nat y :: u32) = - of_nat (y - x)" using assms(1) by (simp add: of_nat_diff)
  also have "\<dots> = of_nat (4294967296 - (y - x))"
    using assms(2) by (simp add: of_nat_diff)
  finally show ?thesis using assms by (simp only: unat_of_nat) simp
qed

lemma seqGT_positions:
  assumes "x < y + 2147483648" "y < x + 2147483648"
  shows "seqGT (of_nat x) (of_nat y) \<longleftrightarrow> y < x"
  using assms
  by (cases "y \<le> x")
     (auto simp: seqGT_unat unat_diff_of_nat unat_diff_of_nat_neg not_le)

lemma seqGE_positions:
  assumes "x < y + 2147483648" "y < x + 2147483648"
  shows "seqGE (of_nat x) (of_nat y) \<longleftrightarrow> y \<le> x"
  using assms
  by (cases "y \<le> x")
     (auto simp: seqGE_unat unat_diff_of_nat unat_diff_of_nat_neg not_le)

subsection \<open>options.go\<close>

definition optEnd :: byte where "optEnd = 0"
definition optNOP :: byte where "optNOP = 1"
definition optMSS :: byte where "optMSS = 2"

text \<open>
  The loop over the options block; \<^verbatim>\<open>(0, false)\<close> is \<open>None\<close>, \<^verbatim>\<open>(v, true)\<close> is \<open>Some v\<close>. Every
  round advances the index: an unknown option by its length, which is at least 2.
\<close>

function parseMSS_loop :: "bytes \<Rightarrow> nat \<Rightarrow> (unit, u16 option) res" where
  "parseMSS_loop opts i =
     (if i < length opts then
        rbind (idx opts i) (\<lambda>k.
        if k = optEnd then Ok None
        else if k = optNOP then parseMSS_loop opts (i + 1)
        else if length opts \<le> i + 1 then Ok None
        else rbind (idx opts (i + 1)) (\<lambda>l.
          let len = unat l in
          if len < 2 \<or> length opts < i + len then Ok None
          else if k = optMSS \<and> len = 4
            then rbind (slice_at opts (i + 2) (i + 4)) (\<lambda>v. rbind (be_u16 v) (\<lambda>m. Ok (Some m)))
          else parseMSS_loop opts (i + len)))
      else Ok None)"
  by pat_completeness auto
termination
  by (relation "measure (\<lambda>(opts, i). length opts - i)") auto

declare parseMSS_loop.simps [simp del]

definition parseMSSOption :: "bytes \<Rightarrow> (unit, u16 option) res" where
  "parseMSSOption opts = parseMSS_loop opts 0"

definition buildMSSOption :: "u16 \<Rightarrow> bytes" where
  "buildMSSOption m = [optMSS, 4, ucast (drop_bit 8 m), ucast m]"

lemma length_buildMSSOption [simp]: "length (buildMSSOption m) = 4"
  by (simp add: buildMSSOption_def)

text \<open>One round of the loop, with the slice operations resolved.\<close>

lemma parseMSS_round:
  "parseMSS_loop opts i =
     (if length opts \<le> i \<or> opts ! i = optEnd then Ok None
      else if opts ! i = optNOP then parseMSS_loop opts (Suc i)
      else if length opts \<le> Suc i \<or> unat (opts ! Suc i) < 2
        \<or> length opts < i + unat (opts ! Suc i) then Ok None
      else if opts ! i = optMSS \<and> unat (opts ! Suc i) = 4
        then Ok (Some (u16_of (opts ! (i + 2)) (opts ! (i + 3))))
      else parseMSS_loop opts (i + unat (opts ! Suc i)))"
  by (subst parseMSS_loop.simps) (simp add: go_simps Let_def not_less numeral_3_eq_3)

lemma parseMSS_loop_total: "\<exists>r. parseMSS_loop opts i = Ok r"
proof (induction "length opts - i" arbitrary: i rule: less_induct)
  case less
  show ?case
    by (subst parseMSS_round) (auto simp: not_le not_less intro!: less)
qed

lemma parseMSSOption_total: "\<exists>r. parseMSSOption opts = Ok r"
  by (simp add: parseMSSOption_def parseMSS_loop_total)

subsection \<open>The options a peer may send\<close>

text \<open>
  A well-formed options block (RFC 9293, 3.1): no-operations and kind/length/data options, with
  any padding after an end-of-list byte. The reference reading takes the first MSS option.
\<close>

datatype tcp_option = NOP | Opt byte bytes

fun option_bytes :: "tcp_option \<Rightarrow> bytes" where
  "option_bytes NOP = [optNOP]"
| "option_bytes (Opt k d) = k # of_nat (length d + 2) # d"

fun option_ok :: "tcp_option \<Rightarrow> bool" where
  "option_ok NOP = True"
| "option_ok (Opt k d) = (k \<noteq> optEnd \<and> k \<noteq> optNOP \<and> length d \<le> 253)"

fun first_mss :: "tcp_option list \<Rightarrow> u16 option" where
  "first_mss [] = None"
| "first_mss (NOP # os) = first_mss os"
| "first_mss (Opt k d # os) =
     (if k = optMSS \<and> length d = 2 then Some (u16_of (d ! 0) (d ! 1)) else first_mss os)"

lemma optEnd_ne_NOP: "optNOP \<noteq> optEnd"
  by (simp add: optEnd_def optNOP_def)

lemma parseMSS_options:
  assumes "list_all option_ok os" "pad = [] \<or> hd pad = optEnd"
  shows "parseMSS_loop (pre @ concat (map option_bytes os) @ pad) (length pre)
    = Ok (first_mss os)"
  using assms(1)
proof (induction os arbitrary: pre)
  case Nil
  then show ?case using assms(2)
    by (cases pad) (simp_all add: parseMSS_round [of _ "length pre"] nth_append)
next
  case (Cons x os)
  show ?case
  proof (cases x)
    case NOP
    then show ?thesis using Cons.IH [of "pre @ [optNOP]"] Cons.prems
      by (subst parseMSS_round) (simp add: nth_append optEnd_ne_NOP)
  next
    case (Opt k d)
    let ?rest = "concat (map option_bytes os) @ pad"
    have k: "k \<noteq> optEnd" "k \<noteq> optNOP" and d: "length d \<le> 253" and ok: "list_all option_ok os"
      using Cons.prems Opt by simp_all
    define l :: byte where "l = of_nat (length d + 2)"
    have len: "unat l = length d + 2"
      unfolding l_def using d by (simp only: unat_of_nat) simp
    have blk: "pre @ concat (map option_bytes (x # os)) @ pad = pre @ k # l # d @ ?rest"
      by (simp del: of_nat_add add: Opt l_def)
    have IH: "parseMSS_loop (pre @ k # l # d @ ?rest) (length pre + (length d + 2))
        = Ok (first_mss os)"
      using Cons.IH [of "pre @ k # l # d"] ok by (simp add: add.assoc)
    have nths: "(pre @ k # l # d @ ?rest) ! length pre = k"
        "(pre @ k # l # d @ ?rest) ! Suc (length pre) = l"
      by (simp_all add: nth_append)
    show ?thesis
    proof (cases "length d = 2")
      case True
      then obtain d0 d1 where "d = [d0, d1]" by (auto simp: length_Suc_conv numeral_2_eq_2)
      then show ?thesis using nths len IH k unfolding blk
        by (subst parseMSS_round) (auto simp: Opt nth_append)
    next
      case False
      then show ?thesis using nths len IH k unfolding blk
        by (subst parseMSS_round) (simp add: Opt)
    qed
  qed
qed
text \<open>
  On every well-formed options block the parser returns the value of the first MSS option,
  and reports none when there is none.
\<close>

theorem parseMSSOption_first_mss:
  assumes "list_all option_ok os" "pad = [] \<or> hd pad = optEnd"
  shows "parseMSSOption (concat (map option_bytes os) @ pad) = Ok (first_mss os)"
  using parseMSS_options [OF assms, of "[]"] by (simp add: parseMSSOption_def)

theorem parseMSSOption_first_mss_witness:
  "parseMSSOption (concat (map option_bytes [NOP, Opt 3 [7], Opt 2 [0x05, 0xb4]]) @ [0, 9]) =
     Ok (Some 1460)"
  using parseMSSOption_first_mss [of "[NOP, Opt 3 [7], Opt 2 [0x05, 0xb4]]" "[0, 9]"]
  by (simp add: optEnd_def optNOP_def optMSS_def u16_of_def)

text \<open>The option the server sends is read back by its own parser.\<close>

lemma parse_buildMSSOption [simp]: "parseMSSOption (buildMSSOption m) = Ok (Some m)"
  using parseMSS_options [of "[Opt optMSS [ucast (drop_bit 8 m), ucast m]]" "[]" "[]"]
  by (simp add: parseMSSOption_def buildMSSOption_def optEnd_def optNOP_def optMSS_def)

text \<open>
  The modular comparisons agree with the order of unbounded stream positions whenever the
  positions are less than \<open>2^31\<close> apart, across any number of wrap-arounds of the 32-bit counter.
\<close>

theorem seq_comparisons_order_positions:
  assumes "x < y + 2147483648" "y < x + 2147483648"
  shows "(seqLT (of_nat x) (of_nat y) \<longleftrightarrow> x < y) \<and> (seqLE (of_nat x) (of_nat y) \<longleftrightarrow> x \<le> y)
    \<and> (seqGT (of_nat x) (of_nat y) \<longleftrightarrow> y < x) \<and> (seqGE (of_nat x) (of_nat y) \<longleftrightarrow> y \<le> x)"
  using seqGT_positions [OF assms] seqGE_positions [OF assms]
  by (auto simp: seqLE_not_GT seqLT_not_GE)

theorem seq_comparisons_order_positions_witness:
  "seqLT (of_nat 4294967290) (of_nat 4294967300) \<and> \<not> seqLE (of_nat 4294967300) (of_nat 4294967290)"
  using seq_comparisons_order_positions [of 4294967290 4294967300]
    seq_comparisons_order_positions [of 4294967300 4294967290] by simp

end
