(* ===== verification/Tcp_Send.thy ===== *)
theory Tcp_Send
  imports Packet_Model Tcp_Seq
begin

unbundle bit_operations_syntax

section \<open>Connections and the segments they put on the wire (tcp/connection.go, tcp/send.go)\<close>

text \<open>
  The state of a connection, the TCP checksum over the pseudo-header, and \<^verbatim>\<open>sendSegmentAt\<close>, which
  builds the segment, the packet and the frame. \<^verbatim>\<open>syscall.Sendto\<close> is the only effect; an emission
  is the pair of the socket address and the frame's bytes. The socket address is opaque to the
  code (it is stored and handed back), so a natural number stands for it.
\<close>

subsection \<open>The connection record\<close>

type_synonym sockaddr = nat
type_synonym emission = "sockaddr \<times> bytes"

datatype TCPState =
    CLOSED | LISTEN | SYN_SENT | SYN_RECEIVED | ESTABLISHED | FIN_WAIT_1 | FIN_WAIT_2
  | CLOSING | TIME_WAIT | CLOSE_WAIT | LAST_ACK

record sentSegment =
  ss_seqNum :: u32
  ss_data :: bytes
  ss_flags :: byte

text \<open>
  \<^verbatim>\<open>rto\<close> is a \<^verbatim>\<open>time.Duration\<close> in nanoseconds; \<^verbatim>\<open>rtoTimer\<close> is nil or a timer, of which the duration
  it was last armed with is kept. \<^verbatim>\<open>readCh\<close> is a channel of capacity 16: its queued chunks and
  whether it has been closed (\<^verbatim>\<open>readChClosed\<close>). The mutex and the back pointer to the stack carry
  no data.
\<close>

record TCPConnection =
  State :: TCPState
  LocalIP :: ip4
  LocalPort :: u16
  RemoteIP :: ip4
  RemotePort :: u16
  ISS :: u32
  SendSeqNum :: u32
  SendUnacked :: u32
  SendWindow :: u16
  WL1 :: u32
  WL2 :: u32
  RecvSeqNum :: u32
  RecvWindow :: u16
  RecvBuffer :: bytes
  MSS :: u16
  sendUnsent :: bytes
  sendQueue :: "sentSegment list"
  rto :: nat
  rtoTimer :: "nat option"
  readCh :: "bytes list"
  readChClosed :: bool
  overflow :: bytes
  localMAC :: mac
  remoteMAC :: mac
  sockaddr_of :: sockaddr

record ConnectionKey =
  key_SrcIP :: ip4
  key_SrcPort :: u16
  key_DstIP :: ip4
  key_DstPort :: u16

definition FIN :: byte where "FIN = 0x01"
definition SYN :: byte where "SYN = 0x02"
definition RST :: byte where "RST = 0x04"
definition PSH :: byte where "PSH = 0x08"
definition ACK :: byte where "ACK = 0x10"

definition DefaultWindow :: u16 where "DefaultWindow = 65535"

definition defaultMSS :: u16 where "defaultMSS = 536"
definition ourMSS :: u16 where "ourMSS = 1460"

lemmas flag_defs = FIN_def SYN_def RST_def PSH_def ACK_def

subsection \<open>The TCP checksum\<close>

text \<open>The 12-byte pseudo-header, then the segment, with a trailing odd byte as a high byte.\<close>

definition pseudo_header :: "ip4 \<Rightarrow> ip4 \<Rightarrow> bytes \<Rightarrow> bytes" where
  "pseudo_header src dst seg =
     ip4_bytes src @ ip4_bytes dst @ [0, 6] @ u16_bytes (of_nat (length seg))"

definition calculateTCPChecksum :: "ip4 \<Rightarrow> ip4 \<Rightarrow> bytes \<Rightarrow> u16" where
  "calculateTCPChecksum srcIP dstIP tcpSegment =
     (let s0 = add_words 0 (pseudo_header srcIP dstIP tcpSegment);
          s1 = add_words s0 tcpSegment;
          s2 = add_odd s1 tcpSegment in
      complement16 s2)"

subsection \<open>sendSegmentAt and sendSegment\<close>

definition sendSegmentAt ::
  "TCPConnection \<Rightarrow> byte \<Rightarrow> bytes \<Rightarrow> u32 \<Rightarrow> bytes \<Rightarrow> EthernetFrame \<Rightarrow> sockaddr \<Rightarrow> ('e, emission) res"
where
  "sendSegmentAt conn flags payload seqNum options inFrame from =
     (let dataOffset = of_nat (5 + (length options + 3) div 4) :: byte;
          seg = \<lparr>SourcePort = LocalPort conn, DestPort = RemotePort conn, SeqNum = seqNum,
                 AckNum = RecvSeqNum conn, DataOffset = dataOffset, Reserved = 0, Flags = flags,
                 Window = RecvWindow conn, tcp_Checksum = 0, UrgPointer = 0,
                 Options = options, tcp_Payload = payload\<rparr> in
      rbind (TCP_FlushToBytes seg) (\<lambda>tcpBytes.
      let checksum = calculateTCPChecksum (LocalIP conn) (RemoteIP conn) tcpBytes in
      rbind (put_u16 16 18 checksum tcpBytes) (\<lambda>tcpBytes.
      let pkt = \<lparr>Version = 4, IHL = 5, TotalLen = 0, TTL = 64, Protocol = 6, ip_Checksum = 0,
                 ip_SrcIP = LocalIP conn, ip_DstIP = RemoteIP conn, ip_Payload = tcpBytes\<rparr> in
      rbind (IPv4_FlushToBytes pkt) (\<lambda>pktBytes.
      let frame = \<lparr>DstMAC = SrcMAC inFrame, SrcMAC = DstMAC inFrame, EtherType = 0x0800,
                   eth_Payload = pktBytes\<rparr> in
      rbind (Eth_FlushToBytes frame) (\<lambda>raw. Ok (from, raw))))))"

definition sendSegment ::
  "TCPConnection \<Rightarrow> byte \<Rightarrow> bytes \<Rightarrow> EthernetFrame \<Rightarrow> sockaddr \<Rightarrow> ('e, emission) res" where
  "sendSegment conn flags payload inFrame from =
     sendSegmentAt conn flags payload (SendSeqNum conn) [] inFrame from"

subsection \<open>What sendSegmentAt builds\<close>

text \<open>
  The option blocks the code passes are empty or four bytes long; any block of whole 32-bit words
  up to 40 bytes is legal.
\<close>

definition options_aligned :: "bytes \<Rightarrow> bool" where
  "options_aligned opts \<longleftrightarrow> length opts mod 4 = 0 \<and> length opts \<le> 40"

definition out_offset :: "bytes \<Rightarrow> byte" where
  "out_offset opts = of_nat (5 + (length opts + 3) div 4)"

definition out_segment :: "TCPConnection \<Rightarrow> byte \<Rightarrow> bytes \<Rightarrow> u32 \<Rightarrow> bytes \<Rightarrow> TCPSegment" where
  "out_segment conn flags payload sq opts =
     \<lparr>SourcePort = LocalPort conn, DestPort = RemotePort conn, SeqNum = sq,
      AckNum = RecvSeqNum conn, DataOffset = out_offset opts, Reserved = 0, Flags = flags,
      Window = RecvWindow conn, tcp_Checksum = 0, UrgPointer = 0,
      Options = opts, tcp_Payload = payload\<rparr>"

definition out_checksum :: "TCPConnection \<Rightarrow> byte \<Rightarrow> bytes \<Rightarrow> u32 \<Rightarrow> bytes \<Rightarrow> u16" where
  "out_checksum conn flags payload sq opts =
     calculateTCPChecksum (LocalIP conn) (RemoteIP conn)
       (tcp_head (out_segment conn flags payload sq opts) 0 @ opts @ payload)"

definition out_tcp :: "TCPConnection \<Rightarrow> byte \<Rightarrow> bytes \<Rightarrow> u32 \<Rightarrow> bytes \<Rightarrow> bytes" where
  "out_tcp conn flags payload sq opts =
     tcp_head (out_segment conn flags payload sq opts) (out_checksum conn flags payload sq opts)
       @ opts @ payload"

definition out_packet :: "TCPConnection \<Rightarrow> byte \<Rightarrow> bytes \<Rightarrow> u32 \<Rightarrow> bytes \<Rightarrow> IPv4Packet" where
  "out_packet conn flags payload sq opts =
     \<lparr>Version = 4, IHL = 5, TotalLen = 0, TTL = 64, Protocol = 6, ip_Checksum = 0,
      ip_SrcIP = LocalIP conn, ip_DstIP = RemoteIP conn,
      ip_Payload = out_tcp conn flags payload sq opts\<rparr>"

definition out_bytes ::
  "TCPConnection \<Rightarrow> byte \<Rightarrow> bytes \<Rightarrow> u32 \<Rightarrow> bytes \<Rightarrow> EthernetFrame \<Rightarrow> bytes" where
  "out_bytes conn flags payload sq opts inFrame =
     (let p = out_packet conn flags payload sq opts in
      mac_bytes (SrcMAC inFrame) @ mac_bytes (DstMAC inFrame) @ u16_bytes 0x0800
        @ ipv4_head p (ipv4_checksum p) @ ip_Payload p)"

lemma options_aligned_Nil [simp]: "options_aligned []"
  by (simp add: options_aligned_def)

lemma options_aligned_MSS [simp]: "options_aligned (buildMSSOption m)"
  by (simp add: options_aligned_def)

lemma out_offset_bounds:
  assumes "options_aligned opts"
  shows "unat (out_offset opts) = 5 + length opts div 4" "unat (out_offset opts) \<le> 15"
    "unat (out_offset opts) * 4 - 20 = length opts"
proof -
  have d: "(length opts + 3) div 4 = length opts div 4" "length opts div 4 * 4 = length opts"
    "length opts div 4 \<le> 10"
    using assms unfolding options_aligned_def by presburger+
  show off: "unat (out_offset opts) = 5 + length opts div 4"
    unfolding out_offset_def d(1) using d(3) by (simp only: unat_of_nat) simp
  show "unat (out_offset opts) \<le> 15" "unat (out_offset opts) * 4 - 20 = length opts"
    unfolding off using d(2,3) by simp_all
qed

lemma tcp_head_put_checksum:
  "put_u16 16 18 ck (tcp_head t c @ xs) = Ok (tcp_head t ck @ xs)"
  by (simp add: tcp_head_def go_simps u16_bytes_def u32_bytes_def)

lemma out_offset_fold: "of_nat (5 + (length opts + 3) div 4) = out_offset opts"
  by (simp only: out_offset_def)

lemma sendSegmentAt_Ok [simp]:
  assumes "options_aligned opts"
  shows "sendSegmentAt conn flags payload sq opts inFrame from =
    Ok (from, out_bytes conn flags payload sq opts inFrame)"
proof -
  have tcp: "TCP_FlushToBytes (out_segment conn flags payload sq opts) =
      Ok (tcp_head (out_segment conn flags payload sq opts) 0 @ opts @ payload)"
    using out_offset_bounds [OF assms]
    by (subst TCP_layout) (simp_all add: out_segment_def)
  show ?thesis
    unfolding sendSegmentAt_def Let_def out_offset_fold
    unfolding out_segment_def [symmetric] tcp rbind.simps tcp_head_put_checksum
    by (simp add: IPv4_layout Eth_layout out_bytes_def out_packet_def out_tcp_def out_checksum_def
        Let_def)
qed

lemma sendSegment_Ok [simp]:
  "sendSegment conn flags payload inFrame from =
     Ok (from, out_bytes conn flags payload (SendSeqNum conn) [] inFrame)"
  by (simp add: sendSegment_def)

lemma length_out_tcp [simp]:
  "length (out_tcp conn flags payload sq opts) = 20 + length opts + length payload"
  by (simp add: out_tcp_def)

text \<open>Reading an emitted frame back through the three parsers.\<close>

definition parse_layers :: "bytes \<Rightarrow> (parse_error, EthernetFrame \<times> IPv4Packet \<times> TCPSegment) res"
where
  "parse_layers data =
     rbind (ParseEthernetFrame data (length data)) (\<lambda>frame.
     rbind (ParseIPv4Packet (eth_Payload frame)) (\<lambda>pkt.
     rbind (ParseTCPSegment (ip_Payload pkt)) (\<lambda>seg. Ok (frame, pkt, seg))))"

lemma parse_out_tcp:
  assumes "options_aligned opts"
  shows "ParseTCPSegment (out_tcp conn flags payload sq opts) =
    Ok ((out_segment conn flags payload sq opts)
      \<lparr>tcp_Checksum := out_checksum conn flags payload sq opts\<rparr>)"
proof -
  let ?t = "out_segment conn flags payload sq opts"
  note off = out_offset_bounds [OF assms]
  have "out_offset opts < 16" using off(2) by (simp add: word_less_nat_alt)
  then have "ParseTCPSegment (tcp_head ?t (out_checksum conn flags payload sq opts)
      @ Options ?t @ tcp_Payload ?t) = Ok (?t\<lparr>tcp_Checksum := out_checksum conn flags payload sq opts\<rparr>)"
    using off by (intro TCP_parse_head) (simp_all add: out_segment_def)
  then show ?thesis by (simp add: out_tcp_def out_segment_def)
qed

lemma parse_out_packet:
  fixes conn :: TCPConnection and flags :: byte and sq :: u32
  assumes "options_aligned opts" "length payload \<le> 65435"
  defines "p \<equiv> out_packet conn flags payload sq opts"
  shows "ParseIPv4Packet (ipv4_head p (ipv4_checksum p) @ ip_Payload p @ pad) =
    Ok (p\<lparr>TotalLen := of_nat (40 + length opts + length payload), ip_Checksum := ipv4_checksum p\<rparr>)"
proof -
  have "length opts \<le> 40" using assms(1) by (simp add: options_aligned_def)
  then have "rbind (IPv4_FlushToBytes p) (\<lambda>bs. ParseIPv4Packet (bs @ pad)) =
      Ok (p\<lparr>TotalLen := of_nat (unat (IHL p) * 4 + length (ip_Payload p)),
          ip_Checksum := ipv4_checksum p\<rparr>)"
    using assms(2) by (intro IPv4_parse_flush) (simp_all add: p_def out_packet_def)
  then show ?thesis by (simp add: IPv4_layout p_def out_packet_def add.assoc)
qed

lemma parse_layers_out_bytes:
  assumes "options_aligned opts" "length payload \<le> 65435"
  shows "\<exists>frame pkt seg. parse_layers (out_bytes conn flags payload sq opts inFrame @ pad) =
      Ok (frame, pkt, seg)
    \<and> DstMAC frame = SrcMAC inFrame \<and> SrcMAC frame = DstMAC inFrame \<and> EtherType frame = 0x0800
    \<and> Protocol pkt = 6 \<and> ip_SrcIP pkt = LocalIP conn \<and> ip_DstIP pkt = RemoteIP conn
    \<and> seg = (out_segment conn flags payload sq opts)
        \<lparr>tcp_Checksum := out_checksum conn flags payload sq opts\<rparr>"
proof -
  let ?p = "out_packet conn flags payload sq opts"
  let ?h = "ipv4_head ?p (ipv4_checksum ?p)"
  let ?f = "\<lparr>DstMAC = SrcMAC inFrame, SrcMAC = DstMAC inFrame, EtherType = 0x0800,
      eth_Payload = ?h @ ip_Payload ?p @ pad\<rparr>"
  have "ParseEthernetFrame (out_bytes conn flags payload sq opts inFrame @ pad)
      (length (out_bytes conn flags payload sq opts inFrame @ pad)) = Ok ?f"
    using Ethernet_parse_flush [of ?f] by (simp add: Eth_layout out_bytes_def Let_def)
  then show ?thesis
    using parse_out_packet [OF assms, of conn flags sq pad] parse_out_tcp [OF assms(1)]
    by (simp add: parse_layers_def) (simp add: out_packet_def)
qed

text \<open>The checksum the peer computes over the pseudo-header and the segment.\<close>

lemma out_checksum_verifies:
  assumes "options_aligned opts" "length payload \<le> 65435"
  shows "checksum_verifies
    (pseudo_header (LocalIP conn) (RemoteIP conn) (out_tcp conn flags payload sq opts)
      @ out_tcp conn flags payload sq opts)"
proof -
  let ?t = "out_segment conn flags payload sq opts"
  let ?z = "tcp_head ?t 0 @ opts @ payload"
  let ?ph = "pseudo_header (LocalIP conn) (RemoteIP conn) ?z"
  have lo: "length opts \<le> 40" using assms(1) by (simp add: options_aligned_def)
  have ph: "length ?ph = 12" by (simp add: pseudo_header_def)
  have b1: "word_sum ?ph \<le> 65535 * 6" using word_sum_bound [of ?ph] ph by simp
  have lz: "length ?z \<le> 65495" using assms(2) lo by simp
  then have "word_sum ?z \<le> 65535 * 32748" using word_sum_bound [of ?z] by linarith
  then have b: "word_sum ?ph + word_sum ?z < 2 ^ 32" using b1 by simp
  define s where "s = add_odd (add_words (add_words 0 ?ph) ?z) ?z"
  have s1: "unat (add_words 0 ?ph) = word_sum ?ph" using ph b by (simp add: unat_add_words)
  then have "unat s = word_sum ?z + word_sum ?ph"
    using b unfolding s_def by (subst unat_add_words_odd) simp_all
  moreover obtain A B where AB: "\<And>c. tcp_head ?t c = A @ u16_bytes c @ B" "length A = 16"
  proof
    show "tcp_head ?t c = take 16 (tcp_head ?t 0) @ u16_bytes c @ drop 18 (tcp_head ?t 0)" for c
      by (simp add: tcp_head_def u16_bytes_def u32_bytes_def)
  qed simp
  ultimately have "unat s = word_sum (A @ [0, 0] @ (B @ opts @ payload)) + word_sum ?ph"
    by (simp add: u16_bytes_def)
  from checksum_inserted [OF _ this] have "checksum_verifies (?ph @ tcp_head ?t (complement16 s)
      @ opts @ payload)"
    using ph AB by (simp add: word_sum_append checksum_verifies_def add.commute)
  moreover have "complement16 s = out_checksum conn flags payload sq opts"
    by (simp add: s_def out_checksum_def calculateTCPChecksum_def Let_def)
  moreover have "pseudo_header (LocalIP conn) (RemoteIP conn) (out_tcp conn flags payload sq opts) = ?ph"
    by (simp add: pseudo_header_def)
  ultimately show ?thesis by (simp add: out_tcp_def)
qed

subsection \<open>Properties\<close>

text \<open>A connection as \<^verbatim>\<open>handleSYN\<close> creates it, for the witnesses.\<close>

definition sample_conn :: TCPConnection where
  "sample_conn = \<lparr>State = SYN_RECEIVED, LocalIP = IP4 172 17 0 2, LocalPort = 443,
     RemoteIP = IP4 172 17 0 3, RemotePort = 50000, ISS = 1000, SendSeqNum = 1001,
     SendUnacked = 1000, SendWindow = 64240, WL1 = 5000, WL2 = 0, RecvSeqNum = 5001,
     RecvWindow = DefaultWindow, RecvBuffer = [], MSS = 1460, sendUnsent = [], sendQueue = [],
     rto = 0, rtoTimer = None, readCh = [], readChClosed = False, overflow = [],
     localMAC = MAC 2 66 172 17 0 2, remoteMAC = MAC 2 66 172 17 0 3, sockaddr_of = 7\<rparr>"

text \<open>
  Every segment sent is a well-formed frame. Read back through the server's own parsers, even
  with Ethernet padding behind it, it is addressed to the sender of the incoming frame, carries
  the connection's addresses and ports, and its flags, sequence number, acknowledgment, options
  and payload are exactly the arguments of the call.
\<close>

theorem sent_segment_parses_back:
  assumes "options_aligned opts" "length payload \<le> 65435"
  shows "\<exists>raw frame pkt seg.
    sendSegmentAt conn flags payload sq opts inFrame from = Ok (from, raw)
    \<and> parse_layers (raw @ pad) = Ok (frame, pkt, seg)
    \<and> DstMAC frame = SrcMAC inFrame \<and> SrcMAC frame = DstMAC inFrame \<and> EtherType frame = 0x0800
    \<and> Protocol pkt = 6 \<and> ip_SrcIP pkt = LocalIP conn \<and> ip_DstIP pkt = RemoteIP conn
    \<and> SourcePort seg = LocalPort conn \<and> DestPort seg = RemotePort conn
    \<and> SeqNum seg = sq \<and> AckNum seg = RecvSeqNum conn \<and> Flags seg = flags
    \<and> Window seg = RecvWindow conn \<and> Options seg = opts \<and> tcp_Payload seg = payload"
proof -
  obtain frame pkt seg where "parse_layers (out_bytes conn flags payload sq opts inFrame @ pad) =
      Ok (frame, pkt, seg)"
    and "DstMAC frame = SrcMAC inFrame \<and> SrcMAC frame = DstMAC inFrame \<and> EtherType frame = 0x0800
      \<and> Protocol pkt = 6 \<and> ip_SrcIP pkt = LocalIP conn \<and> ip_DstIP pkt = RemoteIP conn"
    and "seg = (out_segment conn flags payload sq opts)
      \<lparr>tcp_Checksum := out_checksum conn flags payload sq opts\<rparr>"
    using parse_layers_out_bytes [OF assms] by blast
  then show ?thesis
    using assms(1) by (simp add: out_segment_def)
qed

theorem sent_segment_parses_back_witness:
  "\<exists>raw frame pkt seg.
    sendSegmentAt sample_conn (SYN OR ACK) [] 1000 (buildMSSOption ourMSS)
      \<lparr>DstMAC = MAC 1 1 1 1 1 1, SrcMAC = MAC 2 2 2 2 2 2, EtherType = 0x0800, eth_Payload = []\<rparr> 7
      = Ok (7, raw)
    \<and> parse_layers (raw @ [0, 0]) = Ok (frame, pkt, seg)
    \<and> DstMAC frame = MAC 2 2 2 2 2 2 \<and> DestPort seg = 50000 \<and> AckNum seg = 5001
    \<and> Options seg = buildMSSOption ourMSS"
  using sent_segment_parses_back [of "buildMSSOption ourMSS" "[]" sample_conn "SYN OR ACK" 1000
    "\<lparr>DstMAC = MAC 1 1 1 1 1 1, SrcMAC = MAC 2 2 2 2 2 2, EtherType = 0x0800, eth_Payload = []\<rparr>"
    7 "[0, 0]"]
  by (auto simp: sample_conn_def)

text \<open>
  The checksum of every segment sent verifies at the receiver: the one's-complement sum of
  the pseudo-header (built from the addresses in the packet) and the TCP bytes is all ones.
\<close>

theorem sent_segment_checksum_verifies:
  assumes "options_aligned opts" "length payload \<le> 65435"
  shows "\<exists>raw frame pkt seg.
    sendSegmentAt conn flags payload sq opts inFrame from = Ok (from, raw)
    \<and> parse_layers raw = Ok (frame, pkt, seg)
    \<and> checksum_verifies
        (pseudo_header (ip_SrcIP pkt) (ip_DstIP pkt) (ip_Payload pkt) @ ip_Payload pkt)"
proof -
  let ?raw = "out_bytes conn flags payload sq opts inFrame"
  obtain frame pkt seg where layers: "parse_layers ?raw = Ok (frame, pkt, seg)"
    using parse_layers_out_bytes [OF assms, of conn flags sq inFrame "[]"] by auto
  then have "ParseEthernetFrame ?raw (length ?raw) = Ok frame"
    and p: "ParseIPv4Packet (eth_Payload frame) = Ok pkt"
    by (auto simp: parse_layers_def rbind_eqs)
  then have "eth_Payload frame = drop 14 ?raw"
    by (auto simp: ParseEthernetFrame_def rbind_eqs slice_at_def split: if_splits)
  then have "pkt = (out_packet conn flags payload sq opts)
      \<lparr>TotalLen := of_nat (40 + length opts + length payload),
       ip_Checksum := ipv4_checksum (out_packet conn flags payload sq opts)\<rparr>"
    using p parse_out_packet [OF assms(1,2), of conn flags sq "[]"]
    by (simp add: out_bytes_def Let_def)
  then show ?thesis
    using layers assms(1) out_checksum_verifies [OF assms] by (simp add: out_packet_def)
qed

theorem sent_segment_checksum_verifies_witness:
  "\<exists>raw frame pkt seg.
    sendSegmentAt sample_conn ACK [1, 2, 3] 1001 []
      \<lparr>DstMAC = MAC 1 1 1 1 1 1, SrcMAC = MAC 2 2 2 2 2 2, EtherType = 0x0800, eth_Payload = []\<rparr> 7
      = Ok (7, raw)
    \<and> parse_layers raw = Ok (frame, pkt, seg)
    \<and> checksum_verifies
        (pseudo_header (ip_SrcIP pkt) (ip_DstIP pkt) (ip_Payload pkt) @ ip_Payload pkt)"
  by (rule sent_segment_checksum_verifies) simp_all

end
