(* ===== verification/Tcp_Conn.thy ===== *)
theory Tcp_Conn
  imports Tcp_Send
begin

unbundle bit_operations_syntax

section \<open>Connection operations (tcp/connection.go)\<close>

text \<open>
  The operations of one connection: the application's \<^verbatim>\<open>Read\<close>, \<^verbatim>\<open>Write\<close> and \<^verbatim>\<open>Close\<close>, the send
  pump, and the retransmission timer. Each runs atomically; an operation that sends returns the
  emissions in order.
\<close>

subsection \<open>Read\<close>

text \<open>
  \<^verbatim>\<open>Read(buf)\<close> with a buffer of \<open>n\<close> bytes: leftover bytes first, otherwise one chunk from the
  channel. It blocks on an open empty channel and returns EOF on a closed empty one.
\<close>

datatype read_result = ReadData bytes | ReadEOF | ReadBlocks

definition conn_Read :: "nat \<Rightarrow> TCPConnection \<Rightarrow> read_result \<times> TCPConnection" where
  "conn_Read n c =
     (if 0 < length (overflow c) then
        (ReadData (take n (overflow c)), c\<lparr>overflow := drop n (overflow c)\<rparr>)
      else (case readCh c of
          [] \<Rightarrow> (if readChClosed c then (ReadEOF, c) else (ReadBlocks, c))
        | data # rest \<Rightarrow>
            let c1 = c\<lparr>readCh := rest\<rparr>; k = min n (length data) in
            (ReadData (take k data),
             if k < length data then c1\<lparr>overflow := drop k data\<rparr> else c1)))"

subsection \<open>The retransmission timer\<close>

definition initialRTO :: nat where "initialRTO = 1000000000"
definition maxRTO :: nat where "maxRTO = 60 * 1000000000"

definition startRTOIfIdleLocked :: "TCPConnection \<Rightarrow> TCPConnection" where
  "startRTOIfIdleLocked c =
     (if rtoTimer c \<noteq> None then c
      else let c1 = (if rto c = 0 then c\<lparr>rto := initialRTO\<rparr> else c) in
        c1\<lparr>rtoTimer := Some (rto c1)\<rparr>)"

definition restartRTOLocked :: "TCPConnection \<Rightarrow> TCPConnection" where
  "restartRTOLocked c =
     (let c1 = (if rto c = 0 then c\<lparr>rto := initialRTO\<rparr> else c) in
      if rtoTimer c1 = None then c1\<lparr>rtoTimer := Some (rto c1)\<rparr>
      else c1\<lparr>rtoTimer := Some (rto c1)\<rparr>)"

definition stopRTOLocked :: "TCPConnection \<Rightarrow> TCPConnection" where
  "stopRTOLocked c =
     (let c1 = (if rtoTimer c \<noteq> None then c\<lparr>rtoTimer := None\<rparr> else c) in
      c1\<lparr>rto := initialRTO\<rparr>)"

text \<open>The frame built from the stored addresses, for sends that answer no incoming frame.\<close>

definition conn_frame :: "TCPConnection \<Rightarrow> EthernetFrame" where
  "conn_frame c = \<lparr>DstMAC = localMAC c, SrcMAC = remoteMAC c, EtherType = 0, eth_Payload = []\<rparr>"

text \<open>
  \<^verbatim>\<open>onRTO\<close>: back off, retransmit the head of the queue with its original sequence number, rearm.
  Resetting a nil timer would be a nil dereference.
\<close>

definition onRTO :: "TCPConnection \<Rightarrow> (unit, TCPConnection \<times> emission list) res" where
  "onRTO c =
     (case sendQueue c of
        [] \<Rightarrow> Ok (c, [])
      | head # _ \<Rightarrow>
          let r = rto c * 2;
              c1 = c\<lparr>rto := (if maxRTO < r then maxRTO else r)\<rparr> in
          rbind (sendSegmentAt c1 (ss_flags head) (ss_data head) (ss_seqNum head) []
              (conn_frame c1) (sockaddr_of c1)) (\<lambda>e.
          case rtoTimer c1 of
            None \<Rightarrow> Panic
          | Some _ \<Rightarrow> Ok (c1\<lparr>rtoTimer := Some (rto c1)\<rparr>, [e])))"

subsection \<open>Closing the read channel\<close>

definition closeReadChLocked :: "TCPConnection \<Rightarrow> TCPConnection" where
  "closeReadChLocked c = (if readChClosed c then c else c\<lparr>readChClosed := True\<rparr>)"

subsection \<open>Write and the send pump\<close>

text \<open>
  One round of the pump loop takes the size of the next chunk: nothing when the peer's window is
  full, else the smallest of the MSS, the room in the window and what is buffered. The in-flight
  count is a 32-bit difference, as in the code.
\<close>

definition pump_chunk :: "nat \<Rightarrow> TCPConnection \<Rightarrow> nat" where
  "pump_chunk mss c =
     (let inFlight = SendSeqNum c - SendUnacked c in
      if ucast (SendWindow c) \<le> inFlight then 0
      else
        let avail = (ucast (SendWindow c) :: u32) - inFlight;
            chunk1 = (if avail < of_nat mss then unat avail else mss) in
        if length (sendUnsent c) < chunk1 then length (sendUnsent c) else chunk1)"

lemma pump_chunk_le: "pump_chunk mss c \<le> length (sendUnsent c)"
  by (simp add: pump_chunk_def Let_def)

function pump_loop ::
  "nat \<Rightarrow> TCPConnection \<Rightarrow> bool \<Rightarrow> emission list
    \<Rightarrow> (unit, TCPConnection \<times> bool \<times> emission list) res" where
  "pump_loop mss c sentAny out =
     (if 0 < length (sendUnsent c) \<and> 0 < pump_chunk mss c then
        let n = pump_chunk mss c;
            chunk = take n (sendUnsent c);
            c1 = c\<lparr>sendUnsent := drop n (sendUnsent c)\<rparr>;
            flags = (if length (sendUnsent c1) = 0 then ACK OR PSH else ACK);
            seqNum = SendSeqNum c1;
            c2 = c1\<lparr>sendQueue := sendQueue c1 @
                   [\<lparr>ss_seqNum = seqNum, ss_data = chunk, ss_flags = flags\<rparr>]\<rparr> in
        rbind (sendSegmentAt c2 flags chunk seqNum [] (conn_frame c2) (sockaddr_of c2)) (\<lambda>e.
        pump_loop mss (c2\<lparr>SendSeqNum := SendSeqNum c2 + of_nat n\<rparr>) True (out @ [e]))
      else Ok (c, sentAny, out))"
  by pat_completeness auto
termination
  by (relation "measure (\<lambda>(mss, c, sentAny, out). length (sendUnsent c))") (auto simp: Let_def)

declare pump_loop.simps [simp del]

definition pumpSendLocked :: "TCPConnection \<Rightarrow> (unit, TCPConnection \<times> emission list) res" where
  "pumpSendLocked c =
     (let mss0 = unat (MSS c);
          mss = (if mss0 = 0 then unat defaultMSS else mss0) in
      rbind (pump_loop mss c False []) (\<lambda>(c, sentAny, out).
      Ok (if sentAny then startRTOIfIdleLocked c else c, out)))"

definition conn_Write :: "bytes \<Rightarrow> TCPConnection \<Rightarrow> (unit, nat \<times> TCPConnection \<times> emission list) res"
where
  "conn_Write data c =
     rbind (pumpSendLocked (c\<lparr>sendUnsent := sendUnsent c @ data\<rparr>)) (\<lambda>(c, out).
     Ok (length data, c, out))"

subsection \<open>Close\<close>

text \<open>The FIN is sent and counted in every state; only two states move.\<close>

definition conn_Close :: "TCPConnection \<Rightarrow> (unit, TCPConnection \<times> emission list) res" where
  "conn_Close c =
     rbind (sendSegment c (FIN OR ACK) [] (conn_frame c) (sockaddr_of c)) (\<lambda>e.
     let c1 = c\<lparr>SendSeqNum := SendSeqNum c + 1\<rparr> in
     Ok (if State c1 = ESTABLISHED then c1\<lparr>State := FIN_WAIT_1\<rparr>
         else if State c1 = CLOSE_WAIT then c1\<lparr>State := LAST_ACK\<rparr> else c1, [e]))"

subsection \<open>The pump, specified\<close>

text \<open>The room left in the peer's window, over the naturals.\<close>

definition in_flight :: "TCPConnection \<Rightarrow> nat" where
  "in_flight c = unat (SendSeqNum c - SendUnacked c)"

definition window_room :: "TCPConnection \<Rightarrow> nat" where
  "window_room c = unat (SendWindow c) - in_flight c"

definition pump_mss :: "TCPConnection \<Rightarrow> nat" where
  "pump_mss c = (if unat (MSS c) = 0 then unat defaultMSS else unat (MSS c))"

text \<open>How much one pump may send: what fits the window, of what is buffered.\<close>

definition pump_amount :: "TCPConnection \<Rightarrow> nat" where
  "pump_amount c = min (window_room c) (length (sendUnsent c))"

text \<open>
  The reference segmentation of a run of bytes: pieces of at most \<open>mss\<close> bytes with consecutive
  sequence numbers; the last carries PSH unless more bytes stay buffered behind it.
\<close>

function segs_of :: "nat \<Rightarrow> u32 \<Rightarrow> bool \<Rightarrow> bytes \<Rightarrow> sentSegment list" where
  "segs_of mss sq kept xs =
     (if mss = 0 \<or> xs = [] then []
      else \<lparr>ss_seqNum = sq, ss_data = take mss xs,
            ss_flags = (if length xs \<le> mss \<and> \<not> kept then ACK OR PSH else ACK)\<rparr>
           # segs_of mss (sq + of_nat (min mss (length xs))) kept (drop mss xs))"
  by pat_completeness auto
termination
  by (relation "measure (\<lambda>(mss, sq, kept, xs). length xs)") auto

declare segs_of.simps [simp del]

lemma segs_of_Nil [simp]: "segs_of mss sq kept [] = []"
  by (subst segs_of.simps) simp

fun seg_chain :: "u32 \<Rightarrow> sentSegment list \<Rightarrow> u32 \<Rightarrow> bool" where
  "seg_chain a [] b = (a = b)"
| "seg_chain a (s # ss) b = (ss_seqNum s = a \<and> seg_chain (a + of_nat (length (ss_data s))) ss b)"

definition queue_bytes :: "sentSegment list \<Rightarrow> bytes" where
  "queue_bytes q = concat (map ss_data q)"

lemma queue_bytes_append [simp]: "queue_bytes (p @ q) = queue_bytes p @ queue_bytes q"
  by (simp add: queue_bytes_def)

lemma queue_bytes_simps [simp]:
  "queue_bytes [] = []" "queue_bytes (s # q) = ss_data s @ queue_bytes q"
  by (simp_all add: queue_bytes_def)

lemma segs_of_bytes: "0 < mss \<Longrightarrow> queue_bytes (segs_of mss sq kept xs) = xs"
proof (induction mss sq kept xs rule: segs_of.induct)
  case (1 mss sq kept xs)
  then show ?case by (cases "xs = []") (simp_all add: segs_of.simps [of mss sq kept xs])
qed

lemma segs_of_sizes:
  "s \<in> set (segs_of mss sq kept xs) \<Longrightarrow> 0 < length (ss_data s) \<and> length (ss_data s) \<le> mss"
proof (induction mss sq kept xs rule: segs_of.induct)
  case (1 mss sq kept xs)
  then show ?case
    by (cases "mss = 0 \<or> xs = []") (auto simp: segs_of.simps [of mss sq kept xs])
qed

lemma segs_of_chain:
  "0 < mss \<Longrightarrow> seg_chain sq (segs_of mss sq kept xs) (sq + of_nat (length xs))"
proof (induction mss sq kept xs rule: segs_of.induct)
  case (1 mss sq kept xs)
  show ?case
  proof (cases "xs = []")
    case False
    have "sq + of_nat (min mss (length xs)) + of_nat (length xs - mss) = sq + (of_nat (length xs) :: u32)"
      by (cases "mss \<le> length xs") (simp_all add: add.assoc of_nat_diff)
    with False 1 show ?thesis
      by (simp add: segs_of.simps [of mss sq kept xs] min.commute del: of_nat_add)
  qed simp
qed

lemma seg_chain_append:
  "seg_chain a p m \<Longrightarrow> seg_chain m q b \<Longrightarrow> seg_chain a (p @ q) b"
  by (induction p arbitrary: a) auto

lemma in_flight_add:
  assumes "in_flight c + n < 4294967296"
  shows "in_flight (c\<lparr>SendSeqNum := SendSeqNum c + of_nat n\<rparr>) = in_flight c + n"
proof -
  have "SendSeqNum c + of_nat n - SendUnacked c = SendSeqNum c - SendUnacked c + of_nat n" by simp
  moreover have "unat (of_nat n :: u32) = n" using assms by (simp only: unat_of_nat) simp
  moreover have "unat (SendSeqNum c - SendUnacked c + of_nat n) =
      (unat (SendSeqNum c - SendUnacked c) + unat (of_nat n :: u32)) mod 4294967296"
    by (simp only: unat_word_ariths) simp
  ultimately have "unat (SendSeqNum c + of_nat n - SendUnacked c) = unat (SendSeqNum c - SendUnacked c) + n"
    using assms by (simp only: in_flight_def mod_less)
  then show ?thesis by (simp add: in_flight_def)
qed

lemma pump_chunk_eq:
  assumes "mss \<le> 65535"
  shows "pump_chunk mss c = min mss (pump_amount c)"
proof -
  let ?inf = "SendSeqNum c - SendUnacked c"
  have w: "unat (ucast (SendWindow c) :: u32) = unat (SendWindow c)" by simp
  have m: "unat (of_nat mss :: u32) = mss" using assms by (simp only: unat_of_nat) simp
  show ?thesis
  proof (cases "ucast (SendWindow c) \<le> ?inf")
    case True
    then have "window_room c = 0"
      by (simp add: word_le_nat_alt window_room_def in_flight_def)
    with True show ?thesis by (simp add: pump_chunk_def pump_amount_def)
  next
    case False
    then have "unat ((ucast (SendWindow c) :: u32) - ?inf) = window_room c"
      by (simp add: unat_sub window_room_def in_flight_def)
    with False m show ?thesis
      by (simp add: pump_chunk_def pump_amount_def Let_def word_less_nat_alt min_def)
  qed
qed

text \<open>
  The loop is the reference segmentation: it sends exactly the amount the window allows, cut into
  segments, and touches nothing else.
\<close>

definition seg_emission :: "TCPConnection \<Rightarrow> sentSegment \<Rightarrow> emission" where
  "seg_emission c s =
     (sockaddr_of c, out_bytes c (ss_flags s) (ss_data s) (ss_seqNum s) [] (conn_frame c))"

definition pump_segs :: "nat \<Rightarrow> TCPConnection \<Rightarrow> sentSegment list" where
  "pump_segs mss c = segs_of mss (SendSeqNum c)
       (pump_amount c < length (sendUnsent c)) (take (pump_amount c) (sendUnsent c))"

lemma pump_loop_spec:
  assumes "0 < mss" "mss \<le> 65535"
  shows "pump_loop mss c b out = Ok (c\<lparr>sendUnsent := drop (pump_amount c) (sendUnsent c),
      sendQueue := sendQueue c @ pump_segs mss c,
      SendSeqNum := SendSeqNum c + of_nat (pump_amount c)\<rparr>,
    b \<or> 0 < pump_amount c, out @ map (seg_emission c) (pump_segs mss c))"
  using assms
proof (induction "length (sendUnsent c)" arbitrary: c b out rule: less_induct)
  case (less c)
  let ?n = "pump_chunk mss c" and ?a = "pump_amount c"
  have n: "?n = min mss ?a" using less.prems(2) by (rule pump_chunk_eq)
  show ?case
  proof (cases "?a = 0")
    case True
    then show ?thesis using n by (simp add: pump_loop.simps [of mss c] pump_segs_def)
  next
    case False
    then have n0: "0 < ?n" "sendUnsent c \<noteq> []" "?n \<le> ?a" "?a \<le> length (sendUnsent c)"
      using n less.prems by (auto simp: pump_amount_def)
    define seg where "seg = \<lparr>ss_seqNum = SendSeqNum c, ss_data = take ?n (sendUnsent c),
      ss_flags = (if length (sendUnsent c) \<le> ?n then ACK OR PSH else ACK)\<rparr>"
    define c' where "c' = c\<lparr>sendUnsent := drop ?n (sendUnsent c), sendQueue := sendQueue c @ [seg],
      SendSeqNum := SendSeqNum c + of_nat ?n\<rparr>"
    have "in_flight c + ?a \<le> unat (SendWindow c)"
      using False by (auto simp: pump_amount_def window_room_def)
    moreover have "in_flight c' = in_flight (c\<lparr>SendSeqNum := SendSeqNum c + of_nat ?n\<rparr>)"
      by (simp add: in_flight_def c'_def)
    ultimately have infl: "in_flight c' = in_flight c + ?n"
      using n0(3) unat_u16_lt [of "SendWindow c"] by (simp add: in_flight_add)
    have a': "pump_amount c' = ?a - ?n"
      using n0 by (simp add: pump_amount_def window_room_def infl) (simp add: c'_def)
    have emis: "seg_emission c' = seg_emission c"
      by (intro ext, simp add: seg_emission_def c'_def conn_frame_def out_bytes_def
          out_packet_def out_tcp_def out_checksum_def out_segment_def)
    have loop: "pump_loop mss c b out = pump_loop mss c' True (out @ [seg_emission c' seg])"
      using n0 by (subst pump_loop.simps) (simp add: Let_def seg_def c'_def seg_emission_def
          conn_frame_def out_bytes_def out_packet_def out_tcp_def out_checksum_def out_segment_def)
    let ?u = "sendUnsent c"
    have "take mss (take ?a ?u) = take ?n ?u" "length (take ?a ?u) = ?a" "min mss ?a = ?n"
      using n n0 by (simp_all add: min.commute)
    moreover have "drop mss (take ?a ?u) = take (?a - ?n) (drop ?n ?u)"
      using n n0 by (cases "mss \<le> ?a") (simp_all add: drop_take)
    moreover have "(?a \<le> mss \<and> \<not> ?a < length ?u) = (length ?u \<le> ?n)"
      using n n0 by linarith
    moreover have "take ?a ?u \<noteq> []" "mss \<noteq> 0" using False n0 less.prems(1) by simp_all
    ultimately have "pump_segs mss c =
        seg # segs_of mss (SendSeqNum c + of_nat ?n) (?a < length ?u) (take (?a - ?n) (drop ?n ?u))"
      unfolding pump_segs_def seg_def
      by (subst segs_of.simps) (simp only: simp_thms if_False)
    moreover have "(?a - ?n < length ?u - ?n) = (?a < length ?u)" using n0 by linarith
    ultimately have segs: "pump_segs mss c = seg # pump_segs mss c'"
      unfolding pump_segs_def a' by (simp add: c'_def)
    have "pump_loop mss c' True (out @ [seg_emission c' seg]) =
        Ok (c'\<lparr>sendUnsent := drop (pump_amount c') (sendUnsent c'),
          sendQueue := sendQueue c' @ pump_segs mss c',
          SendSeqNum := SendSeqNum c' + of_nat (pump_amount c')\<rparr>,
        True, (out @ [seg_emission c' seg]) @ map (seg_emission c') (pump_segs mss c'))"
      using less.hyps [of c'] less.prems n0 by (simp add: c'_def)
    moreover have "SendSeqNum c' + of_nat (pump_amount c') = SendSeqNum c + of_nat ?a"
      using n0(3) unfolding a' by (simp add: c'_def of_nat_diff)
    moreover have "drop (pump_amount c') (sendUnsent c') = drop ?a (sendUnsent c)"
      using n0(3) unfolding a' by (simp add: c'_def)
    ultimately show ?thesis
      using False unfolding loop segs emis by (simp add: c'_def)
  qed
qed

definition after_pump :: "TCPConnection \<Rightarrow> TCPConnection" where
  "after_pump c = c\<lparr>sendUnsent := drop (pump_amount c) (sendUnsent c),
     sendQueue := sendQueue c @ pump_segs (pump_mss c) c,
     SendSeqNum := SendSeqNum c + of_nat (pump_amount c)\<rparr>"

lemma pump_mss_bounds: "0 < pump_mss c" "pump_mss c \<le> 65535"
  using unat_u16_lt [of "MSS c"] by (auto simp: pump_mss_def defaultMSS_def)

lemma pumpSendLocked_spec:
  "pumpSendLocked c = Ok
     (if 0 < pump_amount c then startRTOIfIdleLocked (after_pump c) else after_pump c,
      map (seg_emission c) (pump_segs (pump_mss c) c))"
proof -
  have "pumpSendLocked c = rbind (pump_loop (pump_mss c) c False [])
      (\<lambda>(c, sentAny, out). Ok (if sentAny then startRTOIfIdleLocked c else c, out))"
    by (simp add: pumpSendLocked_def pump_mss_def Let_def)
  then show ?thesis
    by (simp add: pump_loop_spec [OF pump_mss_bounds] after_pump_def)
qed

lemma timer_frame [simp]:
  "sendQueue (startRTOIfIdleLocked c) = sendQueue c"
  "sendUnsent (startRTOIfIdleLocked c) = sendUnsent c"
  "SendSeqNum (startRTOIfIdleLocked c) = SendSeqNum c"
  "SendUnacked (startRTOIfIdleLocked c) = SendUnacked c"
  "SendWindow (startRTOIfIdleLocked c) = SendWindow c"
  "sendQueue (restartRTOLocked c) = sendQueue c"
  "sendUnsent (restartRTOLocked c) = sendUnsent c"
  "SendSeqNum (restartRTOLocked c) = SendSeqNum c"
  "SendUnacked (restartRTOLocked c) = SendUnacked c"
  "SendWindow (restartRTOLocked c) = SendWindow c"
  "sendQueue (stopRTOLocked c) = sendQueue c"
  "sendUnsent (stopRTOLocked c) = sendUnsent c"
  "SendSeqNum (stopRTOLocked c) = SendSeqNum c"
  "SendUnacked (stopRTOLocked c) = SendUnacked c"
  "SendWindow (stopRTOLocked c) = SendWindow c"
  by (simp_all add: startRTOIfIdleLocked_def restartRTOLocked_def stopRTOLocked_def Let_def)

lemma pump_segs_bytes:
  "queue_bytes (pump_segs (pump_mss c) c) = take (pump_amount c) (sendUnsent c)"
  by (simp add: pump_segs_def segs_of_bytes pump_mss_bounds)

lemma pump_segs_chain:
  "seg_chain (SendSeqNum c) (pump_segs (pump_mss c) c) (SendSeqNum c + of_nat (pump_amount c))"
  using segs_of_chain [OF pump_mss_bounds(1), where xs = "take (pump_amount c) (sendUnsent c)"]
  by (simp add: pump_segs_def) (simp add: pump_amount_def)

lemma pump_segs_sizes:
  "list_all (\<lambda>s. 0 < length (ss_data s) \<and> length (ss_data s) \<le> pump_mss c)
     (pump_segs (pump_mss c) c)"
  by (auto simp: list_all_iff pump_segs_def dest: segs_of_sizes)

lemma in_flight_after_pump: "in_flight (after_pump c) = in_flight c + pump_amount c"
proof -
  have "in_flight c + pump_amount c < 4294967296"
    using unat_u16_lt [of "SendWindow c"] unsigned_less [of "SendSeqNum c - SendUnacked c", where 'a = nat]
    by (auto simp: pump_amount_def window_room_def in_flight_def min_def)
  from in_flight_add [OF this] show ?thesis by (simp add: in_flight_def after_pump_def)
qed

lemma in_flight_startRTO [simp]: "in_flight (startRTOIfIdleLocked c) = in_flight c"
  by (simp add: in_flight_def)

subsection \<open>The connection invariant\<close>

text \<open>
  What every operation keeps: data in the retransmission queue implies an armed timer, the
  timeout lies between one second and one minute once set, segments are neither empty nor longer
  than 1460 bytes, the receive buffer is empty between operations and the read channel within its
  capacity; and a connection that may still receive data has an open read channel.
\<close>

definition timer_ok :: "TCPConnection \<Rightarrow> bool" where
  "timer_ok c \<longleftrightarrow> (sendQueue c \<noteq> [] \<longrightarrow> rtoTimer c \<noteq> None)
     \<and> (rto c = 0 \<and> rtoTimer c = None \<or> initialRTO \<le> rto c \<and> rto c \<le> maxRTO)
     \<and> (\<forall>d. rtoTimer c = Some d \<longrightarrow> initialRTO \<le> d \<and> d \<le> maxRTO)"

definition queue_ok :: "TCPConnection \<Rightarrow> bool" where
  "queue_ok c \<longleftrightarrow> unat (MSS c) \<le> 1460
     \<and> list_all (\<lambda>s. 0 < length (ss_data s) \<and> length (ss_data s) \<le> 1460) (sendQueue c)"

definition rx_ok :: "TCPConnection \<Rightarrow> bool" where
  "rx_ok c \<longleftrightarrow> RecvBuffer c = [] \<and> length (readCh c) \<le> 16
     \<and> (State c \<in> {SYN_RECEIVED, ESTABLISHED} \<longrightarrow> \<not> readChClosed c)
     \<and> State c \<notin> {LISTEN, SYN_SENT, CLOSING}"

definition conn_inv :: "TCPConnection \<Rightarrow> bool" where
  "conn_inv c \<longleftrightarrow> timer_ok c \<and> queue_ok c \<and> rx_ok c"

definition conn_key :: "TCPConnection \<Rightarrow> ConnectionKey" where
  "conn_key c = \<lparr>key_SrcIP = RemoteIP c, key_SrcPort = RemotePort c, key_DstIP = LocalIP c,
     key_DstPort = LocalPort c\<rparr>"

lemmas inv_defs = conn_inv_def timer_ok_def queue_ok_def rx_ok_def

lemmas timer_defs = startRTOIfIdleLocked_def restartRTOLocked_def stopRTOLocked_def Let_def
  initialRTO_def maxRTO_def

lemma pump_mss_le: "queue_ok c \<Longrightarrow> pump_mss c \<le> 1460"
  by (simp add: queue_ok_def pump_mss_def defaultMSS_def)

lemma queue_ok_pump: "queue_ok c \<Longrightarrow> queue_ok (after_pump c)"
  using pump_mss_le [of c] pump_segs_sizes [of c]
  by (fastforce simp: queue_ok_def after_pump_def list_all_iff)

lemma pump_segs_eq_Nil: "pump_segs (pump_mss c) c = [] \<longleftrightarrow> pump_amount c = 0"
  using pump_segs_bytes [of c] pump_mss_bounds [of c]
  by (auto simp: pump_segs_def pump_amount_def)

lemma conn_inv_pump:
  assumes "queue_ok c" "rx_ok c" "timer_ok c"
  shows "\<exists>c' out. pumpSendLocked c = Ok (c', out) \<and> conn_inv c' \<and> conn_key c' = conn_key c
    \<and> readChClosed c' = readChClosed c \<and> State c' = State c"
proof (cases "pump_amount c = 0")
  case True
  then show ?thesis using assms pump_segs_eq_Nil [of c]
    by (simp add: pumpSendLocked_spec after_pump_def inv_defs conn_key_def)
next
  case False
  then show ?thesis using assms queue_ok_pump [OF assms(1)]
    by (auto simp: pumpSendLocked_spec inv_defs after_pump_def timer_defs conn_key_def)
qed

subsection \<open>Each operation keeps the invariant\<close>

text \<open>
  The contract of an operation that the application or a timer runs on one connection: on an
  invariant state it returns (never panics), keeps the invariant, the four-tuple and the read
  channel's closed flag, and neither closes nor reopens the connection. The stack relies on no more than this to run it (theory Tcp\_Stack).
\<close>

locale conn_op =
  fixes run :: "TCPConnection \<Rightarrow> (unit, TCPConnection \<times> emission list) res"
  assumes returns: "conn_inv c \<Longrightarrow> \<exists>c' out. run c = Ok (c', out)"
    and keeps_inv: "conn_inv c \<Longrightarrow> run c = Ok (c', out) \<Longrightarrow> conn_inv c'"
    and keeps_key: "run c = Ok (c', out) \<Longrightarrow> conn_key c' = conn_key c"
    and keeps_closed: "run c = Ok (c', out) \<Longrightarrow> readChClosed c' = readChClosed c"
    and keeps_open: "run c = Ok (c', out) \<Longrightarrow> (State c' = CLOSED) = (State c = CLOSED)"
begin

lemma no_panic: "conn_inv c \<Longrightarrow> run c \<noteq> Panic"
  using returns [of c] by auto

end

definition op_Write :: "bytes \<Rightarrow> TCPConnection \<Rightarrow> (unit, TCPConnection \<times> emission list) res" where
  "op_Write data c = rbind (conn_Write data c) (\<lambda>(n, c, out). Ok (c, out))"

definition op_Read :: "nat \<Rightarrow> TCPConnection \<Rightarrow> (unit, TCPConnection \<times> emission list) res" where
  "op_Read n c = Ok (snd (conn_Read n c), [])"

lemma conn_Write_eq:
  "conn_Write data c = rbind (pumpSendLocked (c\<lparr>sendUnsent := sendUnsent c @ data\<rparr>))
     (\<lambda>(c, out). Ok (length data, c, out))"
  by (simp add: conn_Write_def)

lemma op_Write_eq: "op_Write data c = pumpSendLocked (c\<lparr>sendUnsent := sendUnsent c @ data\<rparr>)"
  by (simp add: op_Write_def conn_Write_def pumpSendLocked_spec)

lemma pump_frame:
  assumes "pumpSendLocked c = Ok (c', out)"
  shows "conn_key c' = conn_key c" "readChClosed c' = readChClosed c" "State c' = State c"
    "RecvSeqNum c' = RecvSeqNum c" "readCh c' = readCh c" "overflow c' = overflow c"
    "SendUnacked c' = SendUnacked c" "SendWindow c' = SendWindow c"
  using assms
  by (auto simp: pumpSendLocked_spec after_pump_def startRTOIfIdleLocked_def Let_def conn_key_def
      split: if_splits)

lemma conn_inv_unsent [simp]: "conn_inv (c\<lparr>sendUnsent := u\<rparr>) = conn_inv c"
  by (simp add: inv_defs)

interpretation write_op: conn_op "op_Write data"
proof unfold_locales
  fix c c' :: TCPConnection and out
  let ?c = "c\<lparr>sendUnsent := sendUnsent c @ data\<rparr>"
  show "\<exists>c' out. op_Write data c = Ok (c', out)"
    by (simp add: op_Write_eq pumpSendLocked_spec)
  show "conn_inv c'" if "conn_inv c" "op_Write data c = Ok (c', out)"
    using that conn_inv_pump [of ?c] by (simp add: op_Write_eq) (auto simp: inv_defs)
  show "conn_key c' = conn_key c" "readChClosed c' = readChClosed c"
    "(State c' = CLOSED) = (State c = CLOSED)"
    if "op_Write data c = Ok (c', out)"
    using that pump_frame [of ?c c' out] by (simp_all add: op_Write_eq conn_key_def)
qed

lemma conn_inv_read_fields:
  "conn_inv (c\<lparr>overflow := x\<rparr>) = conn_inv c"
  "conn_inv c \<Longrightarrow> readCh c = d # rest \<Longrightarrow> conn_inv (c\<lparr>readCh := rest\<rparr>)"
  by (simp_all add: inv_defs)

lemma conn_Read_frame:
  "conn_key (snd (conn_Read n c)) = conn_key c"
  "readChClosed (snd (conn_Read n c)) = readChClosed c"
  "State (snd (conn_Read n c)) = State c"
  "conn_inv c \<Longrightarrow> conn_inv (snd (conn_Read n c))"
  by (simp_all add: conn_Read_def Let_def conn_key_def conn_inv_read_fields split: list.split)

interpretation read_op: conn_op "op_Read n"
  by unfold_locales (auto simp: op_Read_def conn_Read_frame)

lemma onRTO_spec:
  "onRTO c = (case sendQueue c of [] \<Rightarrow> Ok (c, [])
     | s # _ \<Rightarrow> (if rtoTimer c = None then Panic
        else let r = min (rto c * 2) maxRTO in
          Ok (c\<lparr>rto := r, rtoTimer := Some r\<rparr>, [seg_emission c s])))"
  by (auto simp: onRTO_def Let_def seg_emission_def conn_frame_def out_bytes_def out_packet_def
      out_tcp_def out_checksum_def out_segment_def min_def split: list.splits option.splits)

lemma onRTO_inv:
  assumes "conn_inv c"
  shows "\<exists>c' out. onRTO c = Ok (c', out) \<and> conn_inv c'"
proof (cases "sendQueue c")
  case (Cons s ss)
  let ?r = "min (rto c * 2) maxRTO"
  have "rtoTimer c \<noteq> None" "initialRTO \<le> rto c"
    using assms Cons by (auto simp: inv_defs)
  then have "initialRTO \<le> ?r" "rtoTimer c \<noteq> None"
    by (simp_all add: initialRTO_def maxRTO_def)
  with Cons assms show ?thesis by (auto simp: onRTO_spec inv_defs Let_def)
qed (use assms in \<open>simp add: onRTO_spec\<close>)

lemma onRTO_frame:
  "onRTO c = Ok (c', out) \<Longrightarrow> conn_key c' = conn_key c"
  "onRTO c = Ok (c', out) \<Longrightarrow> readChClosed c' = readChClosed c"
  "onRTO c = Ok (c', out) \<Longrightarrow> State c' = State c"
  by (auto simp: onRTO_spec conn_key_def Let_def split: list.splits if_splits)

interpretation rto_op: conn_op onRTO
proof unfold_locales
  show "\<exists>c' out. onRTO c = Ok (c', out)" if "conn_inv c" for c
    using onRTO_inv [OF that] by blast
  show "conn_inv c'" if "conn_inv c" "onRTO c = Ok (c', out)" for c c' out
    using onRTO_inv [OF that(1)] that(2) by auto
qed (simp_all add: onRTO_frame)

lemma conn_Close_spec:
  "conn_Close c = Ok (c\<lparr>SendSeqNum := SendSeqNum c + 1,
      State := (if State c = ESTABLISHED then FIN_WAIT_1
        else if State c = CLOSE_WAIT then LAST_ACK else State c)\<rparr>,
    [(sockaddr_of c, out_bytes c (FIN OR ACK) [] (SendSeqNum c) [] (conn_frame c))])"
  by (simp add: conn_Close_def Let_def)

lemma conn_inv_State:
  "conn_inv c \<Longrightarrow> st = State c \<or> st \<in> {CLOSED, FIN_WAIT_1, FIN_WAIT_2, TIME_WAIT, CLOSE_WAIT, LAST_ACK}
     \<Longrightarrow> conn_inv (c\<lparr>State := st\<rparr>)"
  by (cases st) (simp_all add: inv_defs)

lemma conn_inv_seq [simp]:
  "conn_inv (c\<lparr>SendSeqNum := x\<rparr>) = conn_inv c" "conn_inv (c\<lparr>RecvSeqNum := x\<rparr>) = conn_inv c"
  "conn_inv (c\<lparr>SendUnacked := x\<rparr>) = conn_inv c" "conn_inv (c\<lparr>SendWindow := w\<rparr>) = conn_inv c"
  "conn_inv (c\<lparr>WL1 := x\<rparr>) = conn_inv c" "conn_inv (c\<lparr>WL2 := x\<rparr>) = conn_inv c"
  by (simp_all add: inv_defs)

lemma conn_Close_frame:
  assumes "conn_Close c = Ok (c', out)"
  shows "conn_key c' = conn_key c" "readChClosed c' = readChClosed c"
    "conn_inv c \<Longrightarrow> conn_inv c'" "(State c' = CLOSED) = (State c = CLOSED)"
proof -
  define st where "st = (if State c = ESTABLISHED then FIN_WAIT_1
      else if State c = CLOSE_WAIT then LAST_ACK else State c)"
  have c': "c' = c\<lparr>SendSeqNum := SendSeqNum c + 1, State := st\<rparr>"
    using assms unfolding conn_Close_spec st_def by (rule res.inject(1) [THEN iffD1, elim_format]) auto
  show "conn_key c' = conn_key c" "readChClosed c' = readChClosed c"
    by (simp_all add: c' conn_key_def)
  show "(State c' = CLOSED) = (State c = CLOSED)" by (simp add: c' st_def)
  show "conn_inv c'" if "conn_inv c"
    unfolding c' by (rule conn_inv_State) (simp_all add: that st_def)
qed

interpretation close_op: conn_op conn_Close
  by unfold_locales (simp_all add: conn_Close_frame, simp add: conn_Close_spec)

subsection \<open>Properties\<close>

text \<open>
  The pump implements the reference segmentation: one call sends exactly what the peer's window
  leaves room for (and no more than is buffered), cut into segments of at most the MSS with
  consecutive sequence numbers, queues each of them for retransmission, and starts the timer if it
  sent anything.
\<close>

theorem pump_implements_segmentation:
  "pumpSendLocked c = Ok
     (if 0 < pump_amount c then startRTOIfIdleLocked (after_pump c) else after_pump c,
      map (seg_emission c) (pump_segs (pump_mss c) c))"
  by (rule pumpSendLocked_spec)

lemma conn_Write_run:
  assumes "b = c\<lparr>sendUnsent := sendUnsent c @ data\<rparr>"
  shows "conn_Write data c = Ok (length data,
      if 0 < pump_amount b then startRTOIfIdleLocked (after_pump b) else after_pump b,
      map (seg_emission c) (pump_segs (pump_mss b) b))"
proof -
  have "seg_emission b = seg_emission c"
    by (intro ext) (simp add: assms seg_emission_def conn_frame_def out_bytes_def out_packet_def
        out_tcp_def out_checksum_def out_segment_def)
  then show ?thesis by (simp add: conn_Write_eq pumpSendLocked_spec flip: assms)
qed

text \<open>
  C12: \<^verbatim>\<open>Write\<close> neither loses, duplicates nor reorders a byte: the segments it sends, followed by
  what stays buffered, are the previously buffered bytes followed by the new ones; the segments
  are queued for retransmission and numbered consecutively from SND.NXT, which ends behind them.
\<close>

theorem write_preserves_byte_stream:
  "\<exists>c' out segs. conn_Write data c = Ok (length data, c', out)
    \<and> sendQueue c' = sendQueue c @ segs \<and> out = map (seg_emission c) segs
    \<and> seg_chain (SendSeqNum c) segs (SendSeqNum c')
    \<and> queue_bytes segs @ sendUnsent c' = sendUnsent c @ data"
proof -
  define b where "b = c\<lparr>sendUnsent := sendUnsent c @ data\<rparr>"
  have "seg_chain (SendSeqNum b) (pump_segs (pump_mss b) b) (SendSeqNum (after_pump b))"
    using pump_segs_chain [of b] by (simp add: after_pump_def)
  moreover have "queue_bytes (pump_segs (pump_mss b) b) @ sendUnsent (after_pump b) = sendUnsent b"
    by (simp add: pump_segs_bytes after_pump_def)
  moreover have "sendQueue (after_pump b) = sendQueue c @ pump_segs (pump_mss b) b"
    "SendSeqNum b = SendSeqNum c" "sendUnsent b = sendUnsent c @ data"
    by (simp_all add: after_pump_def b_def)
  ultimately show ?thesis unfolding conn_Write_run [OF b_def] by auto
qed

text \<open>
  C25: flow control. After a \<^verbatim>\<open>Write\<close> the bytes in flight do not exceed the peer's window (unless
  they already did), every segment carries between one byte and the MSS, and nothing is held back
  without need: either the buffer is empty or the window is full.
\<close>

theorem write_respects_window:
  "\<exists>c' out segs. conn_Write data c = Ok (length data, c', out)
    \<and> out = map (seg_emission c) segs
    \<and> in_flight c' \<le> max (in_flight c) (unat (SendWindow c))
    \<and> list_all (\<lambda>s. 0 < length (ss_data s) \<and> length (ss_data s) \<le> pump_mss c) segs
    \<and> (sendUnsent c' = [] \<or> unat (SendWindow c) \<le> in_flight c')"
proof -
  define b where "b = c\<lparr>sendUnsent := sendUnsent c @ data\<rparr>"
  have b: "pump_mss b = pump_mss c" "in_flight b = in_flight c" "SendWindow b = SendWindow c"
    by (simp_all add: b_def pump_mss_def in_flight_def)
  have "in_flight (after_pump b) \<le> max (in_flight c) (unat (SendWindow c))"
    unfolding in_flight_after_pump b by (simp add: pump_amount_def window_room_def b)
  moreover have "sendUnsent (after_pump b) = [] \<or> unat (SendWindow c) \<le> in_flight (after_pump b)"
    unfolding in_flight_after_pump b
    by (auto simp: after_pump_def pump_amount_def window_room_def b min_def)
  ultimately show ?thesis
    using pump_segs_sizes [of b] unfolding conn_Write_run [OF b_def] b by auto
qed

text \<open>Several reads in a row, and the bytes they returned.\<close>

fun conn_reads :: "nat list \<Rightarrow> TCPConnection \<Rightarrow> read_result list \<times> TCPConnection" where
  "conn_reads [] c = ([], c)"
| "conn_reads (n # ns) c =
     (let (r, c1) = conn_Read n c; (rs, c2) = conn_reads ns c1 in (r # rs, c2))"

fun read_bytes :: "read_result \<Rightarrow> bytes" where
  "read_bytes (ReadData bs) = bs"
| "read_bytes ReadEOF = []"
| "read_bytes ReadBlocks = []"

lemma conn_Read_bytes:
  "read_bytes (fst (conn_Read n c)) @ overflow (snd (conn_Read n c))
      @ concat (readCh (snd (conn_Read n c))) = overflow c @ concat (readCh c)"
  by (auto simp: conn_Read_def Let_def min_def split: list.splits)

text \<open>
  Whatever the sizes of the caller's buffers, the bytes that a series of \<^verbatim>\<open>Read\<close> calls returns,
  followed by what is still queued, are the bytes that were queued: chunk boundaries and the
  leftover buffer never lose or reorder data, and EOF is reported exactly when the channel is
  closed and drained.
\<close>

theorem reads_deliver_byte_stream:
  "concat (map read_bytes (fst (conn_reads ns c))) @ overflow (snd (conn_reads ns c))
      @ concat (readCh (snd (conn_reads ns c))) = overflow c @ concat (readCh c)
    \<and> (fst (conn_Read n c) = ReadEOF
        \<longleftrightarrow> overflow c = [] \<and> readCh c = [] \<and> readChClosed c)"
proof -
  have "concat (map read_bytes (fst (conn_reads ns c))) @ overflow (snd (conn_reads ns c))
      @ concat (readCh (snd (conn_reads ns c))) = overflow c @ concat (readCh c)"
  proof (induction ns arbitrary: c)
    case (Cons n ns)
    show ?case using Cons.IH [of "snd (conn_Read n c)"] conn_Read_bytes [of n c]
      by (simp add: case_prod_unfold Let_def)
  qed simp
  moreover have "fst (conn_Read n c) = ReadEOF
      \<longleftrightarrow> overflow c = [] \<and> readCh c = [] \<and> readChClosed c"
    by (auto simp: conn_Read_def Let_def split: list.splits)
  ultimately show ?thesis ..
qed

text \<open>The retransmission timer expiring \<open>k\<close> times in a row with nothing acknowledged.\<close>

fun rto_expiries :: "nat \<Rightarrow> TCPConnection \<Rightarrow> (unit, TCPConnection \<times> emission list) res" where
  "rto_expiries 0 c = Ok (c, [])"
| "rto_expiries (Suc k) c =
     rbind (onRTO c) (\<lambda>(c1, o1). rbind (rto_expiries k c1) (\<lambda>(c2, o2). Ok (c2, o1 @ o2)))"

lemma seg_emission_timer [simp]: "seg_emission (c\<lparr>rto := r, rtoTimer := t\<rparr>) = seg_emission c"
  by (intro ext) (simp add: seg_emission_def conn_frame_def out_bytes_def out_packet_def
      out_tcp_def out_checksum_def out_segment_def)

lemma rto_expiries_run:
  assumes "sendQueue c = s # q" "rtoTimer c \<noteq> None"
  shows "rto_expiries (Suc k) c =
    Ok (c\<lparr>rto := min (2 ^ Suc k * rto c) maxRTO, rtoTimer := Some (min (2 ^ Suc k * rto c) maxRTO)\<rparr>,
      replicate (Suc k) (seg_emission c s))"
  using assms
proof (induction k arbitrary: c)
  case 0
  then show ?case by (simp add: onRTO_spec Let_def mult.commute)
next
  case (Suc k)
  let ?r = "min (rto c * 2) maxRTO"
  let ?c = "c\<lparr>rto := ?r, rtoTimer := Some ?r\<rparr>"
  have "min (2 ^ Suc k * ?r) maxRTO = min (2 ^ Suc (Suc k) * rto c) maxRTO"
  proof (cases "rto c * 2 \<le> maxRTO")
    case False
    then have "maxRTO \<le> rto c * 2" by simp
    then have r: "?r = maxRTO" by (rule min.absorb2)
    have "1 * maxRTO \<le> 2 ^ Suc k * maxRTO" by (rule mult_le_mono1) simp
    moreover have "2 ^ Suc k * maxRTO \<le> 2 ^ Suc k * (rto c * 2)"
      using False by (intro mult_le_mono2) simp
    moreover have "2 ^ Suc k * (rto c * 2) = 2 ^ Suc (Suc k) * rto c" by simp
    ultimately have "maxRTO \<le> 2 ^ Suc k * maxRTO" "maxRTO \<le> 2 ^ Suc (Suc k) * rto c"
      by linarith+
    then show ?thesis unfolding r by (simp only: min.absorb2)
  qed (simp add: mult_ac)
  moreover have "onRTO c = Ok (?c, [seg_emission c s])"
    using Suc.prems by (simp add: onRTO_spec Let_def)
  moreover have "rto_expiries (Suc k) ?c =
      Ok (?c\<lparr>rto := min (2 ^ Suc k * rto ?c) maxRTO,
        rtoTimer := Some (min (2 ^ Suc k * rto ?c) maxRTO)\<rparr>,
      replicate (Suc k) (seg_emission ?c s))"
    using Suc.prems by (intro Suc.IH) simp_all
  ultimately show ?case by (simp only: rto_expiries.simps(2) [of "Suc k"]) simp
qed

text \<open>
  When nothing is acknowledged, \<open>k\<close> expirations of the timer retransmit the oldest segment
  \<open>k\<close> times, unchanged and with its original sequence number, and the timeout doubles each time
  from its value up to 60 seconds.
\<close>

theorem rto_backs_off_exponentially:
  assumes "sendQueue c = s # q" "rtoTimer c \<noteq> None"
  shows "rto_expiries (Suc k) c =
    Ok (c\<lparr>rto := min (2 ^ Suc k * rto c) maxRTO, rtoTimer := Some (min (2 ^ Suc k * rto c) maxRTO)\<rparr>,
      replicate (Suc k) (seg_emission c s))"
  using assms by (rule rto_expiries_run)

theorem rto_backs_off_exponentially_witness:
  "\<exists>out. rto_expiries (Suc 5) (sample_conn\<lparr>sendQueue := [\<lparr>ss_seqNum = 1001, ss_data = [1],
      ss_flags = ACK\<rparr>], rto := 1000000000, rtoTimer := Some 1000000000\<rparr>) =
    Ok (sample_conn\<lparr>sendQueue := [\<lparr>ss_seqNum = 1001, ss_data = [1], ss_flags = ACK\<rparr>],
      rto := 60000000000, rtoTimer := Some 60000000000\<rparr>, out) \<and> length out = 6"
  using rto_backs_off_exponentially [of "sample_conn\<lparr>sendQueue := [\<lparr>ss_seqNum = 1001,
      ss_data = [1], ss_flags = ACK\<rparr>], rto := 1000000000, rtoTimer := Some 1000000000\<rparr>"
      "\<lparr>ss_seqNum = 1001, ss_data = [1], ss_flags = ACK\<rparr>" "[]" 5]
  by (simp add: maxRTO_def sample_conn_def)

end
