(* ===== verification/Tcp_Stack.thy ===== *)
theory Tcp_Stack imports Tcp_Conn begin
unbundle bit_operations_syntax

section \<open>The stack: demultiplexing and the TCP state machine (tcp/stack.go)\<close>

text \<open>
  The stack keeps the connection table, the listeners and every connection object, which the
  application and sleeping goroutines reach through pointers even after the table has dropped
  them; a pointer is an index into \<open>conn_at\<close> or \<open>listener_at\<close>. The receive loop handles one frame
  at a time and can block in the middle of a frame on a full channel: \<open>blocked\<close> then holds what it
  still has to do. Goroutines interleave at the granularity of one operation (one frame, one
  application call, one timer expiry).
\<close>

subsection \<open>State\<close>

record Listener =
  lst_port :: u16
  lst_accept :: "nat list"

datatype pending =
    PushConn nat nat TCPSegment EthernetFrame sockaddr
  | PushData nat bytes TCPSegment EthernetFrame sockaddr

record Stack =
  connections :: "ConnectionKey \<Rightarrow> nat option"
  listeners :: "u16 \<Rightarrow> nat option"
  conn_at :: "nat \<Rightarrow> TCPConnection option"
  next_conn :: nat
  listener_at :: "nat \<Rightarrow> Listener option"
  next_listener :: nat
  sleepers :: "nat list"
  blocked :: "pending option"

type_synonym stack_res = "(unit, Stack \<times> emission list) res"

definition NewStack :: Stack where
  "NewStack = \<lparr>connections = Map.empty, listeners = Map.empty, conn_at = Map.empty, next_conn = 0,
     listener_at = Map.empty, next_listener = 0, sleepers = [], blocked = None\<rparr>"

definition put_conn :: "nat \<Rightarrow> TCPConnection \<Rightarrow> Stack \<Rightarrow> Stack" where
  "put_conn i c s = s\<lparr>conn_at := (conn_at s)(i \<mapsto> c)\<rparr>"

definition put_listener :: "nat \<Rightarrow> Listener \<Rightarrow> Stack \<Rightarrow> Stack" where
  "put_listener l L s = s\<lparr>listener_at := (listener_at s)(l \<mapsto> L)\<rparr>"

definition drop_key :: "ConnectionKey \<Rightarrow> Stack \<Rightarrow> Stack" where
  "drop_key k s = s\<lparr>connections := (connections s)(k := None)\<rparr>"

subsection \<open>Listen and Accept\<close>

definition accept_cap :: nat where "accept_cap = 16"
definition read_cap :: nat where "read_cap = 16"

definition stack_Listen :: "u16 \<Rightarrow> Stack \<Rightarrow> nat \<times> Stack" where
  "stack_Listen p s =
     (let l = next_listener s in
      (l, (put_listener l \<lparr>lst_port = p, lst_accept = []\<rparr> s)
        \<lparr>next_listener := l + 1, listeners := (listeners s)(p \<mapsto> l)\<rparr>))"

text \<open>\<^verbatim>\<open>Accept\<close> blocks (\<open>None\<close>) while the accept channel is empty.\<close>

definition stack_Accept :: "nat \<Rightarrow> Stack \<Rightarrow> (nat \<times> Stack) option" where
  "stack_Accept l s = (case listener_at s l of
       None \<Rightarrow> None
     | Some L \<Rightarrow> (case lst_accept L of
           [] \<Rightarrow> None
         | i # rest \<Rightarrow> Some (i, put_listener l (L\<lparr>lst_accept := rest\<rparr>) s)))"

subsection \<open>Opening a connection\<close>

text \<open>
  \<^verbatim>\<open>generateISN\<close> draws a number below \<open>2^32 - 1\<close>, or returns 1 when the system has no randomness.
  \<open>effective_MSS\<close> is the negotiation at the head of \<^verbatim>\<open>handleSYN\<close>.
\<close>

definition generateISN :: "nat option \<Rightarrow> u32" where
  "generateISN draw = (case draw of None \<Rightarrow> 1 | Some n \<Rightarrow> of_nat (n mod 4294967295))"

definition effective_MSS :: "bytes \<Rightarrow> (unit, u16) res" where
  "effective_MSS opts = rbind (parseMSSOption opts) (\<lambda>m.
     let peerMSS = (case m of Some v \<Rightarrow> v | None \<Rightarrow> defaultMSS) in
     Ok (if ourMSS < peerMSS then ourMSS else peerMSS))"

definition new_conn ::
  "u32 \<Rightarrow> u16 \<Rightarrow> IPv4Packet \<Rightarrow> TCPSegment \<Rightarrow> EthernetFrame \<Rightarrow> sockaddr \<Rightarrow> TCPConnection" where
  "new_conn isn mss pkt seg frame from =
     \<lparr>State = SYN_RECEIVED, LocalIP = ip_DstIP pkt, LocalPort = DestPort seg,
      RemoteIP = ip_SrcIP pkt, RemotePort = SourcePort seg, ISS = isn, SendSeqNum = isn,
      SendUnacked = isn, SendWindow = Window seg, WL1 = SeqNum seg, WL2 = AckNum seg,
      RecvSeqNum = SeqNum seg + 1, RecvWindow = DefaultWindow, RecvBuffer = [], MSS = mss,
      sendUnsent = [], sendQueue = [], rto = 0, rtoTimer = None, readCh = [],
      readChClosed = False, overflow = [], localMAC = DstMAC frame, remoteMAC = SrcMAC frame,
      sockaddr_of = from\<rparr>"

definition handleSYN ::
  "u32 \<Rightarrow> IPv4Packet \<Rightarrow> TCPSegment \<Rightarrow> EthernetFrame \<Rightarrow> ConnectionKey \<Rightarrow> sockaddr \<Rightarrow> Stack
    \<Rightarrow> stack_res" where
  "handleSYN isn pkt seg frame key from s =
     rbind (effective_MSS (Options seg)) (\<lambda>mss.
     let conn = new_conn isn mss pkt seg frame from; i = next_conn s;
         s1 = (put_conn i conn s)\<lparr>next_conn := i + 1, connections := (connections s)(key \<mapsto> i)\<rparr> in
     rbind (sendSegmentAt conn (SYN OR ACK) [] (SendSeqNum conn) (buildMSSOption ourMSS) frame from)
       (\<lambda>e. Ok (put_conn i (conn\<lparr>SendSeqNum := SendSeqNum conn + 1\<rparr>) s1, [e])))"

subsection \<open>ACK processing\<close>

text \<open>
  \<open>drop_acked\<close> is the loop that pops fully acknowledged segments. \<^verbatim>\<open>processAck\<close> returns whether
  the caller goes on with the segment.
\<close>

fun drop_acked :: "u32 \<Rightarrow> sentSegment list \<Rightarrow> sentSegment list" where
  "drop_acked ack [] = []"
| "drop_acked ack (h # q) =
     (if seqLE (ss_seqNum h + of_nat (length (ss_data h))) ack then drop_acked ack q else h # q)"

definition update_window :: "TCPSegment \<Rightarrow> TCPConnection \<Rightarrow> TCPConnection" where
  "update_window seg c =
     (if seqLT (WL1 c) (SeqNum seg) \<or> (WL1 c = SeqNum seg \<and> seqLE (WL2 c) (AckNum seg))
      then c\<lparr>SendWindow := Window seg, WL1 := SeqNum seg, WL2 := AckNum seg\<rparr> else c)"

definition processAck ::
  "TCPSegment \<Rightarrow> EthernetFrame \<Rightarrow> sockaddr \<Rightarrow> TCPConnection
    \<Rightarrow> (unit, bool \<times> TCPConnection \<times> emission list) res" where
  "processAck seg frame from c =
     (if Flags seg AND ACK = 0 then Ok (False, c, [])
      else if seqGT (AckNum seg) (SendSeqNum c) then
        rbind (sendSegment c ACK [] frame from) (\<lambda>e. Ok (False, c, [e]))
      else if seqGT (AckNum seg) (SendUnacked c) then
        let c1 = c\<lparr>SendUnacked := AckNum seg\<rparr>;
            c2 = c1\<lparr>sendQueue := drop_acked (AckNum seg) (sendQueue c1)\<rparr>;
            c3 = (if length (sendQueue c2) = 0 then stopRTOLocked c2 else restartRTOLocked c2) in
        rbind (pumpSendLocked (update_window seg c3)) (\<lambda>(c4, out). Ok (True, c4, out))
      else Ok (True, c, []))"

subsection \<open>Tearing a connection down\<close>

definition abortConnection :: "nat \<Rightarrow> Stack \<Rightarrow> stack_res" where
  "abortConnection i s = (case conn_at s i of
       None \<Rightarrow> Panic
     | Some c \<Rightarrow>
         if State c = CLOSED then Ok (s, [])
         else
           let c1 = stopRTOLocked (c\<lparr>State := CLOSED\<rparr>);
               c2 = closeReadChLocked (c1\<lparr>sendQueue := [], sendUnsent := []\<rparr>) in
           Ok (drop_key (conn_key c2) (put_conn i c2 s), []))"

definition removeConnection :: "nat \<Rightarrow> Stack \<Rightarrow> stack_res" where
  "removeConnection i s = (case conn_at s i of
       None \<Rightarrow> Panic
     | Some c \<Rightarrow>
         let c1 = (stopRTOLocked c)\<lparr>sendQueue := [], sendUnsent := []\<rparr> in
         Ok (drop_key (conn_key c1) (put_conn i c1 s), []))"

text \<open>The goroutine at position \<open>n\<close> of the sleepers wakes up after its two seconds.\<close>

definition timeWaitCleanup :: "nat \<Rightarrow> Stack \<Rightarrow> stack_res" where
  "timeWaitCleanup n s =
     (let i = sleepers s ! n; s1 = s\<lparr>sleepers := take n (sleepers s) @ drop (Suc n) (sleepers s)\<rparr> in
      case conn_at s1 i of
        None \<Rightarrow> Panic
      | Some c \<Rightarrow> removeConnection i (put_conn i (c\<lparr>State := CLOSED\<rparr>) s1))"

subsection \<open>Segments of an established connection\<close>

text \<open>
  \<open>push_read\<close> is the channel send \<^verbatim>\<open>conn.readCh <- data\<close>: it panics on a closed channel and is
  \<open>None\<close>, that is it blocks, on a full one.
\<close>

definition push_read :: "bytes \<Rightarrow> TCPConnection \<Rightarrow> (unit, TCPConnection option) res" where
  "push_read data c =
     (if readChClosed c then Panic
      else if length (readCh c) < read_cap then Ok (Some (c\<lparr>readCh := readCh c @ [data]\<rparr>))
      else Ok None)"

definition established_fin ::
  "nat \<Rightarrow> TCPSegment \<Rightarrow> EthernetFrame \<Rightarrow> sockaddr \<Rightarrow> Stack \<Rightarrow> emission list \<Rightarrow> stack_res" where
  "established_fin i seg frame from s out = (case conn_at s i of
       None \<Rightarrow> Panic
     | Some c \<Rightarrow>
         if Flags seg AND FIN \<noteq> 0 then
           let c1 = c\<lparr>RecvSeqNum := RecvSeqNum c + 1, State := CLOSE_WAIT\<rparr> in
           rbind (sendSegment c1 ACK [] frame from) (\<lambda>e.
           Ok (put_conn i (closeReadChLocked c1) s, out @ [e]))
         else Ok (s, out))"

definition established_data ::
  "nat \<Rightarrow> TCPSegment \<Rightarrow> EthernetFrame \<Rightarrow> sockaddr \<Rightarrow> Stack \<Rightarrow> emission list \<Rightarrow> stack_res" where
  "established_data i seg frame from s out = (case conn_at s i of
       None \<Rightarrow> Panic
     | Some c \<Rightarrow>
         if 0 < length (tcp_Payload seg) \<and> SeqNum seg = RecvSeqNum c then
           let c1 = c\<lparr>RecvBuffer := RecvBuffer c @ tcp_Payload seg,
                      RecvSeqNum := RecvSeqNum c + of_nat (length (tcp_Payload seg))\<rparr> in
           rbind (sendSegment c1 ACK [] frame from) (\<lambda>e.
           let data = RecvBuffer c1; c2 = c1\<lparr>RecvBuffer := []\<rparr> in
           rbind (push_read data c2) (\<lambda>r. case r of
               None \<Rightarrow> Ok ((put_conn i c2 s)\<lparr>blocked := Some (PushData i data seg frame from)\<rparr>,
                   out @ [e])
             | Some c3 \<Rightarrow> established_fin i seg frame from (put_conn i c3 s) (out @ [e])))
         else established_fin i seg frame from s out)"

definition segment_ESTABLISHED ::
  "nat \<Rightarrow> TCPSegment \<Rightarrow> EthernetFrame \<Rightarrow> sockaddr \<Rightarrow> Stack \<Rightarrow> stack_res" where
  "segment_ESTABLISHED i seg frame from s = (case conn_at s i of
       None \<Rightarrow> Panic
     | Some c \<Rightarrow>
         rbind (processAck seg frame from c) (\<lambda>(goon, c1, out).
         if goon then established_data i seg frame from (put_conn i c1 s) out
         else Ok (put_conn i c1 s, out)))"

subsection \<open>Segments of the other states\<close>

definition segment_SYN_RECEIVED ::
  "nat \<Rightarrow> TCPSegment \<Rightarrow> EthernetFrame \<Rightarrow> sockaddr \<Rightarrow> Stack \<Rightarrow> stack_res" where
  "segment_SYN_RECEIVED i seg frame from s = (case conn_at s i of
       None \<Rightarrow> Panic
     | Some c \<Rightarrow>
         if Flags seg AND ACK = 0 then Ok (s, [])
         else
           let c1 = c\<lparr>State := ESTABLISHED, SendUnacked := AckNum seg, SendWindow := Window seg\<rparr>;
               s1 = put_conn i c1 s in
           case listeners s1 (LocalPort c1) of
             None \<Rightarrow> segment_ESTABLISHED i seg frame from s1
           | Some l \<Rightarrow> (case listener_at s1 l of
                 None \<Rightarrow> Panic
               | Some L \<Rightarrow>
                   if length (lst_accept L) < accept_cap then
                     segment_ESTABLISHED i seg frame from
                       (put_listener l (L\<lparr>lst_accept := lst_accept L @ [i]\<rparr>) s1)
                   else Ok (s1\<lparr>blocked := Some (PushConn l i seg frame from)\<rparr>, [])))"

definition start_time_wait :: "nat \<Rightarrow> TCPConnection \<Rightarrow> Stack \<Rightarrow> Stack" where
  "start_time_wait i c s =
     (let s1 = put_conn i (c\<lparr>State := TIME_WAIT\<rparr>) s in s1\<lparr>sleepers := sleepers s1 @ [i]\<rparr>)"

definition segment_FIN_WAIT_1 ::
  "nat \<Rightarrow> TCPSegment \<Rightarrow> EthernetFrame \<Rightarrow> sockaddr \<Rightarrow> Stack \<Rightarrow> stack_res" where
  "segment_FIN_WAIT_1 i seg frame from s = (case conn_at s i of
       None \<Rightarrow> Panic
     | Some c \<Rightarrow>
         rbind (processAck seg frame from c) (\<lambda>(goon, c1, out).
         if \<not> goon then Ok (put_conn i c1 s, out)
         else if Flags seg AND FIN \<noteq> 0 then
           let c2 = c1\<lparr>RecvSeqNum := RecvSeqNum c1 + 1\<rparr> in
           rbind (sendSegment c2 ACK [] frame from) (\<lambda>e.
           if Flags seg AND ACK \<noteq> 0 then Ok (start_time_wait i c2 s, out @ [e])
           else Ok (put_conn i (c2\<lparr>State := CLOSING\<rparr>) s, out @ [e]))
         else if Flags seg AND ACK \<noteq> 0 then Ok (put_conn i (c1\<lparr>State := FIN_WAIT_2\<rparr>) s, out)
         else Ok (put_conn i c1 s, out)))"

definition segment_FIN_WAIT_2 ::
  "nat \<Rightarrow> TCPSegment \<Rightarrow> EthernetFrame \<Rightarrow> sockaddr \<Rightarrow> Stack \<Rightarrow> stack_res" where
  "segment_FIN_WAIT_2 i seg frame from s = (case conn_at s i of
       None \<Rightarrow> Panic
     | Some c \<Rightarrow>
         if Flags seg AND FIN \<noteq> 0 then
           let c1 = c\<lparr>RecvSeqNum := RecvSeqNum c + 1\<rparr> in
           rbind (sendSegment c1 ACK [] frame from) (\<lambda>e. Ok (start_time_wait i c1 s, [e]))
         else Ok (s, []))"

definition segment_CLOSING :: "nat \<Rightarrow> TCPSegment \<Rightarrow> Stack \<Rightarrow> stack_res" where
  "segment_CLOSING i seg s = (case conn_at s i of
       None \<Rightarrow> Panic
     | Some c \<Rightarrow> if Flags seg AND ACK \<noteq> 0 then Ok (start_time_wait i c s, []) else Ok (s, []))"

definition segment_LAST_ACK :: "nat \<Rightarrow> TCPSegment \<Rightarrow> Stack \<Rightarrow> stack_res" where
  "segment_LAST_ACK i seg s = (case conn_at s i of
       None \<Rightarrow> Panic
     | Some c \<Rightarrow>
         if Flags seg AND ACK \<noteq> 0 then removeConnection i (put_conn i (c\<lparr>State := CLOSED\<rparr>) s)
         else Ok (s, []))"

definition handleSegment ::
  "nat \<Rightarrow> TCPSegment \<Rightarrow> EthernetFrame \<Rightarrow> sockaddr \<Rightarrow> Stack \<Rightarrow> stack_res" where
  "handleSegment i seg frame from s = (case conn_at s i of
       None \<Rightarrow> Panic
     | Some c \<Rightarrow>
         if Flags seg AND RST \<noteq> 0 then
           (if SeqNum seg = RecvSeqNum c then abortConnection i s else Ok (s, []))
         else (case State c of
             SYN_RECEIVED \<Rightarrow> segment_SYN_RECEIVED i seg frame from s
           | ESTABLISHED \<Rightarrow> segment_ESTABLISHED i seg frame from s
           | FIN_WAIT_1 \<Rightarrow> segment_FIN_WAIT_1 i seg frame from s
           | FIN_WAIT_2 \<Rightarrow> segment_FIN_WAIT_2 i seg frame from s
           | CLOSING \<Rightarrow> segment_CLOSING i seg s
           | LAST_ACK \<Rightarrow> segment_LAST_ACK i seg s
           | _ \<Rightarrow> Ok (s, [])))"

subsection \<open>One frame\<close>

definition segment_key :: "IPv4Packet \<Rightarrow> TCPSegment \<Rightarrow> ConnectionKey" where
  "segment_key pkt seg = \<lparr>key_SrcIP = ip_SrcIP pkt, key_SrcPort = SourcePort seg,
     key_DstIP = ip_DstIP pkt, key_DstPort = DestPort seg\<rparr>"

definition dispatch ::
  "u32 \<Rightarrow> IPv4Packet \<Rightarrow> TCPSegment \<Rightarrow> EthernetFrame \<Rightarrow> sockaddr \<Rightarrow> Stack \<Rightarrow> stack_res" where
  "dispatch isn pkt seg frame from s =
     (let key = segment_key pkt seg in
      case connections s key of
        Some i \<Rightarrow> handleSegment i seg frame from s
      | None \<Rightarrow>
          if listeners s (DestPort seg) = None then Ok (s, [])
          else if Flags seg AND SYN = 0 then Ok (s, [])
          else handleSYN isn pkt seg frame key from s)"

definition handleRaw :: "u32 \<Rightarrow> bytes \<Rightarrow> sockaddr \<Rightarrow> Stack \<Rightarrow> stack_res" where
  "handleRaw isn data from s =
     (case ParseEthernetFrame data (length data) of
        Panic \<Rightarrow> Panic | Err _ \<Rightarrow> Ok (s, [])
      | Ok frame \<Rightarrow>
          if EtherType frame \<noteq> 0x0800 then Ok (s, [])
          else (case ParseIPv4Packet (eth_Payload frame) of
              Panic \<Rightarrow> Panic | Err _ \<Rightarrow> Ok (s, [])
            | Ok pkt \<Rightarrow>
                if Protocol pkt \<noteq> 6 then Ok (s, [])
                else (case ParseTCPSegment (ip_Payload pkt) of
                    Panic \<Rightarrow> Panic | Err _ \<Rightarrow> Ok (s, [])
                  | Ok seg \<Rightarrow> dispatch isn pkt seg frame from s)))"

subsection \<open>The receive loop resumes\<close>

text \<open>A blocked channel send is retried: it goes through as soon as the channel has room.\<close>

definition recv_resume :: "Stack \<Rightarrow> stack_res" where
  "recv_resume s = (case blocked s of
       None \<Rightarrow> Ok (s, [])
     | Some (PushConn l i seg frame from) \<Rightarrow> (case listener_at s l of
           None \<Rightarrow> Panic
         | Some L \<Rightarrow>
             if length (lst_accept L) < accept_cap then
               segment_ESTABLISHED i seg frame from
                 ((put_listener l (L\<lparr>lst_accept := lst_accept L @ [i]\<rparr>) s)\<lparr>blocked := None\<rparr>)
             else Ok (s, []))
     | Some (PushData i data seg frame from) \<Rightarrow> (case conn_at s i of
           None \<Rightarrow> Panic
         | Some c \<Rightarrow>
             rbind (push_read data c) (\<lambda>r. case r of
                 None \<Rightarrow> Ok (s, [])
               | Some c1 \<Rightarrow> established_fin i seg frame from ((put_conn i c1 s)\<lparr>blocked := None\<rparr>) [])))"

subsection \<open>Events and runs\<close>

datatype app_op = OpRead nat | OpWrite bytes | OpClose | OpTimer

fun app_run :: "app_op \<Rightarrow> TCPConnection \<Rightarrow> (unit, TCPConnection \<times> emission list) res" where
  "app_run (OpRead n) c = op_Read n c"
| "app_run (OpWrite data) c = op_Write data c"
| "app_run OpClose c = conn_Close c"
| "app_run OpTimer c = onRTO c"

datatype event =
    Recv "nat option" bytes sockaddr
  | Resume
  | DoListen u16
  | DoAccept nat
  | OnConn nat app_op
  | Wake nat

text \<open>
  What each event does to the stack. An event that cannot happen in a state (a frame while the
  receive loop is blocked, an operation on a connection that does not exist) leaves it alone.
\<close>

fun exec :: "event \<Rightarrow> Stack \<Rightarrow> stack_res" where
  "exec (Recv draw data from) s =
     (if blocked s = None then handleRaw (generateISN draw) data from s else Ok (s, []))"
| "exec Resume s = recv_resume s"
| "exec (DoListen p) s = Ok (snd (stack_Listen p s), [])"
| "exec (DoAccept l) s = (case stack_Accept l s of None \<Rightarrow> Ok (s, []) | Some (_, s1) \<Rightarrow> Ok (s1, []))"
| "exec (OnConn i opn) s = (case conn_at s i of
       None \<Rightarrow> Ok (s, [])
     | Some c \<Rightarrow> rbind (app_run opn c) (\<lambda>(c1, out). Ok (put_conn i c1 s, out)))"
| "exec (Wake n) s = (if n < length (sleepers s) then timeWaitCleanup n s else Ok (s, []))"

fun run_events :: "event list \<Rightarrow> Stack \<Rightarrow> stack_res" where
  "run_events [] s = Ok (s, [])"
| "run_events (e # es) s =
     rbind (exec e s) (\<lambda>(s1, o1). rbind (run_events es s1) (\<lambda>(s2, o2). Ok (s2, o1 @ o2)))"

text \<open>
  The receive loop, for the given results of \<^verbatim>\<open>Recvfrom\<close> (\<open>None\<close> is an error), each with the random draw of its turn: the
  buffer takes 1518 bytes of a frame, and a loop that is blocked in a turn reads no more.
\<close>

fun recvLoop :: "(nat option \<times> (bytes \<times> sockaddr) option) list \<Rightarrow> Stack \<Rightarrow> stack_res" where
  "recvLoop [] s = Ok (s, [])"
| "recvLoop ((draw, received) # rs) s =
     (if blocked s \<noteq> None then Ok (s, [])
      else (case received of
          None \<Rightarrow> recvLoop rs s
        | Some (data, from) \<Rightarrow>
            rbind (handleRaw (generateISN draw) (take 1518 data) from s) (\<lambda>(s1, o1).
            rbind (recvLoop rs s1) (\<lambda>(s2, o2). Ok (s2, o1 @ o2)))))"

definition recv_event :: "nat option \<times> (bytes \<times> sockaddr) option \<Rightarrow> event list" where
  "recv_event r = (case snd r of None \<Rightarrow> [] | Some (data, from) \<Rightarrow> [Recv (fst r) (take 1518 data) from])"

lemma blocked_run: "blocked s \<noteq> None \<Longrightarrow> run_events (concat (map recv_event rs)) s = Ok (s, [])"
  by (induction rs) (auto simp: recv_event_def split: option.split)

text \<open>The turns of the loop are steps of the stack.\<close>

lemma recvLoop_run: "recvLoop rs s = run_events (concat (map recv_event rs)) s"
proof (induction rs arbitrary: s)
  case (Cons r rs)
  obtain draw received where r: "r = (draw, received)" by (cases r)
  show ?case
  proof (cases "blocked s = None")
    case True
    then show ?thesis using Cons.IH by (cases received) (auto simp: r recv_event_def)
  next
    case False
    then show ?thesis using blocked_run [OF False, of "r # rs"] by (simp add: r)
  qed
qed simp

inductive reachable :: "Stack \<Rightarrow> bool" where
  start: "reachable NewStack"
| step: "reachable s \<Longrightarrow> exec e s = Ok (s', out) \<Longrightarrow> reachable s'"

subsection \<open>The stack invariant\<close>

text \<open>
  The table maps a four-tuple to a live connection object of that four-tuple; every object keeps
  the connection invariant; listeners exist, and their accept queues stay within the channel's
  capacity and hold existing connections; and what the blocked receive loop has still to do
  concerns existing objects, with an open read channel.
\<close>

definition table_ok :: "Stack \<Rightarrow> bool" where
  "table_ok s \<longleftrightarrow> (\<forall>k i. connections s k = Some i \<longrightarrow>
     (\<exists>c. conn_at s i = Some c \<and> conn_key c = k \<and> State c \<noteq> CLOSED))"

definition heap_ok :: "Stack \<Rightarrow> bool" where
  "heap_ok s \<longleftrightarrow> (\<forall>i c. conn_at s i = Some c \<longrightarrow> i < next_conn s \<and> conn_inv c)"

definition listeners_ok :: "Stack \<Rightarrow> bool" where
  "listeners_ok s \<longleftrightarrow>
     (\<forall>p l. listeners s p = Some l \<longrightarrow> (\<exists>L. listener_at s l = Some L \<and> lst_port L = p))
     \<and> (\<forall>l L. listener_at s l = Some L \<longrightarrow> l < next_listener s
          \<and> length (lst_accept L) \<le> accept_cap \<and> (\<forall>i \<in> set (lst_accept L). conn_at s i \<noteq> None))"

definition sleepers_ok :: "Stack \<Rightarrow> bool" where
  "sleepers_ok s \<longleftrightarrow> (\<forall>i \<in> set (sleepers s). conn_at s i \<noteq> None)"

definition open_conn :: "Stack \<Rightarrow> nat \<Rightarrow> bool" where
  "open_conn s i \<longleftrightarrow> (\<exists>c. conn_at s i = Some c \<and> \<not> readChClosed c)"

definition blocked_ok :: "Stack \<Rightarrow> bool" where
  "blocked_ok s \<longleftrightarrow> (case blocked s of None \<Rightarrow> True
     | Some (PushConn l i _ _ _) \<Rightarrow> listener_at s l \<noteq> None \<and> open_conn s i
     | Some (PushData i _ _ _ _) \<Rightarrow> open_conn s i)"

definition stack_inv :: "Stack \<Rightarrow> bool" where
  "stack_inv s \<longleftrightarrow> table_ok s \<and> heap_ok s \<and> listeners_ok s \<and> sleepers_ok s \<and> blocked_ok s"

lemmas stack_inv_defs = stack_inv_def table_ok_def heap_ok_def listeners_ok_def sleepers_ok_def
  blocked_ok_def

lemma put_conn_sel [simp]:
  "conn_at (put_conn i c s) j = (if j = i then Some c else conn_at s j)"
  "connections (put_conn i c s) = connections s" "listeners (put_conn i c s) = listeners s"
  "listener_at (put_conn i c s) = listener_at s" "next_conn (put_conn i c s) = next_conn s"
  "next_listener (put_conn i c s) = next_listener s" "sleepers (put_conn i c s) = sleepers s"
  "blocked (put_conn i c s) = blocked s"
  by (simp_all add: put_conn_def)

lemma put_listener_sel [simp]:
  "conn_at (put_listener l L s) = conn_at s" "connections (put_listener l L s) = connections s"
  "listeners (put_listener l L s) = listeners s"
  "listener_at (put_listener l L s) m = (if m = l then Some L else listener_at s m)"
  "next_conn (put_listener l L s) = next_conn s" "sleepers (put_listener l L s) = sleepers s"
  "next_listener (put_listener l L s) = next_listener s"
  "blocked (put_listener l L s) = blocked s"
  by (simp_all add: put_listener_def)

lemma drop_key_sel [simp]:
  "conn_at (drop_key k s) = conn_at s"
  "connections (drop_key k s) k' = (if k' = k then None else connections s k')"
  "listeners (drop_key k s) = listeners s" "listener_at (drop_key k s) = listener_at s"
  "next_conn (drop_key k s) = next_conn s" "sleepers (drop_key k s) = sleepers s"
  "next_listener (drop_key k s) = next_listener s" "blocked (drop_key k s) = blocked s"
  by (simp_all add: drop_key_def)

lemma put_conn_twice [simp]: "put_conn i c' (put_conn i c s) = put_conn i c' s"
  by (simp add: put_conn_def)

lemma blocked_ok_drop_key [simp]: "blocked_ok (drop_key k s) = blocked_ok s"
  by (simp add: blocked_ok_def open_conn_def split: option.splits pending.splits)

lemma conn_key_update [simp]:
  "conn_key (c\<lparr>State := x0\<rparr>) = conn_key c"
  "conn_key (c\<lparr>SendSeqNum := x1\<rparr>) = conn_key c"
  "conn_key (c\<lparr>SendUnacked := x2\<rparr>) = conn_key c"
  "conn_key (c\<lparr>SendWindow := x3\<rparr>) = conn_key c"
  "conn_key (c\<lparr>WL1 := x4\<rparr>) = conn_key c"
  "conn_key (c\<lparr>WL2 := x5\<rparr>) = conn_key c"
  "conn_key (c\<lparr>RecvSeqNum := x6\<rparr>) = conn_key c"
  "conn_key (c\<lparr>RecvBuffer := x7\<rparr>) = conn_key c"
  "conn_key (c\<lparr>sendUnsent := x8\<rparr>) = conn_key c"
  "conn_key (c\<lparr>sendQueue := x9\<rparr>) = conn_key c"
  "conn_key (c\<lparr>readCh := x10\<rparr>) = conn_key c"
  "conn_key (c\<lparr>readChClosed := x11\<rparr>) = conn_key c"
  by (simp_all add: conn_key_def)

lemma stack_inv_NewStack: "stack_inv NewStack"
  by (simp add: NewStack_def stack_inv_defs)

lemma stack_inv_conn: "stack_inv s \<Longrightarrow> conn_at s i = Some c \<Longrightarrow> conn_inv c"
  by (auto simp: stack_inv_def heap_ok_def)

lemma stack_inv_table: "stack_inv s \<Longrightarrow> connections s k = Some i
    \<Longrightarrow> \<exists>c. conn_at s i = Some c \<and> conn_key c = k \<and> State c \<noteq> CLOSED"
  by (auto simp: stack_inv_def table_ok_def)

text \<open>Storing a connection object back keeps the invariant when the object's identity is kept.\<close>

lemma blocked_ok_put:
  assumes "blocked_ok s" "conn_at s i = Some c" "readChClosed c' \<longrightarrow> readChClosed c \<or> blocked s = None"
  shows "blocked_ok (put_conn i c' s)"
  using assms by (auto simp: blocked_ok_def open_conn_def split: option.splits pending.splits)

lemma stack_inv_put:
  assumes "stack_inv s" "conn_at s i = Some c" "conn_inv c'" "conn_key c' = conn_key c"
    and "State c' = CLOSED \<longrightarrow> State c = CLOSED" "readChClosed c' \<longrightarrow> readChClosed c \<or> blocked s = None"
  shows "stack_inv (put_conn i c' s)"
  unfolding stack_inv_def
proof (intro conjI)
  show "table_ok (put_conn i c' s)"
    using assms by (fastforce simp: stack_inv_def table_ok_def)
  show "heap_ok (put_conn i c' s)" "listeners_ok (put_conn i c' s)" "sleepers_ok (put_conn i c' s)"
    using assms by (auto simp: stack_inv_def heap_ok_def listeners_ok_def sleepers_ok_def)
  show "blocked_ok (put_conn i c' s)"
    using assms blocked_ok_put by (auto simp: stack_inv_def)
qed

lemma stack_inv_close:
  assumes "stack_inv s" "conn_at s i = Some c" "conn_inv c'" "conn_key c' = conn_key c"
    and "readChClosed c' \<longrightarrow> readChClosed c \<or> blocked s = None"
  shows "stack_inv (drop_key (conn_key c) (put_conn i c' s))"
  unfolding stack_inv_def
proof (intro conjI)
  show "table_ok (drop_key (conn_key c) (put_conn i c' s))"
    using assms by (fastforce simp: stack_inv_def table_ok_def)
  show "heap_ok (drop_key (conn_key c) (put_conn i c' s))"
    "listeners_ok (drop_key (conn_key c) (put_conn i c' s))"
    "sleepers_ok (drop_key (conn_key c) (put_conn i c' s))"
    using assms by (auto simp: stack_inv_def heap_ok_def listeners_ok_def sleepers_ok_def)
  have "blocked_ok (put_conn i c' s)"
    using assms blocked_ok_put by (auto simp: stack_inv_def)
  then show "blocked_ok (drop_key (conn_key c) (put_conn i c' s))"
    by simp
qed

text \<open>An interface of the connection runs on the stack through its contract alone.\<close>

context conn_op
begin

lemma lifted:
  assumes "stack_inv s" "conn_at s i = Some c"
  shows "\<exists>c' out. run c = Ok (c', out) \<and> stack_inv (put_conn i c' s)"
proof -
  have inv: "conn_inv c" using assms by (rule stack_inv_conn)
  then obtain c' out where run: "run c = Ok (c', out)" using returns by blast
  have "stack_inv (put_conn i c' s)"
    using keeps_inv [OF inv run] keeps_key [OF run] keeps_closed [OF run] keeps_open [OF run]
    by (intro stack_inv_put [OF assms]) simp_all
  with run show ?thesis by blast
qed

end

lemma app_run_lifted:
  assumes "stack_inv s" "conn_at s i = Some c"
  shows "\<exists>c' out. app_run opn c = Ok (c', out) \<and> stack_inv (put_conn i c' s)"
  using write_op.lifted [OF assms] read_op.lifted [OF assms] rto_op.lifted [OF assms]
    close_op.lifted [OF assms] by (cases opn) simp_all

subsection \<open>Every step of the receive loop keeps the invariant\<close>

lemma conn_inv_timers:
  "conn_inv c \<Longrightarrow> conn_inv (restartRTOLocked c)"
  "conn_inv c \<Longrightarrow> sendQueue c = [] \<Longrightarrow> conn_inv (stopRTOLocked c)"
  "conn_inv c \<Longrightarrow> conn_inv ((stopRTOLocked c)\<lparr>sendQueue := [], sendUnsent := u\<rparr>)"
  by (auto simp: inv_defs timer_defs)

lemma timer_identity [simp]:
  "conn_key (restartRTOLocked c) = conn_key c" "conn_key (stopRTOLocked c) = conn_key c"
  "State (restartRTOLocked c) = State c" "State (stopRTOLocked c) = State c"
  "readChClosed (restartRTOLocked c) = readChClosed c" "readChClosed (stopRTOLocked c) = readChClosed c"
  "RecvSeqNum (restartRTOLocked c) = RecvSeqNum c" "RecvSeqNum (stopRTOLocked c) = RecvSeqNum c"
  "readCh (restartRTOLocked c) = readCh c" "readCh (stopRTOLocked c) = readCh c"
  "overflow (restartRTOLocked c) = overflow c" "overflow (stopRTOLocked c) = overflow c"
  by (simp_all add: restartRTOLocked_def stopRTOLocked_def conn_key_def Let_def)

lemma update_window_frame [simp]:
  "conn_inv (update_window seg c) = conn_inv c" "conn_key (update_window seg c) = conn_key c"
  "State (update_window seg c) = State c" "readChClosed (update_window seg c) = readChClosed c"
  "RecvSeqNum (update_window seg c) = RecvSeqNum c" "readCh (update_window seg c) = readCh c"
  "overflow (update_window seg c) = overflow c"
  by (simp_all add: update_window_def conn_key_def)

lemma set_drop_acked: "set (drop_acked a q) \<subseteq> set q"
  by (induction q) auto

lemma conn_inv_drop_acked: "conn_inv c \<Longrightarrow> conn_inv (c\<lparr>sendQueue := drop_acked a (sendQueue c)\<rparr>)"
  using set_drop_acked [of a "sendQueue c"]
  by (cases "sendQueue c") (auto simp: inv_defs list_all_iff)

lemma processAck_keeps:
  assumes "conn_inv c"
  shows "\<exists>goon c' out. processAck seg frame from c = Ok (goon, c', out) \<and> conn_inv c'
    \<and> conn_key c' = conn_key c \<and> State c' = State c \<and> readChClosed c' = readChClosed c
    \<and> RecvSeqNum c' = RecvSeqNum c \<and> readCh c' = readCh c \<and> overflow c' = overflow c"
proof -
  define c2 where "c2 = c\<lparr>SendUnacked := AckNum seg, sendQueue := drop_acked (AckNum seg) (sendQueue c)\<rparr>"
  define c3 where "c3 = update_window seg
    (if length (sendQueue c2) = 0 then stopRTOLocked c2 else restartRTOLocked c2)"
  have c2: "conn_inv c2" "conn_key c2 = conn_key c" "State c2 = State c"
    "readChClosed c2 = readChClosed c" "RecvSeqNum c2 = RecvSeqNum c" "readCh c2 = readCh c"
    "overflow c2 = overflow c"
    using conn_inv_drop_acked [of "c\<lparr>SendUnacked := AckNum seg\<rparr>" "AckNum seg"] assms
    by (simp_all add: c2_def conn_key_def)
  then have c3: "conn_inv c3" "conn_key c3 = conn_key c" "State c3 = State c"
    "readChClosed c3 = readChClosed c" "RecvSeqNum c3 = RecvSeqNum c" "readCh c3 = readCh c"
    "overflow c3 = overflow c"
    by (simp_all add: c3_def conn_inv_timers)
  obtain c4 out where p: "pumpSendLocked c3 = Ok (c4, out)" "conn_inv c4"
    using conn_inv_pump [of c3] c3(1) by (auto simp: conn_inv_def)
  then show ?thesis
    using pump_frame [OF p(1)] c3 assms
    unfolding processAck_def Let_def c3_def c2_def by (auto simp: conn_key_def)
qed


lemma rx_ok_push:
  "conn_inv c \<Longrightarrow> length (readCh c) < read_cap \<Longrightarrow> conn_inv (c\<lparr>readCh := readCh c @ [d]\<rparr>)"
  by (simp add: inv_defs read_cap_def)

lemma closeReadChLocked_eq: "closeReadChLocked c = c\<lparr>readChClosed := True\<rparr>"
  by (cases c) (simp add: closeReadChLocked_def)

lemma conn_inv_CLOSE_WAIT:
  "conn_inv c \<Longrightarrow> conn_inv (c\<lparr>RecvSeqNum := x, State := CLOSE_WAIT, readChClosed := b\<rparr>)"
  "conn_inv c \<Longrightarrow> conn_inv (c\<lparr>State := CLOSED, readChClosed := b\<rparr>)"
  by (simp_all add: inv_defs)

lemma established_fin_keeps:
  assumes "stack_inv s" "conn_at s i = Some c" "blocked s = None"
  shows "\<exists>s' out'. established_fin i seg frame from s out = Ok (s', out') \<and> stack_inv s'"
proof -
  let ?c = "c\<lparr>RecvSeqNum := RecvSeqNum c + 1, State := CLOSE_WAIT, readChClosed := True\<rparr>"
  have "stack_inv (put_conn i ?c s)"
    using conn_inv_CLOSE_WAIT(1) [OF stack_inv_conn [OF assms(1,2)]] assms(3)
    by (intro stack_inv_put [OF assms(1,2)]) (simp_all add: conn_key_def)
  with assms show ?thesis
    by (simp add: established_fin_def closeReadChLocked_eq Let_def)
qed

lemma stack_inv_block:
  assumes "stack_inv s" "conn_at s i = Some c" "\<not> readChClosed c"
  shows "stack_inv (s\<lparr>blocked := Some (PushData i data seg frame from)\<rparr>)"
    and "listener_at s l \<noteq> None \<Longrightarrow> stack_inv (s\<lparr>blocked := Some (PushConn l i seg frame from)\<rparr>)"
  using assms by (simp_all add: stack_inv_defs open_conn_def)

lemma stack_inv_unblock: "stack_inv s \<Longrightarrow> stack_inv (s\<lparr>blocked := None\<rparr>)"
  by (simp add: stack_inv_defs)

text \<open>The connection after taking in-order data, before the push, and the acknowledgement sent.\<close>

definition rx_data :: "TCPSegment \<Rightarrow> TCPConnection \<Rightarrow> TCPConnection" where
  "rx_data seg c = c\<lparr>RecvBuffer := [],
     RecvSeqNum := RecvSeqNum c + of_nat (length (tcp_Payload seg))\<rparr>"

definition data_ack :: "TCPSegment \<Rightarrow> EthernetFrame \<Rightarrow> sockaddr \<Rightarrow> TCPConnection \<Rightarrow> emission" where
  "data_ack seg frame src c = (src, out_bytes (rx_data seg c) ACK [] (SendSeqNum c) [] frame)"

lemma rx_data_frame [simp]:
  "conn_key (rx_data seg c) = conn_key c" "State (rx_data seg c) = State c"
  "readChClosed (rx_data seg c) = readChClosed c" "readCh (rx_data seg c) = readCh c"
  "overflow (rx_data seg c) = overflow c" "RecvBuffer (rx_data seg c) = []"
  "RecvSeqNum (rx_data seg c) = RecvSeqNum c + of_nat (length (tcp_Payload seg))"
  "conn_inv c \<Longrightarrow> conn_inv (rx_data seg c)"
  by (simp_all add: rx_data_def inv_defs)

lemma out_bytes_RecvBuffer:
  "out_bytes (c\<lparr>RecvBuffer := b\<rparr>) flags payload sq opts frame = out_bytes c flags payload sq opts frame"
  by (simp add: out_bytes_def out_packet_def out_tcp_def out_checksum_def out_segment_def)

lemma established_data_take:
  assumes "conn_at s i = Some c" "tcp_Payload seg \<noteq> []" "SeqNum seg = RecvSeqNum c"
  shows "established_data i seg frame src s out =
    rbind (push_read (RecvBuffer c @ tcp_Payload seg) (rx_data seg c)) (\<lambda>r. case r of
        None \<Rightarrow> Ok ((put_conn i (rx_data seg c) s)
          \<lparr>blocked := Some (PushData i (RecvBuffer c @ tcp_Payload seg) seg frame src)\<rparr>,
          out @ [data_ack seg frame src c])
      | Some c3 \<Rightarrow> established_fin i seg frame src (put_conn i c3 s) (out @ [data_ack seg frame src c]))"
proof -
  let ?n = "RecvSeqNum c + of_nat (length (tcp_Payload seg))"
  let ?c1 = "c\<lparr>RecvBuffer := RecvBuffer c @ tcp_Payload seg, RecvSeqNum := ?n\<rparr>"
  have "rx_data seg c = ?c1\<lparr>RecvBuffer := []\<rparr>" by (simp add: rx_data_def)
  moreover from this have "data_ack seg frame src c = (src, out_bytes ?c1 ACK [] (SendSeqNum c) [] frame)"
    by (simp only: data_ack_def out_bytes_RecvBuffer)
  moreover have "0 < length (tcp_Payload seg) \<and> SeqNum seg = RecvSeqNum c" using assms by simp
  ultimately show ?thesis
    unfolding established_data_def assms(1) option.case Let_def
    by (simp only: if_True) (simp cong: rbind_cong option.case_cong)
qed

lemma established_data_skip:
  assumes "conn_at s i = Some c" "tcp_Payload seg = [] \<or> SeqNum seg \<noteq> RecvSeqNum c"
  shows "established_data i seg frame src s out = established_fin i seg frame src s out"
proof -
  have "\<not> (0 < length (tcp_Payload seg) \<and> SeqNum seg = RecvSeqNum c)" using assms(2) by auto
  then show ?thesis unfolding established_data_def assms(1) option.case by (rule if_not_P)
qed

lemma established_data_keeps:
  assumes "stack_inv s" "conn_at s i = Some c" "blocked s = None" "\<not> readChClosed c"
  shows "\<exists>s' out'. established_data i seg frame src s out = Ok (s', out') \<and> stack_inv s'"
proof (cases "tcp_Payload seg = [] \<or> SeqNum seg \<noteq> RecvSeqNum c")
  case False
  let ?c = "rx_data seg c" and ?d = "RecvBuffer c @ tcp_Payload seg"
  have inv: "conn_inv ?c" using stack_inv_conn [OF assms(1,2)] by simp
  show ?thesis
  proof (cases "length (readCh ?c) < read_cap")
    case True
    let ?c3 = "?c\<lparr>readCh := readCh ?c @ [?d]\<rparr>"
    have "stack_inv (put_conn i ?c3 s)"
      using rx_ok_push [OF inv True] by (intro stack_inv_put [OF assms(1,2)]) simp_all
    then show ?thesis
      using established_fin_keeps [of "put_conn i ?c3 s" i ?c3] assms True False
      by (simp add: established_data_take push_read_def)
  next
    case full: False
    have "stack_inv (put_conn i ?c s)"
      using inv by (intro stack_inv_put [OF assms(1,2)]) simp_all
    then show ?thesis
      using stack_inv_block(1) [of "put_conn i ?c s" i ?c] assms full False
      by (simp add: established_data_take push_read_def)
  qed
qed (use established_fin_keeps [OF assms(1-3)] established_data_skip [OF assms(2)] in simp)

lemma segment_ESTABLISHED_keeps:
  assumes "stack_inv s" "conn_at s i = Some c" "blocked s = None" "\<not> readChClosed c"
  shows "\<exists>s' out. segment_ESTABLISHED i seg frame from s = Ok (s', out) \<and> stack_inv s'"
proof -
  obtain goon c1 out where a: "processAck seg frame from c = Ok (goon, c1, out)" "conn_inv c1"
    "conn_key c1 = conn_key c" "State c1 = State c" "readChClosed c1 = readChClosed c"
    using processAck_keeps [OF stack_inv_conn [OF assms(1,2)]] by blast
  have put: "stack_inv (put_conn i c1 s)"
    by (rule stack_inv_put [OF assms(1,2)]) (simp_all add: a)
  show ?thesis
    using established_data_keeps [OF put, of i c1] assms a put
    by (simp add: segment_ESTABLISHED_def)
qed


lemma abortConnection_keeps:
  assumes "stack_inv s" "conn_at s i = Some c" "blocked s = None"
  shows "\<exists>s' out. abortConnection i s = Ok (s', out) \<and> stack_inv s'"
proof -
  let ?c = "((stopRTOLocked (c\<lparr>State := CLOSED\<rparr>))\<lparr>sendQueue := [], sendUnsent := []\<rparr>)
    \<lparr>readChClosed := True\<rparr>"
  have k: "conn_key ?c = conn_key c"
    by (simp add: stopRTOLocked_def Let_def conn_key_def)
  have "conn_inv ?c"
    using stack_inv_conn [OF assms(1,2)] by (simp add: inv_defs timer_defs)
  then have "stack_inv (drop_key (conn_key c) (put_conn i ?c s))"
    using assms k by (intro stack_inv_close) simp_all
  then show ?thesis
    using assms k by (simp add: abortConnection_def Let_def closeReadChLocked_eq)
qed

lemma removeConnection_CLOSED_keeps:
  assumes "stack_inv s" "conn_at s i = Some c"
  shows "\<exists>s' out. removeConnection i (put_conn i (c\<lparr>State := CLOSED\<rparr>) s) = Ok (s', out) \<and> stack_inv s'"
proof -
  let ?c = "(stopRTOLocked (c\<lparr>State := CLOSED\<rparr>))\<lparr>sendQueue := [], sendUnsent := []\<rparr>"
  have k: "conn_key ?c = conn_key c" "readChClosed ?c = readChClosed c"
    by (simp_all add: stopRTOLocked_def Let_def conn_key_def)
  have "conn_inv ?c"
    using stack_inv_conn [OF assms] by (simp add: inv_defs timer_defs)
  then have "stack_inv (drop_key (conn_key c) (put_conn i ?c s))"
    using assms k by (intro stack_inv_close) simp_all
  then show ?thesis
    using assms k by (simp add: removeConnection_def Let_def)
qed

lemma timeWaitCleanup_keeps:
  assumes "stack_inv s" "n < length (sleepers s)"
  shows "\<exists>s' out. timeWaitCleanup n s = Ok (s', out) \<and> stack_inv s'"
proof -
  let ?s = "s\<lparr>sleepers := take n (sleepers s) @ drop (Suc n) (sleepers s)\<rparr>"
  have "stack_inv ?s"
    using assms(1) by (auto simp: stack_inv_defs open_conn_def dest: in_set_takeD in_set_dropD
        split: option.splits pending.splits)
  moreover obtain c where "conn_at s (sleepers s ! n) = Some c"
    using assms by (force simp: stack_inv_defs)
  ultimately show ?thesis
    using removeConnection_CLOSED_keeps [of ?s "sleepers s ! n" c]
    by (simp add: timeWaitCleanup_def Let_def)
qed

lemma start_time_wait_keeps:
  assumes "stack_inv s" "conn_at s i = Some c" "conn_inv c'" "conn_key c' = conn_key c"
    "readChClosed c' = readChClosed c"
  shows "stack_inv (start_time_wait i c' s)"
proof -
  have "stack_inv (put_conn i (c'\<lparr>State := TIME_WAIT\<rparr>) s)"
    using assms conn_inv_State [of c' TIME_WAIT]
    by (intro stack_inv_put [OF assms(1,2)]) (simp_all add: conn_key_def)
  then show ?thesis
    by (auto simp: start_time_wait_def Let_def stack_inv_defs open_conn_def
        split: option.splits pending.splits)
qed

lemma segment_FIN_WAIT_1_keeps:
  assumes "stack_inv s" "conn_at s i = Some c" "State c \<noteq> CLOSED"
  shows "\<exists>s' out. segment_FIN_WAIT_1 i seg frame from s = Ok (s', out) \<and> stack_inv s'"
proof -
  obtain goon c1 out where a: "processAck seg frame from c = Ok (goon, c1, out)" "conn_inv c1"
    "conn_key c1 = conn_key c" "State c1 = State c" "readChClosed c1 = readChClosed c"
    using processAck_keeps [OF stack_inv_conn [OF assms(1,2)]] by blast
  let ?c2 = "c1\<lparr>RecvSeqNum := RecvSeqNum c1 + 1\<rparr>"
  have "Flags seg AND ACK \<noteq> 0" if "goon"
    using a(1) that by (auto simp: processAck_def split: if_splits)
  moreover have "stack_inv (put_conn i c1 s)"
    by (rule stack_inv_put [OF assms(1,2)]) (simp_all add: a)
  moreover have "stack_inv (start_time_wait i ?c2 s)"
    by (rule start_time_wait_keeps [OF assms(1,2)]) (simp_all add: a)
  moreover have "stack_inv (put_conn i (c1\<lparr>State := FIN_WAIT_2\<rparr>) s)"
    using conn_inv_State [OF a(2), of FIN_WAIT_2] a(5)
    by (intro stack_inv_put [OF assms(1,2)]) (simp_all add: a)
  ultimately show ?thesis
    using assms a(1) by (auto simp: segment_FIN_WAIT_1_def Let_def)
qed

lemma segment_FIN_WAIT_2_keeps:
  assumes "stack_inv s" "conn_at s i = Some c"
  shows "\<exists>s' out. segment_FIN_WAIT_2 i seg frame from s = Ok (s', out) \<and> stack_inv s'"
proof -
  have "stack_inv (start_time_wait i (c\<lparr>RecvSeqNum := RecvSeqNum c + 1\<rparr>) s)"
    using stack_inv_conn [OF assms]
    by (intro start_time_wait_keeps [OF assms]) (simp_all add: conn_key_def)
  with assms show ?thesis by (auto simp: segment_FIN_WAIT_2_def Let_def)
qed

lemma segment_LAST_ACK_keeps:
  assumes "stack_inv s" "conn_at s i = Some c"
  shows "\<exists>s' out. segment_LAST_ACK i seg s = Ok (s', out) \<and> stack_inv s'"
  using removeConnection_CLOSED_keeps [OF assms] assms by (auto simp: segment_LAST_ACK_def)

lemma stack_inv_listener:
  assumes "stack_inv s" "listener_at s l = Some L" "length q \<le> accept_cap"
    "\<forall>i \<in> set q. conn_at s i \<noteq> None"
  shows "stack_inv (put_listener l (L\<lparr>lst_accept := q\<rparr>) s)"
  unfolding stack_inv_def
proof (intro conjI)
  show "blocked_ok (put_listener l (L\<lparr>lst_accept := q\<rparr>) s)"
    using assms by (auto simp: stack_inv_def blocked_ok_def open_conn_def split: option.splits pending.splits)
  show "listeners_ok (put_listener l (L\<lparr>lst_accept := q\<rparr>) s)"
    using assms by (fastforce simp: stack_inv_def listeners_ok_def)
qed (use assms in \<open>auto simp: stack_inv_def table_ok_def heap_ok_def sleepers_ok_def\<close>)

lemma segment_SYN_RECEIVED_keeps:
  assumes "stack_inv s" "conn_at s i = Some c" "blocked s = None" "State c = SYN_RECEIVED"
  shows "\<exists>s' out. segment_SYN_RECEIVED i seg frame from s = Ok (s', out) \<and> stack_inv s'"
proof -
  define c1 where "c1 = c\<lparr>State := ESTABLISHED, SendUnacked := AckNum seg, SendWindow := Window seg\<rparr>"
  define s1 where "s1 = put_conn i c1 s"
  have inv: "conn_inv c1" "\<not> readChClosed c1"
    using stack_inv_conn [OF assms(1,2)] assms(4) by (simp_all add: c1_def inv_defs)
  have s1: "stack_inv s1" unfolding s1_def
    using inv by (intro stack_inv_put [OF assms(1,2)]) (simp_all add: c1_def conn_key_def)
  have at: "conn_at s1 i = Some c1" "blocked s1 = None" using assms by (simp_all add: s1_def)
  have eq: "segment_SYN_RECEIVED i seg frame from s = (if Flags seg AND ACK = 0 then Ok (s, []) else
      (case listeners s1 (LocalPort c1) of None \<Rightarrow> segment_ESTABLISHED i seg frame from s1
       | Some l \<Rightarrow> (case listener_at s1 l of None \<Rightarrow> Panic
           | Some L \<Rightarrow> if length (lst_accept L) < accept_cap then segment_ESTABLISHED i seg frame from
                 (put_listener l (L\<lparr>lst_accept := lst_accept L @ [i]\<rparr>) s1)
               else Ok (s1\<lparr>blocked := Some (PushConn l i seg frame from)\<rparr>, []))))"
    unfolding segment_SYN_RECEIVED_def assms(2) s1_def c1_def Let_def by simp
  show ?thesis
  proof (cases "listeners s1 (LocalPort c1)")
    case None
    then show ?thesis
      unfolding eq using segment_ESTABLISHED_keeps [OF s1 at inv(2)] assms(1) by simp
  next
    case (Some l)
    then obtain L where L: "listener_at s1 l = Some L" "\<forall>j \<in> set (lst_accept L). conn_at s1 j \<noteq> None"
      using s1 by (fastforce simp: stack_inv_def listeners_ok_def)
    let ?s2 = "put_listener l (L\<lparr>lst_accept := lst_accept L @ [i]\<rparr>) s1"
    have "stack_inv ?s2" if "length (lst_accept L) < accept_cap"
      using that L at by (intro stack_inv_listener [OF s1 L(1)]) auto
    then show ?thesis
      unfolding eq using Some L assms(1) at inv stack_inv_block(2) [OF s1 at(1) inv(2), of l]
        segment_ESTABLISHED_keeps [of ?s2 i c1] by simp
  qed
qed

lemma handleSegment_keeps:
  assumes "stack_inv s" "conn_at s i = Some c" "blocked s = None"
  shows "\<exists>s' out. handleSegment i seg frame from s = Ok (s', out) \<and> stack_inv s'"
proof -
  have inv: "State c \<noteq> CLOSING" "State c = ESTABLISHED \<Longrightarrow> \<not> readChClosed c"
    using stack_inv_conn [OF assms(1,2)] by (auto simp: inv_defs)
  show ?thesis
    using segment_SYN_RECEIVED_keeps [OF assms] segment_ESTABLISHED_keeps [OF assms]
      segment_FIN_WAIT_1_keeps [OF assms(1,2)] segment_FIN_WAIT_2_keeps [OF assms(1,2)]
      segment_LAST_ACK_keeps [OF assms(1,2)] abortConnection_keeps [OF assms] assms(1) inv
    by (cases "State c") (auto simp: handleSegment_def assms(2))
qed


subsection \<open>Every event keeps the invariant\<close>

lemma stack_inv_fresh: "stack_inv s \<Longrightarrow> conn_at s (next_conn s) = None"
  by (cases "conn_at s (next_conn s)") (auto simp: stack_inv_def heap_ok_def)

lemma effective_MSS_spec:
  "\<exists>m. effective_MSS opts = Ok m \<and> unat m \<le> 1460
     \<and> (parseMSSOption opts = Ok None \<longrightarrow> m = 536)
     \<and> (\<forall>v. parseMSSOption opts = Ok (Some v) \<longrightarrow> m = min v 1460)"
proof -
  obtain r where "parseMSSOption opts = Ok r" using parseMSSOption_total [of opts] by blast
  then show ?thesis
    by (auto simp: effective_MSS_def Let_def ourMSS_def defaultMSS_def word_le_nat_alt
        word_less_nat_alt min_def split: option.splits)
qed

definition SYN_stack :: "Stack \<Rightarrow> ConnectionKey \<Rightarrow> TCPConnection \<Rightarrow> Stack" where
  "SYN_stack s key c = (put_conn (next_conn s) c s)
     \<lparr>next_conn := next_conn s + 1, connections := (connections s)(key \<mapsto> next_conn s)\<rparr>"

lemma handleSYN_spec:
  "\<exists>m. effective_MSS (Options seg) = Ok m \<and> handleSYN isn pkt seg frame key from s =
     (let c = new_conn isn m pkt seg frame from in
      Ok (SYN_stack s key (c\<lparr>SendSeqNum := isn + 1\<rparr>),
          [(from, out_bytes c (SYN OR ACK) [] isn (buildMSSOption ourMSS) frame)]))"
proof -
  obtain m where "effective_MSS (Options seg) = Ok m" using effective_MSS_spec by blast
  then show ?thesis
    by (simp add: handleSYN_def Let_def SYN_stack_def) (simp add: new_conn_def put_conn_def)
qed

lemma stack_inv_SYN:
  assumes "stack_inv s" "conn_inv c" "conn_key c = key" "State c \<noteq> CLOSED"
  shows "stack_inv (SYN_stack s key c)"
proof -
  note fresh = stack_inv_fresh [OF assms(1)]
  have lt: "i < Suc (next_conn s)" if "conn_at s i = Some d" for i d
    using assms(1) that by (fastforce simp: stack_inv_def heap_ok_def)
  show ?thesis unfolding stack_inv_def
  proof (intro conjI)
    show "table_ok (SYN_stack s key c)"
      using assms fresh by (fastforce simp: SYN_stack_def stack_inv_def table_ok_def)
    show "heap_ok (SYN_stack s key c)"
      using assms lt by (auto simp: SYN_stack_def stack_inv_def heap_ok_def)
    show "listeners_ok (SYN_stack s key c)" "sleepers_ok (SYN_stack s key c)"
      using assms by (auto simp: SYN_stack_def stack_inv_def listeners_ok_def sleepers_ok_def)
    show "blocked_ok (SYN_stack s key c)"
      using assms(1) fresh by (auto simp: SYN_stack_def stack_inv_def blocked_ok_def open_conn_def
          split: option.splits pending.splits)
  qed
qed

lemma new_conn_keeps:
  assumes "effective_MSS opts = Ok m"
  shows "conn_inv ((new_conn isn m pkt seg frame from)\<lparr>SendSeqNum := q\<rparr>)"
    "conn_key (new_conn isn m pkt seg frame from) = segment_key pkt seg"
    "State (new_conn isn m pkt seg frame from) = SYN_RECEIVED"
  using effective_MSS_spec [of opts] assms
  by (simp_all add: new_conn_def inv_defs conn_key_def segment_key_def)

lemma dispatch_keeps:
  assumes "stack_inv s" "blocked s = None"
  shows "\<exists>s' out. dispatch isn pkt seg frame from s = Ok (s', out) \<and> stack_inv s'"
proof (cases "connections s (segment_key pkt seg)")
  case None
  obtain m where m: "effective_MSS (Options seg) = Ok m"
    and eq: "handleSYN isn pkt seg frame (segment_key pkt seg) from s =
      (let c = new_conn isn m pkt seg frame from in
        Ok (SYN_stack s (segment_key pkt seg) (c\<lparr>SendSeqNum := isn + 1\<rparr>),
          [(from, out_bytes c (SYN OR ACK) [] isn (buildMSSOption ourMSS) frame)]))"
    using handleSYN_spec by blast
  have "stack_inv (SYN_stack s (segment_key pkt seg)
      ((new_conn isn m pkt seg frame from)\<lparr>SendSeqNum := isn + 1\<rparr>))"
    using new_conn_keeps [OF m] by (intro stack_inv_SYN [OF assms(1)]) simp_all
  with None assms(1) eq show ?thesis by (simp add: dispatch_def Let_def)
next
  case (Some i)
  then obtain c where "conn_at s i = Some c" using stack_inv_table [OF assms(1)] by blast
  from handleSegment_keeps [OF assms(1) this assms(2)] Some show ?thesis
    by (simp add: dispatch_def Let_def)
qed

lemma handleRaw_keeps:
  assumes "stack_inv s" "blocked s = None"
  shows "\<exists>s' out. handleRaw isn data from s = Ok (s', out) \<and> stack_inv s'"
  using dispatch_keeps [OF assms] assms(1) parsers_total
  by (auto simp: handleRaw_def split: res.splits)

lemma recv_resume_keeps:
  assumes "stack_inv s"
  shows "\<exists>s' out. recv_resume s = Ok (s', out) \<and> stack_inv s'"
proof (cases "blocked s")
  case (Some p)
  show ?thesis
  proof (cases p)
    case (PushConn l i seg frame src)
    then obtain L c where at: "listener_at s l = Some L" "conn_at s i = Some c" "\<not> readChClosed c"
      using assms Some by (auto simp: stack_inv_def blocked_ok_def open_conn_def)
    let ?s = "put_listener l (L\<lparr>lst_accept := lst_accept L @ [i]\<rparr>) s"
    have "stack_inv (?s\<lparr>blocked := None\<rparr>)" if "length (lst_accept L) < accept_cap"
      using that assms at
      by (intro stack_inv_unblock stack_inv_listener [OF assms at(1)])
        (auto simp: stack_inv_def listeners_ok_def)
    then show ?thesis
      using segment_ESTABLISHED_keeps [of "?s\<lparr>blocked := None\<rparr>" i c] at assms Some PushConn
      by (simp add: recv_resume_def)
  next
    case (PushData i data seg frame src)
    then obtain c where at: "conn_at s i = Some c" "\<not> readChClosed c"
      using assms Some by (auto simp: stack_inv_def blocked_ok_def open_conn_def)
    let ?c = "c\<lparr>readCh := readCh c @ [data]\<rparr>"
    have "stack_inv ((put_conn i ?c s)\<lparr>blocked := None\<rparr>)" if "length (readCh c) < read_cap"
      using that rx_ok_push [OF stack_inv_conn [OF assms at(1)] that]
      by (intro stack_inv_unblock stack_inv_put [OF assms at(1)]) simp_all
    then show ?thesis
      using established_fin_keeps [of "(put_conn i ?c s)\<lparr>blocked := None\<rparr>" i ?c] at assms Some
        PushData
      by (simp add: recv_resume_def push_read_def)
  qed
qed (use assms in \<open>simp add: recv_resume_def\<close>)

lemma stack_inv_Listen: "stack_inv s \<Longrightarrow> stack_inv (snd (stack_Listen p s))"
  unfolding stack_inv_def
proof (elim conjE, intro conjI)
  assume "listeners_ok s"
  then show "listeners_ok (snd (stack_Listen p s))"
    by (fastforce simp: stack_Listen_def Let_def listeners_ok_def accept_cap_def)
qed (auto simp: stack_Listen_def Let_def table_ok_def heap_ok_def sleepers_ok_def blocked_ok_def
    open_conn_def split: option.splits pending.splits)

lemma stack_inv_Accept: "stack_inv s \<Longrightarrow> stack_Accept l s = Some (i, s') \<Longrightarrow> stack_inv s'"
proof (clarsimp simp: stack_Accept_def split: option.splits list.splits)
  fix L q assume "stack_inv s" "listener_at s l = Some L" "lst_accept L = i # q"
  then show "stack_inv (put_listener l (L\<lparr>lst_accept := q\<rparr>) s)"
    by (intro stack_inv_listener) (fastforce simp: stack_inv_def listeners_ok_def)+
qed

lemma exec_keeps:
  assumes "stack_inv s"
  shows "\<exists>s' out. exec e s = Ok (s', out) \<and> stack_inv s'"
proof (cases e)
  case (OnConn i opn)
  then show ?thesis using assms app_run_lifted [OF assms, of i _ opn]
    by (cases "conn_at s i") fastforce+
qed (use assms handleRaw_keeps recv_resume_keeps timeWaitCleanup_keeps stack_inv_Listen
      stack_inv_Accept in \<open>auto split: option.splits\<close>)

lemma run_events_keeps:
  "stack_inv s \<Longrightarrow> \<exists>s' out. run_events es s = Ok (s', out) \<and> stack_inv s'"
proof (induction es arbitrary: s)
  case (Cons e es)
  then obtain s1 o1 where "exec e s = Ok (s1, o1)" "stack_inv s1" using exec_keeps by blast
  with Cons.IH show ?case by fastforce
qed simp

lemma reachable_inv: "reachable s \<Longrightarrow> stack_inv s"
proof (induction rule: reachable.induct)
  case (step s e s' out)
  then show ?case using exec_keeps [of s e] by auto
qed (rule stack_inv_NewStack)

lemma recvLoop_keeps: "stack_inv s \<Longrightarrow> \<exists>s' out. recvLoop rs s = Ok (s', out) \<and> stack_inv s'"
  unfolding recvLoop_run by (rule run_events_keeps)

end
