(* ===== verification/Tcp_Behaviour.thy ===== *)
theory Tcp_Behaviour
  imports Tcp_Stack
begin

unbundle bit_operations_syntax

section \<open>What the stack promises (tcp/stack.go)\<close>

text \<open>
  The properties of the stack: no event makes it panic, a segment reaches one connection only, the
  three-way handshake, what an acknowledgement releases, in-order delivery, resets, the two ends of
  the stream, and the state diagram that the code implements. Deviations from the protocol that the
  code has are stated at the end as theorems about the code.
\<close>

subsection \<open>Safety of every run\<close>

text \<open>
  C6: whatever frames arrive, and however they interleave with listening, accepting, reading,
  writing, closing, timer expiries and TIME-WAIT cleanups, no operation of the stack panics (no
  index out of range, nil dereference, reset of a nil timer or send on a closed channel), and the
  stack invariant holds after every run: the table maps each four-tuple to a live connection of
  that four-tuple, unacknowledged data has a running timer, segments fit the MSS, channels stay
  within their capacity.
\<close>

theorem stack_never_panics:
  "\<exists>s out. run_events es NewStack = Ok (s, out) \<and> stack_inv s"
  by (rule run_events_keeps [OF stack_inv_NewStack])

lemma run_events_append:
  "run_events (es @ fs) s =
     rbind (run_events es s) (\<lambda>(s1, o1). rbind (run_events fs s1) (\<lambda>(s2, o2). Ok (s2, o1 @ o2)))"
proof (induction es arbitrary: s)
  case Nil
  show ?case by (cases "run_events fs s") auto
next
  case (Cons e es)
  show ?case
    by (cases "exec e s") (auto simp: Cons.IH rbind_assoc case_prod_unfold)
qed

lemma reachable_iff_run: "reachable s \<longleftrightarrow> (\<exists>es out. run_events es NewStack = Ok (s, out))"
proof
  assume "reachable s"
  then show "\<exists>es out. run_events es NewStack = Ok (s, out)"
  proof induction
    case start
    have "run_events [] NewStack = Ok (NewStack, [])" by simp
    then show ?case by blast
  next
    case (step s e s' out)
    then obtain es o1 where "run_events es NewStack = Ok (s, o1)" by blast
    with step(2) have "run_events (es @ [e]) NewStack = Ok (s', o1 @ out)"
      by (simp add: run_events_append)
    then show ?case by blast
  qed
next
  assume "\<exists>es out. run_events es NewStack = Ok (s, out)"
  then obtain es out where "run_events es NewStack = Ok (s, out)" by blast
  moreover have "reachable s0 \<Longrightarrow> run_events es s0 = Ok (s, out) \<Longrightarrow> reachable s" for s0
  proof (induction es arbitrary: s0 out)
    case (Cons e es)
    from Cons.prems(2) obtain s1 o1 o2 where "exec e s0 = Ok (s1, o1)" "run_events es s1 = Ok (s, o2)"
      by (auto simp: rbind_eqs)
    with Cons.IH [of s1] Cons.prems(1) reachable.step show ?case by blast
  qed simp
  ultimately show "reachable s" using reachable.start by blast
qed

subsection \<open>Isolation\<close>

text \<open>
  Only connection \<open>i\<close> and the table entry \<open>k\<close> may differ; a goroutine started or a send left
  blocked is about \<open>i\<close>.
\<close>

fun pending_conn :: "pending \<Rightarrow> nat" where
  "pending_conn (PushConn l i seg frame src) = i"
| "pending_conn (PushData i data seg frame src) = i"

definition only_conn :: "nat \<Rightarrow> ConnectionKey \<Rightarrow> Stack \<Rightarrow> Stack \<Rightarrow> bool" where
  "only_conn i k s s' \<longleftrightarrow> (\<forall>j. j \<noteq> i \<longrightarrow> conn_at s' j = conn_at s j)
     \<and> (\<forall>k'. k' \<noteq> k \<longrightarrow> connections s' k' = connections s k') \<and> listeners s' = listeners s
     \<and> set (sleepers s') \<subseteq> insert i (set (sleepers s))
     \<and> (blocked s' = blocked s \<or> (\<exists>p. blocked s' = Some p \<and> pending_conn p = i))"

lemma only_conn_refl [simp]: "only_conn i k s s"
  by (auto simp: only_conn_def)

lemma only_conn_put [simp]: "only_conn i k s (put_conn i c s') = only_conn i k s s'"
  by (auto simp: only_conn_def)

lemma only_conn_listener [simp]: "only_conn i k s (put_listener l L s') = only_conn i k s s'"
  by (simp add: only_conn_def)

lemma only_conn_drop [simp]: "only_conn i k s s' \<Longrightarrow> only_conn i k s (drop_key k s')"
  by (simp add: only_conn_def)

lemma only_conn_blocked [simp]:
  "only_conn i k s s' \<Longrightarrow> pending_conn p = i \<Longrightarrow> only_conn i k s (s'\<lparr>blocked := Some p\<rparr>)"
  "only_conn i k s s' \<Longrightarrow> only_conn i k s (start_time_wait i c s')"
  by (auto simp: only_conn_def start_time_wait_def Let_def)

lemma established_fin_only:
  "established_fin i seg frame src s1 out = Ok (s', out') \<Longrightarrow> only_conn i k s s1
     \<Longrightarrow> only_conn i k s s'"
  by (auto simp: established_fin_def Let_def split: option.splits if_splits)

lemma established_data_only:
  assumes "established_data i seg frame src s1 out = Ok (s', out')" "only_conn i k s s1"
  shows "only_conn i k s s'"
proof (cases "conn_at s1 i")
  case (Some c)
  show ?thesis
  proof (cases "tcp_Payload seg = [] \<or> SeqNum seg \<noteq> RecvSeqNum c")
    case True
    from established_data_skip [OF Some this] assms established_fin_only show ?thesis by simp
  next
    case False
    then show ?thesis
      using assms established_fin_only [of i seg frame src _ _ s' out' k s]
      by (auto simp: established_data_take [OF Some] push_read_def split: if_splits)
  qed
qed (use assms in \<open>simp add: established_data_def\<close>)

lemma segment_ESTABLISHED_only:
  "segment_ESTABLISHED i seg frame src s1 = Ok (s', out') \<Longrightarrow> only_conn i k s s1
     \<Longrightarrow> only_conn i k s s'"
  by (auto simp: segment_ESTABLISHED_def rbind_eqs split: option.splits if_splits
      intro: established_data_only)

lemma removeConnection_only:
  "removeConnection i s1 = Ok (s', out') \<Longrightarrow> conn_at s1 i = Some c \<Longrightarrow> only_conn i (conn_key c) s s1
     \<Longrightarrow> only_conn i (conn_key c) s s'"
  by (auto simp: removeConnection_def Let_def stopRTOLocked_def conn_key_def split: if_splits)

lemma handleSegment_only:
  assumes "handleSegment i seg frame src s = Ok (s', out)" "conn_at s i = Some c" "conn_key c = k"
  shows "only_conn i k s s'"
proof -
  have ab: "only_conn i k s s'" if "abortConnection i s = Ok (s', out)"
    using that assms by (auto simp: abortConnection_def Let_def closeReadChLocked_eq
        stopRTOLocked_def conn_key_def split: if_splits)
  have la: "only_conn i k s s'" if "segment_LAST_ACK i seg s = Ok (s', out)"
    using that assms(2,3) removeConnection_only [of i "put_conn i (c\<lparr>State := CLOSED\<rparr>) s" s' out "c\<lparr>State := CLOSED\<rparr>" s]
    by (auto simp: segment_LAST_ACK_def split: if_splits)
  have sr: "only_conn i k s s'" if "segment_SYN_RECEIVED i seg frame src s = Ok (s', out)"
    using that assms(2) unfolding segment_SYN_RECEIVED_def Let_def
    by (auto split: if_splits option.splits dest!: segment_ESTABLISHED_only [where s = s and k = k])
  have f1: "only_conn i k s s'" if "segment_FIN_WAIT_1 i seg frame src s = Ok (s', out)"
    using that assms(2) unfolding segment_FIN_WAIT_1_def Let_def
    by (auto simp: rbind_eqs split: if_splits)
  have f2: "only_conn i k s s'"
    if "segment_FIN_WAIT_2 i seg frame src s = Ok (s', out) \<or> segment_CLOSING i seg s = Ok (s', out)"
    using that assms(2) unfolding segment_FIN_WAIT_2_def segment_CLOSING_def Let_def
    by (auto split: if_splits)
  show ?thesis
    using assms(1,2) ab la sr f1 f2 segment_ESTABLISHED_only [of i seg frame src s s' out]
    by (auto simp: handleSegment_def split: if_splits TCPState.splits)
qed

text \<open>
  C18: isolation. A segment changes at most the connection of its own four-tuple: every other
  connection object and every other table entry stay as they are, and the listeners' table is not
  touched, whatever the segment holds.
\<close>

theorem segment_reaches_one_connection:
  assumes "stack_inv s" "dispatch isn pkt seg frame src s = Ok (s', out)"
    "conn_at s j = Some c" "conn_key c \<noteq> segment_key pkt seg"
  shows "conn_at s' j = Some c \<and> connections s' (conn_key c) = connections s (conn_key c)
    \<and> listeners s' = listeners s"
proof (cases "connections s (segment_key pkt seg)")
  case None
  have "next_conn s \<noteq> j" using stack_inv_fresh [OF assms(1)] assms(3) by auto
  moreover obtain m where "handleSYN isn pkt seg frame (segment_key pkt seg) src s =
      (let c = new_conn isn m pkt seg frame src in
        Ok (SYN_stack s (segment_key pkt seg) (c\<lparr>SendSeqNum := isn + 1\<rparr>),
          [(src, out_bytes c (SYN OR ACK) [] isn (buildMSSOption ourMSS) frame)]))"
    using handleSYN_spec by blast
  ultimately show ?thesis
    using assms(2-4) None by (auto simp: dispatch_def Let_def SYN_stack_def split: if_splits)
next
  case (Some i)
  then obtain d where d: "conn_at s i = Some d" "conn_key d = segment_key pkt seg"
    using stack_inv_table [OF assms(1)] by blast
  have "handleSegment i seg frame src s = Ok (s', out)"
    using assms(2) Some by (simp add: dispatch_def Let_def)
  from handleSegment_only [OF this d] d assms(3,4) show ?thesis
    by (cases "j = i") (auto simp: only_conn_def)
qed

subsection \<open>Opening a connection\<close>

text \<open>
  C23: a SYN to a listening port, from a four-tuple without a connection, opens one in SYN-RECEIVED
  that expects the next sequence number, sends from the chosen initial number and keeps segments
  within both sides' MSS; and the only frame sent is the SYN+ACK that the peer's parsers read back:
  its ports, addresses and numbers answer the SYN, and it advertises an MSS of 1460.
\<close>

theorem SYN_opens_connection:
  assumes "listeners s (DestPort seg) \<noteq> None" "connections s (segment_key pkt seg) = None"
    "Flags seg AND SYN \<noteq> 0"
  shows "\<exists>s' reply i c f p t. dispatch isn pkt seg frame src s = Ok (s', [(src, reply)])
    \<and> connections s' (segment_key pkt seg) = Some i \<and> conn_at s' i = Some c
    \<and> conn_key c = segment_key pkt seg \<and> State c = SYN_RECEIVED
    \<and> RecvSeqNum c = SeqNum seg + 1 \<and> SendSeqNum c = isn + 1 \<and> SendUnacked c = isn
    \<and> effective_MSS (Options seg) = Ok (MSS c) \<and> unat (MSS c) \<le> 1460
    \<and> parse_layers reply = Ok (f, p, t) \<and> Flags t = SYN OR ACK \<and> SeqNum t = isn
    \<and> AckNum t = SeqNum seg + 1 \<and> SourcePort t = DestPort seg \<and> DestPort t = SourcePort seg
    \<and> ip_SrcIP p = ip_DstIP pkt \<and> ip_DstIP p = ip_SrcIP pkt \<and> DstMAC f = SrcMAC frame
    \<and> parseMSSOption (Options t) = Ok (Some 1460)"
proof -
  obtain m where m: "effective_MSS (Options seg) = Ok m"
    and eq: "handleSYN isn pkt seg frame (segment_key pkt seg) src s =
      (let c = new_conn isn m pkt seg frame src in
        Ok (SYN_stack s (segment_key pkt seg) (c\<lparr>SendSeqNum := isn + 1\<rparr>),
          [(src, out_bytes c (SYN OR ACK) [] isn (buildMSSOption ourMSS) frame)]))"
    using handleSYN_spec by blast
  define c where "c = new_conn isn m pkt seg frame src"
  let ?c = "c\<lparr>SendSeqNum := isn + 1\<rparr>"
  let ?r = "out_bytes c (SYN OR ACK) [] isn (buildMSSOption ourMSS) frame"
  have d: "dispatch isn pkt seg frame src s = Ok (SYN_stack s (segment_key pkt seg) ?c, [(src, ?r)])"
    using assms eq by (simp add: dispatch_def Let_def c_def)
  obtain f p t where "parse_layers ?r = Ok (f, p, t)" "DstMAC f = SrcMAC frame"
    "ip_SrcIP p = LocalIP c" "ip_DstIP p = RemoteIP c"
    "t = (out_segment c (SYN OR ACK) [] isn (buildMSSOption ourMSS))
        \<lparr>tcp_Checksum := out_checksum c (SYN OR ACK) [] isn (buildMSSOption ourMSS)\<rparr>"
    using parse_layers_out_bytes [of "buildMSSOption ourMSS" "[]" c "SYN OR ACK" isn frame "[]"] by auto
  moreover have "unat m \<le> 1460" using effective_MSS_spec [of "Options seg"] m by auto
  moreover have "conn_key c = segment_key pkt seg" using m by (simp add: c_def new_conn_keeps)
  ultimately show ?thesis
    using m by (intro exI [of _ "SYN_stack s (segment_key pkt seg) ?c"] exI [of _ ?r]
        exI [of _ "next_conn s"] exI [of _ ?c] exI [of _ f] exI [of _ p] exI [of _ t])
      (simp add: d, simp add: SYN_stack_def c_def new_conn_def out_segment_def ourMSS_def)
qed

definition sample_frame :: EthernetFrame where
  "sample_frame = \<lparr>DstMAC = MAC 2 0 0 0 0 1, SrcMAC = MAC 2 0 0 0 0 2, EtherType = 0x0800,
     eth_Payload = []\<rparr>"

definition sample_pkt :: IPv4Packet where
  "sample_pkt = \<lparr>Version = 4, IHL = 5, TotalLen = 40, TTL = 64, Protocol = 6, ip_Checksum = 0,
     ip_SrcIP = IP4 10 0 0 2, ip_DstIP = IP4 10 0 0 1, ip_Payload = []\<rparr>"

definition sample_seg :: "byte \<Rightarrow> u32 \<Rightarrow> u32 \<Rightarrow> bytes \<Rightarrow> TCPSegment" where
  "sample_seg flags sq ack payload = \<lparr>SourcePort = 40000, DestPort = 80, SeqNum = sq, AckNum = ack,
     DataOffset = 5, Reserved = 0, Flags = flags, Window = 500, tcp_Checksum = 0, UrgPointer = 0,
     Options = [], tcp_Payload = payload\<rparr>"

theorem SYN_opens_connection_witness:
  "\<exists>s' reply i c f p t. dispatch 700 sample_pkt (sample_seg SYN 100 0 []) sample_frame 7
      (snd (stack_Listen 80 NewStack)) = Ok (s', [(7, reply)])
    \<and> connections s' (segment_key sample_pkt (sample_seg SYN 100 0 [])) = Some i
    \<and> conn_at s' i = Some c \<and> RecvSeqNum c = 101 \<and> SendSeqNum c = 701
    \<and> parse_layers reply = Ok (f, p, t) \<and> AckNum t = 101"
  using SYN_opens_connection [of "snd (stack_Listen 80 NewStack)" "sample_seg SYN 100 0 []" sample_pkt
      700 sample_frame 7]
  by (force simp: stack_Listen_def Let_def NewStack_def sample_seg_def SYN_def)

text \<open>A segment that carries no payload and no FIN ends the ESTABLISHED branch.\<close>

lemma established_data_idle:
  assumes "conn_at s i = Some c" "tcp_Payload seg = []" "Flags seg AND FIN = 0"
  shows "established_data i seg frame src s out = Ok (s, out)"
  using assms by (simp add: established_data_skip established_fin_def)

text \<open>
  The third segment of the handshake. In SYN-RECEIVED, the acknowledgement of the SYN+ACK moves
  the connection to ESTABLISHED, takes over the peer's window, and puts the connection at the end of
  the accept queue of its port's listener, from where \<^verbatim>\<open>Accept\<close> returns it; nothing is sent.
\<close>

theorem handshake_completes:
  assumes "conn_at s i = Some c" "State c = SYN_RECEIVED" "sendUnsent c = []"
    "listeners s (LocalPort c) = Some l" "listener_at s l = Some L" "lst_accept L = q" "length q < 16"
    "Flags seg = ACK" "AckNum seg = SendSeqNum c" "tcp_Payload seg = []"
  shows "\<exists>s' c'. handleSegment i seg frame src s = Ok (s', []) \<and> conn_at s' i = Some c'
    \<and> State c' = ESTABLISHED \<and> SendUnacked c' = SendSeqNum c \<and> SendWindow c' = Window seg
    \<and> conn_key c' = conn_key c \<and> RecvSeqNum c' = RecvSeqNum c
    \<and> (\<exists>s''. listener_at s' l = Some (L\<lparr>lst_accept := q @ [i]\<rparr>)
          \<and> stack_Accept l s' = Some (hd (q @ [i]), s''))"
proof -
  define c1 where "c1 = c\<lparr>State := ESTABLISHED, SendUnacked := AckNum seg, SendWindow := Window seg\<rparr>"
  define s1 where "s1 = put_listener l (L\<lparr>lst_accept := lst_accept L @ [i]\<rparr>) (put_conn i c1 s)"
  have f: "Flags seg AND ACK \<noteq> 0" "Flags seg AND FIN = 0" "Flags seg AND RST = 0"
    by (simp_all add: assms(8) flag_defs)
  have "processAck seg frame src c1 = Ok (True, c1, [])"
    using f assms(9) by (simp add: processAck_def c1_def)
  moreover have at: "conn_at s1 i = Some c1" by (simp add: s1_def)
  ultimately have "segment_ESTABLISHED i seg frame src s1 = Ok (put_conn i c1 s1, [])"
    using f assms(10) by (simp add: segment_ESTABLISHED_def established_data_idle)
  moreover have "handleSegment i seg frame src s = segment_ESTABLISHED i seg frame src s1"
    using assms(1-7) f
    by (simp add: handleSegment_def segment_SYN_RECEIVED_def Let_def c1_def s1_def accept_cap_def)
  ultimately show ?thesis
    using assms(6,9)
    by (simp add: s1_def stack_Accept_def split: list.split) (simp add: c1_def hd_append)
qed

theorem handshake_completes_witness:
  "\<exists>s' c'. handleSegment 0 (sample_seg ACK 101 1001 []) sample_frame 7
      (put_conn 0 (sample_conn\<lparr>State := SYN_RECEIVED, LocalPort := 80, SendSeqNum := 1001,
        sendUnsent := []\<rparr>) (snd (stack_Listen 80 NewStack))) = Ok (s', [])
    \<and> conn_at s' 0 = Some c' \<and> State c' = ESTABLISHED \<and> SendWindow c' = 500"
  using handshake_completes [of "put_conn 0 (sample_conn\<lparr>State := SYN_RECEIVED, LocalPort := 80,
      SendSeqNum := 1001, sendUnsent := []\<rparr>) (snd (stack_Listen 80 NewStack))" 0
      "sample_conn\<lparr>State := SYN_RECEIVED, LocalPort := 80, SendSeqNum := 1001, sendUnsent := []\<rparr>"
      0 "\<lparr>lst_port = 80, lst_accept = []\<rparr>" "[]" "sample_seg ACK 101 1001 []" sample_frame 7]
  by (force simp: stack_Listen_def Let_def NewStack_def sample_seg_def put_conn_def put_listener_def)

subsection \<open>What an acknowledgement releases\<close>

text \<open>A queue from \<open>a\<close> to \<open>b\<close> shorter than \<open>2^31\<close> bytes loses exactly the segments below the ACK.\<close>

lemma drop_acked_splits:
  assumes "seg_chain a q b" "length (queue_bytes q) < 2147483648" "unat (ack - a) < 2147483648"
  shows "\<exists>p. q = p @ drop_acked ack q \<and> length (queue_bytes p) \<le> unat (ack - a)
    \<and> (drop_acked ack q = [] \<or> unat (ack - a) < length (queue_bytes p) + length (ss_data (hd (drop_acked ack q))))"
  using assms
proof (induction q arbitrary: a)
  case (Cons h q)
  let ?n = "length (ss_data h)"
  have h: "ss_seqNum h = a" "seg_chain (a + of_nat ?n) q b" "?n < 2147483648"
    using Cons.prems by simp_all
  have n: "unat (of_nat ?n :: u32) = ?n" using h(3) by (simp only: unat_of_nat) simp
  have le: "seqLE (a + of_nat ?n) ack \<longleftrightarrow> ?n \<le> unat (ack - a)"
  proof -
    have "of_nat (unat (ack - a)) = ack - a" by simp
    then have "seqLE (a + of_nat ?n) ack \<longleftrightarrow>
        \<not> seqGT (of_nat ?n) (of_nat (unat (ack - a)) :: u32)"
      by (simp only: seqLE_not_GT seqGT_def) (simp add: algebra_simps)
    also have "\<dots> \<longleftrightarrow> ?n \<le> unat (ack - a)"
      using seqGT_positions [of ?n "unat (ack - a)"] h(3) Cons.prems(3) by (simp add: not_less)
    finally show ?thesis .
  qed
  show ?case
  proof (cases "?n \<le> unat (ack - a)")
    case True
    have "ack - (a + of_nat ?n) = (ack - a) - of_nat ?n" by simp
    then have u: "unat (ack - (a + of_nat ?n)) = unat (ack - a) - ?n"
      using True n by (simp only: unat_sub word_le_nat_alt)
    have "length (queue_bytes q) < 2147483648" "unat (ack - (a + of_nat ?n)) < 2147483648"
      using Cons.prems(2,3) unfolding u by simp_all
    from Cons.IH [OF h(2) this] obtain p where
      "q = p @ drop_acked ack q" "length (queue_bytes p) \<le> unat (ack - a) - ?n"
      "drop_acked ack q = [] \<or> unat (ack - a) - ?n < length (queue_bytes p) + length (ss_data (hd (drop_acked ack q)))"
      unfolding u by blast
    then show ?thesis
      using True le h(1) by (intro exI [of _ "h # p"]) auto
  next
    case False
    then show ?thesis using le h(1) by (intro exI [of _ "[]"]) simp
  qed
qed simp

lemma seg_emission_cong:
  assumes "sockaddr_of c' = sockaddr_of c" "localMAC c' = localMAC c" "remoteMAC c' = remoteMAC c"
    "conn_key c' = conn_key c" "RecvSeqNum c' = RecvSeqNum c" "RecvWindow c' = RecvWindow c"
  shows "seg_emission c' = seg_emission c"
  by (intro ext) (use assms in \<open>simp add: seg_emission_def conn_frame_def out_bytes_def
      out_packet_def out_tcp_def out_checksum_def out_segment_def conn_key_def\<close>)

lemma timer_addresses [simp]:
  "sockaddr_of (restartRTOLocked c) = sockaddr_of c" "sockaddr_of (stopRTOLocked c) = sockaddr_of c"
  "localMAC (restartRTOLocked c) = localMAC c" "localMAC (stopRTOLocked c) = localMAC c"
  "remoteMAC (restartRTOLocked c) = remoteMAC c" "remoteMAC (stopRTOLocked c) = remoteMAC c"
  "RecvWindow (restartRTOLocked c) = RecvWindow c" "RecvWindow (stopRTOLocked c) = RecvWindow c"
  by (simp_all add: restartRTOLocked_def stopRTOLocked_def Let_def)

lemma update_window_addresses [simp]:
  "sockaddr_of (update_window seg c) = sockaddr_of c" "localMAC (update_window seg c) = localMAC c"
  "remoteMAC (update_window seg c) = remoteMAC c" "RecvWindow (update_window seg c) = RecvWindow c"
  "sendQueue (update_window seg c) = sendQueue c" "sendUnsent (update_window seg c) = sendUnsent c"
  "SendUnacked (update_window seg c) = SendUnacked c"
  by (simp_all add: update_window_def)

definition acked_conn :: "TCPSegment \<Rightarrow> TCPConnection \<Rightarrow> TCPConnection" where
  "acked_conn seg c =
     (let c2 = c\<lparr>SendUnacked := AckNum seg, sendQueue := drop_acked (AckNum seg) (sendQueue c)\<rparr> in
      update_window seg (if sendQueue c2 = [] then stopRTOLocked c2 else restartRTOLocked c2))"

lemma processAck_new:
  assumes "Flags seg AND ACK \<noteq> 0" "\<not> seqGT (AckNum seg) (SendSeqNum c)"
    "seqGT (AckNum seg) (SendUnacked c)"
  shows "processAck seg frame src c =
    rbind (pumpSendLocked (acked_conn seg c)) (\<lambda>(c4, out). Ok (True, c4, out))"
  using assms by (simp add: processAck_def acked_conn_def Let_def)

text \<open>
  C14: what an acknowledgement releases. Let the retransmission queue hold a chain of segments from
  sequence number \<open>a\<close>. A new acceptable ACK drops exactly the leading segments that it covers
  entirely and keeps the rest, moves SND.UNA to it, and at once sends further buffered bytes: what it
  sends, followed by what stays buffered, is what was buffered. No byte is lost or sent twice.
\<close>

theorem ack_releases_acked_bytes:
  assumes "Flags seg AND ACK \<noteq> 0" "\<not> seqGT (AckNum seg) (SendSeqNum c)"
    "seqGT (AckNum seg) (SendUnacked c)"
    "seg_chain a (sendQueue c) b" "length (queue_bytes (sendQueue c)) < 2147483648"
    "unat (AckNum seg - a) < 2147483648"
  shows "\<exists>c' out acked kept sent. processAck seg frame src c = Ok (True, c', out)
    \<and> sendQueue c = acked @ kept \<and> sendQueue c' = kept @ sent
    \<and> length (queue_bytes acked) \<le> unat (AckNum seg - a)
    \<and> (kept = [] \<or> unat (AckNum seg - a) < length (queue_bytes acked) + length (ss_data (hd kept)))
    \<and> SendUnacked c' = AckNum seg \<and> queue_bytes sent @ sendUnsent c' = sendUnsent c
    \<and> out = map (seg_emission c) sent"
proof -
  let ?c = "acked_conn seg c"
  obtain p where p: "sendQueue c = p @ drop_acked (AckNum seg) (sendQueue c)"
    "length (queue_bytes p) \<le> unat (AckNum seg - a)"
    "drop_acked (AckNum seg) (sendQueue c) = [] \<or> unat (AckNum seg - a) < length (queue_bytes p)
       + length (ss_data (hd (drop_acked (AckNum seg) (sendQueue c))))"
    using drop_acked_splits [OF assms(4-6)] by blast
  have c: "sendQueue ?c = drop_acked (AckNum seg) (sendQueue c)" "sendUnsent ?c = sendUnsent c"
    "SendUnacked ?c = AckNum seg"
    by (simp_all add: acked_conn_def Let_def)
  have e: "seg_emission ?c = seg_emission c"
    by (rule seg_emission_cong) (simp_all add: acked_conn_def Let_def)
  define c' where "c' = (if 0 < pump_amount ?c then startRTOIfIdleLocked (after_pump ?c) else after_pump ?c)"
  have "processAck seg frame src c = Ok (True, c', map (seg_emission c) (pump_segs (pump_mss ?c) ?c))"
    using assms(1-3) by (simp add: processAck_new pumpSendLocked_spec c'_def e)
  moreover have "sendQueue c' = drop_acked (AckNum seg) (sendQueue c) @ pump_segs (pump_mss ?c) ?c"
    "SendUnacked c' = AckNum seg"
    by (simp_all add: c'_def after_pump_def c)
  moreover have "queue_bytes (pump_segs (pump_mss ?c) ?c) @ sendUnsent c' = sendUnsent c"
    by (simp add: pump_segs_bytes c'_def after_pump_def c)
  ultimately show ?thesis using p by blast
qed

theorem ack_releases_acked_bytes_witness:
  "\<exists>c' out sent. processAck (sample_seg ACK 500 1004 []) sample_frame 7 (sample_conn\<lparr>SendUnacked := 1001,
      SendSeqNum := 1006, SendWindow := 100, sendUnsent := [9], sendQueue :=
      [\<lparr>ss_seqNum = 1001, ss_data = [1, 2], ss_flags = ACK\<rparr>,
       \<lparr>ss_seqNum = 1003, ss_data = [3, 4, 5], ss_flags = ACK\<rparr>]\<rparr>) = Ok (True, c', out)
    \<and> sendQueue c' = \<lparr>ss_seqNum = 1003, ss_data = [3, 4, 5], ss_flags = ACK\<rparr> # sent
    \<and> queue_bytes sent @ sendUnsent c' = [9]"
proof -
  let ?c = "sample_conn\<lparr>SendUnacked := 1001,
      SendSeqNum := 1006, SendWindow := 100, sendUnsent := [9], sendQueue :=
      [\<lparr>ss_seqNum = 1001, ss_data = [1, 2], ss_flags = ACK\<rparr>,
       \<lparr>ss_seqNum = 1003, ss_data = [3, 4, 5], ss_flags = ACK\<rparr>]\<rparr>"
  let ?s = "sample_seg ACK 500 1004 []"
  have h: "Flags ?s AND ACK \<noteq> 0" "\<not> seqGT (AckNum ?s) (SendSeqNum ?c)"
    "seqGT (AckNum ?s) (SendUnacked ?c)" "seg_chain 1001 (sendQueue ?c) 1006"
    "length (queue_bytes (sendQueue ?c)) < 2147483648" "unat (AckNum ?s - 1001) < 2147483648"
    by (simp_all add: sample_seg_def ACK_def seqGT_def)
  obtain c' out acked kept sent where
    r: "processAck ?s sample_frame 7 ?c = Ok (True, c', out)" "sendQueue c' = kept @ sent"
      "queue_bytes sent @ sendUnsent c' = sendUnsent ?c"
    and k: "sendQueue ?c = acked @ kept" "length (queue_bytes acked) \<le> unat (AckNum ?s - 1001)"
      "kept = [] \<or> unat (AckNum ?s - 1001) < length (queue_bytes acked) + length (ss_data (hd kept))"
    using ack_releases_acked_bytes [OF h] by blast
  have "AckNum ?s - 1001 = 3" by (simp add: sample_seg_def)
  with k have "kept = [\<lparr>ss_seqNum = 1003, ss_data = [3, 4, 5], ss_flags = ACK\<rparr>]"
    by (cases acked; cases "tl acked") (auto simp: Cons_eq_append_conv)
  with r show ?thesis by auto
qed

text \<open>
  An acknowledgement of data that was never sent changes nothing and is answered with one bare
  ACK; a duplicate acknowledgement changes nothing and sends nothing.
\<close>

theorem bad_acks_change_nothing:
  assumes "Flags seg AND ACK \<noteq> 0"
    "seqGT (AckNum seg) (SendSeqNum c) \<or> \<not> seqGT (AckNum seg) (SendUnacked c)"
  shows "processAck seg frame src c = (if seqGT (AckNum seg) (SendSeqNum c)
    then Ok (False, c, [(src, out_bytes c ACK [] (SendSeqNum c) [] frame)]) else Ok (True, c, []))"
  using assms by (auto simp: processAck_def)

theorem bad_acks_change_nothing_witness:
  "processAck (sample_seg ACK 500 1001 []) sample_frame 7 (sample_conn\<lparr>SendUnacked := 1001,
     SendSeqNum := 1006\<rparr>) = Ok (True, sample_conn\<lparr>SendUnacked := 1001, SendSeqNum := 1006\<rparr>, [])"
  using bad_acks_change_nothing [of "sample_seg ACK 500 1001 []"
      "sample_conn\<lparr>SendUnacked := 1001, SendSeqNum := 1006\<rparr>" sample_frame 7]
  by (simp add: sample_seg_def ACK_def seqGT_def)

subsection \<open>In-order delivery\<close>

text \<open>
  Everything the peer ever sends on a connection is a slice of one byte stream \<open>S\<close> whose first byte
  has sequence number \<open>base\<close>; segments may be lost, repeated and reordered. \<open>app_bytes\<close> collects
  what the application's reads of connection \<open>i\<close> return in a run.
\<close>

definition seg_of_stream :: "u32 \<Rightarrow> bytes \<Rightarrow> TCPSegment \<Rightarrow> bool" where
  "seg_of_stream base S seg \<longleftrightarrow>
     tcp_Payload seg = take (length (tcp_Payload seg)) (drop (unat (SeqNum seg - base)) S)"

fun event_of_stream :: "ConnectionKey \<Rightarrow> u32 \<Rightarrow> bytes \<Rightarrow> event \<Rightarrow> bool" where
  "event_of_stream k base S (Recv draw data src) = (case parse_layers data of
       Ok (f, p, seg) \<Rightarrow> segment_key p seg \<noteq> k \<or> seg_of_stream base S seg
     | _ \<Rightarrow> True)"
| "event_of_stream k base S _ = True"

fun reads_of :: "nat \<Rightarrow> event \<Rightarrow> Stack \<Rightarrow> bytes" where
  "reads_of i (OnConn j (OpRead n)) s = (if j = i then (case conn_at s i of
       None \<Rightarrow> [] | Some c \<Rightarrow> read_bytes (fst (conn_Read n c))) else [])"
| "reads_of i _ s = []"

fun app_bytes :: "nat \<Rightarrow> event list \<Rightarrow> Stack \<Rightarrow> bytes" where
  "app_bytes i [] s = []"
| "app_bytes i (e # es) s = reads_of i e s @
     (case exec e s of Ok (s1, out) \<Rightarrow> app_bytes i es s1 | _ \<Rightarrow> [])"

text \<open>In a final state no more data is accepted.\<close>

definition final_state :: "TCPState \<Rightarrow> bool" where
  "final_state st \<longleftrightarrow> st \<in> {CLOSE_WAIT, LAST_ACK, TIME_WAIT, CLOSED}"

lemma final_state_simps [simp]:
  "final_state CLOSE_WAIT" "final_state LAST_ACK" "final_state TIME_WAIT" "final_state CLOSED"
  "\<not> final_state SYN_RECEIVED" "\<not> final_state ESTABLISHED" "\<not> final_state FIN_WAIT_1"
  "\<not> final_state FIN_WAIT_2"
  by (simp_all add: final_state_def)

text \<open>
  The receive invariant: what was read, what is queued and what the blocked loop still holds make a
  prefix \<open>d\<close> of the stream, and RCV.NXT stands right behind it until a final state is reached.
\<close>

definition pending_bytes :: "nat \<Rightarrow> Stack \<Rightarrow> bytes" where
  "pending_bytes i s = (case blocked s of Some (PushData j data _ _ _) \<Rightarrow> if j = i then data else []
     | _ \<Rightarrow> [])"

definition rx_bytes :: "TCPConnection \<Rightarrow> bytes" where
  "rx_bytes c = overflow c @ concat (readCh c)"

definition rx_at :: "bytes \<Rightarrow> u32 \<Rightarrow> bytes \<Rightarrow> TCPConnection \<Rightarrow> bool" where
  "rx_at S base d c \<longleftrightarrow> d = take (length d) S
     \<and> (final_state (State c) \<or> RecvSeqNum c = base + of_nat (length d))"

definition tracks :: "ConnectionKey \<Rightarrow> bytes \<Rightarrow> u32 \<Rightarrow> nat \<Rightarrow> bytes \<Rightarrow> Stack \<Rightarrow> bool" where
  "tracks k S base i got s \<longleftrightarrow> (\<exists>c. conn_at s i = Some c \<and> conn_key c = k
     \<and> rx_at S base (got @ rx_bytes c @ pending_bytes i s) c
     \<and> (i \<in> set (sleepers s) \<longrightarrow> final_state (State c))
     \<and> (\<forall>l seg frame src. blocked s = Some (PushConn l i seg frame src)
          \<longrightarrow> \<not> final_state (State c) \<and> seg_of_stream base S seg))"

lemma rx_bytes_State [simp]: "rx_bytes (c\<lparr>State := x\<rparr>) = rx_bytes c"
  by (simp add: rx_bytes_def)

lemma pending_bytes_None [simp]: "blocked s = None \<Longrightarrow> pending_bytes i s = []"
  by (simp add: pending_bytes_def)

lemma pending_bytes_frame [simp]:
  "pending_bytes i (put_conn j c s) = pending_bytes i s"
  "pending_bytes i (put_listener l L s) = pending_bytes i s"
  "pending_bytes i (drop_key k s) = pending_bytes i s"
  "pending_bytes i (s\<lparr>blocked := None\<rparr>) = []"
  by (simp_all add: pending_bytes_def)

lemma tracks_frame [simp]:
  "tracks k S base i got (put_listener l L s) = tracks k S base i got s"
  "tracks k S base i got (drop_key k' s) = tracks k S base i got s"
  by (simp_all add: tracks_def)

lemma rx_at_append:
  assumes "rx_at S base d c" "\<not> final_state (State c)" "seg_of_stream base S seg"
    "SeqNum seg = RecvSeqNum c" "length S < 4294967296"
  shows "rx_at S base (d @ tcp_Payload seg) (rx_data seg c)"
proof -
  have d: "d = take (length d) S" "SeqNum seg - base = of_nat (length d)"
    using assms by (simp_all add: rx_at_def)
  have "length d \<le> length S"
  proof -
    have "length d = length (take (length d) S)" using d(1) by (rule arg_cong)
    then show ?thesis by simp
  qed
  then have "unat (SeqNum seg - base) = length d"
    using assms(5) unfolding d(2) by (simp only: unat_of_nat) simp
  then have p: "tcp_Payload seg = take (length (tcp_Payload seg)) (drop (length d) S)"
    using assms(3) by (simp add: seg_of_stream_def)
  have "take (length d + length (tcp_Payload seg)) S =
      take (length d) S @ take (length (tcp_Payload seg)) (drop (length d) S)"
    by (rule take_add)
  then have "d @ tcp_Payload seg = take (length (d @ tcp_Payload seg)) S"
    by (simp only: length_append d(1) [symmetric] p [symmetric])
  moreover have "RecvSeqNum c = base + of_nat (length d)" using assms(1,2) by (simp add: rx_at_def)
  then have "RecvSeqNum (rx_data seg c) = base + of_nat (length (d @ tcp_Payload seg))"
    by (simp only: rx_data_frame length_append of_nat_add add.assoc)
  ultimately show ?thesis unfolding rx_at_def by blast
qed

lemma tracks_put:
  assumes "tracks k S base i got s" "conn_at s i = Some c" "rx_bytes c' = rx_bytes c"
    "conn_key c' = conn_key c"
    "final_state (State c') \<or> RecvSeqNum c' = RecvSeqNum c \<and> State c' = State c
       \<or> RecvSeqNum c' = RecvSeqNum c \<and> \<not> final_state (State c)"
    "final_state (State c) \<longrightarrow> final_state (State c')"
    "final_state (State c') \<longrightarrow> final_state (State c) \<or> blocked s = None"
  shows "tracks k S base i got (put_conn i c' s)"
  using assms by (auto simp: tracks_def rx_at_def)

lemma tracks_other:
  assumes "tracks k S base i got s" "only_conn j k' s s'" "j \<noteq> i" "blocked s = None"
  shows "tracks k S base i got s'"
proof -
  have "pending_bytes i s' = []"
    using assms(2-4) by (fastforce simp: only_conn_def pending_bytes_def split: option.splits pending.splits)
  moreover have "blocked s' \<noteq> Some (PushConn l i seg frame src)" for l seg frame src
    using assms(2-4) by (auto simp: only_conn_def)
  moreover have "conn_at s' i = conn_at s i" "i \<in> set (sleepers s') \<longrightarrow> i \<in> set (sleepers s)"
    using assms(2,3) by (auto simp: only_conn_def)
  ultimately show ?thesis using assms(1,4) by (auto simp: tracks_def)
qed

lemma tracks_fin:
  assumes "tracks k S base i got s" "blocked s = None"
    "established_fin i seg frame src s out = Ok (s', out')"
  shows "tracks k S base i got s'"
proof -
  obtain c where c: "conn_at s i = Some c" using assms(1) by (auto simp: tracks_def)
  have "tracks k S base i got (put_conn i (c\<lparr>RecvSeqNum := RecvSeqNum c + 1, State := CLOSE_WAIT,
      readChClosed := True\<rparr>) s)"
    using assms(2) by (intro tracks_put [OF assms(1) c]) (simp_all add: rx_bytes_def)
  then show ?thesis
    using assms c by (auto simp: established_fin_def Let_def closeReadChLocked_eq split: if_splits)
qed

lemma tracks_data:
  assumes "tracks k S base i got s" "blocked s = None" "conn_at s i = Some c" "RecvBuffer c = []"
    "\<not> final_state (State c)" "seg_of_stream base S seg" "length S < 4294967296"
    "established_data i seg frame src s out = Ok (s', out')"
  shows "tracks k S base i got s'"
proof (cases "tcp_Payload seg = [] \<or> SeqNum seg \<noteq> RecvSeqNum c")
  case True
  then show ?thesis
    using established_data_skip [OF assms(3)] assms(8) tracks_fin [OF assms(1,2)] by simp
next
  case False
  let ?c = "rx_data seg c" and ?p = "tcp_Payload seg"
  have rx: "rx_at S base (got @ rx_bytes c @ ?p) ?c"
    using rx_at_append [of S base "got @ rx_bytes c" c seg] assms False by (simp add: tracks_def)
  have sl: "i \<notin> set (sleepers s)" "conn_key c = k" using assms by (auto simp: tracks_def)
  show ?thesis
  proof (cases "readChClosed c \<or> length (readCh c) < read_cap")
    case True
    let ?s = "put_conn i (?c\<lparr>readCh := readCh c @ [?p]\<rparr>) s"
    have "tracks k S base i got ?s"
      using rx sl assms(2) by (simp add: tracks_def rx_at_def rx_bytes_def)
    moreover have "\<exists>out. established_fin i seg frame src ?s out = Ok (s', out')"
      using assms(3,4,8) False True
      by (auto simp: established_data_take push_read_def split: if_splits)
    ultimately show ?thesis using tracks_fin assms(2) by fastforce
  next
    case full: False
    then have "s' = (put_conn i ?c s)\<lparr>blocked := Some (PushData i ?p seg frame src)\<rparr>"
      using assms(3,4,8) False by (auto simp: established_data_take push_read_def)
    then show ?thesis
      using rx sl by (simp add: tracks_def pending_bytes_def rx_bytes_def rx_at_def)
  qed
qed


lemma tracks_ESTABLISHED:
  assumes "tracks k S base i got s" "blocked s = None" "stack_inv s" "conn_at s i = Some c"
    "\<not> final_state (State c)" "seg_of_stream base S seg" "length S < 4294967296"
    "segment_ESTABLISHED i seg frame src s = Ok (s', out)"
  shows "tracks k S base i got s'"
proof -
  have ci: "conn_inv c" using assms(3,4) by (rule stack_inv_conn)
  obtain goon c1 o1 where a: "processAck seg frame src c = Ok (goon, c1, o1)" "conn_inv c1"
    "conn_key c1 = conn_key c" "State c1 = State c" "RecvSeqNum c1 = RecvSeqNum c" "readCh c1 = readCh c" "overflow c1 = overflow c"
    using processAck_keeps [OF ci] by blast
  have t: "tracks k S base i got (put_conn i c1 s)"
    by (rule tracks_put [OF assms(1,4)]) (simp_all add: a rx_bytes_def)
  show ?thesis
  proof (cases goon)
    case True
    then have "established_data i seg frame src (put_conn i c1 s) o1 = Ok (s', out)"
      using assms(4,8) a(1) by (simp add: segment_ESTABLISHED_def)
    then show ?thesis
      using tracks_data [OF t, of c1] assms(2,5-7) a(2,4) by (simp add: inv_defs)
  next
    case False
    then show ?thesis using assms(4,8) a(1) t by (auto simp: segment_ESTABLISHED_def)
  qed
qed

lemma tracks_time_wait:
  assumes "tracks k S base i got s" "conn_at s i = Some c" "rx_bytes c' = rx_bytes c" "blocked s = None"
    "conn_key c' = conn_key c"
  shows "tracks k S base i got (start_time_wait i c' s)"
  using assms by (simp add: tracks_def start_time_wait_def Let_def rx_at_def pending_bytes_def)

lemma tracks_close:
  assumes "tracks k S base i got s" "conn_at s i = Some c" "final_state (State c) \<or> blocked s = None"
  shows "removeConnection i (put_conn i (c\<lparr>State := CLOSED\<rparr>) s) = Ok (s', out) \<Longrightarrow> tracks k S base i got s'"
    and "abortConnection i s = Ok (s', out) \<Longrightarrow> tracks k S base i got s'"
proof -
  let ?c = "(stopRTOLocked (c\<lparr>State := CLOSED\<rparr>))\<lparr>sendQueue := [], sendUnsent := []\<rparr>"
  have "tracks k S base i got (put_conn i ?c s)"
    using assms(3) by (intro tracks_put [OF assms(1,2)]) (auto simp: rx_bytes_def)
  then show "removeConnection i (put_conn i (c\<lparr>State := CLOSED\<rparr>) s) = Ok (s', out)
      \<Longrightarrow> tracks k S base i got s'"
    by (auto simp: removeConnection_def Let_def)
  have "tracks k S base i got (put_conn i (?c\<lparr>readChClosed := True\<rparr>) s)"
    using assms(3) by (intro tracks_put [OF assms(1,2)]) (auto simp: rx_bytes_def)
  then show "abortConnection i s = Ok (s', out) \<Longrightarrow> tracks k S base i got s'"
    using assms(1,2) by (auto simp: abortConnection_def Let_def closeReadChLocked_eq split: if_splits)
qed

lemma tracks_handleSegment:
  assumes "tracks k S base i got s" "blocked s = None" "stack_inv s" "seg_of_stream base S seg"
    "length S < 4294967296" "handleSegment i seg frame src s = Ok (s', out)"
  shows "tracks k S base i got s'"
proof -
  obtain c where c: "conn_at s i = Some c" using assms(1) by (auto simp: tracks_def)
  have ci: "conn_inv c" using assms(3) c by (rule stack_inv_conn)
  note put = tracks_put [OF assms(1) c]
  show ?thesis
  proof (cases "Flags seg AND RST = 0")
    case False
    then show ?thesis
      using assms(1,2,6) c tracks_close(2) [OF assms(1) c] by (auto simp: handleSegment_def split: if_splits)
  next
    case rst: True
    note hs = assms(6) [unfolded handleSegment_def c option.case rst]
    show ?thesis
    proof (cases "State c")
      case SYN_RECEIVED
      define c1 where "c1 = c\<lparr>State := ESTABLISHED, SendUnacked := AckNum seg, SendWindow := Window seg\<rparr>"
      have t1: "tracks k S base i got (put_conn i c1 s)"
        using SYN_RECEIVED by (intro put) (simp_all add: c1_def rx_bytes_def)
      have inv1: "stack_inv (put_conn i c1 s)"
        using ci SYN_RECEIVED by (intro stack_inv_put [OF assms(3) c]) (simp_all add: c1_def inv_defs)
      have run: "tracks k S base i got s'"
        if "segment_ESTABLISHED i seg frame src s1 = Ok (s', out)" "tracks k S base i got s1" "blocked s1 = None"
          "stack_inv s1" "conn_at s1 i = Some c1" for s1
        using tracks_ESTABLISHED [OF that(2-5) _ assms(4,5) that(1)] by (simp add: c1_def)
      consider "s' = s"
        | "segment_ESTABLISHED i seg frame src (put_conn i c1 s) = Ok (s', out)"
        | l L where "listener_at s l = Some L" "length (lst_accept L) < accept_cap"
            "segment_ESTABLISHED i seg frame src
               (put_listener l (L\<lparr>lst_accept := lst_accept L @ [i]\<rparr>) (put_conn i c1 s)) = Ok (s', out)"
        | l where "s' = (put_conn i c1 s)\<lparr>blocked := Some (PushConn l i seg frame src)\<rparr>"
        using hs SYN_RECEIVED c
        by (auto simp: segment_SYN_RECEIVED_def Let_def c1_def split: if_splits option.splits)
      then show ?thesis
      proof cases
        case 2
        then show ?thesis using run [OF _ t1 _ inv1] assms(2) by simp
      next
        case (3 l L)
        have "\<forall>j \<in> set (lst_accept L). conn_at (put_conn i c1 s) j \<noteq> None"
          using inv1 3(1) by (auto simp: stack_inv_def listeners_ok_def)
        then have "stack_inv (put_listener l (L\<lparr>lst_accept := lst_accept L @ [i]\<rparr>) (put_conn i c1 s))"
          using 3(1,2) by (intro stack_inv_listener [OF inv1]) auto
        then show ?thesis using run [OF 3(3)] t1 assms(2) by simp
      next
        case 4
        then show ?thesis
          using t1 assms(2,4) by (auto simp: tracks_def c1_def pending_bytes_def)
      qed (use assms(1) in simp)
    next
      case ESTABLISHED
      then show ?thesis
        using hs tracks_ESTABLISHED [OF assms(1-3) c _ assms(4,5)] by simp
    next
      case FIN_WAIT_1
      obtain goon c1 o1 where a: "processAck seg frame src c = Ok (goon, c1, o1)"
        "conn_key c1 = conn_key c" "State c1 = State c" "RecvSeqNum c1 = RecvSeqNum c" "readCh c1 = readCh c" "overflow c1 = overflow c"
        using processAck_keeps [OF ci] by blast
      have "Flags seg AND ACK \<noteq> 0" if goon
        using a(1) that by (auto simp: processAck_def split: if_splits)
      moreover have "tracks k S base i got (put_conn i c1 s)"
        by (rule put) (simp_all add: a rx_bytes_def)
      moreover have "tracks k S base i got (put_conn i (c1\<lparr>State := FIN_WAIT_2\<rparr>) s)"
        using FIN_WAIT_1 by (intro put) (simp_all add: a rx_bytes_def)
      moreover have "tracks k S base i got (start_time_wait i (c1\<lparr>RecvSeqNum := x\<rparr>) s)" for x
        using assms(2) by (intro tracks_time_wait [OF assms(1) c]) (simp_all add: a rx_bytes_def)
      ultimately show ?thesis
        using hs FIN_WAIT_1 c a(1) by (auto simp: segment_FIN_WAIT_1_def Let_def split: if_splits)
    next
      case FIN_WAIT_2
      have "tracks k S base i got (start_time_wait i (c\<lparr>RecvSeqNum := x\<rparr>) s)" for x
        using assms(2) by (intro tracks_time_wait [OF assms(1) c]) (simp_all add: rx_bytes_def)
      then show ?thesis
        using hs FIN_WAIT_2 c assms(1) by (auto simp: segment_FIN_WAIT_2_def Let_def split: if_splits)
    next
      case LAST_ACK
      then show ?thesis
        using hs c assms(1) tracks_close(1) [OF assms(1) c]
        by (auto simp: segment_LAST_ACK_def split: if_splits)
    next
      case CLOSING
      then show ?thesis using ci by (simp add: inv_defs)
    qed (use hs assms(1) in simp_all)
  qed
qed


text \<open>Reading moves bytes from the queue to the application; the other calls leave them alone.\<close>

lemma conn_Read_rx:
  "read_bytes (fst (conn_Read n c)) @ rx_bytes (snd (conn_Read n c)) = rx_bytes c"
  "RecvSeqNum (snd (conn_Read n c)) = RecvSeqNum c"
  using conn_Read_bytes [of n c]
  by (simp_all add: rx_bytes_def conn_Read_def Let_def split: list.split)

lemma app_run_rx:
  assumes "app_run opn c = Ok (c', out)"
  shows "reads_of i (OnConn i opn) s @ rx_bytes c' = rx_bytes c \<or> conn_at s i \<noteq> Some c"
    "RecvSeqNum c' = RecvSeqNum c" "final_state (State c') = final_state (State c)"
    "conn_key c' = conn_key c"
proof -
  have w: "rx_bytes c' = rx_bytes c \<and> RecvSeqNum c' = RecvSeqNum c \<and> State c' = State c
      \<and> conn_key c' = conn_key c" if "opn = OpWrite data" for data
    using assms pump_frame [of "c\<lparr>sendUnsent := sendUnsent c @ data\<rparr>" c' out]
    by (simp add: that op_Write_eq rx_bytes_def)
  have t: "rx_bytes c' = rx_bytes c \<and> RecvSeqNum c' = RecvSeqNum c \<and> State c' = State c
      \<and> conn_key c' = conn_key c" if "opn = OpTimer"
    using assms by (auto simp: that onRTO_spec Let_def rx_bytes_def conn_key_def split: list.splits if_splits)
  define st where "st = (if State c = ESTABLISHED then FIN_WAIT_1 else if State c = CLOSE_WAIT then LAST_ACK
      else State c)"
  have st: "final_state st = final_state (State c)" by (simp add: st_def)
  have cl: "c' = c\<lparr>SendSeqNum := SendSeqNum c + 1, State := st\<rparr>" if "opn = OpClose"
    using assms conn_Close_spec [of c] by (simp add: that st_def)
  have "(reads_of i (OnConn i opn) s @ rx_bytes c' = rx_bytes c \<or> conn_at s i \<noteq> Some c)
    \<and> RecvSeqNum c' = RecvSeqNum c \<and> final_state (State c') = final_state (State c)
    \<and> conn_key c' = conn_key c"
  proof (cases opn)
    case (OpRead n)
    then have "c' = snd (conn_Read n c)" using assms by (simp add: op_Read_def)
    then show ?thesis
      using conn_Read_rx [of n c] conn_Read_frame(1,3) [where c = c and n = n] OpRead
      by (cases "conn_at s i = Some c") simp_all
  next
    case OpClose
    then show ?thesis using cl st by (simp add: rx_bytes_def)
  qed (use w t in auto)
  then show "reads_of i (OnConn i opn) s @ rx_bytes c' = rx_bytes c \<or> conn_at s i \<noteq> Some c"
    "RecvSeqNum c' = RecvSeqNum c" "final_state (State c') = final_state (State c)"
    "conn_key c' = conn_key c" by simp_all
qed

lemma handleRaw_cases:
  assumes "handleRaw isn data src s = Ok (s', out)"
  obtains "s' = s" "out = []"
    | f p t where "parse_layers data = Ok (f, p, t)" "dispatch isn p t f src s = Ok (s', out)"
proof (cases "handleRaw isn data src s = Ok (s, [])")
  case True
  with assms that(1) show ?thesis by simp
next
  case False
  then obtain f where f: "ParseEthernetFrame data (length data) = Ok f"
    by (cases "ParseEthernetFrame data (length data)") (simp_all add: handleRaw_def)
  with False obtain p where p: "ParseIPv4Packet (eth_Payload f) = Ok p"
    by (cases "ParseIPv4Packet (eth_Payload f)") (simp_all add: handleRaw_def split: if_splits)
  with False f obtain t where t: "ParseTCPSegment (ip_Payload p) = Ok t"
    by (cases "ParseTCPSegment (ip_Payload p)") (simp_all add: handleRaw_def split: if_splits)
  have "handleRaw isn data src s = dispatch isn p t f src s"
    using False f p t by (simp add: handleRaw_def split: if_splits)
  with assms f p t that(2) show ?thesis by (simp add: parse_layers_def)
qed

lemma tracks_dispatch:
  assumes "tracks k S base i got s" "blocked s = None" "stack_inv s"
    "segment_key p seg \<noteq> k \<or> seg_of_stream base S seg" "length S < 4294967296"
    "dispatch isn p seg f src s = Ok (s', out)"
  shows "tracks k S base i got s'"
proof (cases "connections s (segment_key p seg)")
  case None
  have "next_conn s \<noteq> i" using stack_inv_fresh [OF assms(3)] assms(1) by (auto simp: tracks_def)
  moreover obtain m where "handleSYN isn p seg f (segment_key p seg) src s =
      (let c = new_conn isn m p seg f src in
        Ok (SYN_stack s (segment_key p seg) (c\<lparr>SendSeqNum := isn + 1\<rparr>),
          [(src, out_bytes c (SYN OR ACK) [] isn (buildMSSOption ourMSS) f)]))"
    using handleSYN_spec by blast
  ultimately show ?thesis
    using assms(1,6) None
    by (auto simp: dispatch_def Let_def SYN_stack_def tracks_def pending_bytes_def split: if_splits)
next
  case (Some j)
  then obtain d where d: "conn_at s j = Some d" "conn_key d = segment_key p seg"
    using stack_inv_table [OF assms(3)] by blast
  have hs: "handleSegment j seg f src s = Ok (s', out)"
    using assms(6) Some by (simp add: dispatch_def Let_def)
  show ?thesis
  proof (cases "j = i")
    case True
    then have "segment_key p seg = k" using d assms(1) by (auto simp: tracks_def)
    then show ?thesis using tracks_handleSegment [OF assms(1-3) _ assms(5)] hs assms(4) True by simp
  next
    case False
    then show ?thesis using tracks_other [OF assms(1) handleSegment_only [OF hs d]] assms(2) by simp
  qed
qed


lemma tracks_resume:
  assumes "tracks k S base i got s" "stack_inv s" "length S < 4294967296"
    "recv_resume s = Ok (s', out)"
  shows "tracks k S base i got s'"
proof (cases "blocked s")
  case (Some q)
  show ?thesis
  proof (cases q)
    case (PushConn l j seg frame src)
    obtain L d where L: "listener_at s l = Some L" and d: "conn_at s j = Some d"
      using assms(2) Some PushConn by (auto simp: stack_inv_def blocked_ok_def open_conn_def)
    let ?s = "(put_listener l (L\<lparr>lst_accept := lst_accept L @ [j]\<rparr>) s)\<lparr>blocked := None\<rparr>"
    show ?thesis
    proof (cases "length (lst_accept L) < accept_cap")
      case True
      have inv: "stack_inv ?s"
        using True assms(2) L d by (intro stack_inv_unblock stack_inv_listener [OF assms(2) L])
          (auto simp: stack_inv_def listeners_ok_def)
      have t: "tracks k S base i got ?s"
        using assms(1) Some PushConn by (auto simp: tracks_def pending_bytes_def)
      have run: "segment_ESTABLISHED j seg frame src ?s = Ok (s', out)"
        using assms(4) Some PushConn L True by (simp add: recv_resume_def)
      show ?thesis
      proof (cases "j = i")
        case True
        then show ?thesis
          using tracks_ESTABLISHED [OF t _ inv _ _ _ assms(3), of d seg frame src] run assms(1) d Some PushConn
          by (auto simp: tracks_def)
      next
        case False
        have "only_conn j (conn_key d) ?s s'" using segment_ESTABLISHED_only [OF run] by simp
        with tracks_other [OF t] False show ?thesis by simp
      qed
    qed (use assms Some PushConn L in \<open>simp add: recv_resume_def\<close>)
  next
    case (PushData j data seg frame src)
    obtain d where d: "conn_at s j = Some d" "\<not> readChClosed d"
      using assms(2) Some PushData by (auto simp: stack_inv_def blocked_ok_def open_conn_def)
    let ?s = "(put_conn j (d\<lparr>readCh := readCh d @ [data]\<rparr>) s)\<lparr>blocked := None\<rparr>"
    show ?thesis
    proof (cases "length (readCh d) < read_cap")
      case True
      have run: "established_fin j seg frame src ?s [] = Ok (s', out)"
        using assms(4) Some PushData d True by (simp add: recv_resume_def push_read_def)
      have t: "tracks k S base i got ?s"
        using assms(1) Some PushData d by (auto simp: tracks_def pending_bytes_def rx_bytes_def rx_at_def)
      show ?thesis
      proof (cases "j = i")
        case True
        then show ?thesis using tracks_fin [OF t] run by simp
      next
        case False
        have "only_conn j k ?s s'" using established_fin_only [OF run] by simp
        with tracks_other [OF t] False show ?thesis by simp
      qed
    qed (use assms Some PushData d in \<open>simp add: recv_resume_def push_read_def\<close>)
  qed
qed (use assms in \<open>simp add: recv_resume_def\<close>)

lemma tracks_wake:
  assumes "tracks k S base i got s" "n < length (sleepers s)" "timeWaitCleanup n s = Ok (s', out)"
  shows "tracks k S base i got s'"
proof -
  let ?s = "s\<lparr>sleepers := take n (sleepers s) @ drop (Suc n) (sleepers s)\<rparr>"
  let ?j = "sleepers s ! n"
  have t: "tracks k S base i got ?s"
    using assms(1) by (auto simp: tracks_def pending_bytes_def dest: in_set_takeD in_set_dropD)
  obtain c where c: "conn_at ?s ?j = Some c"
    and run: "removeConnection ?j (put_conn ?j (c\<lparr>State := CLOSED\<rparr>) ?s) = Ok (s', out)"
    using assms(3) by (auto simp: timeWaitCleanup_def Let_def split: option.splits)
  show ?thesis
  proof (cases "?j = i")
    case True
    have "final_state (State c)"
      using assms(1,2) c True nth_mem [OF assms(2)] by (auto simp: tracks_def)
    then show ?thesis using tracks_close(1) [OF t, of c] c run True by simp
  next
    case False
    have "s' = drop_key (conn_key c) (put_conn ?j ((stopRTOLocked (c\<lparr>State := CLOSED\<rparr>))
        \<lparr>sendQueue := [], sendUnsent := []\<rparr>) ?s)"
      using run by (simp add: removeConnection_def Let_def)
    then show ?thesis using t False by (simp add: tracks_def)
  qed
qed

lemma tracks_step:
  assumes "tracks k S base i got s" "stack_inv s" "event_of_stream k base S e"
    "length S < 4294967296" "exec e s = Ok (s', out)"
  shows "tracks k S base i (got @ reads_of i e s) s'"
proof (cases e)
  case (Recv draw data src)
  show ?thesis
  proof (cases "blocked s = None")
    case True
    then have "handleRaw (generateISN draw) data src s = Ok (s', out)" using assms(5) Recv by simp
    then show ?thesis
    proof (cases rule: handleRaw_cases)
      case (2 f p t)
      then show ?thesis
        using tracks_dispatch [OF assms(1) True assms(2) _ assms(4) 2(2)] assms(3) Recv by simp
    qed (use assms(1) Recv in simp)
  qed (use assms(1,5) Recv in auto)
next
  case Resume
  then show ?thesis using tracks_resume [OF assms(1,2,4)] assms(5) by simp
next
  case (DoListen p)
  then have "s' = snd (stack_Listen p s)" using assms(5) by simp
  then show ?thesis
    using assms(1) DoListen by (simp add: stack_Listen_def Let_def tracks_def pending_bytes_def)
next
  case (DoAccept l)
  then show ?thesis
    using assms(1,5) by (auto simp: stack_Accept_def split: option.splits list.splits)
next
  case (OnConn j opn)
  show ?thesis
  proof (cases "conn_at s j")
    case None
    then show ?thesis using assms(1,5) OnConn by (cases opn) (auto simp: tracks_def)
  next
    case (Some d)
    then obtain c1 where c1: "app_run opn d = Ok (c1, out)" "s' = put_conn j c1 s"
      using assms(5) OnConn by (auto simp: rbind_eqs)
    show ?thesis
    proof (cases "j = i")
      case True
      then have r: "reads_of i e s @ rx_bytes c1 = rx_bytes d"
        using app_run_rx(1) [OF c1(1), of i s] Some OnConn by simp
      then have "(got @ reads_of i e s) @ rx_bytes c1 @ pending_bytes i s = got @ rx_bytes d @ pending_bytes i s"
        by (simp only: append_assoc [symmetric] r [symmetric])
      moreover have "rx_at S base x c1 = rx_at S base x d" for x
        using app_run_rx(2,3) [OF c1(1)] by (simp add: rx_at_def)
      moreover have "rx_at S base (got @ rx_bytes d @ pending_bytes i s) d"
        using assms(1) True Some by (auto simp: tracks_def)
      ultimately have "rx_at S base ((got @ reads_of i e s) @ rx_bytes c1 @ pending_bytes i s) c1"
        by (simp only:)
      then show ?thesis
        using assms(1) c1(2) True Some app_run_rx(3,4) [OF c1(1)]
        by (auto simp: tracks_def simp del: append_assoc)
    next
      case False
      then show ?thesis
        using assms(1) c1(2) OnConn by (cases opn) (auto simp: tracks_def)
    qed
  qed
next
  case (Wake n)
  then show ?thesis
    using assms(1,5) tracks_wake [OF assms(1)] by (simp split: if_splits)
qed


lemma tracks_prefix:
  assumes "tracks k S base i got s"
  shows "got = take (length got) S"
proof -
  obtain r where r: "got @ r = take (length (got @ r)) S"
    using assms unfolding tracks_def rx_at_def by blast
  have "got = take (length got) (got @ r)" by simp
  also have "\<dots> = take (length got) (take (length (got @ r)) S)" using r by (rule arg_cong)
  also have "\<dots> = take (length got) S" by simp
  finally show ?thesis .
qed

lemma tracks_run:
  assumes "tracks k S base i got s" "stack_inv s" "list_all (event_of_stream k base S) es"
    "length S < 4294967296"
  shows "got @ app_bytes i es s = take (length (got @ app_bytes i es s)) S"
  using assms
proof (induction es arbitrary: got s)
  case Nil
  show ?case using tracks_prefix [OF Nil.prems(1)] by simp
next
  case (Cons e es)
  obtain s1 out where x: "exec e s = Ok (s1, out)" "stack_inv s1"
    using exec_keeps [OF Cons.prems(2)] by blast
  have "tracks k S base i (got @ reads_of i e s) s1"
    using tracks_step [OF Cons.prems(1,2) _ Cons.prems(4) x(1)] Cons.prems(3) by simp
  then have "(got @ reads_of i e s) @ app_bytes i es s1 =
      take (length ((got @ reads_of i e s) @ app_bytes i es s1)) S"
    using Cons.prems(3,4) by (intro Cons.IH [OF _ x(2)]) simp_all
  then show ?case unfolding app_bytes.simps x(1) by (simp only: res.case prod.case append_assoc)
qed

text \<open>
  C7: in-order delivery. Let connection \<open>i\<close> be open with nothing received yet, and let every segment
  that reaches the stack on its four-tuple be a slice of the peer's byte stream \<open>S\<close> (numbered from
  RCV.NXT on); segments may be lost, repeated, reordered and corrupted beyond parsing, and interleave
  with every other event: other connections, full channels that block the receive loop, timers, resets,
  FINs. Then the bytes that the application's reads return are a prefix of \<open>S\<close>: no byte is lost in
  the middle, delivered twice, out of order or from elsewhere.
\<close>

theorem reads_return_prefix_of_peer_stream:
  assumes "stack_inv s" "conn_at s i = Some c" "State c \<in> {SYN_RECEIVED, ESTABLISHED}"
    "readCh c = []" "overflow c = []" "i \<notin> set (sleepers s)" "blocked s = None"
    "list_all (event_of_stream (conn_key c) (RecvSeqNum c) S) es" "length S < 4294967296"
  shows "app_bytes i es s = take (length (app_bytes i es s)) S"
proof -
  have "tracks (conn_key c) S (RecvSeqNum c) i [] s"
    using assms(2-7) by (auto simp: tracks_def rx_at_def rx_bytes_def)
  from tracks_run [OF this assms(1,8,9)] show ?thesis by simp
qed


text \<open>A peer and a connection in the middle of a transfer, for the witness.\<close>

definition sample_peer :: TCPConnection where
  "sample_peer = sample_conn\<lparr>LocalIP := IP4 10 0 0 2, LocalPort := 40000, RemoteIP := IP4 10 0 0 1,
     RemotePort := 80, RecvSeqNum := 1001\<rparr>"

definition sample_open :: TCPConnection where
  "sample_open = (new_conn 1000 536 sample_pkt (sample_seg SYN 99 0 []) sample_frame 7)
     \<lparr>State := ESTABLISHED, SendSeqNum := 1001, SendUnacked := 1001\<rparr>"

definition sample_stack :: Stack where
  "sample_stack = SYN_stack NewStack (conn_key sample_open) sample_open"

lemma sample_stack_inv: "stack_inv sample_stack" "conn_at sample_stack 0 = Some sample_open"
proof -
  have "conn_inv sample_open"
    by (simp add: sample_open_def new_conn_def inv_defs)
  then show "stack_inv sample_stack"
    unfolding sample_stack_def
    by (intro stack_inv_SYN stack_inv_NewStack) (simp_all add: sample_open_def)
  show "conn_at sample_stack 0 = Some sample_open"
    by (simp add: sample_stack_def SYN_stack_def NewStack_def)
qed

theorem segment_reaches_one_connection_witness:
  "\<exists>s' out. dispatch 5 sample_pkt ((sample_seg SYN 1 0 [])\<lparr>SourcePort := 40001\<rparr>) sample_frame 8
      (snd (stack_Listen 80 sample_stack)) = Ok (s', out) \<and> conn_at s' 0 = Some sample_open"
proof -
  let ?s = "snd (stack_Listen 80 sample_stack)"
  let ?t = "(sample_seg SYN 1 0 [])\<lparr>SourcePort := 40001\<rparr>"
  have inv: "stack_inv ?s" "blocked ?s = None" "conn_at ?s 0 = Some sample_open"
    using sample_stack_inv stack_inv_Listen [OF sample_stack_inv(1), of 80]
    by (simp_all add: stack_Listen_def Let_def) (simp add: sample_stack_def SYN_stack_def NewStack_def)
  obtain s' out where d: "dispatch 5 sample_pkt ?t sample_frame 8 ?s = Ok (s', out)"
    using dispatch_keeps [OF inv(1,2)] by blast
  have "conn_key sample_open \<noteq> segment_key sample_pkt ?t"
    by (simp add: sample_open_def new_conn_def conn_key_def segment_key_def sample_seg_def)
  from segment_reaches_one_connection [OF inv(1) d inv(3) this] d show ?thesis by simp
qed

lemma sample_data_event:
  assumes "length payload \<le> 65435" "payload = take (length payload) (drop (unat (sq - base)) S)"
  shows "event_of_stream k base S (Recv draw (out_bytes sample_peer ACK payload sq [] sample_frame) src)"
proof -
  obtain f p where "parse_layers (out_bytes sample_peer ACK payload sq [] sample_frame) =
      Ok (f, p, (out_segment sample_peer ACK payload sq [])
        \<lparr>tcp_Checksum := out_checksum sample_peer ACK payload sq []\<rparr>)"
    using parse_layers_out_bytes [of "[]" payload sample_peer ACK sq sample_frame "[]"] assms(1) by auto
  then show ?thesis using assms(2) by (simp add: seg_of_stream_def out_segment_def)
qed

theorem reads_return_prefix_of_peer_stream_witness:
  "let es = [Recv None (out_bytes sample_peer ACK [3, 4] 102 [] sample_frame) 7,
             Recv None (out_bytes sample_peer ACK [1, 2] 100 [] sample_frame) 7, OnConn 0 (OpRead 10)]
   in app_bytes 0 es sample_stack = take (length (app_bytes 0 es sample_stack)) [1, 2, 3, 4]"
proof -
  have "RecvSeqNum sample_open = 100"
    by (simp add: sample_open_def new_conn_def sample_seg_def)
  then have "list_all (event_of_stream (conn_key sample_open) (RecvSeqNum sample_open) [1, 2, 3, 4])
     [Recv None (out_bytes sample_peer ACK [3, 4] 102 [] sample_frame) 7,
      Recv None (out_bytes sample_peer ACK [1, 2] 100 [] sample_frame) 7, OnConn 0 (OpRead 10)]"
    by (simp add: sample_data_event del: event_of_stream.simps(1))
  from reads_return_prefix_of_peer_stream [OF sample_stack_inv _ _ _ _ _ this] show ?thesis
    by (simp add: sample_open_def new_conn_def sample_stack_def SYN_stack_def NewStack_def)
qed

subsection \<open>Resets and the end of the stream\<close>

text \<open>
  A reset is honoured only at exactly RCV.NXT. Then the connection is closed, its timer stopped,
  its buffered and unacknowledged data dropped, its table entry removed, and reads return what was
  already received and then EOF; nothing is sent. At any other sequence number a reset changes nothing.
\<close>

theorem reset_needs_exact_sequence:
  assumes "conn_at s i = Some c" "State c \<noteq> CLOSED" "Flags seg AND RST \<noteq> 0"
  shows "\<exists>s'. handleSegment i seg frame src s = Ok (s', [])
    \<and> (if SeqNum seg = RecvSeqNum c then
         (\<exists>c'. conn_at s' i = Some c' \<and> State c' = CLOSED \<and> rtoTimer c' = None \<and> sendQueue c' = []
            \<and> sendUnsent c' = [] \<and> readChClosed c' \<and> rx_bytes c' = rx_bytes c
            \<and> connections s' (conn_key c) = None)
       else s' = s)"
  using assms
  by (simp add: handleSegment_def abortConnection_def Let_def closeReadChLocked_eq rx_bytes_def)
    (simp add: stopRTOLocked_def Let_def)

theorem reset_needs_exact_sequence_witness:
  "\<exists>s' c'. handleSegment 0 (sample_seg RST 100 0 []) sample_frame 7 sample_stack = Ok (s', [])
    \<and> conn_at s' 0 = Some c' \<and> State c' = CLOSED \<and> connections s' (conn_key sample_open) = None"
  using reset_needs_exact_sequence [OF sample_stack_inv(2), of "sample_seg RST 100 0 []" sample_frame 7]
  by (auto simp: sample_open_def new_conn_def sample_seg_def RST_def)

text \<open>
  The peer's FIN. An in-order segment with data and FIN on an established connection, whose
  acknowledgement is not new, delivers its data, moves to CLOSE-WAIT, and acknowledges data and FIN;
  the application reads everything received so far and then EOF.
\<close>

theorem fin_ends_stream_after_data:
  assumes "conn_at s i = Some c" "State c = ESTABLISHED" "RecvBuffer c = []" "\<not> readChClosed c"
    "length (readCh c) < 16" "Flags seg = FIN OR ACK" "SeqNum seg = RecvSeqNum c" "tcp_Payload seg \<noteq> []"
    "\<not> seqGT (AckNum seg) (SendSeqNum c)" "\<not> seqGT (AckNum seg) (SendUnacked c)"
  shows "\<exists>s' c' a1 a2. handleSegment i seg frame src s = Ok (s', [a1, (src, a2)])
    \<and> conn_at s' i = Some c' \<and> State c' = CLOSE_WAIT \<and> readChClosed c'
    \<and> rx_bytes c' = rx_bytes c @ tcp_Payload seg
    \<and> RecvSeqNum c' = SeqNum seg + of_nat (length (tcp_Payload seg)) + 1
    \<and> (\<exists>f p t. parse_layers a2 = Ok (f, p, t) \<and> Flags t = ACK \<and> AckNum t = RecvSeqNum c')"
proof -
  have f: "Flags seg AND ACK \<noteq> 0" "Flags seg AND FIN \<noteq> 0" "Flags seg AND RST = 0"
    by (simp_all add: assms(6) flag_defs)
  let ?c3 = "(rx_data seg c)\<lparr>readCh := readCh c @ [tcp_Payload seg]\<rparr>"
  define c4 where "c4 = ?c3\<lparr>RecvSeqNum := RecvSeqNum ?c3 + 1, State := CLOSE_WAIT\<rparr>"
  define c5 where "c5 = c4\<lparr>readChClosed := True\<rparr>"
  let ?a2 = "out_bytes c4 ACK [] (SendSeqNum c4) [] frame"
  have pa: "processAck seg frame src c = Ok (True, c, [])"
    using f assms(9,10) by (simp add: processAck_def)
  have pr: "push_read (RecvBuffer c @ tcp_Payload seg) (rx_data seg c) = Ok (Some ?c3)"
    using assms(3-5) by (simp add: push_read_def read_cap_def)
  have at: "conn_at (put_conn i c s) i = Some c" by simp
  have fin: "established_fin i seg frame src (put_conn i ?c3 s) [data_ack seg frame src c] =
      Ok (put_conn i c5 s, [data_ack seg frame src c, (src, ?a2)])"
    using f by (simp add: established_fin_def Let_def closeReadChLocked_eq c4_def c5_def)
  have "handleSegment i seg frame src s = Ok (put_conn i c5 s, [data_ack seg frame src c, (src, ?a2)])"
    using assms(1,2) f pa pr established_data_take [OF at assms(8,7), of frame src "[]"] fin
    by (simp add: handleSegment_def segment_ESTABLISHED_def)
  moreover obtain f p t where "parse_layers ?a2 = Ok (f, p, t)" "Flags t = ACK" "AckNum t = RecvSeqNum c4"
    using parse_layers_out_bytes [of "[]" "[]" c4 ACK "SendSeqNum c4" frame "[]"]
    by (auto simp: out_segment_def)
  ultimately show ?thesis
    using assms(7) by (intro exI [of _ "put_conn i c5 s"] exI [of _ c5] exI [of _ "data_ack seg frame src c"]
        exI [of _ ?a2]) (auto simp: c4_def c5_def rx_bytes_def)
qed

theorem fin_ends_stream_after_data_witness:
  "\<exists>s' c' a1 a2. handleSegment 0 (sample_seg (FIN OR ACK) 100 1001 [1, 2]) sample_frame 7 sample_stack =
      Ok (s', [a1, (7, a2)]) \<and> conn_at s' 0 = Some c' \<and> State c' = CLOSE_WAIT \<and> RecvSeqNum c' = 103"
  using fin_ends_stream_after_data [OF sample_stack_inv(2), of "sample_seg (FIN OR ACK) 100 1001 [1, 2]"
      sample_frame 7]
  by (force simp: sample_open_def new_conn_def sample_seg_def)

subsection \<open>The state diagram\<close>

text \<open>The transitions of the TCP diagram that this server takes: it only opens passively.\<close>

fun tcp_edge :: "TCPState \<Rightarrow> TCPState \<Rightarrow> bool" where
  "tcp_edge SYN_RECEIVED st = (st \<in> {ESTABLISHED, CLOSED})"
| "tcp_edge ESTABLISHED st = (st \<in> {FIN_WAIT_1, CLOSE_WAIT, CLOSED})"
| "tcp_edge FIN_WAIT_1 st = (st \<in> {FIN_WAIT_2, TIME_WAIT, CLOSED})"
| "tcp_edge FIN_WAIT_2 st = (st \<in> {TIME_WAIT, CLOSED})"
| "tcp_edge CLOSE_WAIT st = (st \<in> {LAST_ACK, CLOSED})"
| "tcp_edge LAST_ACK st = (st = CLOSED)"
| "tcp_edge TIME_WAIT st = (st = CLOSED)"
| "tcp_edge _ st = False"

definition tcp_path :: "TCPState \<Rightarrow> TCPState \<Rightarrow> bool" where
  "tcp_path st st' \<longleftrightarrow> st' = st \<or> tcp_edge st st' \<or> (st = SYN_RECEIVED \<and> st' = CLOSE_WAIT)"

definition goes_to :: "nat \<Rightarrow> Stack \<Rightarrow> TCPState \<Rightarrow> bool" where
  "goes_to i s st \<longleftrightarrow> (\<exists>c. conn_at s i = Some c \<and> tcp_path st (State c))"

lemma goes_to_simps [simp]:
  "goes_to i (put_conn i c s) st = tcp_path st (State c)"
  "goes_to i (put_listener l L s) st = goes_to i s st"
  "goes_to i (drop_key k s) st = goes_to i s st"
  "goes_to i (s\<lparr>blocked := b\<rparr>) st = goes_to i s st"
  "goes_to i (start_time_wait i c s) st = tcp_path st TIME_WAIT"
  by (simp_all add: goes_to_def start_time_wait_def Let_def)

lemma tcp_path_refl [simp]: "tcp_path st st"
  by (simp add: tcp_path_def)

lemma goes_to_fin:
  assumes "established_fin i seg frame src s out = Ok (s', out')" "conn_at s i = Some c"
    "tcp_path st (State c)" "tcp_path st CLOSE_WAIT"
  shows "goes_to i s' st"
  using assms by (auto simp: established_fin_def Let_def closeReadChLocked_eq goes_to_def split: if_splits)

lemma goes_to_data:
  assumes "established_data i seg frame src s out = Ok (s', out')" "conn_at s i = Some c"
    "tcp_path st (State c)" "tcp_path st CLOSE_WAIT"
  shows "goes_to i s' st"
proof (cases "tcp_Payload seg = [] \<or> SeqNum seg \<noteq> RecvSeqNum c")
  case True
  then show ?thesis using assms established_data_skip [OF assms(2)] goes_to_fin by simp
next
  case False
  then show ?thesis
    using assms goes_to_fin [of i seg frame src _ _ s' out' _ st]
    by (auto simp: established_data_take [OF assms(2)] push_read_def split: if_splits)
qed

lemma goes_to_ESTABLISHED:
  assumes "segment_ESTABLISHED i seg frame src s = Ok (s', out)" "conn_at s i = Some c" "conn_inv c"
    "tcp_path st (State c)" "tcp_path st CLOSE_WAIT"
  shows "goes_to i s' st"
proof -
  obtain goon c1 o1 where "processAck seg frame src c = Ok (goon, c1, o1)" "State c1 = State c"
    using processAck_keeps [OF assms(3)] by blast
  with assms goes_to_data [of i seg frame src "put_conn i c1 s" o1 s' out c1 st] show ?thesis
    by (auto simp: segment_ESTABLISHED_def split: if_splits)
qed

lemma goes_to_handleSegment:
  assumes "handleSegment i seg frame src s = Ok (s', out)" "conn_at s i = Some c" "conn_inv c"
    "State c \<noteq> CLOSED"
  shows "goes_to i s' (State c)"
proof -
  have stay: "goes_to i s (State c)" using assms(2) by (simp add: goes_to_def)
  show ?thesis
  proof (cases "Flags seg AND RST = 0")
    case False
    have "tcp_path (State c) CLOSED"
      using assms(3,4) by (cases "State c") (simp_all add: tcp_path_def inv_defs)
    then show ?thesis
      using assms(1,2) False stay
      by (auto simp: handleSegment_def abortConnection_def Let_def closeReadChLocked_eq split: if_splits)
  next
    case rst: True
    note hs = assms(1) [unfolded handleSegment_def assms(2) option.case rst]
    show ?thesis
    proof (cases "State c")
      case SYN_RECEIVED
      define c1 where "c1 = c\<lparr>State := ESTABLISHED, SendUnacked := AckNum seg, SendWindow := Window seg\<rparr>"
      have c1: "conn_inv c1" "State c1 = ESTABLISHED"
        using assms(3) SYN_RECEIVED by (simp_all add: c1_def inv_defs)
      have p: "tcp_path SYN_RECEIVED ESTABLISHED" "tcp_path SYN_RECEIVED CLOSE_WAIT"
        by (simp_all add: tcp_path_def)
      have run: "goes_to i s' SYN_RECEIVED"
        if "segment_ESTABLISHED i seg frame src s1 = Ok (s', out)" "conn_at s1 i = Some c1" for s1
        using goes_to_ESTABLISHED [OF that c1(1)] p c1(2) by simp
      consider "s' = s" | l where "s' = (put_conn i c1 s)\<lparr>blocked := Some (PushConn l i seg frame src)\<rparr>"
        | s1 where "segment_ESTABLISHED i seg frame src s1 = Ok (s', out)" "conn_at s1 i = Some c1"
        using hs SYN_RECEIVED assms(2)
        by (auto simp: segment_SYN_RECEIVED_def Let_def c1_def split: if_splits option.splits)
      then show ?thesis
        using run stay p c1 SYN_RECEIVED by cases auto
    next
      case ESTABLISHED
      then show ?thesis
        using hs goes_to_ESTABLISHED [OF _ assms(2,3)] by (simp add: tcp_path_def)
    next
      case FIN_WAIT_1
      obtain goon c1 o1 where a: "processAck seg frame src c = Ok (goon, c1, o1)" "State c1 = State c"
        using processAck_keeps [OF assms(3)] by blast
      have "Flags seg AND ACK \<noteq> 0" if goon
        using a(1) that by (auto simp: processAck_def split: if_splits)
      then show ?thesis
        using hs FIN_WAIT_1 assms(2) a
        by (auto simp: segment_FIN_WAIT_1_def Let_def tcp_path_def split: if_splits)
    next
      case FIN_WAIT_2
      then show ?thesis
        using hs assms(2) stay by (auto simp: segment_FIN_WAIT_2_def Let_def tcp_path_def split: if_splits)
    next
      case LAST_ACK
      then show ?thesis
        using hs assms(2) stay
        by (auto simp: segment_LAST_ACK_def removeConnection_def Let_def tcp_path_def split: if_splits)
    next
      case CLOSING
      then show ?thesis using assms(3) by (simp add: inv_defs)
    qed (use hs stay in simp_all)
  qed
qed

lemma app_run_path:
  assumes "app_run opn c = Ok (c', out)"
  shows "tcp_path (State c) (State c')"
proof (cases opn)
  case (OpWrite data)
  then show ?thesis
    using assms pump_frame(3) [of "c\<lparr>sendUnsent := sendUnsent c @ data\<rparr>" c' out] by (simp add: op_Write_eq)
next
  case OpTimer
  then show ?thesis using assms onRTO_frame(3) [of c c' out] by simp
next
  case (OpRead n)
  then show ?thesis using assms conn_Read_frame(3) by (auto simp: op_Read_def)
next
  case OpClose
  then show ?thesis using assms by (cases "State c") (auto simp: conn_Close_spec tcp_path_def)
qed

lemma tcp_path_CLOSED: "conn_inv c \<Longrightarrow> tcp_path (State c) CLOSED"
  by (cases "State c") (simp_all add: tcp_path_def inv_defs)

text \<open>
  C16: the state diagram. While the receive loop is not blocked, every event moves a connection only
  along an edge of the TCP diagram (or along SYN-RECEIVED, ESTABLISHED, CLOSE-WAIT at once, when the
  handshake's last segment carries a FIN): no event reopens a closed connection, skips a closing
  handshake, or reaches the states of an active open.
\<close>

theorem events_follow_state_diagram:
  assumes "stack_inv s" "blocked s = None" "conn_at s i = Some c" "exec e s = Ok (s', out)"
  shows "\<exists>c'. conn_at s' i = Some c' \<and> tcp_path (State c) (State c')"
proof -
  have stay: "goes_to i s (State c)" using assms(3) by (simp add: goes_to_def)
  have ci: "conn_inv c" using assms(1,3) by (rule stack_inv_conn)
  have "goes_to i s' (State c)"
  proof (cases e)
    case (Recv draw data src)
    then have "handleRaw (generateISN draw) data src s = Ok (s', out)" using assms(2,4) by simp
    then show ?thesis
    proof (cases rule: handleRaw_cases)
      case (2 f p t)
      show ?thesis
      proof (cases "connections s (segment_key p t)")
        case None
        have "next_conn s \<noteq> i" using stack_inv_fresh [OF assms(1)] assms(3) by auto
        moreover obtain m where "handleSYN (generateISN draw) p t f (segment_key p t) src s =
            (let c = new_conn (generateISN draw) m p t f src in
              Ok (SYN_stack s (segment_key p t) (c\<lparr>SendSeqNum := generateISN draw + 1\<rparr>),
                [(src, out_bytes c (SYN OR ACK) [] (generateISN draw) (buildMSSOption ourMSS) f)]))"
          using handleSYN_spec by blast
        ultimately show ?thesis
          using 2(2) None stay
          by (auto simp: dispatch_def Let_def SYN_stack_def goes_to_def split: if_splits)
      next
        case (Some j)
        then obtain d where d: "conn_at s j = Some d" "conn_key d = segment_key p t" "State d \<noteq> CLOSED"
          using stack_inv_table [OF assms(1)] by blast
        have hs: "handleSegment j t f src s = Ok (s', out)"
          using 2(2) Some by (simp add: dispatch_def Let_def)
        show ?thesis
        proof (cases "j = i")
          case True
          then show ?thesis using goes_to_handleSegment hs d assms(3) ci by simp
        next
          case False
          then have "conn_at s' i = conn_at s i"
            using handleSegment_only [OF hs d(1,2)] by (simp add: only_conn_def)
          then show ?thesis using assms(3) by (simp add: goes_to_def)
        qed
      qed
    qed (use stay in simp)
  next
    case (OnConn j opn)
    then show ?thesis
      using assms(3,4) stay app_run_path
      by (cases "conn_at s j"; cases "j = i") (auto simp: rbind_eqs goes_to_def)
  next
    case (Wake n)
    then show ?thesis
      using assms(3,4) stay tcp_path_CLOSED [OF ci]
      by (auto simp: timeWaitCleanup_def removeConnection_def Let_def goes_to_def split: if_splits option.splits)
  next
    case (DoListen p)
    then show ?thesis using assms(4) stay by (auto simp: stack_Listen_def Let_def goes_to_def)
  next
    case (DoAccept l)
    then show ?thesis
      using assms(4) stay by (auto simp: stack_Accept_def split: option.splits list.splits)
  next
    case Resume
    then show ?thesis using assms(2,4) stay by (simp add: recv_resume_def)
  qed
  then show ?thesis by (simp add: goes_to_def)
qed

theorem events_follow_state_diagram_witness:
  "\<exists>s' out c'. exec (OnConn 0 OpClose) sample_stack = Ok (s', out) \<and> conn_at s' 0 = Some c'
    \<and> tcp_path ESTABLISHED (State c')"
proof -
  obtain s' out where x: "exec (OnConn 0 OpClose) sample_stack = Ok (s', out)"
    using exec_keeps [OF sample_stack_inv(1)] by blast
  have "blocked sample_stack = None"
    by (simp add: sample_stack_def SYN_stack_def NewStack_def)
  from events_follow_state_diagram [OF sample_stack_inv(1) this sample_stack_inv(2) x] x show ?thesis
    by (simp add: sample_open_def)
qed

subsection \<open>Where the code departs from the protocol\<close>

text \<open>
  C36: the code takes a FIN without checking its sequence number. A FIN that overtakes a lost or
  delayed segment ends the stream: the connection moves to CLOSE-WAIT and the missing segment, when it
  arrives, is dropped, so the application sees EOF where data was missing.
\<close>

theorem out_of_order_fin_truncates_stream:
  assumes "conn_at s i = Some c" "State c = ESTABLISHED"
    "Flags fin = FIN OR ACK" "SeqNum fin \<noteq> RecvSeqNum c"
    "\<not> seqGT (AckNum fin) (SendSeqNum c)" "\<not> seqGT (AckNum fin) (SendUnacked c)"
    "Flags late AND RST = 0"
  shows "\<exists>s' out c'. handleSegment i fin frame src s = Ok (s', out) \<and> conn_at s' i = Some c'
    \<and> State c' = CLOSE_WAIT \<and> readChClosed c' \<and> rx_bytes c' = rx_bytes c
    \<and> handleSegment i late frame src s' = Ok (s', [])"
proof -
  have f: "Flags fin AND ACK \<noteq> 0" "Flags fin AND FIN \<noteq> 0" "Flags fin AND RST = 0"
    by (simp_all add: assms(3) flag_defs)
  have pa: "processAck fin frame src c = Ok (True, c, [])"
    using f assms(5,6) by (simp add: processAck_def)
  have at: "conn_at (put_conn i c s) i = Some c" by simp
  then show ?thesis
    using assms(1,2,4,7) f pa
    by (simp add: handleSegment_def segment_ESTABLISHED_def established_data_skip established_fin_def
        Let_def closeReadChLocked_eq rx_bytes_def)
qed

theorem out_of_order_fin_truncates_stream_witness:
  "\<exists>s' out c'. handleSegment 0 (sample_seg (FIN OR ACK) 105 1001 []) sample_frame 7 sample_stack = Ok (s', out)
    \<and> conn_at s' 0 = Some c' \<and> State c' = CLOSE_WAIT
    \<and> handleSegment 0 (sample_seg ACK 100 1001 [1, 2, 3, 4, 5]) sample_frame 7 s' = Ok (s', [])"
  using out_of_order_fin_truncates_stream [OF sample_stack_inv(2), of "sample_seg (FIN OR ACK) 105 1001 []"
      "sample_seg ACK 100 1001 [1, 2, 3, 4, 5]" sample_frame 7]
  by (force simp: sample_open_def new_conn_def sample_seg_def ACK_def RST_def)

text \<open>
  C35: \<^verbatim>\<open>Close\<close> does not wait for buffered data (a defect). When an established connection is closed with bytes
  still unsent, the FIN takes the next sequence number at once and the bytes stay buffered. As soon as the client
  acknowledges what is in flight, with room in its window, they go out, in as many segments as the window takes, in
  FIN-WAIT-1, numbered from the sequence number behind the FIN: for the client they lie beyond the end of the stream.
\<close>

theorem close_overtakes_unsent_data:
  assumes "conn_at s i = Some c" "State c = ESTABLISHED" "sendUnsent c \<noteq> []"
    and "Flags seg = ACK" "seqGT (AckNum seg) (SendUnacked c)" "\<not> seqGT (AckNum seg) (SendSeqNum c + 1)"
    and "seqLT (WL1 c) (SeqNum seg)" "unat (SendSeqNum c + 1 - AckNum seg) < unat (Window seg)"
  shows "\<exists>s1 c1 s2 c2 segs.
    exec (OnConn i OpClose) s =
      Ok (s1, [(sockaddr_of c, out_bytes c (FIN OR ACK) [] (SendSeqNum c) [] (conn_frame c))])
    \<and> conn_at s1 i = Some c1 \<and> State c1 = FIN_WAIT_1 \<and> sendUnsent c1 = sendUnsent c
    \<and> handleSegment i seg frame src s1 = Ok (s2, map (seg_emission c1) segs)
    \<and> conn_at s2 i = Some c2 \<and> State c2 = FIN_WAIT_2
    \<and> segs \<noteq> [] \<and> seg_chain (SendSeqNum c + 1) segs (SendSeqNum c2)
    \<and> queue_bytes segs =
        take (unat (Window seg) - unat (SendSeqNum c + 1 - AckNum seg)) (sendUnsent c)"
proof -
  have f: "Flags seg AND ACK \<noteq> 0" "Flags seg AND FIN = 0" "Flags seg AND RST = 0"
    by (simp_all add: assms(4) flag_defs)
  define c1 where "c1 = c\<lparr>SendSeqNum := SendSeqNum c + 1, State := FIN_WAIT_1\<rparr>"
  let ?a = "acked_conn seg c1"
  have a: "SendSeqNum ?a = SendSeqNum c + 1" "sendUnsent ?a = sendUnsent c" "SendUnacked ?a = AckNum seg"
    "SendWindow ?a = Window seg" "State ?a = FIN_WAIT_1"
    using assms(7) by (simp_all add: acked_conn_def Let_def update_window_def c1_def restartRTOLocked_def stopRTOLocked_def)
  have emis: "seg_emission ?a = seg_emission c1"
    by (intro ext) (simp add: seg_emission_def acked_conn_def Let_def update_window_def restartRTOLocked_def
        stopRTOLocked_def conn_frame_def out_bytes_def out_packet_def out_tcp_def out_checksum_def out_segment_def)
  let ?segs = "pump_segs (pump_mss ?a) ?a"
  have amount: "pump_amount ?a = min (unat (Window seg) - unat (SendSeqNum c + 1 - AckNum seg)) (length (sendUnsent c))"
    by (simp add: pump_amount_def window_room_def in_flight_def a)
  then have pos: "0 < pump_amount ?a" using assms(3,8) by simp
  define c4 where "c4 = startRTOIfIdleLocked (after_pump ?a)"
  have pump: "pumpSendLocked ?a = Ok (c4, map (seg_emission c1) ?segs)"
    using pos emis by (simp add: pumpSendLocked_spec c4_def)
  have chain: "seg_chain (SendSeqNum c + 1) ?segs (SendSeqNum c4)"
    using pump_segs_chain [of ?a] by (simp add: a c4_def after_pump_def)
  have bytes: "queue_bytes ?segs = take (unat (Window seg) - unat (SendSeqNum c + 1 - AckNum seg)) (sendUnsent c)"
    by (simp add: pump_segs_bytes amount a min_def)
  have ne: "?segs \<noteq> []" using pump_segs_eq_Nil [of ?a] pos by simp
  have close: "exec (OnConn i OpClose) s = Ok (put_conn i c1 s,
      [(sockaddr_of c, out_bytes c (FIN OR ACK) [] (SendSeqNum c) [] (conn_frame c))])"
    using assms(1,2) by (simp add: conn_Close_spec c1_def)
  have ack: "processAck seg frame src c1 = Ok (True, c4, map (seg_emission c1) ?segs)"
    using processAck_new [of seg c1] f(1) assms(5,6) pump by (simp add: c1_def)
  have "handleSegment i seg frame src (put_conn i c1 s) =
      Ok (put_conn i (c4\<lparr>State := FIN_WAIT_2\<rparr>) (put_conn i c1 s), map (seg_emission c1) ?segs)"
    using f ack by (simp add: handleSegment_def segment_FIN_WAIT_1_def c1_def)
  then show ?thesis
    using close ne chain bytes
    by (intro exI [of _ "put_conn i c1 s"] exI [of _ c1] exI [of _ "put_conn i (c4\<lparr>State := FIN_WAIT_2\<rparr>) (put_conn i c1 s)"]
        exI [of _ "c4\<lparr>State := FIN_WAIT_2\<rparr>"] exI [of _ ?segs]) (simp add: c1_def)
qed

text \<open>Three bytes fill the window of three, two more wait, and the connection is closed.\<close>

definition closing_conn :: TCPConnection where
  "closing_conn = sample_open\<lparr>SendSeqNum := 1004, SendWindow := 3, sendUnsent := [4, 5],
     sendQueue := [\<lparr>ss_seqNum = 1001, ss_data = [1, 2, 3], ss_flags = ACK\<rparr>], rto := initialRTO, rtoTimer := Some initialRTO\<rparr>"

theorem close_overtakes_unsent_data_witness:
  "\<exists>s1 c1 s2 c2 segs.
    exec (OnConn 0 OpClose) (put_conn 0 closing_conn sample_stack) =
      Ok (s1, [(7, out_bytes closing_conn (FIN OR ACK) [] 1004 [] (conn_frame closing_conn))])
    \<and> conn_at s1 0 = Some c1 \<and> State c1 = FIN_WAIT_1 \<and> sendUnsent c1 = [4, 5]
    \<and> handleSegment 0 (sample_seg ACK 101 1004 []) sample_frame 7 s1 = Ok (s2, map (seg_emission c1) segs)
    \<and> conn_at s2 0 = Some c2 \<and> seg_chain 1005 segs (SendSeqNum c2) \<and> queue_bytes segs = [4, 5]"
  using close_overtakes_unsent_data [of "put_conn 0 closing_conn sample_stack" 0 closing_conn
      "sample_seg ACK 101 1004 []" sample_frame 7]
  by (simp add: closing_conn_def sample_open_def new_conn_def sample_seg_def seqGT_def seqLT_def) blast

text \<open>
  A FIN is sent once. It is not queued for retransmission and any duplicate acknowledgement moves
  the connection on to FIN-WAIT-2 as if it had been received: with nothing else outstanding, a lost FIN
  is never sent again.
\<close>

theorem lost_fin_is_never_resent:
  assumes "conn_at s i = Some c" "State c = ESTABLISHED" "sendQueue c = []"
    "Flags dup = ACK" "\<not> seqGT (AckNum dup) (SendUnacked c)" "\<not> seqGT (AckNum dup) (SendSeqNum c + 1)"
  shows "\<exists>c1 out s2 c2. conn_Close c = Ok (c1, out) \<and> onRTO c1 = Ok (c1, [])
    \<and> handleSegment i dup frame src (put_conn i c1 s) = Ok (s2, []) \<and> conn_at s2 i = Some c2
    \<and> State c2 = FIN_WAIT_2 \<and> onRTO c2 = Ok (c2, [])"
proof -
  have f: "Flags dup AND ACK \<noteq> 0" "Flags dup AND FIN = 0" "Flags dup AND RST = 0"
    by (simp_all add: assms(4) flag_defs)
  define c1 where "c1 = c\<lparr>SendSeqNum := SendSeqNum c + 1, State := FIN_WAIT_1\<rparr>"
  have c1_FIN: "State c1 = FIN_WAIT_1" by (simp add: c1_def)
  have "processAck dup frame src c1 = Ok (True, c1, [])"
    using f assms(5,6) by (simp add: processAck_def c1_def)
  then have "handleSegment i dup frame src (put_conn i c1 s) =
      Ok (put_conn i (c1\<lparr>State := FIN_WAIT_2\<rparr>) s, [])"
    using f c1_FIN by (simp add: handleSegment_def segment_FIN_WAIT_1_def)
  moreover have "onRTO c1 = Ok (c1, [])" "onRTO (c1\<lparr>State := FIN_WAIT_2\<rparr>) = Ok (c1\<lparr>State := FIN_WAIT_2\<rparr>, [])"
    using assms(3) by (simp_all add: onRTO_spec c1_def)
  moreover have "\<exists>out. conn_Close c = Ok (c1, out)"
    using assms(2) by (simp add: conn_Close_spec c1_def)
  ultimately show ?thesis by (auto simp: c1_def)
qed

theorem lost_fin_is_never_resent_witness:
  "\<exists>c1 out s2 c2. conn_Close sample_open = Ok (c1, out) \<and>
      handleSegment 0 (sample_seg ACK 100 1001 []) sample_frame 7 (put_conn 0 c1 sample_stack) = Ok (s2, [])
    \<and> conn_at s2 0 = Some c2 \<and> State c2 = FIN_WAIT_2"
  using lost_fin_is_never_resent [OF sample_stack_inv(2), of "sample_seg ACK 100 1001 []" sample_frame 7]
  by (force simp: sample_open_def new_conn_def sample_seg_def seqGT_def)

text \<open>
  C38: a goroutine that sleeps through TIME-WAIT removes whatever its four-tuple maps to. If the old
  connection was reset meanwhile and the same peer opened a new one, the wake-up deletes the new, live
  connection from the table: its segments are no longer recognised.
\<close>

theorem stale_cleanup_drops_new_connection:
  assumes "sleepers s = [j]" "conn_at s j = Some old" "conn_at s i = Some new" "i \<noteq> j"
    "conn_key new = conn_key old" "connections s (conn_key new) = Some i"
  shows "\<exists>s'. exec (Wake 0) s = Ok (s', []) \<and> conn_at s' i = Some new
    \<and> connections s' (conn_key new) = None"
  using assms by (simp add: timeWaitCleanup_def removeConnection_def Let_def)

theorem stale_cleanup_drops_new_connection_witness:
  "\<exists>s'. exec (Wake 0) ((put_conn 1 (sample_open\<lparr>State := CLOSED\<rparr>) sample_stack)\<lparr>sleepers := [1]\<rparr>) = Ok (s', [])
    \<and> conn_at s' 0 = Some sample_open \<and> connections s' (conn_key sample_open) = None"
  using stale_cleanup_drops_new_connection [of "(put_conn 1 (sample_open\<lparr>State := CLOSED\<rparr>) sample_stack)
      \<lparr>sleepers := [1]\<rparr>" 1 "sample_open\<lparr>State := CLOSED\<rparr>" 0 sample_open]
  by (simp add: sample_stack_inv(2)) (simp add: sample_stack_def SYN_stack_def NewStack_def)

end
