(* ===== verification/Icmp_Echo.thy ===== *)
theory Icmp_Echo
  imports Tcp_Send
begin

unbundle bit_operations_syntax

section \<open>The ICMP echo server (icmp/server.go)\<close>

text \<open>
  One turn of the receive loop of \<^verbatim>\<open>RunICMPEchoServer\<close>: what it does with one received frame. \<open>Ok None\<close>
  is \<^verbatim>\<open>continue\<close>, \<open>Ok (Some e)\<close> the reply it sends. The socket calls and the prints carry no state.
\<close>

definition echo_reply :: "bytes \<Rightarrow> (unit, bytes) res" where
  "echo_reply icmp =
     rbind (set_at 0 0 icmp) (\<lambda>reply.
     rbind (set_at 1 0 reply) (\<lambda>reply.
     rbind (set_at 2 0 reply) (\<lambda>reply.
     rbind (set_at 3 0 reply) (\<lambda>reply.
     put_u16 2 4 (complement16 (add_odd (add_words 0 reply) reply)) reply))))"

definition icmp_answer :: "EthernetFrame \<Rightarrow> IPv4Packet \<Rightarrow> sockaddr \<Rightarrow> (unit, emission option) res" where
  "icmp_answer frame pkt src =
     (let icmp = ip_Payload pkt in
      rbind (idx icmp 0) (\<lambda>t. rbind (idx icmp 1) (\<lambda>_.
      if length icmp < 8 then Ok None
      else if t \<noteq> 8 then Ok None
      else rbind (echo_reply icmp) (\<lambda>reply.
        let responsePkt = \<lparr>Version = 4, IHL = 5, TotalLen = 0, TTL = 64, Protocol = 1,
              ip_Checksum = 0, ip_SrcIP = ip_DstIP pkt, ip_DstIP = ip_SrcIP pkt, ip_Payload = reply\<rparr> in
        rbind (IPv4_FlushToBytes responsePkt) (\<lambda>pktBytes.
        rbind (Eth_FlushToBytes \<lparr>DstMAC = SrcMAC frame, SrcMAC = DstMAC frame, EtherType = 0x0800,
              eth_Payload = pktBytes\<rparr>) (\<lambda>raw. Ok (Some (src, raw))))))))"

definition icmp_step :: "bytes \<Rightarrow> sockaddr \<Rightarrow> (unit, emission option) res" where
  "icmp_step data src =
     (case ParseEthernetFrame data (length data) of
        Panic \<Rightarrow> Panic | Err _ \<Rightarrow> Ok None
      | Ok frame \<Rightarrow>
          if EtherType frame \<noteq> 0x0800 then Ok None
          else (case ParseIPv4Packet (eth_Payload frame) of
              Panic \<Rightarrow> Panic | Err _ \<Rightarrow> Ok None
            | Ok pkt \<Rightarrow> if Protocol pkt \<noteq> 1 then Ok None else icmp_answer frame pkt src))"

text \<open>The reply keeps everything behind the checksum field, whose value makes it verify.\<close>

definition echo_checksum :: "bytes \<Rightarrow> u16" where
  "echo_checksum rest = complement16 (add_odd (add_words 0 ([0, 0, 0, 0] @ rest)) ([0, 0, 0, 0] @ rest))"

lemma echo_reply_spec:
  "echo_reply ([a, b, c, d] @ rest) = Ok ([0, 0] @ u16_bytes (echo_checksum rest) @ rest)"
  by (simp add: echo_reply_def go_simps u16_bytes_def echo_checksum_def del: add_words.simps)

lemmas echo_reply_Cons = echo_reply_spec [simplified]

lemma echo_reply_verifies:
  assumes "length rest \<le> 65530"
  shows "checksum_verifies ([0, 0] @ u16_bytes (echo_checksum rest) @ rest)"
proof -
  define s where "s = add_odd (add_words 0 ([0, 0, 0, 0] @ rest)) ([0, 0, 0, 0] @ rest)"
  have "word_sum ([0, 0, 0, 0] @ rest) \<le> 65535 * 32768"
    using word_sum_bound [of "[0, 0, 0, 0] @ rest"] assms by (simp del: word_sum.simps)
  then have "unat s = word_sum ([0, 0] @ [0, 0] @ rest) + 0"
    unfolding s_def by (subst unat_add_words_odd) (simp_all del: word_sum.simps)
  from checksum_inserted [OF _ this] show ?thesis
    by (simp add: checksum_verifies_def echo_checksum_def flip: s_def del: word_sum.simps)
      (simp add: s_def del: word_sum.simps)
qed

lemma long_list_cases: "8 \<le> length xs \<Longrightarrow> \<exists>a b c d rest. xs = [a, b, c, d] @ rest"
  using list_split_at [of 4 xs] by (auto simp: length_Suc_conv eval_nat_numeral)

lemma icmp_answer_spec:
  "icmp_answer frame pkt src = (let icmp = ip_Payload pkt in
     if length icmp < 2 then Panic
     else if length icmp < 8 \<or> icmp ! 0 \<noteq> 8 then Ok None
     else rbind (echo_reply icmp) (\<lambda>reply. rbind (IPv4_FlushToBytes \<lparr>Version = 4, IHL = 5, TotalLen = 0,
          TTL = 64, Protocol = 1, ip_Checksum = 0, ip_SrcIP = ip_DstIP pkt, ip_DstIP = ip_SrcIP pkt,
          ip_Payload = reply\<rparr>) (\<lambda>bs. Ok (Some (src, mac_bytes (SrcMAC frame) @ mac_bytes (DstMAC frame)
            @ u16_bytes 0x0800 @ bs)))))"
  by (auto simp: icmp_answer_def Let_def idx_def Eth_layout)

text \<open>
  C33: an echo request is answered. For every frame that holds an IPv4 packet with an ICMP echo request
  of at least eight bytes, the server sends one frame, which parses as an IPv4 ICMP packet back to the
  sender (addresses swapped at both layers), with type and code zero, the request's identifier,
  sequence number and data, and a checksum that verifies.
\<close>

theorem echo_request_answered:
  assumes "ParseEthernetFrame data (length data) = Ok frame" "EtherType frame = 0x0800"
    "ParseIPv4Packet (eth_Payload frame) = Ok pkt" "Protocol pkt = 1"
    "ip_Payload pkt = 8 # rest" "8 \<le> length (ip_Payload pkt)" "length (ip_Payload pkt) \<le> 65515"
  shows "\<exists>raw f p. icmp_step data src = Ok (Some (src, raw))
    \<and> ParseEthernetFrame raw (length raw) = Ok f \<and> ParseIPv4Packet (eth_Payload f) = Ok p
    \<and> DstMAC f = SrcMAC frame \<and> SrcMAC f = DstMAC frame
    \<and> ip_DstIP p = ip_SrcIP pkt \<and> ip_SrcIP p = ip_DstIP pkt \<and> Protocol p = 1
    \<and> take 2 (ip_Payload p) = [0, 0] \<and> drop 4 (ip_Payload p) = drop 4 (ip_Payload pkt)
    \<and> length (ip_Payload p) = length (ip_Payload pkt) \<and> checksum_verifies (ip_Payload p)"
proof -
  obtain a b c d r where r: "ip_Payload pkt = [a, b, c, d] @ r"
    using long_list_cases [OF assms(6)] by blast
  define reply where "reply = [0, 0] @ u16_bytes (echo_checksum r) @ r"
  define q where "q = \<lparr>Version = 4, IHL = 5, TotalLen = 0, TTL = 64, Protocol = 1, ip_Checksum = 0,
    ip_SrcIP = ip_DstIP pkt, ip_DstIP = ip_SrcIP pkt, ip_Payload = reply\<rparr>"
  have q: "unat (IHL q) = 5" "ip_Payload q = reply" by (simp_all add: q_def)
  have len: "length reply = length (ip_Payload pkt)" by (simp add: reply_def r u16_bytes_def)
  have rest: "rest = b # c # d # r" using r assms(5) by simp
  define bs where "bs = ipv4_head q (ipv4_checksum q) @ reply"
  have "rbind (IPv4_FlushToBytes q) (\<lambda>bs. ParseIPv4Packet (bs @ [])) =
      Ok (q\<lparr>TotalLen := of_nat (unat (IHL q) * 4 + length (ip_Payload q)), ip_Checksum := ipv4_checksum q\<rparr>)"
    using len assms(7) by (intro IPv4_parse_flush) (simp_all add: q_def)
  then have p: "ParseIPv4Packet bs =
      Ok (q\<lparr>TotalLen := of_nat (unat (IHL q) * 4 + length (ip_Payload q)), ip_Checksum := ipv4_checksum q\<rparr>)"
    by (simp add: IPv4_layout bs_def q make_bytes_def)
  let ?f = "\<lparr>DstMAC = SrcMAC frame, SrcMAC = DstMAC frame, EtherType = 0x0800, eth_Payload = bs\<rparr>"
  let ?raw = "mac_bytes (SrcMAC frame) @ mac_bytes (DstMAC frame) @ u16_bytes 0x0800 @ bs"
  have "ParseEthernetFrame ?raw (length ?raw) = Ok ?f"
    using Ethernet_parse_flush [of ?f] by (simp add: Eth_layout)
  moreover have "icmp_step data src = Ok (Some (src, ?raw))"
    using assms(1-6) rest
    by (simp add: icmp_step_def icmp_answer_spec Let_def bs_def q_def IPv4_layout echo_reply_Cons
        reply_def make_bytes_def)
  moreover have "checksum_verifies reply"
    unfolding reply_def using assms(7) r by (intro echo_reply_verifies) simp
  moreover have "take 2 reply = [0, 0]" "drop 4 reply = drop 4 (ip_Payload pkt)"
    by (simp_all add: reply_def r u16_bytes_def)
  ultimately show ?thesis
    using p len by (intro exI [of _ ?raw] exI [of _ ?f]) (simp add: q_def)
qed

text \<open>
  C34: the server panics on exactly one kind of input: an IPv4 packet of protocol 1 whose payload is
  shorter than two bytes, because the type and the code are printed before the length is checked. One
  such frame ends the process.
\<close>

theorem icmp_panics_iff_short_payload:
  "icmp_step data src = Panic \<longleftrightarrow>
     (\<exists>frame pkt. ParseEthernetFrame data (length data) = Ok frame \<and> EtherType frame = 0x0800
        \<and> ParseIPv4Packet (eth_Payload frame) = Ok pkt \<and> Protocol pkt = 1
        \<and> length (ip_Payload pkt) < 2)"
proof -
  have "icmp_answer frame pkt src = Panic \<longleftrightarrow> length (ip_Payload pkt) < 2" for frame pkt
  proof (cases "8 \<le> length (ip_Payload pkt)")
    case True
    then obtain a b c d r where "ip_Payload pkt = [a, b, c, d] @ r" using long_list_cases by blast
    then show ?thesis
      by (simp add: echo_reply_Cons icmp_answer_spec Let_def IPv4_layout)
  qed (simp add: icmp_answer_spec Let_def)
  then show ?thesis
    by (auto simp: icmp_step_def split: res.split)
qed


text \<open>A received echo request with four bytes of data, for the witness.\<close>

definition sample_ping :: bytes where
  "sample_ping = mac_bytes (MAC 2 0 0 0 0 1) @ mac_bytes (MAC 2 0 0 0 0 2) @ u16_bytes 0x0800
     @ [0x45, 0, 0, 32, 0, 0, 0, 0, 64, 1, 0, 0, 10, 0, 0, 2, 10, 0, 0, 1]
     @ [8, 0, 0, 0, 0, 9, 0, 1, 1, 2, 3, 4]"

theorem echo_request_answered_witness:
  "\<exists>raw f p. icmp_step sample_ping 7 = Ok (Some (7, raw)) \<and> ParseEthernetFrame raw (length raw) = Ok f
    \<and> ParseIPv4Packet (eth_Payload f) = Ok p \<and> ip_DstIP p = IP4 10 0 0 2
    \<and> drop 4 (ip_Payload p) = [0, 9, 0, 1, 1, 2, 3, 4] \<and> checksum_verifies (ip_Payload p)"
proof -
  let ?b = "[0x45, 0, 0, 32, 0, 0, 0, 0, 64, 1, 0, 0, 10, 0, 0, 2, 10, 0, 0, 1]
     @ [8, 0, 0, 0, 0, 9, 0, 1, 1, 2, 3, 4] :: bytes"
  let ?f = "\<lparr>DstMAC = MAC 2 0 0 0 0 1, SrcMAC = MAC 2 0 0 0 0 2, EtherType = 0x0800, eth_Payload = ?b\<rparr>"
  let ?p = "\<lparr>Version = 4, IHL = 5, TotalLen = 32, TTL = 64, Protocol = 1, ip_Checksum = 0,
    ip_SrcIP = IP4 10 0 0 2, ip_DstIP = IP4 10 0 0 1, ip_Payload = [8, 0, 0, 0, 0, 9, 0, 1, 1, 2, 3, 4]\<rparr>"
  have "ParseEthernetFrame sample_ping (length sample_ping) = Ok ?f"
    using Ethernet_parse_flush [of ?f] by (simp add: Eth_layout sample_ping_def)
  moreover have "ParseIPv4Packet (eth_Payload ?f) = Ok ?p"
    by (simp add: ParseIPv4Packet_def go_simps Let_def ip4_of_def nthz_def u16_of_def)
  ultimately show ?thesis
    using echo_request_answered [of sample_ping ?f ?p "[0, 0, 0, 0, 9, 0, 1, 1, 2, 3, 4]" 7]
    by simp blast
qed

end
