(* ===== verification/Http_Request.thy ===== *)
theory Http_Request
  imports Net_Prelude "HOL-Library.AList"
begin

unbundle bit_operations_syntax

section \<open>Reading HTTP requests (http/parse.go)\<close>

text \<open>
  Go strings are byte strings. A reader is the bytes it will deliver and the error it then returns
  (\<^verbatim>\<open>io.EOF\<close> on a closed stream); \<^verbatim>\<open>bufio.Reader\<close> changes nothing about that. Header maps are
  association lists, updated in place as a Go map is.
\<close>

subsection \<open>Strings\<close>

definition LF :: byte where "LF = 10"
definition CR :: byte where "CR = 13"
definition SP :: byte where "SP = 32"
definition HT :: byte where "HT = 9"

lemmas ctl_defs = LF_def CR_def SP_def HT_def

text \<open>\<^verbatim>\<open>strings.IndexByte\<close> and \<^verbatim>\<open>LastIndexByte\<close>, with \<open>None\<close> for -1; \<^verbatim>\<open>HasPrefix\<close>; \<^verbatim>\<open>Trim(s, cutset)\<close>.\<close>

fun index_byte :: "byte \<Rightarrow> bytes \<Rightarrow> nat option" where
  "index_byte c [] = None"
| "index_byte c (x # xs) = (if x = c then Some 0 else map_option Suc (index_byte c xs))"

fun last_index_byte :: "byte \<Rightarrow> bytes \<Rightarrow> nat option" where
  "last_index_byte c [] = None"
| "last_index_byte c (x # xs) = (case last_index_byte c xs of
       Some i \<Rightarrow> Some (Suc i) | None \<Rightarrow> if x = c then Some 0 else None)"

definition has_prefix :: "bytes \<Rightarrow> bytes \<Rightarrow> bool" where
  "has_prefix s p \<longleftrightarrow> take (length p) s = p"

definition has_suffix :: "bytes \<Rightarrow> bytes \<Rightarrow> bool" where
  "has_suffix s p \<longleftrightarrow> has_prefix (rev s) (rev p)"

definition trim_set :: "byte list \<Rightarrow> bytes \<Rightarrow> bytes" where
  "trim_set cs s = rev (dropWhile (\<lambda>b. b \<in> set cs) (rev (dropWhile (\<lambda>b. b \<in> set cs) s)))"

text \<open>\<^verbatim>\<open>strings.ToLower\<close>; the code applies it to tokens, which are ASCII.\<close>

definition lower_byte :: "byte \<Rightarrow> byte" where
  "lower_byte b = (if 65 \<le> b \<and> b \<le> 90 then b + 32 else b)"

definition to_lower :: "bytes \<Rightarrow> bytes" where
  "to_lower s = map lower_byte s"

text \<open>
  \<^verbatim>\<open>strings.TrimSpace\<close>: the encodings of the characters for which \<^verbatim>\<open>unicode.IsSpace\<close> holds are
  stripped from both ends.
\<close>

definition space_seqs :: "bytes list" where
  "space_seqs = [[9], [10], [11], [12], [13], [32], [0xC2, 0x85], [0xC2, 0xA0], [0xE1, 0x9A, 0x80],
     [0xE2, 0x80, 0x80], [0xE2, 0x80, 0x81], [0xE2, 0x80, 0x82], [0xE2, 0x80, 0x83],
     [0xE2, 0x80, 0x84], [0xE2, 0x80, 0x85], [0xE2, 0x80, 0x86], [0xE2, 0x80, 0x87],
     [0xE2, 0x80, 0x88], [0xE2, 0x80, 0x89], [0xE2, 0x80, 0x8A], [0xE2, 0x80, 0xA8],
     [0xE2, 0x80, 0xA9], [0xE2, 0x80, 0xAF], [0xE2, 0x81, 0x9F], [0xE3, 0x80, 0x80]]"

function strip_seqs :: "bytes list \<Rightarrow> bytes \<Rightarrow> bytes" where
  "strip_seqs ps s = (case find (\<lambda>p. p \<noteq> [] \<and> has_prefix s p) ps of
       None \<Rightarrow> s | Some p \<Rightarrow> strip_seqs ps (drop (length p) s))"
  by pat_completeness auto
termination
proof (relation "measure (\<lambda>(ps, s). length s)")
  fix ps s p assume "find (\<lambda>p. p \<noteq> [] \<and> has_prefix s p) ps = Some p"
  then have "p \<noteq> []" "take (length p) s = p"
    by (auto simp: find_Some_iff has_prefix_def)
  then have "s \<noteq> []" "0 < length p" by auto
  then show "((ps, drop (length p) s), ps, s) \<in> measure (\<lambda>(ps, s). length s)" by simp
qed simp

declare strip_seqs.simps [simp del]

definition trim_space :: "bytes \<Rightarrow> bytes" where
  "trim_space s = rev (strip_seqs (map rev space_seqs) (rev (strip_seqs space_seqs s)))"

subsection \<open>Decimal numbers\<close>

text \<open>
  \<^verbatim>\<open>strconv.Atoi\<close> on a 64-bit platform: an optional sign, digits only, at least one, and within the
  range of \<^verbatim>\<open>int\<close>; \<^verbatim>\<open>strconv.Itoa\<close> of a length.
\<close>

definition is_digit :: "byte \<Rightarrow> bool" where
  "is_digit b \<longleftrightarrow> 48 \<le> b \<and> b \<le> 57"

definition digits_val :: "bytes \<Rightarrow> nat" where
  "digits_val = foldl (\<lambda>n b. n * 10 + unat (b - 48)) 0"

definition Atoi :: "bytes \<Rightarrow> int option" where
  "Atoi s =
     (let neg = (s \<noteq> [] \<and> hd s = 45);
          ds = (if s \<noteq> [] \<and> (hd s = 45 \<or> hd s = 43) then tl s else s);
          n = int (digits_val ds) in
      if ds = [] \<or> \<not> list_all is_digit ds then None
      else if neg then (if n \<le> 2 ^ 63 then Some (- n) else None)
      else (if n < 2 ^ 63 then Some n else None))"

fun Itoa :: "nat \<Rightarrow> bytes" where
  "Itoa n = (if n < 10 then [48 + of_nat n] else Itoa (n div 10) @ [48 + of_nat (n mod 10)])"

declare Itoa.simps [simp del]

lemma digit_byte: "n < 10 \<Longrightarrow> unat (48 + of_nat n - 48 :: byte) = n"
proof -
  assume "n < 10"
  then have "unat (of_nat n :: byte) = n" by (simp only: unat_of_nat) simp
  then show ?thesis by simp
qed

lemma is_digit_byte: "n < 10 \<Longrightarrow> is_digit (48 + of_nat n)"
proof -
  assume n: "n < 10"
  then have u: "unat (of_nat n :: byte) = n" by (simp only: unat_of_nat) simp
  then have "unat (48 + of_nat n :: byte) = 48 + n" using n by (simp add: unat_word_ariths)
  then show ?thesis using n by (simp add: is_digit_def word_le_nat_alt)
qed

lemma digits_val_snoc [simp]: "digits_val (xs @ [b]) = digits_val xs * 10 + unat (b - 48)"
  by (simp add: digits_val_def)

lemma Itoa_spec: "digits_val (Itoa n) = n \<and> list_all is_digit (Itoa n) \<and> Itoa n \<noteq> []"
proof (induction n rule: Itoa.induct)
  case (1 n)
  show ?case
  proof (cases "n < 10")
    case True
    then show ?thesis
      using digit_byte [OF True] is_digit_byte [OF True]
      by (simp add: Itoa.simps [of n] digits_val_def del: add_diff_cancel_left')
  next
    case False
    then have "digits_val (Itoa n) = n div 10 * 10 + n mod 10"
      using 1 digit_byte [of "n mod 10"]
      by (simp add: Itoa.simps [of n] del: add_diff_cancel_left' div_mult_mod_eq)
    then have "digits_val (Itoa n) = n" by simp
    then show ?thesis
      using False 1 is_digit_byte [of "n mod 10"] by (simp add: Itoa.simps [of n])
  qed
qed

lemma digit_not_sign: "is_digit b \<Longrightarrow> b \<noteq> 45 \<and> b \<noteq> 43"
  by (auto simp: is_digit_def)

lemma Atoi_Itoa: "n < 2 ^ 63 \<Longrightarrow> Atoi (Itoa n) = Some (int n)"
proof -
  assume n: "n < 2 ^ 63"
  obtain d ds where d: "Itoa n = d # ds" "is_digit d"
    using Itoa_spec [of n] by (cases "Itoa n") auto
  from n have "int n < 2 ^ 63" by simp
  then show ?thesis
    using Itoa_spec [of n] d digit_not_sign [OF d(2)] by (simp add: Atoi_def Let_def)
qed

lemma strip_seqs_hd: "list_all (\<lambda>p. hd p \<noteq> b) ps \<Longrightarrow> strip_seqs ps (b # s) = b # s"
proof -
  assume h: "list_all (\<lambda>p. hd p \<noteq> b) ps"
  have "find (\<lambda>p. p \<noteq> [] \<and> has_prefix (b # s) p) ps = None"
    unfolding find_None_iff
  proof
    assume "\<exists>p. p \<in> set ps \<and> p \<noteq> [] \<and> has_prefix (b # s) p"
    then obtain p where "p \<in> set ps" "p \<noteq> []" "take (length p) (b # s) = p"
      by (auto simp: has_prefix_def)
    moreover from this(2,3) have "hd p = b" by (cases p) auto
    ultimately show False using h by (auto simp: list_all_iff)
  qed
  then show ?thesis by (subst strip_seqs.simps) simp
qed

lemma trim_space_digits:
  assumes "list_all is_digit s" "s \<noteq> []"
  shows "trim_space s = s"
proof -
  have ends: "list_all (\<lambda>p. hd p \<noteq> b) space_seqs" "list_all (\<lambda>p. hd p \<noteq> b) (map rev space_seqs)"
    if "is_digit b" for b
    using that by (auto simp: space_seqs_def is_digit_def)
  obtain b r where "s = b # r" "is_digit b" using assms by (cases s) auto
  then have "strip_seqs space_seqs s = s" using ends(1) by (simp add: strip_seqs_hd)
  moreover obtain c q where "rev s = c # q" "is_digit c"
    using assms by (cases s rule: rev_cases) auto
  then have "strip_seqs (map rev space_seqs) (rev s) = rev s" using ends(2) by (simp add: strip_seqs_hd)
  ultimately show ?thesis by (simp add: trim_space_def)
qed

subsection \<open>Readers and lines\<close>

datatype http_error =
    ErrMalformed | ErrLengthRequired | ErrPayloadTooLarge | ErrVersionNotSupported
  | ErrTooManyHeaders | IOError io_error

definition maxRequestLine :: nat where "maxRequestLine = 8 * 1024"
definition maxHeaderLine :: nat where "maxHeaderLine = 8 * 1024"
definition maxHeaders :: nat where "maxHeaders = 100"
definition maxBodySize :: nat where "maxBodySize = 1048576"

lemmas http_limits = maxRequestLine_def maxHeaderLine_def maxHeaders_def maxBodySize_def

fun readLine_loop :: "nat \<Rightarrow> bytes \<Rightarrow> bytes \<Rightarrow> io_error \<Rightarrow> (http_error, bytes \<times> bytes) res" where
  "readLine_loop mx buf [] e =
     (if mx \<le> length buf then Err ErrMalformed
      else if e = EOF \<and> 0 < length buf then Err (IOError UnexpectedEOF) else Err (IOError e))"
| "readLine_loop mx buf (b # rest) e =
     (if mx \<le> length buf then Err ErrMalformed
      else if b = LF then Ok (buf, rest) else readLine_loop mx (buf @ [b]) rest e)"

definition chop_CR :: "bytes \<Rightarrow> bytes" where
  "chop_CR buf = (if buf \<noteq> [] \<and> last buf = CR then butlast buf else buf)"

definition readLine :: "nat \<Rightarrow> reader \<Rightarrow> (http_error, bytes \<times> reader) res" where
  "readLine mx r = rbind (readLine_loop mx [] (fst r) (snd r)) (\<lambda>(buf, rest).
     Ok (chop_CR buf, rest, snd r))"

subsection \<open>The request line and header fields\<close>

definition isTokenChar :: "byte \<Rightarrow> bool" where
  "isTokenChar c \<longleftrightarrow> c \<in> set (str ''!#$%&*+-.^_`|~'') \<or> c = 39
     \<or> 48 \<le> c \<and> c \<le> 57 \<or> 97 \<le> c \<and> c \<le> 122 \<or> 65 \<le> c \<and> c \<le> 90"

definition isValidToken :: "bytes \<Rightarrow> bool" where
  "isValidToken s \<longleftrightarrow> s \<noteq> [] \<and> list_all isTokenChar s"

definition methodRequiresLength :: "bytes \<Rightarrow> bool" where
  "methodRequiresLength m \<longleftrightarrow> m = str ''POST'' \<or> m = str ''PUT'' \<or> m = str ''PATCH''"

text \<open>\<open>Err ()\<close> is the result with \<^verbatim>\<open>ok = false\<close>.\<close>

definition parseRequestLine :: "bytes \<Rightarrow> (unit, bytes \<times> bytes \<times> bytes) res" where
  "parseRequestLine line =
     (case index_byte SP line of
        None \<Rightarrow> Err ()
      | Some first \<Rightarrow>
          if first = 0 then Err ()
          else (case last_index_byte SP line of
              None \<Rightarrow> Panic
            | Some lst \<Rightarrow>
                if lst = first then Err ()
                else
                  rbind (slice_at line 0 first) (\<lambda>method.
                  rbind (slice_at line (first + 1) lst) (\<lambda>path.
                  rbind (slice_from line (lst + 1)) (\<lambda>version.
                  if \<not> isValidToken method then Err ()
                  else if path = [] \<or> hd path \<noteq> 47 then Err ()
                  else if \<not> list_all (\<lambda>b. b \<noteq> SP \<and> b \<noteq> HT) path then Err ()
                  else if \<not> has_prefix version (str ''HTTP/'') then Err ()
                  else Ok (method, path, version))))))"

definition parseHeader :: "bytes \<Rightarrow> (unit, bytes \<times> bytes) res" where
  "parseHeader line =
     (case index_byte 58 line of
        None \<Rightarrow> Err ()
      | Some i \<Rightarrow>
          if i = 0 then Err ()
          else
            rbind (slice_at line 0 i) (\<lambda>name.
            if \<not> isValidToken name then Err ()
            else rbind (slice_from line (i + 1)) (\<lambda>v. Ok (name, trim_set [SP, HT] v))))"

subsection \<open>ReadRequest\<close>

type_synonym headers = "(bytes \<times> bytes) list"

record Request =
  Method :: bytes
  Path :: bytes
  req_Version :: bytes
  Headers :: headers
  Body :: bytes

definition add_header :: "bytes \<Rightarrow> bytes \<Rightarrow> headers \<Rightarrow> headers" where
  "add_header name v hs = (case map_of hs name of
       Some existing \<Rightarrow> AList.update name (existing @ str '', '' @ v) hs
     | None \<Rightarrow> AList.update name v hs)"

text \<open>The header loop, with the number of iterations left before \<^verbatim>\<open>i >= maxHeaders\<close>.\<close>

fun read_headers :: "nat \<Rightarrow> headers \<Rightarrow> reader \<Rightarrow> (http_error, headers \<times> reader) res" where
  "read_headers 0 hs r = Err ErrTooManyHeaders"
| "read_headers (Suc k) hs r =
     rbind (readLine maxHeaderLine r) (\<lambda>(line, r1).
     if line = [] then Ok (hs, r1)
     else if hd line = SP \<or> hd line = HT then Err ErrMalformed
     else (case parseHeader line of
         Err _ \<Rightarrow> Err ErrMalformed
       | Panic \<Rightarrow> Panic
       | Ok (name, v) \<Rightarrow> read_headers k (add_header (to_lower name) v hs) r1))"

text \<open>\<^verbatim>\<open>io.ReadFull\<close> of the body, with the conversion of \<^verbatim>\<open>io.EOF\<close> that follows it.\<close>

definition read_body :: "nat \<Rightarrow> reader \<Rightarrow> (http_error, bytes \<times> reader) res" where
  "read_body n r =
     rwrap (\<lambda>e. IOError (if e = EOF then UnexpectedEOF else e)) (ReadFull n r)"

definition ReadRequest :: "reader \<Rightarrow> (http_error, Request \<times> reader) res" where
  "ReadRequest r =
     rbind (readLine maxRequestLine r) (\<lambda>(line, r1).
     case parseRequestLine line of
       Err _ \<Rightarrow> Err ErrMalformed
     | Panic \<Rightarrow> Panic
     | Ok (method, path, version) \<Rightarrow>
         if version \<noteq> str ''HTTP/1.1'' then Err ErrVersionNotSupported
         else
           rbind (read_headers maxHeaders [] r1) (\<lambda>(hs, r2).
           let req = \<lparr>Method = method, Path = path, req_Version = version, Headers = hs, Body = []\<rparr> in
           if map_of hs (str ''host'') = None then Err ErrMalformed
           else (case map_of hs (str ''content-length'') of
               Some cl \<Rightarrow> (case Atoi (trim_space cl) of
                   None \<Rightarrow> Err ErrMalformed
                 | Some n \<Rightarrow>
                     if n < 0 then Err ErrMalformed
                     else if int maxBodySize < n then Err ErrPayloadTooLarge
                     else rbind (read_body (nat n) r2) (\<lambda>(body, r3). Ok (req\<lparr>Body := body\<rparr>, r3)))
             | None \<Rightarrow> if methodRequiresLength method then Err ErrLengthRequired else Ok (req, r2))))"

subsection \<open>Lines and tokens, read back\<close>

lemma readLine_loop_line:
  "LF \<notin> set xs \<Longrightarrow> length buf + length xs < mx
     \<Longrightarrow> readLine_loop mx buf (xs @ LF # rest) e = Ok (buf @ xs, rest)"
  by (induction xs arbitrary: buf) auto

lemma readLine_crlf:
  "LF \<notin> set line \<Longrightarrow> length line + 1 < mx
     \<Longrightarrow> readLine mx (line @ CR # LF # rest, e) = Ok (line, rest, e)"
  using readLine_loop_line [of "line @ [CR]" "[]" mx rest e]
  by (simp add: readLine_def chop_CR_def ctl_defs)

lemma readLine_loop_total: "readLine_loop mx buf bs e \<noteq> Panic"
  by (induction mx buf bs e rule: readLine_loop.induct) auto

lemma readLine_total [simp]: "readLine mx r \<noteq> Panic"
  using readLine_loop_total by (auto simp: readLine_def rbind_eqs)

lemma readLine_loop_length:
  "readLine_loop mx buf bs e = Ok (buf', rest) \<Longrightarrow> length buf' < mx"
  by (induction mx buf bs e rule: readLine_loop.induct) (auto split: if_splits)

lemma index_byte_append: "c \<notin> set a \<Longrightarrow> index_byte c (a @ c # b) = Some (length a)"
  by (induction a) auto

lemma last_index_byte_None: "last_index_byte c b = None \<longleftrightarrow> c \<notin> set b"
  by (induction b) (auto split: option.splits)

lemma last_index_byte_append:
  assumes "c \<notin> set b"
  shows "last_index_byte c (a @ c # b) = Some (length a)"
proof -
  have "last_index_byte c b = None" using assms by (simp add: last_index_byte_None)
  then show ?thesis by (induction a) simp_all
qed

lemma index_byte_le_last:
  "index_byte c xs = Some i \<Longrightarrow> \<exists>j. last_index_byte c xs = Some j \<and> i \<le> j \<and> j < length xs"
proof (induction xs arbitrary: i)
  case (Cons x xs)
  show ?case
  proof (cases "last_index_byte c xs")
    case None
    then have "c \<notin> set xs" by (simp add: last_index_byte_None)
    then have "index_byte c xs = None" by (induction xs) auto
    then show ?thesis using Cons.prems None by (auto split: if_splits)
  next
    case (Some j)
    have "j < length xs" using Some by (induction xs arbitrary: j) (auto split: option.splits if_splits)
    moreover have "i \<le> Suc j" using Cons Some by (fastforce split: if_splits)
    ultimately show ?thesis using Some by simp
  qed
qed simp

lemma index_byte_less: "index_byte c xs = Some i \<Longrightarrow> i < length xs"
  using index_byte_le_last by fastforce

lemma token_bytes:
  assumes "isValidToken s"
  shows "SP \<notin> set s" "HT \<notin> set s" "58 \<notin> set s" "LF \<notin> set s" "CR \<notin> set s" "s \<noteq> []"
proof -
  have "\<not> isTokenChar 32" "\<not> isTokenChar 9" "\<not> isTokenChar 58" "\<not> isTokenChar 10" "\<not> isTokenChar 13"
    by (simp_all add: isTokenChar_def str_def)
  then show "SP \<notin> set s" "HT \<notin> set s" "58 \<notin> set s" "LF \<notin> set s" "CR \<notin> set s" "s \<noteq> []"
    using assms by (auto simp: isValidToken_def list_all_iff ctl_defs)
qed

lemma parseRequestLine_total [simp]: "parseRequestLine line \<noteq> Panic"
proof (cases "index_byte SP line")
  case (Some i)
  then obtain j where "last_index_byte SP line = Some j" "i \<le> j" "j < length line"
    using index_byte_le_last by blast
  with Some show ?thesis by (auto simp: parseRequestLine_def go_simps)
qed (simp add: parseRequestLine_def)

lemma parseHeader_total [simp]: "parseHeader line \<noteq> Panic"
proof (cases "index_byte 58 line")
  case (Some i)
  then have "i < length line" by (rule index_byte_less)
  with Some show ?thesis by (auto simp: parseHeader_def go_simps)
qed (simp add: parseHeader_def)

lemma read_headers_total [simp]: "read_headers k hs r \<noteq> Panic"
  by (induction k hs r rule: read_headers.induct) (auto simp: rbind_eqs split: if_splits res.splits)

definition path_ok :: "bytes \<Rightarrow> bool" where
  "path_ok p \<longleftrightarrow> p \<noteq> [] \<and> hd p = 47 \<and> SP \<notin> set p \<and> HT \<notin> set p \<and> LF \<notin> set p"

lemma parseRequestLine_build:
  assumes "isValidToken m" "path_ok p" "SP \<notin> set v" "has_prefix v (str ''HTTP/'')"
  shows "parseRequestLine (m @ SP # p @ SP # v) = Ok (m, p, v)"
proof -
  have "index_byte SP (m @ SP # p @ SP # v) = Some (length m)"
    using token_bytes(1) [OF assms(1)] by (rule index_byte_append)
  moreover have "last_index_byte SP (m @ SP # p @ SP # v) = Some (length m + 1 + length p)"
    using last_index_byte_append [of SP v "m @ SP # p"] assms(3) by simp
  moreover have "list_all (\<lambda>b. b \<noteq> SP \<and> b \<noteq> HT) p"
    using assms(2) by (auto simp: path_ok_def list_all_iff)
  ultimately show ?thesis
    using assms token_bytes(6) [OF assms(1)]
    by (simp add: parseRequestLine_def go_simps path_ok_def)
qed

definition value_ok :: "bytes \<Rightarrow> bool" where
  "value_ok v \<longleftrightarrow> trim_set [SP, HT] v = v \<and> LF \<notin> set v"

lemma parseHeader_build:
  assumes "isValidToken n" "value_ok v"
  shows "parseHeader (n @ 58 # SP # v) = Ok (n, v)"
proof -
  have "index_byte 58 (n @ 58 # SP # v) = Some (length n)"
    using token_bytes(3) [OF assms(1)] by (rule index_byte_append)
  moreover have "trim_set [SP, HT] (SP # v) = trim_set [SP, HT] v" by (simp add: trim_set_def)
  ultimately show ?thesis
    using assms token_bytes(6) [OF assms(1)] by (simp add: parseHeader_def go_simps value_ok_def)
qed

subsection \<open>Rendering a request\<close>

definition field_line :: "bytes \<times> bytes \<Rightarrow> bytes" where
  "field_line h = fst h @ 58 # SP # snd h"

definition field_ok :: "bytes \<times> bytes \<Rightarrow> bool" where
  "field_ok h \<longleftrightarrow> isValidToken (fst h) \<and> value_ok (snd h)
     \<and> length (fst h) + length (snd h) + 3 < maxHeaderLine"

definition field_block :: "headers \<Rightarrow> bytes" where
  "field_block hs = concat (map (\<lambda>h. field_line h @ [CR, LF]) hs)"

definition lower_names :: "headers \<Rightarrow> headers" where
  "lower_names hs = map (\<lambda>h. (to_lower (fst h), snd h)) hs"

lemma add_header_new: "n \<notin> set (map fst hs) \<Longrightarrow> add_header n v hs = hs @ [(n, v)]"
proof -
  assume n: "n \<notin> set (map fst hs)"
  then have "map_of hs n = None" by (simp add: map_of_eq_None_iff)
  moreover have "AList.update n v hs = hs @ [(n, v)]" using n by (induction hs) auto
  ultimately show ?thesis by (simp add: add_header_def)
qed

lemma read_headers_block:
  assumes "list_all field_ok hs" "length hs < k" "distinct (map fst (acc @ lower_names hs))"
  shows "read_headers k acc (field_block hs @ CR # LF # rest, e) = Ok (acc @ lower_names hs, rest, e)"
  using assms
proof (induction hs arbitrary: k acc)
  case Nil
  then obtain k' where "k = Suc k'" by (cases k) auto
  then show ?case
    using readLine_crlf [of "[]" maxHeaderLine rest e]
    by (simp add: field_block_def lower_names_def maxHeaderLine_def)
next
  case (Cons h hs)
  then obtain k' where k: "k = Suc k'" by (cases k) auto
  have h: "isValidToken (fst h)" "value_ok (snd h)"
    "length (field_line h) + 1 < maxHeaderLine" "LF \<notin> set (field_line h)"
    using Cons.prems(1) token_bytes(4) [of "fst h"]
    by (auto simp: field_ok_def field_line_def value_ok_def ctl_defs)
  have ne: "field_line h \<noteq> []" "hd (field_line h) \<noteq> SP" "hd (field_line h) \<noteq> HT"
  proof -
    obtain x xs where "fst h = x # xs" using token_bytes(6) [OF h(1)] by (cases "fst h") auto
    then show "field_line h \<noteq> []" "hd (field_line h) \<noteq> SP" "hd (field_line h) \<noteq> HT"
      using token_bytes(1,2) [OF h(1)] by (auto simp: field_line_def)
  qed
  have p: "parseHeader (field_line h) = Ok (fst h, snd h)"
    unfolding field_line_def using h(1,2) by (rule parseHeader_build)
  have add: "add_header (to_lower (fst h)) (snd h) acc = acc @ [(to_lower (fst h), snd h)]"
    using Cons.prems(3) by (intro add_header_new) (auto simp: lower_names_def)
  have "read_headers k' (acc @ [(to_lower (fst h), snd h)]) (field_block hs @ CR # LF # rest, e) =
      Ok ((acc @ [(to_lower (fst h), snd h)]) @ lower_names hs, rest, e)"
    using Cons.prems k by (intro Cons.IH) (simp_all add: lower_names_def)
  then show ?case
    using readLine_crlf [OF h(4,3), of "field_block hs @ CR # LF # rest" e] ne p add
    by (cases h) (simp add: k field_block_def, simp add: lower_names_def)
qed

definition render_request :: "bytes \<Rightarrow> bytes \<Rightarrow> headers \<Rightarrow> bytes \<Rightarrow> bytes" where
  "render_request m p hs body =
     m @ SP # p @ SP # str ''HTTP/1.1'' @ CR # LF # field_block hs @ CR # LF # body"

definition request_ok :: "bytes \<Rightarrow> bytes \<Rightarrow> headers \<Rightarrow> bytes \<Rightarrow> bool" where
  "request_ok m p hs body \<longleftrightarrow> isValidToken m \<and> path_ok p \<and> length m + length p + 11 < maxRequestLine
     \<and> list_all field_ok hs \<and> length hs < maxHeaders \<and> distinct (map fst (lower_names hs))
     \<and> map_of (lower_names hs) (str ''host'') \<noteq> None
     \<and> map_of (lower_names hs) (str ''content-length'') = Some (Itoa (length body))
     \<and> length body \<le> maxBodySize"

lemma ReadRequest_render:
  assumes "request_ok m p hs body"
  shows "ReadRequest (render_request m p hs body @ rest, e) =
    Ok (\<lparr>Method = m, Path = p, req_Version = str ''HTTP/1.1'', Headers = lower_names hs, Body = body\<rparr>,
        rest, e)"
proof -
  let ?v = "str ''HTTP/1.1''"
  let ?line = "m @ SP # p @ SP # ?v"
  note ok = assms [unfolded request_ok_def]
  have v: "SP \<notin> set ?v" "LF \<notin> set ?v" "has_prefix ?v (str ''HTTP/'')" "length ?v = 8"
    by (simp_all add: str_def ctl_defs has_prefix_def)
  have "LF \<notin> set m" using ok token_bytes(4) by blast
  then have "LF \<notin> set ?line" using ok v by (simp add: path_ok_def) (simp add: ctl_defs)
  moreover have "length ?line + 1 < maxRequestLine" using ok v by simp
  ultimately have l: "readLine maxRequestLine (?line @ CR # LF # field_block hs @ CR # LF # body @ rest, e) =
      Ok (?line, field_block hs @ CR # LF # body @ rest, e)" by (rule readLine_crlf)
  have p: "parseRequestLine ?line = Ok (m, p, ?v)"
    using ok v by (intro parseRequestLine_build) auto
  have h: "read_headers maxHeaders [] (field_block hs @ CR # LF # body @ rest, e) =
      Ok (lower_names hs, body @ rest, e)"
    using read_headers_block [of hs maxHeaders "[]" "body @ rest" e] ok by simp
  obtain y where hv: "map_of (lower_names hs) (str ''host'') = Some y" using ok by auto
  have a: "Atoi (trim_space (Itoa (length body))) = Some (int (length body))"
    using Atoi_Itoa [of "length body"] Itoa_spec [of "length body"] ok
    by (simp add: trim_space_digits maxBodySize_def)
  show ?thesis
    using l p h a hv ok by (simp add: ReadRequest_def render_request_def Let_def read_body_def ReadFull_def)
qed

text \<open>
  Every well-formed request within the limits is read exactly. Whatever method, path, header fields
  and body are put on the wire, \<^verbatim>\<open>ReadRequest\<close> returns the same method, path and body and the same
  fields under their lower-cased names, and leaves the bytes behind the body unread.
\<close>

theorem ReadRequest_reads_rendered_request:
  assumes "request_ok m p hs body"
  shows "ReadRequest (render_request m p hs body @ rest, e) =
    Ok (\<lparr>Method = m, Path = p, req_Version = str ''HTTP/1.1'', Headers = lower_names hs, Body = body\<rparr>,
        rest, e)"
  using assms by (rule ReadRequest_render)

theorem ReadRequest_reads_rendered_request_witness:
  "ReadRequest (render_request (str ''POST'') (str ''/orders'') [(str ''Host'', str ''x''),
      (str ''Content-Length'', str ''2'')] (str ''{}'') @ str ''tail'', EOF) =
    Ok (\<lparr>Method = str ''POST'', Path = str ''/orders'', req_Version = str ''HTTP/1.1'',
      Headers = [(str ''host'', str ''x''), (str ''content-length'', str ''2'')], Body = str ''{}''\<rparr>,
      str ''tail'', EOF)"
proof -
  have "request_ok (str ''POST'') (str ''/orders'') [(str ''Host'', str ''x''),
      (str ''Content-Length'', str ''2'')] (str ''{}'')"
    by (simp add: request_ok_def isValidToken_def isTokenChar_def path_ok_def str_def ctl_defs http_limits
        field_ok_def value_ok_def trim_set_def lower_names_def to_lower_def lower_byte_def Itoa.simps)
  from ReadRequest_reads_rendered_request [OF this, of "str ''tail''" EOF] show ?thesis
    by (simp add: lower_names_def to_lower_def lower_byte_def str_def)
qed


subsection \<open>What an accepted request satisfies\<close>

lemma parseRequestLine_sound:
  assumes "parseRequestLine line = Ok (m, p, v)"
  shows "isValidToken m \<and> p \<noteq> [] \<and> hd p = 47 \<and> SP \<notin> set p \<and> HT \<notin> set p
    \<and> line = m @ SP # p @ SP # v"
proof -
  obtain i where i: "index_byte SP line = Some i"
    using assms by (cases "index_byte SP line") (simp_all add: parseRequestLine_def)
  then obtain j where j: "last_index_byte SP line = Some j" "i \<le> j" "j < length line"
    using index_byte_le_last by blast
  have at: "line ! i = SP" "line ! j = SP"
  proof -
    show "line ! i = SP" using i by (induction line arbitrary: i) (auto split: if_splits)
    show "line ! j = SP" using j(1)
      by (induction line arbitrary: j) (auto split: if_splits option.splits)
  qed
  have ij: "i < j" "i \<noteq> 0" and m: "m = take i line" and p: "p = take (j - (i + 1)) (drop (i + 1) line)"
    and v: "v = drop (j + 1) line" and ok: "isValidToken m" "p \<noteq> []" "hd p = 47"
      "list_all (\<lambda>b. b \<noteq> SP \<and> b \<noteq> HT) p"
    using assms i j by (auto simp: parseRequestLine_def go_simps split: if_splits)
  have "line = take i line @ line ! i # drop (i + 1) line"
    using ij j(3) by (simp add: id_take_nth_drop)
  moreover have "drop (i + 1) line = p @ line ! j # v"
  proof -
    have "drop (i + 1) line ! (j - (i + 1)) = line ! j" using ij j(3) by simp
    moreover have "drop (Suc (j - (i + 1))) (drop (i + 1) line) = v" using ij by (simp add: v)
    ultimately show ?thesis
      using id_take_nth_drop [of "j - (i + 1)" "drop (i + 1) line"] ij j(3) by (simp add: p)
  qed
  ultimately have "line = m @ SP # p @ SP # v" by (simp add: at m)
  then show ?thesis using ok by (auto simp: list_all_iff)
qed

lemma length_add_header: "length (add_header n v hs) \<le> Suc (length hs)"
proof -
  have "length (AList.update n w hs) \<le> Suc (length hs)" for w by (induction hs) auto
  then show ?thesis by (auto simp: add_header_def split: option.split)
qed

lemma add_header_names:
  "distinct (map fst hs) \<Longrightarrow> distinct (map fst (add_header n v hs))"
  "fst ` set (add_header n v hs) = insert n (fst ` set hs)"
proof -
  have u: "map fst (AList.update n w hs) = (if n \<in> set (map fst hs) then map fst hs else map fst hs @ [n])"
    for w by (rule update_keys)
  show "distinct (map fst hs) \<Longrightarrow> distinct (map fst (add_header n v hs))"
    by (simp add: add_header_def u split: option.split)
  have "set (map fst (AList.update n w hs)) = insert n (set (map fst hs))" for w
    unfolding u by auto
  then show "fst ` set (add_header n v hs) = insert n (fst ` set hs)"
    by (simp add: add_header_def split: option.split)
qed

lemma lower_byte_unat:
  "unat (lower_byte b) = (if 65 \<le> unat b \<and> unat b \<le> 90 then unat b + 32 else unat b)"
  by (simp add: lower_byte_def word_le_nat_alt unat_word_ariths)

lemma to_lower_idem [simp]: "to_lower (to_lower s) = to_lower s"
proof -
  have "lower_byte (lower_byte b) = lower_byte b" for b
    by (simp add: word_unat_eq_iff lower_byte_unat)
  then show ?thesis by (simp add: to_lower_def)
qed

lemma token_to_lower: "isValidToken s \<Longrightarrow> isValidToken (to_lower s)"
proof -
  have "isTokenChar (lower_byte b)" if "isTokenChar b" for b
  proof (cases "65 \<le> b \<and> b \<le> 90")
    case True
    then have "97 \<le> lower_byte b \<and> lower_byte b \<le> 122"
      by (simp add: word_le_nat_alt lower_byte_unat)
    then show ?thesis by (simp add: isTokenChar_def)
  qed (use that in \<open>auto simp: lower_byte_def\<close>)
  then show "isValidToken s \<Longrightarrow> isValidToken (to_lower s)"
    by (auto simp: isValidToken_def to_lower_def list_all_iff)
qed

lemma parseHeader_token: "parseHeader line = Ok (n, v) \<Longrightarrow> isValidToken n"
  by (auto simp: parseHeader_def rbind_eqs split: option.splits if_splits)

lemma read_headers_sound:
  assumes "read_headers k hs r = Ok (hs', r')" "distinct (map fst hs)"
    "list_all (\<lambda>h. isValidToken (fst h) \<and> to_lower (fst h) = fst h) hs"
  shows "distinct (map fst hs') \<and> length hs' < length hs + k
    \<and> list_all (\<lambda>h. isValidToken (fst h) \<and> to_lower (fst h) = fst h) hs'"
  using assms
proof (induction k hs r rule: read_headers.induct)
  case (2 k hs r)
  obtain line r1 where l: "readLine maxHeaderLine r = Ok (line, r1)"
    using "2.prems"(1) by (auto simp: rbind_eqs)
  show ?case
  proof (cases "line = []")
    case False
    then obtain n v where nv: "parseHeader line = Ok (n, v)" "\<not> (hd line = SP \<or> hd line = HT)"
      "read_headers k (add_header (to_lower n) v hs) r1 = Ok (hs', r')"
      using "2.prems"(1) l by (auto split: res.splits if_splits)
    let ?hs = "add_header (to_lower n) v hs"
    have names: "list_all (\<lambda>h. isValidToken (fst h) \<and> to_lower (fst h) = fst h) xs
        \<longleftrightarrow> (\<forall>n \<in> fst ` set xs. isValidToken n \<and> to_lower n = n)" for xs :: headers
      by (auto simp: list_all_iff)
    have "list_all (\<lambda>h. isValidToken (fst h) \<and> to_lower (fst h) = fst h) ?hs"
      using "2.prems"(3) token_to_lower [OF parseHeader_token [OF nv(1)]]
      unfolding names add_header_names(2) by simp
    then have "distinct (map fst hs') \<and> length hs' < length ?hs + k
        \<and> list_all (\<lambda>h. isValidToken (fst h) \<and> to_lower (fst h) = fst h) hs'"
      using "2.IH" [OF l refl False nv(2) nv(1) refl nv(3)] add_header_names(1) [OF "2.prems"(2)] by simp
    then show ?thesis using length_add_header [of "to_lower n" v hs] by simp
  qed (use "2.prems" l in simp)
qed simp

lemma ReadRequest_sound:
  "case ReadRequest r of
     Panic \<Rightarrow> False
   | Err _ \<Rightarrow> True
   | Ok (q, r') \<Rightarrow> isValidToken (Method q) \<and> hd (Path q) = 47 \<and> SP \<notin> set (Path q)
       \<and> req_Version q = str ''HTTP/1.1'' \<and> length (Headers q) < 100 \<and> distinct (map fst (Headers q))
       \<and> list_all (\<lambda>h. isValidToken (fst h) \<and> to_lower (fst h) = fst h) (Headers q)
       \<and> map_of (Headers q) (str ''host'') \<noteq> None \<and> length (Body q) \<le> 1048576
       \<and> (case map_of (Headers q) (str ''content-length'') of
            None \<Rightarrow> Body q = [] \<and> \<not> methodRequiresLength (Method q)
          | Some cl \<Rightarrow> Atoi (trim_space cl) = Some (int (length (Body q))))"
proof (cases "readLine maxRequestLine r")
  case (Ok lr)
  obtain line r1 where l: "readLine maxRequestLine r = Ok (line, r1)" using Ok by (cases lr) simp
  show ?thesis
  proof (cases "parseRequestLine line")
    case (Ok mpv)
    obtain m p v where p: "parseRequestLine line = Ok (m, p, v)" using Ok by (cases mpv) simp
    note ps = parseRequestLine_sound [OF p]
    show ?thesis
    proof (cases "v = str ''HTTP/1.1''")
      case True
      show ?thesis
      proof (cases "read_headers maxHeaders [] r1")
        case (Ok hr)
        obtain hs r2 where h: "read_headers maxHeaders [] r1 = Ok (hs, r2)" using Ok by (cases hr) simp
        have hs: "distinct (map fst hs)" "length hs < 100"
          "list_all (\<lambda>h. isValidToken (fst h) \<and> to_lower (fst h) = fst h) hs"
          using read_headers_sound [OF h] by (simp_all add: maxHeaders_def)
        show ?thesis
          using l p True h hs ps
          by (auto simp: ReadRequest_def Let_def read_body_def ReadFull_def maxBodySize_def
              simp del: map_of_eq_None_iff split: option.split if_splits)
      qed (use l p True in \<open>simp_all add: ReadRequest_def\<close>)
    qed (use l p in \<open>simp add: ReadRequest_def\<close>)
  qed (use l in \<open>simp_all add: ReadRequest_def\<close>)
qed (simp_all add: ReadRequest_def)

text \<open>
  What \<^verbatim>\<open>ReadRequest\<close> lets through, for every input: it never panics, and a request it accepts has a
  token as its method, a path that starts with a slash and has no blank, version HTTP/1.1, fewer than a
  hundred header fields with distinct lower-case token names, a Host field, a body of at most one
  mebibyte whose length is the value of Content-Length, and no body when there is no such field.
\<close>

theorem ReadRequest_is_safe:
  "case ReadRequest r of
     Panic \<Rightarrow> False
   | Err _ \<Rightarrow> True
   | Ok (q, r') \<Rightarrow> isValidToken (Method q) \<and> hd (Path q) = 47 \<and> SP \<notin> set (Path q)
       \<and> req_Version q = str ''HTTP/1.1'' \<and> length (Headers q) < 100 \<and> distinct (map fst (Headers q))
       \<and> list_all (\<lambda>h. isValidToken (fst h) \<and> to_lower (fst h) = fst h) (Headers q)
       \<and> map_of (Headers q) (str ''host'') \<noteq> None \<and> length (Body q) \<le> 1048576
       \<and> (case map_of (Headers q) (str ''content-length'') of
            None \<Rightarrow> Body q = [] \<and> \<not> methodRequiresLength (Method q)
          | Some cl \<Rightarrow> Atoi (trim_space cl) = Some (int (length (Body q))))"
  by (rule ReadRequest_sound)

end
