(* ===== verification/Http_Server.thy ===== *)
theory Http_Server
  imports Http_Request "HOL-Library.List_Lexorder"
begin

unbundle bit_operations_syntax

section \<open>Routing and responding (http/http.go, http/response.go, http/server.go)\<close>

text \<open>
  The router, the response serializer and \<^verbatim>\<open>Serve\<close>. A handler may keep state of type \<open>'s\<close> and may
  panic. A response is the bytes handed to the single \<^verbatim>\<open>Write\<close> call. Go maps are association
  lists; where the code ranges over a map, the order of iteration is an argument.
\<close>

subsection \<open>Responses\<close>

record ResponseWriter =
  StatusCode :: int
  w_Headers :: headers
  w_Body :: bytes

definition rw_Write :: "bytes \<Rightarrow> ResponseWriter \<Rightarrow> ResponseWriter" where
  "rw_Write data w = w\<lparr>w_Body := w_Body w @ data\<rparr>"

definition rw_WriteHeader :: "int \<Rightarrow> ResponseWriter \<Rightarrow> ResponseWriter" where
  "rw_WriteHeader code w = w\<lparr>StatusCode := code\<rparr>"

definition statusTexts :: "(int \<times> bytes) list" where
  "statusTexts = [(200, str ''OK''), (201, str ''Created''), (204, str ''No Content''),
     (301, str ''Moved Permanently''), (302, str ''Found''), (304, str ''Not Modified''),
     (400, str ''Bad Request''), (401, str ''Unauthorized''), (403, str ''Forbidden''),
     (404, str ''Not Found''), (405, str ''Method Not Allowed''), (411, str ''Length Required''),
     (413, str ''Payload Too Large''), (431, str ''Request Header Fields Too Large''),
     (500, str ''Internal Server Error''), (501, str ''Not Implemented''),
     (505, str ''HTTP Version Not Supported'')]"

subsection \<open>The router\<close>

type_synonym 's handler =
  "Request \<Rightarrow> ResponseWriter \<Rightarrow> 's \<Rightarrow> (unit, ResponseWriter \<times> 's) res"

record 's ServeMux =
  mux_exact :: "(bytes \<times> 's handler) list"
  mux_prefix :: "(bytes \<times> 's handler) list"

definition NewServeMux :: "'s ServeMux" where
  "NewServeMux = \<lparr>mux_exact = [], mux_prefix = []\<rparr>"

definition RegisterHandler :: "bytes \<Rightarrow> 's handler \<Rightarrow> 's ServeMux \<Rightarrow> 's ServeMux" where
  "RegisterHandler pattern h mux =
     (if has_suffix pattern (str ''/'')
      then mux\<lparr>mux_prefix := AList.update pattern h (mux_prefix mux)\<rparr>
      else mux\<lparr>mux_exact := AList.update pattern h (mux_exact mux)\<rparr>)"

text \<open>The loop over the prefix map, with \<open>best\<close> and \<open>bestLen\<close>; \<^verbatim>\<open>nil\<close> is \<open>None\<close>.\<close>

fun best_prefix :: "bytes \<Rightarrow> (bytes \<times> 'h) list \<Rightarrow> 'h option \<Rightarrow> int \<Rightarrow> 'h option" where
  "best_prefix path [] best bestLen = best"
| "best_prefix path ((pat, h) # rest) best bestLen =
     (if bestLen < int (length pat) \<and> has_prefix path pat
      then best_prefix path rest (Some h) (int (length pat))
      else best_prefix path rest best bestLen)"

definition mux_match :: "(bytes \<times> 's handler) list \<Rightarrow> 's ServeMux \<Rightarrow> bytes \<Rightarrow> 's handler option" where
  "mux_match order mux path = (case map_of (mux_exact mux) path of
       Some h \<Rightarrow> Some h
     | None \<Rightarrow> best_prefix path order None (- 1))"

definition mux_Handle ::
  "(bytes \<times> 's handler) list \<Rightarrow> 's ServeMux \<Rightarrow> Request \<Rightarrow> 's \<Rightarrow> (unit, ResponseWriter \<times> 's) res" where
  "mux_Handle order mux req s =
     (let w = \<lparr>StatusCode = 200, w_Headers = [], w_Body = []\<rparr> in
      case mux_match order mux (Path req) of
        None \<Rightarrow> Ok (rw_Write (str ''404 Not Found'' @ [LF]) (w\<lparr>StatusCode := 404\<rparr>), s)
      | Some h \<Rightarrow> h req w s)"

subsection \<open>Writing a response\<close>

fun canonical_loop :: "bool \<Rightarrow> bytes \<Rightarrow> bytes" where
  "canonical_loop upper [] = []"
| "canonical_loop upper (c # cs) =
     (if upper \<and> 97 \<le> c \<and> c \<le> 122 then c - 32
      else if \<not> upper \<and> 65 \<le> c \<and> c \<le> 90 then c + 32 else c) # canonical_loop (c = 45) cs"

definition canonicalHeaderName :: "bytes \<Rightarrow> bytes" where
  "canonicalHeaderName name = canonical_loop True name"

definition fmt_d :: "int \<Rightarrow> bytes" where
  "fmt_d n = (if n < 0 then 45 # Itoa (nat (- n)) else Itoa (nat n))"

definition set_header :: "bytes \<Rightarrow> bytes \<Rightarrow> headers \<Rightarrow> headers" where
  "set_header n v hs = AList.update n v hs"

definition default_header :: "bytes \<Rightarrow> bytes \<Rightarrow> headers \<Rightarrow> headers" where
  "default_header n v hs = (case map_of hs n of Some _ \<Rightarrow> hs | None \<Rightarrow> AList.update n v hs)"

text \<open>\<open>now\<close> is the formatted clock. The result is the mutated response and the bytes written.\<close>

definition response_headers :: "bytes \<Rightarrow> ResponseWriter \<Rightarrow> headers" where
  "response_headers now resp =
     (let h1 = set_header (str ''content-length'') (Itoa (length (w_Body resp))) (w_Headers resp);
          h2 = set_header (str ''connection'') (str ''close'') h1;
          h3 = default_header (str ''date'') now h2;
          h4 = default_header (str ''server'') (str ''rawhttp'') h3 in
      if 0 < length (w_Body resp)
      then default_header (str ''content-type'') (str ''text/plain; charset=utf-8'') h4 else h4)"

definition WriteResponse :: "bytes \<Rightarrow> ResponseWriter \<Rightarrow> ResponseWriter \<times> bytes" where
  "WriteResponse now resp =
     (let code = (if StatusCode resp = 0 then 200 else StatusCode resp);
          text = (case map_of statusTexts code of Some t \<Rightarrow> t | None \<Rightarrow> str ''Status'');
          hs = response_headers now resp;
          names = sort (map fst hs) in
      (resp\<lparr>w_Headers := hs\<rparr>,
       str ''HTTP/1.1 '' @ fmt_d code @ SP # text @ [CR, LF]
       @ concat (map (\<lambda>n. canonicalHeaderName n @ 58 # SP # the (map_of hs n) @ [CR, LF]) names)
       @ [CR, LF] @ w_Body resp))"

definition error_code :: "http_error \<Rightarrow> int" where
  "error_code err = (case err of
       ErrMalformed \<Rightarrow> 400
     | ErrLengthRequired \<Rightarrow> 411
     | ErrPayloadTooLarge \<Rightarrow> 413
     | ErrTooManyHeaders \<Rightarrow> 431
     | ErrVersionNotSupported \<Rightarrow> 505
     | IOError _ \<Rightarrow> 500)"

definition WriteError :: "bytes \<Rightarrow> http_error \<Rightarrow> bytes" where
  "WriteError now err =
     (let code = error_code err;
          text = (case map_of statusTexts code of Some t \<Rightarrow> t | None \<Rightarrow> []);
          body = fmt_d code @ SP # text @ [LF] in
      snd (WriteResponse now \<lparr>StatusCode = code, w_Headers = [], w_Body = body\<rparr>))"

subsection \<open>Serve\<close>

text \<open>What \<^verbatim>\<open>Serve\<close> writes; \<open>[]\<close> is no write at all. The order of the prefix map is an argument.\<close>

definition Serve ::
  "bytes \<Rightarrow> (bytes \<times> 's handler) list \<Rightarrow> 's ServeMux \<Rightarrow> reader \<Rightarrow> 's \<Rightarrow> (unit, bytes \<times> 's) res" where
  "Serve now order mux r s =
     (case ReadRequest r of
        Panic \<Rightarrow> Panic
      | Err e \<Rightarrow> if e = IOError EOF then Ok ([], s) else Ok (WriteError now e, s)
      | Ok (req, _) \<Rightarrow> rbind (mux_Handle order mux req s) (\<lambda>(resp, s1).
          Ok (snd (WriteResponse now resp), s1)))"

subsection \<open>Routing, specified\<close>

lemma has_prefix_same_length:
  "has_prefix s p \<Longrightarrow> has_prefix s q \<Longrightarrow> length p = length q \<Longrightarrow> p = q"
  by (metis has_prefix_def)



lemma best_prefix_none:
  "list_all (\<lambda>(p, h). has_prefix path p \<longrightarrow> int (length p) \<le> n) pats
     \<Longrightarrow> best_prefix path pats b n = b"
  by (induction pats) auto

lemma best_prefix_longest:
  assumes "(p, h) \<in> set pats" "has_prefix path p" "n < int (length p)" "distinct (map fst pats)"
    "list_all (\<lambda>(q, g). has_prefix path q \<longrightarrow> length q \<le> length p) pats"
  shows "best_prefix path pats b n = Some h"
  using assms
proof (induction pats arbitrary: b n)
  case (Cons qg pats)
  obtain q g where qg: "qg = (q, g)" by (cases qg)
  show ?case
  proof (cases "q = p")
    case True
    then have "g = h" using Cons.prems(1,4) qg by (auto simp: image_iff)
    moreover have "list_all (\<lambda>(p', h). has_prefix path p' \<longrightarrow> int (length p') \<le> int (length p)) pats"
      using Cons.prems(5) by (auto simp: list_all_iff)
    ultimately show ?thesis using Cons.prems(2,3) True qg by (simp add: best_prefix_none)
  next
    case False
    then have "(p, h) \<in> set pats" using Cons.prems(1) qg by simp
    moreover have "length q < length p" if "has_prefix path q"
      using has_prefix_same_length [OF that Cons.prems(2)] False Cons.prems(5) that qg by fastforce
    ultimately show ?thesis using Cons qg by simp
  qed
qed simp

lemma ex_longest:
  "xs \<noteq> [] \<Longrightarrow> \<exists>x \<in> set xs. \<forall>y \<in> set xs. f y \<le> (f x :: nat)"
proof (induction xs)
  case (Cons a xs)
  show ?case
  proof (cases "xs = []")
    case False
    then obtain x where "x \<in> set xs" "\<forall>y \<in> set xs. f y \<le> f x" using Cons.IH by blast
    then show ?thesis by (cases "f a \<le> f x") force+
  qed simp
qed simp

text \<open>The handler that should win for a path among registered prefixes.\<close>

definition longest_prefix :: "(bytes \<times> 'h) list \<Rightarrow> bytes \<Rightarrow> 'h \<Rightarrow> bool" where
  "longest_prefix pats path h \<longleftrightarrow> (\<exists>p. (p, h) \<in> set pats \<and> has_prefix path p
     \<and> list_all (\<lambda>(q, g). has_prefix path q \<longrightarrow> length q \<le> length p) pats)"

lemma best_prefix_iff:
  assumes "distinct (map fst pats)"
  shows "best_prefix path pats None (- 1) = Some h \<longleftrightarrow> longest_prefix pats path h"
proof
  assume "longest_prefix pats path h"
  then show "best_prefix path pats None (- 1) = Some h"
    using best_prefix_longest [OF _ _ _ assms] by (auto simp: longest_prefix_def)
next
  assume r: "best_prefix path pats None (- 1) = Some h"
  let ?m = "filter (\<lambda>(p, h). has_prefix path p) pats"
  have "?m \<noteq> []"
  proof
    assume "?m = []"
    then have "list_all (\<lambda>(p, h). has_prefix path p \<longrightarrow> int (length p) \<le> - 1) pats"
      by (auto simp: filter_empty_conv list_all_iff)
    from best_prefix_none [OF this, of None] r show False by simp
  qed
  then obtain x where x: "x \<in> set ?m" "\<forall>y \<in> set ?m. length (fst y) \<le> length (fst x)"
    using ex_longest [of ?m "\<lambda>x. length (fst x)"] by blast
  obtain p g where pg: "x = (p, g)" by (cases x)
  have l: "(p, g) \<in> set pats" "has_prefix path p"
    "list_all (\<lambda>(q, g). has_prefix path q \<longrightarrow> length q \<le> length p) pats"
    using x pg by (auto simp: list_all_iff)
  then have "best_prefix path pats None (- 1) = Some g"
    using best_prefix_longest [OF _ _ _ assms] by simp
  with r l show "longest_prefix pats path h" by (auto simp: longest_prefix_def)
qed

lemma longest_prefix_cong: "set pats = set pats' \<Longrightarrow> longest_prefix pats path h = longest_prefix pats' path h"
  by (simp add: longest_prefix_def list_all_iff)

text \<open>
  Routing. Whatever order the prefix map is iterated in, a path is served by the handler registered
  for exactly that path if there is one, and otherwise by the handler of the longest registered
  prefix; there is no handler exactly when no pattern matches.
\<close>

theorem mux_match_exact_then_longest:
  assumes "distinct (map fst order)" "set order = set (mux_prefix mux)"
  shows "mux_match order mux path = Some h \<longleftrightarrow>
    (case map_of (mux_exact mux) path of Some g \<Rightarrow> g = h
     | None \<Rightarrow> longest_prefix (mux_prefix mux) path h)"
  using best_prefix_iff [OF assms(1), of path h] longest_prefix_cong [OF assms(2)]
  by (simp add: mux_match_def split: option.split)

text \<open>The router of \<^verbatim>\<open>main.go\<close>, with its handlers, but for the order routes.\<close>

definition main_handler :: "'s handler" where
  "main_handler req w s =
     (if Path req \<noteq> str ''/'' then Ok (rw_Write (str ''404 Not Found'' @ [LF]) (rw_WriteHeader 404 w), s)
      else Ok (rw_Write (str ''Hello over our own TLS!'' @ [LF]) (rw_WriteHeader 200 w), s))"

definition healthz_handler :: "'s handler" where
  "healthz_handler req w s = Ok (rw_Write (str ''ok'' @ [LF]) (rw_WriteHeader 200 w), s)"

definition echo_handler :: "'s handler" where
  "echo_handler req w s =
     rbind (slice_from (Path req) (length (str ''/echo/''))) (\<lambda>x.
     Ok (rw_Write (x @ [LF]) (rw_WriteHeader 200 w), s))"

definition main_mux :: "'s ServeMux \<Rightarrow> 's ServeMux" where
  "main_mux mux = RegisterHandler (str ''/echo/'') echo_handler
     (RegisterHandler (str ''/healthz'') healthz_handler (RegisterHandler (str ''/'') main_handler mux))"

theorem mux_match_exact_then_longest_witness:
  "mux_match (rev (mux_prefix (main_mux NewServeMux))) (main_mux NewServeMux) (str ''/echo/a'')
     = Some (echo_handler :: nat handler)"
proof -
  have m: "mux_prefix (main_mux NewServeMux) =
      [(str ''/'', main_handler), (str ''/echo/'', echo_handler :: nat handler)]"
    "mux_exact (main_mux NewServeMux) = [(str ''/healthz'', healthz_handler :: nat handler)]"
    by (simp_all add: main_mux_def NewServeMux_def RegisterHandler_def has_suffix_def has_prefix_def str_def)
  have "longest_prefix (mux_prefix (main_mux NewServeMux)) (str ''/echo/a'') (echo_handler :: nat handler)"
    unfolding m longest_prefix_def
    by (intro exI [of _ "str ''/echo/''"]) (simp add: has_prefix_def str_def)
  then show ?thesis
    by (subst mux_match_exact_then_longest) (simp_all add: m insert_commute, simp_all add: str_def)
qed


subsection \<open>Header names on the wire\<close>

lemma byte_shift:
  "97 \<le> c \<Longrightarrow> c \<le> 122 \<Longrightarrow> unat (c - 32) = unat c - 32" for c :: byte
  by (simp add: unat_sub word_le_nat_alt)

lemma byte_shift_up:
  "65 \<le> c \<Longrightarrow> c \<le> 90 \<Longrightarrow> unat (c + 32) = unat c + 32" for c :: byte
  by (simp add: word_le_nat_alt unat_word_ariths)

definition canon_byte :: "bool \<Rightarrow> byte \<Rightarrow> byte" where
  "canon_byte upper c = (if upper \<and> 97 \<le> c \<and> c \<le> 122 then c - 32
     else if \<not> upper \<and> 65 \<le> c \<and> c \<le> 90 then c + 32 else c)"

lemma canonical_loop_Cons:
  "canonical_loop upper (c # cs) = canon_byte upper c # canonical_loop (c = 45) cs"
  by (simp add: canon_byte_def)

lemma canon_byte_unat:
  "unat (canon_byte upper c) = (if upper \<and> 97 \<le> unat c \<and> unat c \<le> 122 then unat c - 32
     else if \<not> upper \<and> 65 \<le> unat c \<and> unat c \<le> 90 then unat c + 32 else unat c)"
  using byte_shift [of c] byte_shift_up [of c] by (auto simp: canon_byte_def word_le_nat_alt)

lemma canon_byte_facts:
  "canon_byte upper (canon_byte upper c) = canon_byte upper c"
  "(canon_byte upper c = 45) = (c = 45)"
  "lower_byte (canon_byte upper c) = lower_byte c"
  by (auto simp: word_unat_eq_iff canon_byte_unat lower_byte_unat)

lemma isTokenChar_lower: "isTokenChar (lower_byte c) = isTokenChar c"
proof (cases "65 \<le> c \<and> c \<le> 90")
  case True
  then have "97 \<le> lower_byte c \<and> lower_byte c \<le> 122"
    by (simp add: word_le_nat_alt lower_byte_unat)
  then show ?thesis using True by (simp add: isTokenChar_def)
qed (auto simp: lower_byte_def)

lemma isTokenChar_canon: "isTokenChar (canon_byte upper c) = isTokenChar c"
  using isTokenChar_lower [of "canon_byte upper c"] isTokenChar_lower [of c] canon_byte_facts(3) by simp

lemma canonical_loop_facts:
  "canonical_loop upper (canonical_loop upper s) = canonical_loop upper s"
  "to_lower (canonical_loop upper s) = to_lower s"
  "list_all isTokenChar (canonical_loop upper s) = list_all isTokenChar s"
  "length (canonical_loop upper s) = length s"
  by (induction s arbitrary: upper)
    (simp_all add: canonical_loop_Cons canon_byte_facts isTokenChar_canon to_lower_def
      del: canonical_loop.simps(2))

text \<open>
  Writing a header name in its canonical form changes letter case only, so it names the same field
  and stays a token, and does nothing to a name that is already canonical.
\<close>

theorem canonicalHeaderName_idempotent:
  "canonicalHeaderName (canonicalHeaderName n) = canonicalHeaderName n
    \<and> to_lower (canonicalHeaderName n) = to_lower n
    \<and> isValidToken (canonicalHeaderName n) = isValidToken n"
  using canonical_loop_facts [of True n]
  by (cases n) (simp_all add: canonicalHeaderName_def isValidToken_def)

lemma canonical_facts [simp]:
  "to_lower (canonicalHeaderName n) = to_lower n"
  "isValidToken (canonicalHeaderName n) = isValidToken n"
  "length (canonicalHeaderName n) = length n"
  using canonical_loop_facts [of True n]
  by (cases n; simp_all add: canonicalHeaderName_def isValidToken_def)+

subsection \<open>A response, read back\<close>

lemma length_Itoa: "n < 10 ^ k \<Longrightarrow> 0 < k \<Longrightarrow> length (Itoa n) \<le> k"
proof (induction k arbitrary: n)
  case (Suc k)
  show ?case
  proof (cases "n < 10")
    case False
    then have "0 < k" using Suc.prems by (cases k) auto
    moreover have "n div 10 < 10 ^ k" using Suc.prems(1) by (simp add: less_mult_imp_div_less mult.commute)
    ultimately show ?thesis using Suc.IH [of "n div 10"] False by (simp add: Itoa.simps [of n])
  qed (simp add: Itoa.simps [of n])
qed simp

lemma digits_value_ok: "list_all is_digit v \<Longrightarrow> value_ok v"
proof -
  assume v: "list_all is_digit v"
  have "\<not> is_digit 32" "\<not> is_digit 9" "\<not> is_digit 10" by (simp_all add: is_digit_def)
  then have n: "b \<noteq> SP" "b \<noteq> HT" "b \<noteq> LF" if "b \<in> set v" for b
    using v that by (auto simp: list_all_iff ctl_defs)
  have "dropWhile (\<lambda>b. b \<in> set [SP, HT]) xs = xs" if "set xs \<subseteq> set v" for xs
    using that n by (cases xs) auto
  then have "trim_set [SP, HT] v = v" by (simp add: trim_set_def)
  then show ?thesis using n by (auto simp: value_ok_def)
qed

lemma AList_update_distinct: "distinct (map fst hs) \<Longrightarrow> distinct (map fst (AList.update n v hs))"
  by (rule distinct_update)

lemma AList_update_all:
  "list_all P hs \<Longrightarrow> P (n, v) \<Longrightarrow> list_all P (AList.update n v hs)"
  by (induction hs) auto

definition resp_ok :: "bytes \<Rightarrow> ResponseWriter \<Rightarrow> bool" where
  "resp_ok now resp \<longleftrightarrow> 0 \<le> StatusCode resp \<and> StatusCode resp < 1000
     \<and> distinct (map fst (w_Headers resp)) \<and> length (w_Headers resp) < 94
     \<and> list_all (\<lambda>h. field_ok h \<and> to_lower (fst h) = fst h) (w_Headers resp)
     \<and> value_ok now \<and> length now < 8000 \<and> length (w_Body resp) < 10 ^ 18"

definition final_ok :: "nat \<Rightarrow> headers \<Rightarrow> bool" where
  "final_ok n hs \<longleftrightarrow> distinct (map fst hs) \<and> length hs \<le> n
     \<and> list_all (\<lambda>h. field_ok h \<and> to_lower (fst h) = fst h) hs"

lemma final_ok_set:
  assumes "final_ok n hs" "isValidToken k" "to_lower k = k" "value_ok v" "length k + length v + 3 < 8192"
  shows "final_ok (Suc n) (set_header k v hs)" "final_ok (Suc n) (default_header k v hs)"
proof -
  have "length (AList.update k v hs) \<le> Suc (length hs)" by (induction hs) auto
  then show "final_ok (Suc n) (set_header k v hs)"
    using assms by (auto simp: final_ok_def set_header_def AList_update_distinct field_ok_def
        maxHeaderLine_def intro!: AList_update_all)
  then show "final_ok (Suc n) (default_header k v hs)"
    using assms(1) by (auto simp: default_header_def set_header_def final_ok_def split: option.split)
qed

lemma fixed_names:
  "isValidToken (str ''content-length'') \<and> to_lower (str ''content-length'') = str ''content-length''"
  "isValidToken (str ''connection'') \<and> to_lower (str ''connection'') = str ''connection''"
  "isValidToken (str ''date'') \<and> to_lower (str ''date'') = str ''date''"
  "isValidToken (str ''server'') \<and> to_lower (str ''server'') = str ''server''"
  "isValidToken (str ''content-type'') \<and> to_lower (str ''content-type'') = str ''content-type''"
  by (simp_all add: str_def isValidToken_def isTokenChar_def to_lower_def lower_byte_def)

lemma fixed_values:
  "value_ok (str ''close'')" "value_ok (str ''rawhttp'')" "value_ok (str ''text/plain; charset=utf-8'')"
  by (simp_all add: str_def value_ok_def trim_set_def ctl_defs)

lemma response_headers_ok:
  assumes "resp_ok now resp"
  shows "final_ok 98 (response_headers now resp)"
    "map_of (response_headers now resp) (str ''content-length'') = Some (Itoa (length (w_Body resp)))"
    "map_of (response_headers now resp) (str ''connection'') = Some (str ''close'')"
proof -
  note ok = assms [unfolded resp_ok_def]
  let ?n = "Itoa (length (w_Body resp))"
  define h1 where "h1 = set_header (str ''content-length'') ?n (w_Headers resp)"
  define h2 where "h2 = set_header (str ''connection'') (str ''close'') h1"
  define h3 where "h3 = default_header (str ''date'') now h2"
  define h4 where "h4 = default_header (str ''server'') (str ''rawhttp'') h3"
  define h5 where "h5 = default_header (str ''content-type'') (str ''text/plain; charset=utf-8'') h4"
  have rh: "response_headers now resp = (if 0 < length (w_Body resp) then h5 else h4)"
    by (simp only: response_headers_def Let_def h1_def h2_def h3_def h4_def h5_def)
  have len: "length ?n \<le> 18" using length_Itoa [of _ 18] ok by simp
  have l: "length (str s) = length s" for s by (simp add: str_def)
  have "final_ok 93 (w_Headers resp)" using ok by (simp add: final_ok_def)
  then have "final_ok 94 h1"
    using final_ok_set(1) [of 93 _ "str ''content-length''" ?n] fixed_names(1) Itoa_spec digits_value_ok len l
    by (simp add: h1_def)
  then have "final_ok 95 h2"
    using final_ok_set(1) [of 94 _ "str ''connection''" "str ''close''"] fixed_names(2) fixed_values(1) l
    by (simp add: h2_def)
  then have "final_ok 96 h3"
    using final_ok_set(2) [of 95 _ "str ''date''" now] fixed_names(3) ok l by (simp add: h3_def)
  then have "final_ok 97 h4"
    using final_ok_set(2) [of 96 _ "str ''server''" "str ''rawhttp''"] fixed_names(4) fixed_values(2) l
    by (simp add: h4_def)
  then have "final_ok 98 h5 \<and> final_ok 98 h4"
    using final_ok_set(2) [of 97 _ "str ''content-type''" "str ''text/plain; charset=utf-8''"]
      fixed_names(5) fixed_values(3) l
    by (auto simp: h5_def final_ok_def)
  then show "final_ok 98 (response_headers now resp)" by (simp add: rh)
  have m: "map_of (set_header k v hs) j = (if j = k then Some v else map_of hs j)"
    "map_of hs j = Some w \<Longrightarrow> map_of (default_header k v hs) j = Some w" for k v j hs w
    by (auto simp: set_header_def default_header_def update_conv' split: option.splits)
  have ne: "str ''content-length'' \<noteq> str ''connection''" by (simp add: str_def)
  then have "map_of h4 (str ''content-length'') = Some ?n" "map_of h4 (str ''connection'') = Some (str ''close'')"
    using m by (simp_all add: h4_def h3_def h2_def h1_def)
  then show "map_of (response_headers now resp) (str ''content-length'') = Some ?n"
    "map_of (response_headers now resp) (str ''connection'') = Some (str ''close'')"
    using m(2) by (simp_all add: rh h5_def)
qed


lemma status_text_ok: "map_of statusTexts code = Some t \<Longrightarrow> LF \<notin> set t \<and> length t \<le> 40"
proof -
  have "list_all (\<lambda>(c, t). LF \<notin> set t \<and> length t \<le> 40) statusTexts"
    by (simp add: statusTexts_def str_def ctl_defs)
  then show "map_of statusTexts code = Some t \<Longrightarrow> LF \<notin> set t \<and> length t \<le> 40"
    by (auto simp: list_all_iff dest!: map_of_SomeD)
qed

definition status_line :: "int \<Rightarrow> bytes" where
  "status_line code = str ''HTTP/1.1 '' @ fmt_d code @ SP #
     (case map_of statusTexts code of Some t \<Rightarrow> t | None \<Rightarrow> str ''Status'')"

lemma status_line_ok:
  assumes "0 \<le> code" "code < 1000"
  shows "LF \<notin> set (status_line code)" "length (status_line code) < 60"
proof -
  let ?t = "case map_of statusTexts code of Some t \<Rightarrow> t | None \<Rightarrow> str ''Status''"
  have t: "LF \<notin> set ?t \<and> length ?t \<le> 40"
    using status_text_ok [of code] by (auto simp: str_def ctl_defs split: option.split)
  have d: "length (Itoa (nat code)) \<le> 3" using length_Itoa [of "nat code" 3] assms by simp
  have "\<not> is_digit LF" by (simp add: is_digit_def ctl_defs)
  then have "LF \<notin> set (Itoa (nat code))" using Itoa_spec [of "nat code"] by (auto simp: list_all_iff)
  then show "LF \<notin> set (status_line code)" "length (status_line code) < 60"
    using t d assms(1) by (simp_all add: status_line_def fmt_d_def str_def) (simp add: ctl_defs)
qed

definition wire_headers :: "headers \<Rightarrow> headers" where
  "wire_headers hs = map (\<lambda>n. (canonicalHeaderName n, the (map_of hs n))) (sort (map fst hs))"

lemma WriteResponse_eq:
  "snd (WriteResponse now resp) = status_line (if StatusCode resp = 0 then 200 else StatusCode resp) @ CR # LF
     # field_block (wire_headers (response_headers now resp)) @ CR # LF # w_Body resp"
  by (simp add: WriteResponse_def Let_def status_line_def field_block_def wire_headers_def comp_def
      field_line_def)

lemma wire_headers_ok:
  assumes "final_ok n hs"
  shows "list_all field_ok (wire_headers hs)" "length (wire_headers hs) \<le> n"
    "distinct (map fst (lower_names (wire_headers hs)))"
    "map_of (lower_names (wire_headers hs)) = map_of hs"
    "map fst (lower_names (wire_headers hs)) = sort (map fst hs)"
proof -
  note ok = assms [unfolded final_ok_def]
  have each: "\<exists>v. (k, v) \<in> set hs \<and> map_of hs k = Some v \<and> field_ok (k, v) \<and> to_lower k = k"
    if "k \<in> set (map fst hs)" for k
  proof -
    obtain v where v: "(k, v) \<in> set hs" using \<open>k \<in> set (map fst hs)\<close> by auto
    then have "map_of hs k = Some v" using ok by simp
    with v ok show ?thesis by (fastforce simp: list_all_iff)
  qed
  show "list_all field_ok (wire_headers hs)"
    using each by (fastforce simp: list_all_iff wire_headers_def field_ok_def)
  show "length (wire_headers hs) \<le> n" using ok by (simp add: wire_headers_def)
  have low: "lower_names (wire_headers hs) = map (\<lambda>k. (k, the (map_of hs k))) (sort (map fst hs))"
    using each by (force simp: lower_names_def wire_headers_def)
  then show names: "map fst (lower_names (wire_headers hs)) = sort (map fst hs)"
    by (simp add: comp_def)
  show "distinct (map fst (lower_names (wire_headers hs)))" using ok by (simp add: names)
  show "map_of (lower_names (wire_headers hs)) = map_of hs"
  proof
    fix k
    show "map_of (lower_names (wire_headers hs)) k = map_of hs k"
    proof (cases "k \<in> set (map fst hs)")
      case True
      then show ?thesis using each [OF True] unfolding low by (auto simp: map_of_map_restrict)
    next
      case False
      then have "map_of hs k = None" by (simp add: map_of_eq_None_iff)
      then show ?thesis using False unfolding low by (simp add: map_of_map_restrict restrict_map_def)
    qed
  qed
qed

lemma WriteResponse_parse:
  assumes "resp_ok now resp"
  shows "\<exists>r hs. readLine maxHeaderLine (snd (WriteResponse now resp), e) =
      Ok (status_line (if StatusCode resp = 0 then 200 else StatusCode resp), r)
    \<and> read_headers maxHeaders [] r = Ok (hs, w_Body resp, e)
    \<and> map_of hs = map_of (response_headers now resp) \<and> sorted (map fst hs)
    \<and> map_of hs (str ''content-length'') = Some (Itoa (length (w_Body resp)))
    \<and> map_of hs (str ''connection'') = Some (str ''close'')"
proof -
  let ?code = "if StatusCode resp = 0 then 200 else StatusCode resp"
  let ?hs = "response_headers now resp"
  let ?rest = "field_block (wire_headers ?hs) @ CR # LF # w_Body resp"
  have "0 \<le> ?code" "?code < 1000" using assms by (simp_all add: resp_ok_def)
  from status_line_ok [OF this] have "readLine maxHeaderLine (snd (WriteResponse now resp), e) =
      Ok (status_line ?code, ?rest, e)"
    unfolding WriteResponse_eq by (intro readLine_crlf) (simp_all add: maxHeaderLine_def)
  moreover note w = wire_headers_ok [OF response_headers_ok(1) [OF assms]]
  moreover have "read_headers maxHeaders [] (?rest, e) = Ok (lower_names (wire_headers ?hs), w_Body resp, e)"
    using read_headers_block [of "wire_headers ?hs" maxHeaders "[]" "w_Body resp" e] w
    by (simp add: maxHeaders_def)
  ultimately show ?thesis using response_headers_ok(2,3) [OF assms] by auto
qed

text \<open>
  A response is framed so that the server's own parser reads it back. The bytes written are a status
  line, header lines and the body; reading them yields the status, exactly the response's final header
  fields in alphabetical order, and exactly the body, whose length Content-Length gives; Connection is
  \<^verbatim>\<open>close\<close>.
\<close>

theorem WriteResponse_reads_back:
  assumes "resp_ok now resp"
  shows "\<exists>r hs. readLine maxHeaderLine (snd (WriteResponse now resp), e) =
      Ok (status_line (if StatusCode resp = 0 then 200 else StatusCode resp), r)
    \<and> read_headers maxHeaders [] r = Ok (hs, w_Body resp, e)
    \<and> map_of hs = map_of (response_headers now resp) \<and> sorted (map fst hs)
    \<and> map_of hs (str ''content-length'') = Some (Itoa (length (w_Body resp)))
    \<and> map_of hs (str ''connection'') = Some (str ''close'')"
  using WriteResponse_parse [OF assms] .

theorem WriteResponse_reads_back_witness:
  "\<exists>r hs. readLine maxHeaderLine (snd (WriteResponse (str ''now'') \<lparr>StatusCode = 201,
      w_Headers = [(str ''x-id'', str ''7'')], w_Body = str ''hi''\<rparr>), EOF) = Ok (status_line 201, r)
    \<and> read_headers maxHeaders [] r = Ok (hs, str ''hi'', EOF)
    \<and> map_of hs (str ''content-length'') = Some (Itoa 2)"
proof -
  have "resp_ok (str ''now'') \<lparr>StatusCode = 201, w_Headers = [(str ''x-id'', str ''7'')], w_Body = str ''hi''\<rparr>"
    by (simp add: resp_ok_def field_ok_def isValidToken_def isTokenChar_def value_ok_def trim_set_def str_def
        ctl_defs to_lower_def lower_byte_def maxHeaderLine_def)
  from WriteResponse_reads_back [OF this, of EOF] obtain r hs where
    "readLine maxHeaderLine (snd (WriteResponse (str ''now'') \<lparr>StatusCode = 201,
      w_Headers = [(str ''x-id'', str ''7'')], w_Body = str ''hi''\<rparr>), EOF) = Ok (status_line 201, r)"
    "read_headers maxHeaders [] r = Ok (hs, str ''hi'', EOF)"
    "map_of hs (str ''content-length'') = Some (Itoa (length (str ''hi'')))"
    by auto
  moreover have "length (str ''hi'') = 2" by (simp add: str_def)
  ultimately show ?thesis by auto
qed

text \<open>The error responses are within the limits too.\<close>

lemma error_resp_ok:
  assumes "value_ok now" "length now < 8000"
  shows "resp_ok now \<lparr>StatusCode = error_code err, w_Headers = [],
      w_Body = fmt_d (error_code err) @ SP #
        (case map_of statusTexts (error_code err) of Some t \<Rightarrow> t | None \<Rightarrow> []) @ [LF]\<rparr>"
proof -
  let ?t = "case map_of statusTexts (error_code err) of Some t \<Rightarrow> t | None \<Rightarrow> []"
  let ?b = "fmt_d (error_code err) @ SP # ?t @ [LF]"
  have code: "0 \<le> error_code err" "error_code err < 1000" "error_code err \<noteq> 0"
    by (cases err; simp add: error_code_def)+
  have "length ?t \<le> 40" using status_text_ok [of "error_code err"] by (auto split: option.split)
  moreover have "length (fmt_d (error_code err)) \<le> 3"
    using length_Itoa [of "nat (error_code err)" 3] code by (simp add: fmt_d_def)
  ultimately have "length ?b < 10 ^ 18" by simp
  then show ?thesis using assms code by (simp add: resp_ok_def)
qed

text \<open>
  C32: a request that the parser refuses, for any reason but a connection that ends at a line boundary,
  is answered with one well-formed response: 400 Bad Request for a malformed one, 411 Length Required for a
  body without Content-Length, 413 Payload Too Large, 431 Request Header Fields Too Large, 505 HTTP Version
  Not Supported, and 500 Internal Server Error for a failed read. The status line has this code and reason, the
  body repeats them, Content-Length is its length, the connection is announced to close, the body is plain
  text, and no handler runs.
\<close>

theorem Serve_rejects_with_status:
  assumes "ReadRequest r = Err err" "err \<noteq> IOError EOF" "value_ok now" "length now < 8000"
  shows "\<exists>out r' hs.
    let status = str (case err of
         ErrMalformed \<Rightarrow> ''400 Bad Request''
       | ErrLengthRequired \<Rightarrow> ''411 Length Required''
       | ErrPayloadTooLarge \<Rightarrow> ''413 Payload Too Large''
       | ErrTooManyHeaders \<Rightarrow> ''431 Request Header Fields Too Large''
       | ErrVersionNotSupported \<Rightarrow> ''505 HTTP Version Not Supported''
       | IOError _ \<Rightarrow> ''500 Internal Server Error'') in
    Serve now order mux r s = Ok (out, s)
    \<and> readLine maxHeaderLine (out, EOF) = Ok (str ''HTTP/1.1 '' @ status, r')
    \<and> read_headers maxHeaders [] r' = Ok (hs, status @ [10], EOF)
    \<and> map_of hs (str ''content-length'') = Some (Itoa (length status + 1))
    \<and> map_of hs (str ''connection'') = Some (str ''close'')
    \<and> map_of hs (str ''content-type'') = Some (str ''text/plain; charset=utf-8'')"
proof -
  define status where "status = str (case err of
         ErrMalformed \<Rightarrow> ''400 Bad Request''
       | ErrLengthRequired \<Rightarrow> ''411 Length Required''
       | ErrPayloadTooLarge \<Rightarrow> ''413 Payload Too Large''
       | ErrTooManyHeaders \<Rightarrow> ''431 Request Header Fields Too Large''
       | ErrVersionNotSupported \<Rightarrow> ''505 HTTP Version Not Supported''
       | IOError _ \<Rightarrow> ''500 Internal Server Error'')"
  let ?w = "\<lparr>StatusCode = error_code err, w_Headers = [], w_Body = status @ [10]\<rparr>"
  have table: "fmt_d (error_code err) @ SP # (case map_of statusTexts (error_code err) of Some t \<Rightarrow> t | None \<Rightarrow> []) = status"
      "status_line (error_code err) = str ''HTTP/1.1 '' @ status"
    by (cases err; simp add: error_code_def statusTexts_def status_line_def fmt_d_def Itoa.simps str_def ctl_defs status_def)+
  have code: "error_code err \<noteq> 0" by (cases err) (simp_all add: error_code_def)
  have body: "fmt_d (error_code err) @ SP #
      (case map_of statusTexts (error_code err) of Some t \<Rightarrow> t | None \<Rightarrow> []) @ [LF] = status @ [10]"
    unfolding table(1) [symmetric] by (simp add: ctl_defs)
  have w: "WriteError now err = snd (WriteResponse now ?w)"
    unfolding WriteError_def Let_def body ..
  have ok: "resp_ok now ?w" using error_resp_ok [OF assms(3,4), of err] unfolding body .
  have ct: "map_of (response_headers now ?w) (str ''content-type'') = Some (str ''text/plain; charset=utf-8'')"
    by (simp add: response_headers_def set_header_def default_header_def str_def Let_def)
  have "Serve now order mux r s = Ok (WriteError now err, s)"
    using assms(1,2) by (simp add: Serve_def)
  with WriteResponse_parse [OF ok, of EOF] w code ct show ?thesis
    unfolding status_def [symmetric] Let_def table(2) by (auto simp: table(2))
qed

theorem Serve_rejects_with_status_witness:
  "\<exists>out r' hs. Serve (str ''now'') [] NewServeMux (str ''GET'' @ [LF], EOF) (0 :: nat) = Ok (out, 0)
    \<and> readLine maxHeaderLine (out, EOF) = Ok (str ''HTTP/1.1 400 Bad Request'', r')
    \<and> read_headers maxHeaders [] r' = Ok (hs, str ''400 Bad Request'' @ [10], EOF)"
proof -
  have "ReadRequest (str ''GET'' @ [LF], EOF) = Err ErrMalformed"
    by (simp add: ReadRequest_def readLine_def http_limits str_def ctl_defs chop_CR_def parseRequestLine_def)
  moreover have "value_ok (str ''now'')" "length (str ''now'') < 8000"
    by (simp_all add: value_ok_def trim_set_def str_def ctl_defs)
  moreover have "str ''HTTP/1.1 '' @ str ''400 Bad Request'' = str ''HTTP/1.1 400 Bad Request''" by (simp add: str_def)
  ultimately show ?thesis
    using Serve_rejects_with_status [of "(str ''GET'' @ [LF], EOF)" ErrMalformed "str ''now''" "[]"
        NewServeMux "0 :: nat"]
    by (simp add: Let_def) blast
qed

text \<open>
  The server end to end. A client that sends any well-formed request reads back exactly the status
  and the body that the handler of its path built from exactly that request: the handler registered
  for the path if there is one, otherwise that of the longest prefix, whatever the order in which the
  router's map is iterated.
\<close>

theorem Serve_end_to_end:
  assumes "request_ok m p hs body" "distinct (map fst order)" "set order = set (mux_prefix mux)"
    "case map_of (mux_exact mux) p of Some g \<Rightarrow> g = h | None \<Rightarrow> longest_prefix (mux_prefix mux) p h"
    "h \<lparr>Method = m, Path = p, req_Version = str ''HTTP/1.1'', Headers = lower_names hs, Body = body\<rparr>
       \<lparr>StatusCode = 200, w_Headers = [], w_Body = []\<rparr> s = Ok (resp, s')"
    "resp_ok now resp"
  shows "\<exists>out r hs'. Serve now order mux (render_request m p hs body @ rest, e) s = Ok (out, s')
    \<and> readLine maxHeaderLine (out, EOF) =
        Ok (status_line (if StatusCode resp = 0 then 200 else StatusCode resp), r)
    \<and> read_headers maxHeaders [] r = Ok (hs', w_Body resp, EOF)
    \<and> map_of hs' (str ''content-length'') = Some (Itoa (length (w_Body resp)))"
proof -
  have "mux_match order mux p = Some h"
    using assms(4) best_prefix_iff [OF assms(2), of p h] longest_prefix_cong [OF assms(3)]
    by (simp add: mux_match_def split: option.splits)
  then have "Serve now order mux (render_request m p hs body @ rest, e) s =
      Ok (snd (WriteResponse now resp), s')"
    using ReadRequest_render [OF assms(1), of rest e] assms(5)
    by (simp add: Serve_def mux_Handle_def Let_def)
  with WriteResponse_parse [OF assms(6), of EOF] show ?thesis by auto
qed

theorem Serve_end_to_end_witness:
  "\<exists>out r hs'. Serve (str ''now'') (mux_prefix (main_mux NewServeMux)) (main_mux NewServeMux)
      (render_request (str ''GET'') (str ''/healthz'') [(str ''Host'', str ''x''),
        (str ''Content-Length'', str ''0'')] [] @ [], EOF) (0 :: nat) = Ok (out, 0)
    \<and> readLine maxHeaderLine (out, EOF) = Ok (status_line 200, r)
    \<and> read_headers maxHeaders [] r = Ok (hs', str ''ok'' @ [LF], EOF)"
proof -
  let ?hs = "[(str ''Host'', str ''x''), (str ''Content-Length'', str ''0'')]"
  let ?mux = "main_mux NewServeMux :: nat ServeMux"
  have m: "mux_prefix ?mux = [(str ''/'', main_handler), (str ''/echo/'', echo_handler)]"
    "mux_exact ?mux = [(str ''/healthz'', healthz_handler)]"
    by (simp_all add: main_mux_def NewServeMux_def RegisterHandler_def has_suffix_def has_prefix_def str_def)
  have q: "request_ok (str ''GET'') (str ''/healthz'') ?hs []"
    by (simp add: request_ok_def isValidToken_def isTokenChar_def path_ok_def str_def ctl_defs http_limits
        field_ok_def value_ok_def trim_set_def lower_names_def to_lower_def lower_byte_def Itoa.simps)
  have d: "distinct (map fst (mux_prefix ?mux))" by (simp add: m str_def)
  have sel: "case map_of (mux_exact ?mux) (str ''/healthz'') of Some g \<Rightarrow> g = healthz_handler
      | None \<Rightarrow> longest_prefix (mux_prefix ?mux) (str ''/healthz'') healthz_handler" by (simp add: m)
  have h: "healthz_handler \<lparr>Method = str ''GET'', Path = str ''/healthz'', req_Version = str ''HTTP/1.1'',
      Headers = lower_names ?hs, Body = []\<rparr> \<lparr>StatusCode = 200, w_Headers = [], w_Body = []\<rparr> (0 :: nat) =
      Ok (\<lparr>StatusCode = 200, w_Headers = [], w_Body = str ''ok'' @ [LF]\<rparr>, 0)"
    by (simp add: healthz_handler_def rw_Write_def rw_WriteHeader_def)
  have r: "resp_ok (str ''now'') \<lparr>StatusCode = 200, w_Headers = [], w_Body = str ''ok'' @ [LF]\<rparr>"
    by (simp add: resp_ok_def value_ok_def trim_set_def str_def ctl_defs)
  show ?thesis
    using Serve_end_to_end [OF q d refl sel h r, of "[]" EOF] by auto
qed

end
