(* ===== verification/Go_Time.thy ===== *)
theory Go_Time
  imports Http_Request
begin

section \<open>Instants of time and their RFC 3339 texts\<close>

text \<open>
  What the store uses of Go's \<^verbatim>\<open>time\<close>: UTC instants, printed by \<^verbatim>\<open>Format(time.RFC3339Nano)\<close> and by
  \<^verbatim>\<open>MarshalJSON\<close> and read by \<^verbatim>\<open>time.Parse(time.RFC3339Nano, s)\<close>. An instant is the number of nanoseconds since
  the zero \<^verbatim>\<open>Time\<close>, the first of January of the year 1; the instants are those of the years 1 to 9999, whose texts have
  a year of four digits.
\<close>

definition day_ns :: int where
  "day_ns = 86400 * 10 ^ 9"

typedef instant = "{n::int. 0 \<le> n \<and> n < 3652059 * day_ns}"
  morphisms ns_of instant_of
  by (rule exI [of _ 0]) (simp add: day_ns_def)

lemma ns_of_bounds: "0 \<le> ns_of t" "ns_of t < 3652059 * day_ns"
  using ns_of [of t] by simp_all

text \<open>Instants are ordered by time.\<close>

instantiation instant :: linorder
begin

definition less_eq_instant :: "instant \<Rightarrow> instant \<Rightarrow> bool" where
  "less_eq_instant t u \<longleftrightarrow> ns_of t \<le> ns_of u"

definition less_instant :: "instant \<Rightarrow> instant \<Rightarrow> bool" where
  "less_instant t u \<longleftrightarrow> ns_of t < ns_of u"

instance
  by standard (auto simp: less_eq_instant_def less_instant_def ns_of_inject)

end

subsection \<open>The calendar\<close>

definition is_leap :: "int \<Rightarrow> bool" where
  "is_leap y \<longleftrightarrow> y mod 4 = 0 \<and> (y mod 100 \<noteq> 0 \<or> y mod 400 = 0)"

definition month_lengths :: "int \<Rightarrow> int list" where
  "month_lengths y = [31, if is_leap y then 29 else 28, 31, 30, 31, 30, 31, 31, 30, 31, 30, 31]"

text \<open>The year of a day, counted from the first of January of the year 1, and the day within the year.\<close>

definition year_of :: "int \<Rightarrow> int \<times> int" where
  "year_of d =
     (let n400 = d div 146097; d = d mod 146097;
          n100 = min 3 (d div 36524); d = d - 36524 * n100;
          n4 = d div 1461; d = d mod 1461;
          n1 = min 3 (d div 365); d = d - 365 * n1 in
      (400 * n400 + 100 * n100 + 4 * n4 + n1 + 1, d))"

fun month_of :: "int list \<Rightarrow> int \<Rightarrow> int \<Rightarrow> int \<times> int" where
  "month_of [] k d = (k, d + 1)"
| "month_of (m # ms) k d = (if d < m then (k, d + 1) else month_of ms (k + 1) (d - m))"

definition date_of :: "int \<Rightarrow> int \<times> int \<times> int" where
  "date_of d = (case year_of d of (y, yd) \<Rightarrow> (y, month_of (month_lengths y) 1 yd))"

text \<open>The day of a date.\<close>

definition days_before_year :: "int \<Rightarrow> int" where
  "days_before_year y = 365 * (y - 1) + (y - 1) div 4 - (y - 1) div 100 + (y - 1) div 400"

definition day_of :: "int \<Rightarrow> int \<Rightarrow> int \<Rightarrow> int" where
  "day_of y m d = days_before_year y + sum_list (take (nat (m - 1)) (month_lengths y)) + d - 1"

lemma capped_div:
  fixes r n :: int
  assumes "0 \<le> r" "0 < n" "r \<le> 4 * n"
  defines "q \<equiv> min 3 (r div n)"
  shows "0 \<le> q" "q \<le> 3" "0 \<le> r - n * q" "q < 3 \<Longrightarrow> r - n * q < n" "r - n * q \<le> n"
proof -
  have m: "r - n * (r div n) = r mod n" "0 \<le> r mod n" "r mod n < n" using assms by (simp_all add: minus_mult_div_eq_mod)
  show "0 \<le> q" "q \<le> 3" using assms by (simp_all add: q_def pos_imp_zdiv_nonneg_iff)
  have "n * q \<le> n * (r div n)" using assms by (simp add: q_def)
  then show "0 \<le> r - n * q" using m by linarith
  show "r - n * q < n" if "q < 3" using that m by (simp add: q_def min_def split: if_splits)
  then show "r - n * q \<le> n" using assms(3) \<open>q \<le> 3\<close> by (cases "q < 3") auto
qed

lemma year_of_spec:
  assumes "year_of d = (y, yd)"
  shows "days_before_year y + yd = d" "0 \<le> yd" "yd < (if is_leap y then 366 else 365)"
proof -
  define a where "a = d div 146097"
  define r1 where "r1 = d mod 146097"
  define b where "b = min 3 (r1 div 36524)"
  define r2 where "r2 = r1 - 36524 * b"
  define c where "c = r2 div 1461"
  define r3 where "r3 = r2 mod 1461"
  define e where "e = min 3 (r3 div 365)"
  have "year_of d = (400 * a + 100 * b + 4 * c + e + 1, r3 - 365 * e)"
    by (simp only: year_of_def Let_def a_def b_def c_def e_def r1_def r2_def r3_def)
  then have y: "y = 400 * a + 100 * b + 4 * c + e + 1" and yd: "yd = r3 - 365 * e"
    using assms by simp_all
  have 1: "d = 146097 * a + r1" "0 \<le> r1" "r1 < 146097" by (simp_all add: a_def r1_def)
  have 2: "0 \<le> b" "b \<le> 3" "0 \<le> r2" "r2 \<le> 36524" "b < 3 \<Longrightarrow> r2 < 36524"
    using 1 capped_div [of r1 36524, folded b_def, folded r2_def] by simp_all
  have 3: "r2 = 1461 * c + r3" "0 \<le> r3" "r3 < 1461" "0 \<le> c" "c \<le> 24"
    using 2 by (simp_all add: c_def r3_def)
  have 4: "0 \<le> e" "e \<le> 3" "0 \<le> yd" "yd \<le> 365" "e < 3 \<Longrightarrow> yd < 365"
    using 3(2,3) capped_div [of r3 365, folded e_def, folded yd] by simp_all
  have q: "(y - 1) div 4 = 100 * a + 25 * b + c" "(y - 1) div 100 = 4 * a + b" "(y - 1) div 400 = a"
  proof -
    show "(y - 1) div 4 = 100 * a + 25 * b + c" by (rule int_div_pos_eq [of _ _ _ e]) (use y 4(1,2) in simp_all)
    show "(y - 1) div 100 = 4 * a + b" by (rule int_div_pos_eq [of _ _ _ "4 * c + e"]) (use y 3(4,5) 4(1,2) in simp_all)
    show "(y - 1) div 400 = a" by (rule int_div_pos_eq [of _ _ _ "100 * b + 4 * c + e"]) (use y 2(1,2) 3(4,5) 4(1,2) in simp_all)
  qed
  show "days_before_year y + yd = d"
    unfolding days_before_year_def q unfolding y yd using 1(1) 3(1) r2_def by simp
  show "0 \<le> yd" by (fact 4)
  have "is_leap y" if "yd = 365"
  proof -
    have e3: "e = 3" using that 4(2,5) by (cases "e < 3") simp_all
    then have e: "e = 3" "r3 = 1460" using that yd by simp_all
    have m4: "y mod 4 = 0" by (rule int_mod_pos_eq [of _ _ "100 * a + 25 * b + c + 1"]) (use y e in simp_all)
    show ?thesis
    proof (cases "c = 24")
      case True
      then have "b = 3" using 2(2,5) 3(1) e(2) by (cases "b < 3") simp_all
      then have "y mod 400 = 0" by (intro int_mod_pos_eq [of _ _ "a + 1"]) (use y e True in simp_all)
      then show ?thesis using m4 by (simp add: is_leap_def)
    next
      case False
      then have "y mod 100 = 4 * c + 4" by (intro int_mod_pos_eq [of _ _ "4 * a + b"]) (use y e 3(4,5) False in simp_all)
      then show ?thesis using m4 3(4) by (simp add: is_leap_def)
    qed
  qed
  then show "yd < (if is_leap y then 366 else 365)" using 4(4) by (cases "yd = 365") auto
qed

lemma month_of_spec:
  assumes "month_of ms k yd = (m, d)" "0 \<le> yd" "yd < sum_list ms"
  shows "k \<le> m \<and> m < k + int (length ms) \<and> 1 \<le> d \<and> d \<le> ms ! nat (m - k)
    \<and> sum_list (take (nat (m - k)) ms) + d - 1 = yd"
  using assms
proof (induction ms k yd rule: month_of.induct)
  case (2 m' ms k yd)
  show ?case
  proof (cases "yd < m'")
    case True
    then show ?thesis using 2(2,3) by auto
  next
    case False
    then have ih: "k + 1 \<le> m \<and> m < k + 1 + int (length ms) \<and> 1 \<le> d \<and> d \<le> ms ! nat (m - (k + 1))
        \<and> sum_list (take (nat (m - (k + 1))) ms) + d - 1 = yd - m'" using 2 by auto
    then have "nat (m - k) = Suc (nat (m - (k + 1)))" by auto
    then show ?thesis using ih by auto
  qed
qed simp


lemma date_of_spec:
  assumes "date_of d = (y, m, dd)"
  shows "day_of y m dd = d" "1 \<le> m" "m \<le> 12" "1 \<le> dd" "dd \<le> month_lengths y ! nat (m - 1)"
proof -
  obtain yd where yd: "year_of d = (y, yd)" "month_of (month_lengths y) 1 yd = (m, dd)"
    using assms by (cases "year_of d") (auto simp: date_of_def)
  note s = year_of_spec [OF yd(1)]
  have "yd < sum_list (month_lengths y)" using s(3) by (auto simp: month_lengths_def split: if_splits)
  from month_of_spec [OF yd(2) s(2) this]
  have "1 \<le> m \<and> m < 1 + int (length (month_lengths y)) \<and> 1 \<le> dd \<and> dd \<le> month_lengths y ! nat (m - 1)
      \<and> sum_list (take (nat (m - 1)) (month_lengths y)) + dd - 1 = yd" .
  moreover have "length (month_lengths y) = 12" by (simp add: month_lengths_def)
  ultimately show "day_of y m dd = d" "1 \<le> m" "m \<le> 12" "1 \<le> dd" "dd \<le> month_lengths y ! nat (m - 1)"
    using s(1) unfolding day_of_def by auto
qed

lemma year_of_range:
  assumes "year_of d = (y, yd)" "0 \<le> d" "d < 3652059"
  shows "1 \<le> y" "y \<le> 9999"
proof -
  note s = year_of_spec [OF assms(1)]
  have mono: "days_before_year u \<le> days_before_year v" if "u \<le> v" for u v
  proof -
    have "(u - 1) div 4 \<le> (v - 1) div 4" "(u - 1) div 400 \<le> (v - 1) div 400"
      using that by (simp_all add: zdiv_mono1)
    moreover have "(v - 1) div 100 - (u - 1) div 100 \<le> v - u"
    proof -
      have "(v - 1) div 100 \<le> (u - 1 + 100 * (v - u)) div 100" using that by (intro zdiv_mono1) auto
      then show ?thesis by simp
    qed
    moreover have "a \<le> a' \<Longrightarrow> c \<le> c' \<Longrightarrow> b' - b \<le> v - u \<Longrightarrow>
        365 * (u - 1) + a - b + c \<le> 365 * (v - 1) + a' - b' + c'" for a a' b b' c c' :: int
      using that by (simp add: algebra_simps)
    ultimately show ?thesis unfolding days_before_year_def by blast
  qed
  show "1 \<le> y"
  proof (rule ccontr)
    assume "\<not> 1 \<le> y"
    then have y: "y \<le> 0" by simp
    show False
    proof (cases "y = 0")
      case True
      then show False using s(1,3) assms(2) by (simp add: days_before_year_def is_leap_def)
    next
      case False
      then have "days_before_year y \<le> days_before_year (-1)" using y by (intro mono) simp
      then show False using s(1,3) assms(2) by (simp add: days_before_year_def split: if_splits)
    qed
  qed
  show "y \<le> 9999"
  proof (rule ccontr)
    assume "\<not> y \<le> 9999"
    then have "days_before_year 10000 \<le> days_before_year y" by (intro mono) simp
    then show False using s(1,2) assms(3) by (simp add: days_before_year_def)
  qed
qed

subsection \<open>Printing and reading\<close>

fun pad :: "nat \<Rightarrow> nat \<Rightarrow> bytes" where
  "pad 0 n = []"
| "pad (Suc k) n = pad k (n div 10) @ [48 + of_nat (n mod 10)]"

definition frac_ns :: "nat \<Rightarrow> bytes" where
  "frac_ns ns = (if ns = 0 then [] else 46 # rev (dropWhile (\<lambda>b. b = 48) (rev (pad 9 ns))))"

definition time_Format :: "instant \<Rightarrow> bytes" where
  "time_Format t =
     (case date_of (ns_of t div day_ns) of (y, m, d) \<Rightarrow>
      let n = nat (ns_of t mod day_ns); s = n div 10 ^ 9 in
      pad 4 (nat y) @ 45 # pad 2 (nat m) @ 45 # pad 2 (nat d) @ 84 # pad 2 (s div 3600) @ 58 # pad 2 (s div 60 mod 60)
        @ 58 # pad 2 (s mod 60) @ frac_ns (n mod 10 ^ 9) @ [90])"

definition time_MarshalJSON :: "instant \<Rightarrow> bytes" where
  "time_MarshalJSON t = 34 # time_Format t @ [34]"

text \<open>
  \<^verbatim>\<open>parseRFC3339\<close>, on texts in UTC and years from 1: the fields at their places, each within its range, and up to nine
  digits of a fraction.
\<close>

definition parse_uint :: "bytes \<Rightarrow> nat \<Rightarrow> nat \<Rightarrow> nat \<Rightarrow> nat \<Rightarrow> nat option" where
  "parse_uint s i j lo hi =
     (let ds = take (j - i) (drop i s); x = digits_val ds in
      if list_all is_digit ds \<and> lo \<le> x \<and> x \<le> hi then Some x else None)"

definition parse_frac :: "bytes \<Rightarrow> nat \<times> bytes" where
  "parse_frac s =
     (if 2 \<le> length s \<and> s ! 0 = 46 \<and> is_digit (s ! 1)
      then let ds = takeWhile is_digit (tl s) in
           (digits_val (take 9 ds) * 10 ^ (9 - length (take 9 ds)), drop (length ds) (tl s))
      else (0, s))"

definition parseRFC3339 :: "bytes \<Rightarrow> instant option" where
  "parseRFC3339 s =
     (if length s < 19 then None
      else (case (parse_uint s 0 4 1 9999, parse_uint s 5 7 1 12) of
        (Some y, Some m) \<Rightarrow>
          (case (parse_uint s 8 10 1 (nat (month_lengths (int y) ! (m - 1))), parse_uint s 11 13 0 23,
                 parse_uint s 14 16 0 59, parse_uint s 17 19 0 59) of
            (Some d, Some h, Some mi, Some sec) \<Rightarrow>
              if s ! 4 = 45 \<and> s ! 7 = 45 \<and> s ! 10 = 84 \<and> s ! 13 = 58 \<and> s ! 16 = 58 \<and> snd (parse_frac (drop 19 s)) = [90]
              then Some (instant_of (day_of (int y) (int m) (int d) * day_ns
                + int ((h * 3600 + mi * 60 + sec) * 10 ^ 9 + fst (parse_frac (drop 19 s)))))
              else None
          | _ \<Rightarrow> None)
      | _ \<Rightarrow> None))"

lemma length_pad [simp]: "length (pad k n) = k"
  by (induction k arbitrary: n) simp_all

lemma pad_digits [simp]: "list_all is_digit (pad k n)"
  by (induction k arbitrary: n) (simp_all add: is_digit_byte)

lemma pad_val: "n < 10 ^ k \<Longrightarrow> digits_val (pad k n) = n"
proof (induction k arbitrary: n)
  case (Suc k)
  then have "n div 10 < 10 ^ k" by (simp add: less_mult_imp_div_less mult.commute)
  then show ?case using Suc.IH [of "n div 10"] digit_byte [of "n mod 10"] by (simp del: add_diff_cancel_left')
qed (simp add: digits_val_def)


lemma digits_val_zeros: "digits_val (ds @ replicate k 48) = digits_val ds * 10 ^ k"
proof (induction k)
  case (Suc k)
  have "digits_val (ds @ replicate (Suc k) 48) = digits_val ((ds @ replicate k 48) @ [48])"
    by (simp add: replicate_append_same)
  then show ?case using Suc by (simp only: digits_val_snoc) simp
qed simp

lemma strip_zeros:
  obtains k where "ds = rev (dropWhile (\<lambda>b. b = 48) (rev ds)) @ replicate k (48 :: byte)"
proof -
  let ?z = "takeWhile (\<lambda>b. b = 48) (rev ds)"
  have "?z = replicate (length ?z) 48" by (rule replicate_eqI [OF refl]) (auto dest: set_takeWhileD)
  moreover have "ds = rev (dropWhile (\<lambda>b. b = 48) (rev ds)) @ rev ?z"
    by (metis rev_append rev_rev_ident takeWhile_dropWhile_id)
  ultimately show ?thesis using that by (metis rev_replicate)
qed

lemma parse_frac_ns:
  assumes "ns < 10 ^ 9"
  shows "parse_frac (frac_ns ns @ [90]) = (ns, [90])"
proof (cases "ns = 0")
  case True
  then show ?thesis by (simp add: parse_frac_def frac_ns_def)
next
  case False
  define f where "f = rev (dropWhile (\<lambda>b. b = 48) (rev (pad 9 ns)))"
  obtain k where k: "pad 9 ns = f @ replicate k 48" using strip_zeros unfolding f_def .
  have len: "length f + k = 9" by (metis k length_append length_pad length_replicate)
  have dig: "list_all is_digit f" using pad_digits [of 9 ns] unfolding k by simp
  have val: "digits_val f * 10 ^ k = ns" using pad_val [OF assms] unfolding k by (simp add: digits_val_zeros)
  then obtain b f' where f: "f = b # f'" using False by (cases f) (auto simp: digits_val_def)
  have nd: "\<not> is_digit 90" by (simp add: is_digit_def)
  have tw: "takeWhile is_digit (f @ [90]) = f" using dig nd by (simp add: takeWhile_append list_all_iff)
  have "take 9 f = f" "9 - length f = k" using len by simp_all
  then show ?thesis
    using False dig val tw f by (simp add: parse_frac_def frac_ns_def f_def [symmetric] Let_def)
qed

lemma parse_uint_pad:
  assumes "s = xs @ pad k n @ ys" "length xs = i" "j = i + k" "n < 10 ^ k" "lo \<le> n" "n \<le> hi"
  shows "parse_uint s i j lo hi = Some n"
  using assms by (simp add: parse_uint_def pad_val)

lemma parseRFC3339_Format: "parseRFC3339 (time_Format t) = Some t"
proof -
  define n where "n = nat (ns_of t mod day_ns)"
  define sec where "sec = n div 10 ^ 9"
  obtain y m d where date: "date_of (ns_of t div day_ns) = (y, m, d)" by (metis prod_cases3)
  note ds = date_of_spec [OF date]
  have pos: "0 < day_ns" by (simp add: day_ns_def)
  have day: "0 \<le> ns_of t div day_ns" "ns_of t div day_ns < 3652059"
  proof -
    show "0 \<le> ns_of t div day_ns" using ns_of_bounds [of t] pos by (simp add: pos_imp_zdiv_nonneg_iff)
    have "ns_of t div day_ns * day_ns \<le> ns_of t"
      using div_mult_mod_eq [of "ns_of t" day_ns] pos_mod_sign [OF pos, of "ns_of t"] by linarith
    then have "ns_of t div day_ns * day_ns < 3652059 * day_ns" using ns_of_bounds [of t] by linarith
    then show "ns_of t div day_ns < 3652059" using pos by (simp add: mult_less_cancel_right_pos)
  qed
  obtain yd where "year_of (ns_of t div day_ns) = (y, yd)"
    using date by (cases "year_of (ns_of t div day_ns)") (auto simp: date_of_def)
  from year_of_range [OF this day] have y: "1 \<le> y" "y \<le> 9999" by auto
  have n: "int n = ns_of t mod day_ns" "n < 86400 * 10 ^ 9"
    using pos by (simp_all add: n_def day_ns_def nat_less_iff)
  then have sec: "sec < 86400" by (simp add: sec_def less_mult_imp_div_less)
  have "month_lengths y ! nat (m - 1) \<le> 31"
  proof -
    have "nat (m - 1) < length (month_lengths y)" using ds(2,3) by (simp add: month_lengths_def)
    then have "month_lengths y ! nat (m - 1) \<in> set (month_lengths y)" by simp
    then show ?thesis by (auto simp: month_lengths_def split: if_splits)
  qed
  then have d31: "d \<le> 31" using ds(5) by simp
  define f where "f = frac_ns (n mod 10 ^ 9) @ [90]"
  let ?Y = "pad 4 (nat y)" and ?M = "pad 2 (nat m)" and ?D = "pad 2 (nat d)" and ?H = "pad 2 (sec div 3600)"
    and ?Mi = "pad 2 (sec div 60 mod 60)" and ?S = "pad 2 (sec mod 60)"
  define s where "s = ?Y @ 45 # ?M @ 45 # ?D @ 84 # ?H @ 58 # ?Mi @ 58 # ?S @ f"
  have s: "time_Format t = s"
    by (simp only: time_Format_def date prod.case Let_def s_def f_def n_def [symmetric] sec_def [symmetric])
  have mi: "int (nat y) = y" "nat m - 1 = nat (m - 1)" using y ds(2) by auto
  have fields: "parse_uint s 0 4 1 9999 = Some (nat y)" "parse_uint s 5 7 1 12 = Some (nat m)"
    "parse_uint s 8 10 1 (nat (month_lengths y ! nat (m - 1))) = Some (nat d)"
    "parse_uint s 11 13 0 23 = Some (sec div 3600)" "parse_uint s 14 16 0 59 = Some (sec div 60 mod 60)"
    "parse_uint s 17 19 0 59 = Some (sec mod 60)"
  proof -
    show "parse_uint s 0 4 1 9999 = Some (nat y)"
      by (rule parse_uint_pad [where xs = "[]" and k = 4, OF _ _ _ _]) (use y in \<open>auto simp: s_def\<close>)
    show "parse_uint s 5 7 1 12 = Some (nat m)"
      by (rule parse_uint_pad [where xs = "?Y @ [45]" and k = 2]) (use ds in \<open>auto simp: s_def\<close>)
    show "parse_uint s 8 10 1 (nat (month_lengths y ! nat (m - 1))) = Some (nat d)"
      by (rule parse_uint_pad [where xs = "?Y @ 45 # ?M @ [45]" and k = 2]) (use ds(4,5) d31 in \<open>auto simp: s_def\<close>)
    show "parse_uint s 11 13 0 23 = Some (sec div 3600)"
      by (rule parse_uint_pad [where xs = "?Y @ 45 # ?M @ 45 # ?D @ [84]" and k = 2]) (use sec in \<open>auto simp: s_def\<close>)
    show "parse_uint s 14 16 0 59 = Some (sec div 60 mod 60)"
      by (rule parse_uint_pad [where xs = "?Y @ 45 # ?M @ 45 # ?D @ 84 # ?H @ [58]" and k = 2]) (auto simp: s_def)
    show "parse_uint s 17 19 0 59 = Some (sec mod 60)"
      by (rule parse_uint_pad [where xs = "?Y @ 45 # ?M @ 45 # ?D @ 84 # ?H @ 58 # ?Mi @ [58]" and k = 2]) (auto simp: s_def)
  qed
  have seps: "s ! 4 = 45" "s ! 7 = 45" "s ! 10 = 84" "s ! 13 = 58" "s ! 16 = 58" "drop 19 s = f" "\<not> length s < 19"
    by (simp_all add: s_def nth_append)
  have frac: "parse_frac f = (n mod 10 ^ 9, [90])" unfolding f_def by (rule parse_frac_ns) simp
  have "sec div 3600 * 3600 + sec div 60 mod 60 * 60 + sec mod 60 = sec"
  proof -
    have "sec div 3600 = sec div 60 div 60" by (simp add: div_mult2_eq [symmetric])
    moreover have "sec div 60 div 60 * 60 + sec div 60 mod 60 = sec div 60" "sec div 60 * 60 + sec mod 60 = sec" by simp_all
    ultimately show ?thesis by linarith
  qed
  then have "(sec div 3600 * 3600 + sec div 60 mod 60 * 60 + sec mod 60) * 10 ^ 9 + n mod 10 ^ 9 = n"
    by (simp add: sec_def)
  moreover have "day_of (int (nat y)) (int (nat m)) (int (nat d)) * day_ns + int n = ns_of t"
    using ds n(1) mi(1) by simp
  moreover have lim: "month_lengths (int (nat y)) ! (nat m - 1) = month_lengths y ! nat (m - 1)" by (simp only: mi)
  ultimately show ?thesis
    by (simp only: parseRFC3339_def s seps if_False if_True fields option.case prod.case lim frac fst_conv snd_conv
        simp_thms ns_of_inverse)
qed

end
