(* ===== verification/Http_Date.thy ===== *)
theory Http_Date
  imports Http_Server Go_Time
begin

section \<open>The Date header (http/response.go)\<close>

text \<open>
  The rest of the response writer takes the text of the Date header as an argument. Here it is the one that
  \<^verbatim>\<open>nowFunc().UTC().Format(httpDateFormat)\<close> gives at an instant, with which a response needs nothing of the clock to be
  read back.
\<close>

definition weekdays :: "string list" where
  "weekdays = [''Mon'', ''Tue'', ''Wed'', ''Thu'', ''Fri'', ''Sat'', ''Sun'']"

definition months :: "string list" where
  "months = [''Jan'', ''Feb'', ''Mar'', ''Apr'', ''May'', ''Jun'', ''Jul'', ''Aug'', ''Sep'', ''Oct'', ''Nov'', ''Dec'']"

text \<open>The layout \<^verbatim>\<open>Mon, 02 Jan 2006 15:04:05 GMT\<close>; the first of January of the year 1 was a Monday.\<close>

definition http_date :: "instant \<Rightarrow> bytes" where
  "http_date t =
     (let day = ns_of t div day_ns; s = nat (ns_of t mod day_ns) div 10 ^ 9 in
      case date_of day of (y, m, d) \<Rightarrow>
        str (weekdays ! nat (day mod 7)) @ str '', '' @ pad 2 (nat d) @ SP # str (months ! nat (m - 1)) @ SP # pad 4 (nat y)
        @ SP # pad 2 (s div 3600) @ 58 # pad 2 (s div 60 mod 60) @ 58 # pad 2 (s mod 60) @ str '' GMT'')"

lemma http_date_ok: "value_ok (http_date t)" "length (http_date t) = 29"
proof -
  let ?day = "ns_of t div day_ns"
  obtain y m d where date: "date_of ?day = (y, m, d)" by (metis prod_cases3)
  have day7: "nat (?day mod 7) < 7" by (simp add: nat_less_iff)
  have m12: "nat (m - 1) < 12" using date_of_spec [OF date] by (simp add: nat_less_iff)
  have names: "\<exists>a b c. str w = [a, b, c] \<and> a \<noteq> SP \<and> a \<noteq> HT \<and> LF \<notin> {a, b, c}" if "w \<in> set weekdays \<union> set months" for w
    using that by (auto simp: weekdays_def months_def str_def ctl_defs)
  obtain a b c where w: "str (weekdays ! nat (?day mod 7)) = [a, b, c]" "a \<noteq> SP" "a \<noteq> HT" "LF \<notin> {a, b, c}"
    using names [OF UnI1 [OF nth_mem [of "nat (?day mod 7)" weekdays]]] day7 that by (auto simp: weekdays_def [THEN arg_cong, of length])
  obtain a' b' c' where mo: "str (months ! nat (m - 1)) = [a', b', c']" "LF \<notin> {a', b', c'}"
    using names [OF UnI2 [OF nth_mem [of "nat (m - 1)" months]]] m12 that by (auto simp: months_def [THEN arg_cong, of length])
  have digits: "LF \<notin> set (pad k n)" for k n
    using pad_digits [of k n] by (auto simp: list_all_iff is_digit_def ctl_defs)
  define n where "n = nat (ns_of t mod day_ns) div 10 ^ 9"
  define mid where "mid = [b, c, 44, 32] @ pad 2 (nat d) @ SP # [a', b', c'] @ SP # pad 4 (nat y)
        @ SP # pad 2 (n div 3600) @ 58 # pad 2 (n div 60 mod 60) @ 58 # pad 2 (n mod 60) @ [32, 71, 77]"
  have "http_date t = a # mid @ [84]"
    unfolding http_date_def date Let_def prod.case w(1) mo(1) mid_def n_def by (simp add: str_def)
  moreover have "LF \<notin> set mid" "length mid = 27"
    unfolding mid_def using w(4) mo(2) digits by (auto simp: ctl_defs)
  ultimately have mid: "http_date t = a # mid @ [84]" "LF \<notin> set mid" "length mid = 27" by blast+
  have "LF \<notin> set (http_date t)" using mid(1,2) w(4) by (simp add: ctl_defs)
  moreover have "trim_set [SP, HT] (http_date t) = http_date t"
    using w(2,3) unfolding mid(1) by (simp add: trim_set_def ctl_defs)
  ultimately show "value_ok (http_date t)" by (simp add: value_ok_def)
  show "length (http_date t) = 29" unfolding mid(1) using mid(3) by simp
qed


lemma map_of_headers:
  "map_of (set_header n v hs) k = (if k = n then Some v else map_of hs k)"
  "map_of (default_header n v hs) k = (if k = n \<and> map_of hs n = None then Some v else map_of hs k)"
  by (auto simp: set_header_def default_header_def update_conv' split: option.split)

lemma str_names:
  "str ''date'' \<noteq> str ''content-length''" "str ''date'' \<noteq> str ''connection''" "str ''date'' \<noteq> str ''server''"
  "str ''date'' \<noteq> str ''content-type''"
  by (simp_all add: str_def)

lemma date_header: "map_of (w_Headers resp) (str ''date'') = None \<Longrightarrow>
    map_of (response_headers now resp) (str ''date'') = Some now"
  using str_names by (simp add: response_headers_def Let_def map_of_headers)

subsection \<open>Repeated fields\<close>

text \<open>
  The parser joins the values of a repeated field with a comma; \<open>field_values\<close> are the values that a list of
  fields gives to a lower-case name.
\<close>

fun comma_join :: "bytes list \<Rightarrow> bytes" where
  "comma_join [] = []"
| "comma_join [v] = v"
| "comma_join (v # w # vs) = v @ str '', '' @ comma_join (w # vs)"

definition field_values :: "bytes \<Rightarrow> headers \<Rightarrow> bytes list" where
  "field_values k hs = map snd (filter (\<lambda>h. to_lower (fst h) = k) hs)"

lemma comma_join_Cons: "comma_join ((x @ str '', '' @ v) # vs) = comma_join (x # v # vs)"
  by (cases vs) simp_all

lemma map_of_add_header:
  "map_of (add_header n v hs) k = (if k = n
     then Some (case map_of hs n of None \<Rightarrow> v | Some x \<Rightarrow> x @ str '', '' @ v) else map_of hs k)"
  by (auto simp: add_header_def update_conv' split: option.split)

lemma map_of_add_headers:
  "map_of (foldl (\<lambda>acc h. add_header (to_lower (fst h)) (snd h) acc) acc hs) k =
     (case map_of acc k of
        None \<Rightarrow> if field_values k hs = [] then None else Some (comma_join (field_values k hs))
      | Some x \<Rightarrow> Some (comma_join (x # field_values k hs)))"
proof (induction hs arbitrary: acc)
  case (Cons h hs)
  show ?case
    unfolding foldl_Cons Cons.IH
    by (auto simp: map_of_add_header field_values_def comma_join_Cons split: option.split)
qed (simp add: field_values_def split: option.split)

lemma read_headers_fields:
  assumes "list_all field_ok hs" "length hs < k"
  shows "read_headers k acc (field_block hs @ CR # LF # rest, e) =
    Ok (foldl (\<lambda>acc h. add_header (to_lower (fst h)) (snd h) acc) acc hs, rest, e)"
  using assms
proof (induction hs arbitrary: k acc)
  case Nil
  then obtain k' where "k = Suc k'" by (cases k) auto
  then show ?case
    using readLine_crlf [of "[]" maxHeaderLine rest e]
    by (simp add: field_block_def maxHeaderLine_def)
next
  case (Cons h hs)
  then obtain k' where k: "k = Suc k'" by (cases k) auto
  have h: "isValidToken (fst h)" "value_ok (snd h)"
    "length (field_line h) + 1 < maxHeaderLine" "LF \<notin> set (field_line h)"
    using Cons.prems(1) token_bytes(4) [of "fst h"]
    by (auto simp: field_ok_def field_line_def value_ok_def ctl_defs)
  obtain x xs where "fst h = x # xs" using token_bytes(6) [OF h(1)] by (cases "fst h") auto
  then have ne: "field_line h \<noteq> []" "hd (field_line h) \<noteq> SP" "hd (field_line h) \<noteq> HT"
    using token_bytes(1,2) [OF h(1)] by (auto simp: field_line_def)
  have p: "parseHeader (field_line h) = Ok (fst h, snd h)"
    unfolding field_line_def using h(1,2) by (rule parseHeader_build)
  show ?case
    using readLine_crlf [OF h(4,3), of "field_block hs @ CR # LF # rest" e] ne p Cons.IH [of k'] Cons.prems k
    by (cases h) (simp add: field_block_def)
qed

subsection \<open>What a response says\<close>

text \<open>
  The header map of a response as a function of the name: the two fields that are always set, then the handler's,
  then the defaults.
\<close>

definition header_at :: "bytes \<Rightarrow> ResponseWriter \<Rightarrow> bytes \<Rightarrow> bytes option" where
  "header_at now resp n =
     (if n = str ''content-length'' then Some (Itoa (length (w_Body resp)))
      else if n = str ''connection'' then Some (str ''close'')
      else case map_of (w_Headers resp) n of
        Some v \<Rightarrow> Some v
      | None \<Rightarrow>
          if n = str ''date'' then Some now
          else if n = str ''server'' then Some (str ''rawhttp'')
          else if n = str ''content-type'' \<and> w_Body resp \<noteq> [] then Some (str ''text/plain; charset=utf-8'')
          else None)"

lemma response_headers_at: "map_of (response_headers now resp) = header_at now resp"
proof
  fix n
  define cl co da sv ct where names: "cl = str ''content-length''" "co = str ''connection''" "da = str ''date''"
    "sv = str ''server''" "ct = str ''content-type''"
  have d: "distinct [cl, co, da, sv, ct]" by (simp add: names str_def)
  define h4 where "h4 = default_header sv (str ''rawhttp'') (default_header da now (set_header co (str ''close'')
    (set_header cl (Itoa (length (w_Body resp))) (w_Headers resp))))"
  have h4: "map_of h4 n = (if n = cl then Some (Itoa (length (w_Body resp))) else if n = co then Some (str ''close'')
      else case map_of (w_Headers resp) n of Some v \<Rightarrow> Some v
       | None \<Rightarrow> if n = da then Some now else if n = sv then Some (str ''rawhttp'') else None)" for n
    using d by (cases "map_of (w_Headers resp) n") (auto simp: h4_def map_of_headers)
  have h5: "map_of (default_header ct w h4) n = (case map_of h4 n of Some v \<Rightarrow> Some v
      | None \<Rightarrow> if n = ct then Some w else None)" for w
    by (cases "map_of h4 n") (auto simp: map_of_headers)
  have rh: "response_headers now resp =
      (if w_Body resp = [] then h4 else default_header ct (str ''text/plain; charset=utf-8'') h4)"
    by (simp add: response_headers_def Let_def h4_def names)
  show "map_of (response_headers now resp) n = header_at now resp n"
    unfolding rh header_at_def names [symmetric]
    using d by (cases "w_Body resp = []"; cases "map_of (w_Headers resp) n") (auto simp: h4 h5)
qed

text \<open>
  The responses a handler may leave: fields whose names are tokens and whose values have no line break, in any
  spelling, as the keys of a Go map are.
\<close>

definition handler_resp_ok :: "ResponseWriter \<Rightarrow> bool" where
  "handler_resp_ok resp \<longleftrightarrow> 0 \<le> StatusCode resp \<and> StatusCode resp < 1000
     \<and> distinct (map fst (w_Headers resp)) \<and> length (w_Headers resp) < 94
     \<and> list_all field_ok (w_Headers resp) \<and> length (w_Body resp) < 10 ^ 18"

definition fields_ok :: "nat \<Rightarrow> headers \<Rightarrow> bool" where
  "fields_ok n hs \<longleftrightarrow> distinct (map fst hs) \<and> length hs \<le> n \<and> list_all field_ok hs"

lemma fields_ok_set:
  assumes "fields_ok n hs" "field_ok (k, v)"
  shows "fields_ok (Suc n) (set_header k v hs)" "fields_ok (Suc n) (default_header k v hs)"
proof -
  have "length (AList.update k v hs) \<le> Suc (length hs)" by (induction hs) auto
  then show "fields_ok (Suc n) (set_header k v hs)"
    using assms by (auto simp: fields_ok_def set_header_def AList_update_distinct intro!: AList_update_all)
  then show "fields_ok (Suc n) (default_header k v hs)"
    using assms(1) by (auto simp: default_header_def set_header_def fields_ok_def split: option.split)
qed

lemma fixed_fields:
  "field_ok (str ''connection'', str ''close'')" "field_ok (str ''date'', http_date t)"
  "field_ok (str ''server'', str ''rawhttp'')" "field_ok (str ''content-type'', str ''text/plain; charset=utf-8'')"
  "n < 10 ^ 18 \<Longrightarrow> field_ok (str ''content-length'', Itoa n)"
proof -
  have l: "length (str s) = length s" for s by (simp add: str_def)
  have "length (Itoa n) \<le> 18" if "n < 10 ^ 18" using length_Itoa [of n 18] that by simp
  then show "n < 10 ^ 18 \<Longrightarrow> field_ok (str ''content-length'', Itoa n)"
    using fixed_names(1) Itoa_spec digits_value_ok l by (simp add: field_ok_def maxHeaderLine_def)
  show "field_ok (str ''connection'', str ''close'')" "field_ok (str ''date'', http_date t)"
    "field_ok (str ''server'', str ''rawhttp'')" "field_ok (str ''content-type'', str ''text/plain; charset=utf-8'')"
    using fixed_names fixed_values http_date_ok by (simp_all add: field_ok_def maxHeaderLine_def l)
qed

lemma response_fields_ok:
  assumes "handler_resp_ok resp"
  shows "fields_ok 98 (response_headers (http_date t) resp)"
proof -
  note ok = assms [unfolded handler_resp_ok_def]
  have "fields_ok 93 (w_Headers resp)" using ok by (simp add: fields_ok_def)
  from fields_ok_set(1) [OF this fixed_fields(5)]
  have "fields_ok (Suc 93) (set_header (str ''content-length'') (Itoa (length (w_Body resp))) (w_Headers resp))"
    using ok by simp
  from fields_ok_set(2) [OF fields_ok_set(2) [OF fields_ok_set(1) [OF this fixed_fields(1)] fixed_fields(2)] fixed_fields(3)]
  have 4: "fields_ok 97 (default_header (str ''server'') (str ''rawhttp'') (default_header (str ''date'') (http_date t)
      (set_header (str ''connection'') (str ''close'')
        (set_header (str ''content-length'') (Itoa (length (w_Body resp))) (w_Headers resp)))))"
    by simp
  show ?thesis
    using fields_ok_set(2) [OF 4 fixed_fields(4)] 4
    by (auto simp: response_headers_def Let_def fields_ok_def)
qed

lemma wire_fields_ok:
  assumes "fields_ok n hs"
  shows "list_all field_ok (wire_headers hs)" "length (wire_headers hs) \<le> n"
    "field_values k (wire_headers hs) =
       map (\<lambda>n. the (map_of hs n)) (filter (\<lambda>n. to_lower n = k) (sort (map fst hs)))"
proof -
  have each: "field_ok (n, the (map_of hs n))" if "n \<in> set (map fst hs)" for n
  proof -
    obtain v where "(n, v) \<in> set hs" using \<open>n \<in> set (map fst hs)\<close> by auto
    then show ?thesis using assms by (auto simp: fields_ok_def list_all_iff)
  qed
  then show "list_all field_ok (wire_headers hs)"
    by (fastforce simp: list_all_iff wire_headers_def field_ok_def)
  show "length (wire_headers hs) \<le> n" using assms by (simp add: fields_ok_def wire_headers_def)
  show "field_values k (wire_headers hs) =
       map (\<lambda>n. the (map_of hs n)) (filter (\<lambda>n. to_lower n = k) (sort (map fst hs)))"
    by (simp add: field_values_def wire_headers_def filter_map comp_def)
qed

lemma header_at_names:
  assumes "header_at now resp n \<noteq> None"
  shows "to_lower n = n \<or> n \<in> fst ` set (w_Headers resp)"
proof (cases "n \<in> fst ` set (w_Headers resp)")
  case False
  then have "map_of (w_Headers resp) n = None" by (simp add: map_of_eq_None_iff)
  then have "n \<in> {str ''content-length'', str ''connection'', str ''date'', str ''server'', str ''content-type''}"
    using assms by (auto simp: header_at_def split: if_splits)
  then show ?thesis using fixed_names by auto
qed simp

lemma distinct_single:
  assumes "distinct xs"
  shows "set xs = {x} \<Longrightarrow> xs = [x]"
  using assms by (metis distinct_card card_1_singleton_iff One_nat_def length_0_conv length_Suc_conv list.set_intros(1) singletonD)



end
