(* ===== verification/Go_Json.thy ===== *)
theory Go_Json
  imports Http_Server
begin

section \<open>JSON as Go's \<^verbatim>\<open>encoding/json\<close> writes and reads it\<close>

text \<open>
  What the order API uses of \<^verbatim>\<open>encoding/json\<close>: the encoder of strings and objects, the scanner that validates
  a text byte by byte (with the texts of its errors, which the API puts into its answers), and the decoder of string
  literals. The scanner is the push-down automaton of \<^verbatim>\<open>scanner.go\<close>; here its states also carry the values read
  so far, so that a run over a valid text ends in the value.
\<close>

subsection \<open>Writing\<close>

definition in_range :: "byte \<Rightarrow> byte \<Rightarrow> byte \<Rightarrow> bool" where
  "in_range lo hi b \<longleftrightarrow> lo \<le> b \<and> b \<le> hi"

text \<open>The length of the UTF-8 sequence of several bytes a text begins with, if it is valid.\<close>

definition utf8_length :: "bytes \<Rightarrow> nat option" where
  "utf8_length s = (case s of
       b # c # s2 \<Rightarrow>
         if in_range 0xC2 0xDF b \<and> in_range 0x80 0xBF c then Some 2
         else (case s2 of
             d # s3 \<Rightarrow>
               if in_range 0xE0 0xEF b \<and> in_range 0x80 0xBF d
                  \<and> in_range (if b = 0xE0 then 0xA0 else 0x80) (if b = 0xED then 0x9F else 0xBF) c then Some 3
               else (case s3 of
                   e # _ \<Rightarrow>
                     if in_range 0xF0 0xF4 b \<and> in_range 0x80 0xBF d \<and> in_range 0x80 0xBF e
                        \<and> in_range (if b = 0xF0 then 0x90 else 0x80) (if b = 0xF4 then 0x8F else 0xBF) c then Some 4
                     else None
                 | [] \<Rightarrow> None)
           | [] \<Rightarrow> None)
     | _ \<Rightarrow> None)"

definition hex_digit :: "byte \<Rightarrow> byte" where
  "hex_digit n = (if n < 10 then 48 + n else 87 + n)"

definition escape_ascii :: "byte \<Rightarrow> bytes" where
  "escape_ascii b =
     (if b = 34 \<or> b = 92 then [92, b]
      else if b = 8 then [92, 98] else if b = 12 then [92, 102]
      else if b = 10 then [92, 110] else if b = 13 then [92, 114] else if b = 9 then [92, 116]
      else if b < 32 \<or> b = 60 \<or> b = 62 \<or> b = 38
        then [92, 117, 48, 48, hex_digit (b div 16), hex_digit (b mod 16)]
      else [b])"

function json_escape :: "bytes \<Rightarrow> bytes" where
  "json_escape [] = []"
| "json_escape (b # s) =
     (if b < 0x80 then escape_ascii b @ json_escape s
      else (case utf8_length (b # s) of
          None \<Rightarrow> [92, 117, 102, 102, 102, 100] @ json_escape s
        | Some n \<Rightarrow>
            let rune = take n (b # s) in
            (if rune = [0xE2, 0x80, 0xA8] then [92, 117, 50, 48, 50, 56]
             else if rune = [0xE2, 0x80, 0xA9] then [92, 117, 50, 48, 50, 57] else rune)
            @ json_escape (drop (n - 1) s)))"
  by pat_completeness auto
termination by (relation "measure length") auto

definition json_string :: "bytes \<Rightarrow> bytes" where
  "json_string s = 34 # json_escape s @ [34]"

fun commas :: "bytes list \<Rightarrow> bytes" where
  "commas [] = []"
| "commas [x] = x"
| "commas (x # y # xs) = x @ 44 # commas (y # xs)"

definition json_object :: "(string \<times> bytes) list \<Rightarrow> bytes" where
  "json_object fs = 123 # commas (map (\<lambda>(k, v). json_string (str k) @ 58 # v) fs) @ [125]"

subsection \<open>The scanner\<close>

text \<open>
  A JSON value; the strings and numbers are the bytes of their literals. What encloses the value being read: an array
  with the elements before it, an object whose key is read (with the members before it), an object and the key whose
  value is read. The lists are in reverse.
\<close>

datatype json =
  JNull | JBool bool | JNum bytes | JStr bytes | JArr "json list" | JObj "(bytes \<times> json) list"

datatype frame = InArray "json list" | InKey "(bytes \<times> json) list" | InValue "(bytes \<times> json) list" bytes

text \<open>
  The states of the scanner: before a value (of an array that may be empty), before a key (of an object that may be
  empty), after a value, within a string, within an escape (with the number of hexadecimal digits to come), within a
  number, and within a literal name (with the bytes to come).
\<close>

datatype scan =
  BeginValueOrEmpty | BeginValue | BeginStringOrEmpty | BeginString | EndValue json
  | InString bytes | InStringEsc bytes | InStringEscU nat bytes
  | Neg bytes | State1 bytes | State0 bytes | Dot bytes | Dot0 bytes | StateE bytes | ESign bytes | E0 bytes
  | InLiteral bytes bytes json

type_synonym scanner = "scan \<times> frame list"

definition quoted_rune :: "byte \<Rightarrow> bytes" where
  "quoted_rune c =
     (if c = 34 \<or> c = 92 then [92, c]
      else if 32 \<le> c \<and> c < 127 then [c]
      else if 0xA1 \<le> c \<and> c \<noteq> 0xAD then [0xC0 + c div 64, 0x80 + c mod 64]
      else if c = 7 then [92, 97] else if c = 8 then [92, 98] else if c = 12 then [92, 102]
      else if c = 10 then [92, 110] else if c = 13 then [92, 114] else if c = 9 then [92, 116]
      else if c = 11 then [92, 118]
      else if c < 32 \<or> c = 127 then [92, 120, hex_digit (c div 16), hex_digit (c mod 16)]
      else [92, 117, 48, 48, hex_digit (c div 16), hex_digit (c mod 16)])"

definition quoteChar :: "byte \<Rightarrow> bytes" where
  "quoteChar c =
     (if c = 39 then [39, 92, 39, 39] else if c = 34 then [39, 34, 39] else 39 # quoted_rune c @ [39])"

definition scan_error :: "byte \<Rightarrow> bytes \<Rightarrow> bytes + 'a" where
  "scan_error c context = Inl (str ''invalid character '' @ quoteChar c @ 32 # context)"

definition is_space :: "byte \<Rightarrow> bool" where
  "is_space c \<longleftrightarrow> c = 32 \<or> c = 9 \<or> c = 13 \<or> c = 10"

definition is_hex :: "byte \<Rightarrow> bool" where
  "is_hex c \<longleftrightarrow> in_range 48 57 c \<or> in_range 97 102 c \<or> in_range 65 70 c"

definition is_escape :: "byte \<Rightarrow> bool" where
  "is_escape e \<longleftrightarrow> e = 98 \<or> e = 102 \<or> e = 110 \<or> e = 114 \<or> e = 116 \<or> e = 92 \<or> e = 47 \<or> e = 34"

definition maxNestingDepth :: nat where
  "maxNestingDepth = 10000"

definition pushParseState :: "byte \<Rightarrow> frame \<Rightarrow> scan \<Rightarrow> frame list \<Rightarrow> bytes + scanner" where
  "pushParseState c f q st =
     (if Suc (length st) \<le> maxNestingDepth then Inr (q, f # st) else scan_error c (str ''exceeded max depth''))"

definition stateBeginValue :: "frame list \<Rightarrow> byte \<Rightarrow> bytes + scanner" where
  "stateBeginValue st c =
     (if is_space c then Inr (BeginValue, st)
      else if c = 123 then pushParseState c (InKey []) BeginStringOrEmpty st
      else if c = 91 then pushParseState c (InArray []) BeginValueOrEmpty st
      else if c = 34 then Inr (InString [], st)
      else if c = 45 then Inr (Neg [c], st)
      else if c = 48 then Inr (State0 [c], st)
      else if c = 116 then Inr (InLiteral (str ''true'') (str ''rue'') (JBool True), st)
      else if c = 102 then Inr (InLiteral (str ''false'') (str ''alse'') (JBool False), st)
      else if c = 110 then Inr (InLiteral (str ''null'') (str ''ull'') JNull, st)
      else if in_range 49 57 c then Inr (State1 [c], st)
      else scan_error c (str ''looking for beginning of value''))"

definition stateBeginString :: "frame list \<Rightarrow> byte \<Rightarrow> bytes + scanner" where
  "stateBeginString st c =
     (if is_space c then Inr (BeginString, st)
      else if c = 34 then Inr (InString [], st)
      else scan_error c (str ''looking for beginning of object key string''))"

definition stateEndValue :: "json \<Rightarrow> frame list \<Rightarrow> byte \<Rightarrow> bytes + scanner" where
  "stateEndValue v st c = (case st of
       [] \<Rightarrow> if is_space c then Inr (EndValue v, []) else scan_error c (str ''after top-level value'')
     | f # st' \<Rightarrow>
         if is_space c then Inr (EndValue v, st)
         else (case f of
             InKey ms \<Rightarrow>
               if c = 58 then Inr (BeginValue, InValue ms (case v of JStr k \<Rightarrow> k | _ \<Rightarrow> []) # st')
               else scan_error c (str ''after object key'')
           | InValue ms k \<Rightarrow>
               if c = 44 then Inr (BeginString, InKey ((k, v) # ms) # st')
               else if c = 125 then Inr (EndValue (JObj (rev ((k, v) # ms))), st')
               else scan_error c (str ''after object key:value pair'')
           | InArray vs \<Rightarrow>
               if c = 44 then Inr (BeginValue, InArray (v # vs) # st')
               else if c = 93 then Inr (EndValue (JArr (rev (v # vs))), st')
               else scan_error c (str ''after array element'')))"

definition state0 :: "bytes \<Rightarrow> frame list \<Rightarrow> byte \<Rightarrow> bytes + scanner" where
  "state0 ds st c =
     (if c = 46 then Inr (Dot (c # ds), st)
      else if c = 101 \<or> c = 69 then Inr (StateE (c # ds), st)
      else stateEndValue (JNum (rev ds)) st c)"

definition stateESign :: "bytes \<Rightarrow> frame list \<Rightarrow> byte \<Rightarrow> bytes + scanner" where
  "stateESign ds st c =
     (if is_digit c then Inr (E0 (c # ds), st) else scan_error c (str ''in exponent of numeric literal''))"

fun scan_step :: "scanner \<Rightarrow> byte \<Rightarrow> bytes + scanner" where
  "scan_step (BeginValueOrEmpty, st) c =
     (if is_space c then Inr (BeginValueOrEmpty, st)
      else if c = 93 then Inr (EndValue (JArr []), tl st)
      else stateBeginValue st c)"
| "scan_step (BeginValue, st) c = stateBeginValue st c"
| "scan_step (BeginStringOrEmpty, st) c =
     (if is_space c then Inr (BeginStringOrEmpty, st)
      else if c = 125 then Inr (EndValue (JObj []), tl st)
      else stateBeginString st c)"
| "scan_step (BeginString, st) c = stateBeginString st c"
| "scan_step (EndValue v, st) c = stateEndValue v st c"
| "scan_step (InString s, st) c =
     (if c = 34 then Inr (EndValue (JStr (rev s)), st)
      else if c = 92 then Inr (InStringEsc (c # s), st)
      else if c < 32 then scan_error c (str ''in string literal'')
      else Inr (InString (c # s), st))"
| "scan_step (InStringEsc s, st) c =
     (if is_escape c then Inr (InString (c # s), st)
      else if c = 117 then Inr (InStringEscU 4 (c # s), st)
      else scan_error c (str ''in string escape code''))"
| "scan_step (InStringEscU n s, st) c =
     (if is_hex c then Inr (if n \<le> 1 then InString (c # s) else InStringEscU (n - 1) (c # s), st)
      else scan_error c (str ''in '' @ 92 # str ''u hexadecimal character escape''))"
| "scan_step (Neg ds, st) c =
     (if c = 48 then Inr (State0 (c # ds), st)
      else if in_range 49 57 c then Inr (State1 (c # ds), st)
      else scan_error c (str ''in numeric literal''))"
| "scan_step (State1 ds, st) c = (if is_digit c then Inr (State1 (c # ds), st) else state0 ds st c)"
| "scan_step (State0 ds, st) c = state0 ds st c"
| "scan_step (Dot ds, st) c =
     (if is_digit c then Inr (Dot0 (c # ds), st)
      else scan_error c (str ''after decimal point in numeric literal''))"
| "scan_step (Dot0 ds, st) c =
     (if is_digit c then Inr (Dot0 (c # ds), st)
      else if c = 101 \<or> c = 69 then Inr (StateE (c # ds), st)
      else stateEndValue (JNum (rev ds)) st c)"
| "scan_step (StateE ds, st) c =
     (if c = 43 \<or> c = 45 then Inr (ESign (c # ds), st) else stateESign ds st c)"
| "scan_step (ESign ds, st) c = stateESign ds st c"
| "scan_step (E0 ds, st) c =
     (if is_digit c then Inr (E0 (c # ds), st) else stateEndValue (JNum (rev ds)) st c)"
| "scan_step (InLiteral name rest v, st) c = (case rest of
       [] \<Rightarrow> stateEndValue v st c
     | e # rest' \<Rightarrow>
         if c = e then Inr (if rest' = [] then EndValue v else InLiteral name rest' v, st)
         else scan_error c (str ''in literal '' @ name @ str '' (expecting '' @ [39, e, 39, 41]))"

fun scan_run :: "scanner \<Rightarrow> bytes \<Rightarrow> bytes + scanner" where
  "scan_run q [] = Inr q"
| "scan_run q (c # s) = (case scan_step q c of Inl e \<Rightarrow> Inl e | Inr q' \<Rightarrow> scan_run q' s)"

text \<open>The end of the text: a value that is complete, or is after one more space.\<close>

definition scan_eof :: "scanner \<Rightarrow> bytes + json" where
  "scan_eof q = (case scan_step q 32 of
       Inl e \<Rightarrow> Inl e
     | Inr (EndValue v, []) \<Rightarrow> Inr v
     | Inr _ \<Rightarrow> Inl (str ''unexpected end of JSON input''))"

definition parse_json :: "bytes \<Rightarrow> bytes + json" where
  "parse_json s = (case scan_run (BeginValue, []) s of Inl e \<Rightarrow> Inl e | Inr q \<Rightarrow> scan_eof q)"

subsection \<open>String literals\<close>

definition hex_val :: "byte \<Rightarrow> nat" where
  "hex_val c = unat (if is_digit c then c - 48 else if in_range 97 102 c then c - 87 else c - 55)"

definition getu4 :: "bytes \<Rightarrow> nat option" where
  "getu4 s = (case s of
       b # u # c1 # c2 # c3 # c4 # _ \<Rightarrow>
         if b = 92 \<and> u = 117 \<and> is_hex c1 \<and> is_hex c2 \<and> is_hex c3 \<and> is_hex c4
         then Some (((hex_val c1 * 16 + hex_val c2) * 16 + hex_val c3) * 16 + hex_val c4) else None
     | _ \<Rightarrow> None)"

definition encode_rune :: "nat \<Rightarrow> bytes" where
  "encode_rune r =
     (if r < 0x80 then [of_nat r]
      else if r < 0x800 then [of_nat (0xC0 + r div 64), of_nat (0x80 + r mod 64)]
      else if r < 0x10000 then [of_nat (0xE0 + r div 4096), of_nat (0x80 + r div 64 mod 64), of_nat (0x80 + r mod 64)]
      else [of_nat (0xF0 + r div 262144), of_nat (0x80 + r div 4096 mod 64), of_nat (0x80 + r div 64 mod 64),
            of_nat (0x80 + r mod 64)])"

definition RuneError :: bytes where
  "RuneError = [0xEF, 0xBF, 0xBD]"

text \<open>\<^verbatim>\<open>unquoteBytes\<close>; at an escape the scanner refuses it gives up.\<close>

definition unescape :: "byte \<Rightarrow> byte" where
  "unescape e = (if e = 98 then 8 else if e = 102 then 12 else if e = 110 then 10
     else if e = 114 then 13 else if e = 116 then 9 else e)"

function unquote :: "bytes \<Rightarrow> bytes" where
  "unquote [] = []"
| "unquote (b # s) =
     (if b = 92 then (case getu4 (b # s) of
          Some r \<Rightarrow>
            if 0xD800 \<le> r \<and> r < 0xE000 then (case getu4 (drop 5 s) of
                Some r2 \<Rightarrow>
                  if r < 0xDC00 \<and> 0xDC00 \<le> r2 \<and> r2 < 0xE000
                  then encode_rune (0x10000 + (r - 0xD800) * 1024 + (r2 - 0xDC00)) @ unquote (drop 11 s)
                  else RuneError @ unquote (drop 5 s)
              | None \<Rightarrow> RuneError @ unquote (drop 5 s))
            else encode_rune r @ unquote (drop 5 s)
        | None \<Rightarrow> (case s of [] \<Rightarrow> [] | e # s' \<Rightarrow> if is_escape e then unescape e # unquote s' else []))
      else if b < 0x80 then b # unquote s
      else (case utf8_length (b # s) of
          None \<Rightarrow> RuneError @ unquote s
        | Some n \<Rightarrow> take n (b # s) @ unquote (drop (n - 1) s)))"
  by pat_completeness auto
termination by (relation "measure length") auto

subsection \<open>Escaping and unquoting\<close>

text \<open>A text with each byte that is no valid UTF-8 replaced by U+FFFD; a valid text is unchanged.\<close>

function coerce_utf8 :: "bytes \<Rightarrow> bytes" where
  "coerce_utf8 [] = []"
| "coerce_utf8 (b # s) =
     (if b < 0x80 then b # coerce_utf8 s
      else (case utf8_length (b # s) of
          None \<Rightarrow> RuneError @ coerce_utf8 s
        | Some n \<Rightarrow> take n (b # s) @ coerce_utf8 (drop (n - 1) s)))"
  by pat_completeness auto
termination by (relation "measure length") auto

definition valid_utf8 :: "bytes \<Rightarrow> bool" where
  "valid_utf8 s \<longleftrightarrow> coerce_utf8 s = s"

declare json_escape.simps(2) [simp del] unquote.simps(2) [simp del] coerce_utf8.simps(2) [simp del]

lemma scan_run_append:
  "scan_run q (xs @ ys) = (case scan_run q xs of Inl e \<Rightarrow> Inl e | Inr q' \<Rightarrow> scan_run q' ys)"
  by (induction q xs rule: scan_run.induct) (auto split: sum.split)

lemma utf8_length_cases:
  assumes "utf8_length s = Some n"
  obtains b c t where "s = b # c # t" "n = 2" "in_range 0xC2 0xDF b" "in_range 0x80 0xBF c"
    | b c d t where "s = b # c # d # t" "n = 3" "\<not> (in_range 0xC2 0xDF b \<and> in_range 0x80 0xBF c)"
        "in_range 0xE0 0xEF b" "in_range 0x80 0xBF d"
        "in_range (if b = 0xE0 then 0xA0 else 0x80) (if b = 0xED then 0x9F else 0xBF) c"
    | b c d e t where "s = b # c # d # e # t" "n = 4" "\<not> (in_range 0xC2 0xDF b \<and> in_range 0x80 0xBF c)"
        "\<not> (in_range 0xE0 0xEF b \<and> in_range 0x80 0xBF d
          \<and> in_range (if b = 0xE0 then 0xA0 else 0x80) (if b = 0xED then 0x9F else 0xBF) c)"
        "in_range 0xF0 0xF4 b" "in_range 0x80 0xBF d" "in_range 0x80 0xBF e"
        "in_range (if b = 0xF0 then 0x90 else 0x80) (if b = 0xF4 then 0x8F else 0xBF) c"
proof -
  obtain b c s2 where s: "s = b # c # s2"
    using assms by (cases s; cases "tl s") (simp_all add: utf8_length_def)
  show ?thesis
  proof (cases "in_range 0xC2 0xDF b \<and> in_range 0x80 0xBF c")
    case True
    then show ?thesis using that(1) [OF s] assms by (simp add: utf8_length_def s)
  next
    case no2: False
    then obtain d s3 where s2: "s2 = d # s3" using assms by (cases s2) (simp_all add: utf8_length_def s if_not_P [OF no2] del: if_split)
    show ?thesis
    proof (cases "in_range 0xE0 0xEF b \<and> in_range 0x80 0xBF d
        \<and> in_range (if b = 0xE0 then 0xA0 else 0x80) (if b = 0xED then 0x9F else 0xBF) c")
      case True
      then have "n = 3" using assms by (simp add: utf8_length_def s s2 if_not_P [OF no2] del: if_split)
      then show ?thesis using that(2) [of b c d s3] no2 True s s2 by blast
    next
      case no3: False
      then obtain e s4 where s3: "s3 = e # s4"
        using assms by (cases s3) (simp_all add: utf8_length_def s s2 if_not_P [OF no2] if_not_P [OF no3] del: if_split)
      show ?thesis
      proof (cases "in_range 0xF0 0xF4 b \<and> in_range 0x80 0xBF d \<and> in_range 0x80 0xBF e
          \<and> in_range (if b = 0xF0 then 0x90 else 0x80) (if b = 0xF4 then 0x8F else 0xBF) c")
        case True
        have "n = 4" using assms
          by (simp only: utf8_length_def s s2 s3 list.case if_not_P [OF no2] if_not_P [OF no3] if_P [OF True] option.inject)
        then show ?thesis using True that(3) [of b c d e s4] no2 no3 True s s2 s3 by blast
      next
        case False
        show ?thesis using assms
          by (simp only: utf8_length_def s s2 s3 list.case if_not_P [OF no2] if_not_P [OF no3] if_not_P [OF False] option.distinct)
      qed
    qed
  qed
qed

lemma utf8_length_spec:
  assumes "utf8_length s = Some n"
  shows "2 \<le> n" "n \<le> length s" "list_all (\<lambda>b. 0x80 \<le> b) (take n s)" "utf8_length (take n s @ r) = Some n"
proof -
  have r: "in_range lo hi b \<Longrightarrow> 0x80 \<le> lo \<Longrightarrow> 0x80 \<le> b" for lo hi b
    by (auto simp: in_range_def)
  have "2 \<le> n \<and> n \<le> length s \<and> list_all (\<lambda>b. 0x80 \<le> b) (take n s) \<and> utf8_length (take n s @ r) = Some n"
    using assms
  proof (cases rule: utf8_length_cases)
    case (1 b c t)
    then show ?thesis by (simp add: utf8_length_def r)
  next
    case (2 b c d t)
    have "0x80 \<le> c" by (rule r [OF 2(6)]) simp
    with 2 show ?thesis by (simp add: utf8_length_def r del: if_split)
  next
    case (3 b c d e t)
    have "0x80 \<le> c" by (rule r [OF 3(8)]) simp
    with 3 show ?thesis by (simp add: utf8_length_def r del: if_split)
  qed
  then show "2 \<le> n" "n \<le> length s" "list_all (\<lambda>b. 0x80 \<le> b) (take n s)" "utf8_length (take n s @ r) = Some n"
    by simp_all
qed

lemma hex_digits:
  assumes "n < 16"
  shows "is_hex (hex_digit n)" "hex_val (hex_digit n) = unat n"
proof -
  have "unat n < 16" using assms by (simp add: word_less_nat_alt)
  then have "unat n \<in> {0,1,2,3,4,5,6,7,8,9,10,11,12,13,14,15}" unfolding insert_iff empty_iff by arith
  moreover have "n = of_nat (unat n)" by simp
  ultimately have "n \<in> of_nat ` {0,1,2,3,4,5,6,7,8,9,10,11,12,13,14,15}" by (metis imageI)
  then have "n \<in> {0,1,2,3,4,5,6,7,8,9,10,11,12,13,14,15}" by simp
  then show "is_hex (hex_digit n)" "hex_val (hex_digit n) = unat n"
    by (auto simp: is_hex_def hex_digit_def hex_val_def in_range_def is_digit_def)
qed

lemma hex_byte:
  assumes "b < 0x80"
  shows "getu4 (92 # 117 # 48 # 48 # hex_digit (b div 16) # hex_digit (b mod 16) # r) = Some (unat b)"
    "is_hex (hex_digit (b div 16))" "is_hex (hex_digit (b mod 16))"
proof -
  have u: "unat (b div 16) = unat b div 16" "unat (b mod 16) = unat b mod 16"
    by (simp_all add: unat_div unat_mod)
  then have "b div 16 < 16" "b mod 16 < 16" using assms by (simp_all add: word_less_nat_alt)
  note h = hex_digits [OF this(1)] hex_digits [OF this(2)]
  show "is_hex (hex_digit (b div 16))" "is_hex (hex_digit (b mod 16))" by (fact h)+
  have "is_hex 48" "hex_val 48 = 0" by (simp_all add: is_hex_def in_range_def hex_val_def is_digit_def)
  then show "getu4 (92 # 117 # 48 # 48 # hex_digit (b div 16) # hex_digit (b mod 16) # r) = Some (unat b)"
    using h u by (simp add: getu4_def)
qed

lemma scan_escape_ascii:
  assumes "b < 0x80"
  shows "scan_run (InString acc, st) (escape_ascii b @ r) = scan_run (InString (rev (escape_ascii b) @ acc), st) r"
  using hex_byte [OF assms] by (auto simp: escape_ascii_def is_escape_def is_hex_def in_range_def)

lemma unquote_plain: "b < 0x80 \<Longrightarrow> b \<noteq> 92 \<Longrightarrow> unquote (b # r) = b # unquote r"
  by (simp add: unquote.simps(2))

lemma unquote_escape: "is_escape e \<Longrightarrow> unquote (92 # e # r) = unescape e # unquote r"
proof -
  assume e: "is_escape e"
  then have "e \<noteq> 117" by (auto simp: is_escape_def)
  then have "getu4 (92 # e # r) = None" by (simp add: getu4_def split: list.split)
  then show ?thesis using e by (simp add: unquote.simps(2))
qed

lemma unquote_hex:
  assumes "b < 0x80"
  shows "unquote (92 # 117 # 48 # 48 # hex_digit (b div 16) # hex_digit (b mod 16) # r) = b # unquote r"
proof -
  have "unat b < 0x80" using assms by (simp add: word_less_nat_alt)
  then have "\<not> 0xD800 \<le> unat b" "encode_rune (unat b) = [b]" by (simp_all add: encode_rune_def)
  then show ?thesis using hex_byte(1) [OF assms, of r] by (subst unquote.simps(2)) simp
qed

lemma unquote_escape_ascii: "b < 0x80 \<Longrightarrow> unquote (escape_ascii b @ r) = b # unquote r"
  by (auto simp: escape_ascii_def unquote_plain unquote_escape unquote_hex unescape_def is_escape_def)

lemma scan_plain:
  "list_all (\<lambda>b. 0x80 \<le> b) xs \<Longrightarrow>
   scan_run (InString acc, st) (xs @ r) = scan_run (InString (rev xs @ acc), st) r"
proof (induction xs arbitrary: acc)
  case (Cons b xs)
  then have "0x80 \<le> b" by simp
  then have "b \<noteq> 34" "b \<noteq> 92" "\<not> b < 32" by (auto simp: word_le_nat_alt word_less_nat_alt)
  then show ?case using Cons by simp
qed simp

lemma unquote_rune:
  assumes "utf8_length s = Some n"
  shows "unquote (take n s @ r) = take n s @ unquote r"
proof -
  note u = utf8_length_spec [OF assms]
  obtain b t where s: "take n s = b # t" using u(1,2) by (cases "take n s") auto
  then have l: "length t = n - 1" using u(1,2) by (metis length_Cons length_take min_absorb2 diff_Suc_1)
  have b: "0x80 \<le> b" using u(3) s by simp
  then have "b \<noteq> 92" "\<not> b < 0x80" by (auto simp: not_less)
  then show ?thesis using u(1) u(4) [of r] s l by (simp add: unquote.simps(2) take_Cons')
qed

lemma scan_json_escape:
  "scan_run (InString acc, st) (json_escape s @ r) = scan_run (InString (rev (json_escape s) @ acc), st) r"
proof (induction s arbitrary: acc rule: json_escape.induct)
  case (2 b s)
  show ?case
  proof (cases "b < 0x80")
    case True
    then show ?thesis using 2(1) by (simp add: json_escape.simps(2) scan_escape_ascii)
  next
    case False
    show ?thesis
    proof (cases "utf8_length (b # s)")
      case None
      then show ?thesis using 2(2) False
        by (simp add: json_escape.simps(2) is_escape_def is_hex_def in_range_def)
    next
      case (Some n)
      note u = utf8_length_spec [OF Some]
      then show ?thesis using 2(3) [OF False Some] False Some scan_plain [OF u(3)]
        by (simp add: json_escape.simps(2) Let_def is_escape_def is_hex_def in_range_def)
    qed
  qed
qed simp

lemma unquote_json_escape: "unquote (json_escape s) = coerce_utf8 s"
proof (induction s rule: json_escape.induct)
  case (2 b s)
  show ?case
  proof (cases "b < 0x80")
    case True
    then show ?thesis using 2(1) by (simp add: json_escape.simps(2) coerce_utf8.simps(2) unquote_escape_ascii)
  next
    case False
    have c: "unquote (92 # 117 # 102 # 102 # 102 # 100 # r) = RuneError @ unquote r"
      "unquote (92 # 117 # 50 # 48 # 50 # 56 # r) = [0xE2, 0x80, 0xA8] @ unquote r"
      "unquote (92 # 117 # 50 # 48 # 50 # 57 # r) = [0xE2, 0x80, 0xA9] @ unquote r" for r
      by (simp_all add: unquote.simps(2) getu4_def is_hex_def in_range_def hex_val_def is_digit_def encode_rune_def RuneError_def)
    show ?thesis
    proof (cases "utf8_length (b # s)")
      case None
      then show ?thesis using 2(2) False by (simp add: json_escape.simps(2) coerce_utf8.simps(2) c)
    next
      case (Some n)
      then show ?thesis using 2(3) [OF False Some] False unquote_rune [OF Some]
        by (auto simp: json_escape.simps(2) coerce_utf8.simps(2) Let_def c)
    qed
  qed
qed simp

subsection \<open>What is written is read back\<close>

text \<open>
  A text is the whole of a value: after it the value is complete, in any context that leaves room for \<open>d\<close> more
  levels of nesting. Of a number this is known only at the next delimiter.
\<close>

definition whole_value :: "nat \<Rightarrow> bytes \<Rightarrow> json \<Rightarrow> bool" where
  "whole_value d b v \<longleftrightarrow> (\<forall>st. length st + d \<le> maxNestingDepth \<longrightarrow> scan_run (BeginValue, st) b = Inr (EndValue v, st))"

definition delimited :: "nat \<Rightarrow> bytes \<Rightarrow> json \<Rightarrow> bool" where
  "delimited d b v \<longleftrightarrow> (\<forall>st c r. length st + d \<le> maxNestingDepth \<longrightarrow> c \<in> {44, 93, 125} \<longrightarrow>
     scan_run (BeginValue, st) (b @ c # r) = scan_run (EndValue v, st) (c # r))"

lemma delimitedD:
  "delimited d b v \<Longrightarrow> length st + d \<le> maxNestingDepth \<Longrightarrow> c \<in> {44, 93, 125} \<Longrightarrow>
   scan_run (BeginValue, st) (b @ c # r) = scan_run (EndValue v, st) (c # r)"
  unfolding delimited_def by blast

lemma whole_value_delimited: "whole_value d b v \<Longrightarrow> d \<le> d' \<Longrightarrow> delimited d' b v"
  unfolding whole_value_def delimited_def scan_run_append by (auto simp del: scan_run.simps)

lemma parse_whole_value: "whole_value d b v \<Longrightarrow> d \<le> maxNestingDepth \<Longrightarrow> parse_json b = Inr v"
  by (simp add: whole_value_def parse_json_def scan_eof_def stateEndValue_def is_space_def)

lemma scan_string:
  "scan_run (InString [], st) (json_escape s @ 34 # r) = scan_run (EndValue (JStr (json_escape s)), st) r"
  by (simp add: scan_json_escape)

lemma whole_json_string: "whole_value d (json_string s) (JStr (json_escape s))"
  by (simp add: whole_value_def json_string_def stateBeginValue_def is_space_def scan_string)

lemma Itoa_first: "0 < n \<Longrightarrow> \<exists>b ds. Itoa n = b # ds \<and> in_range 49 57 b"
proof (induction n rule: Itoa.induct)
  case (1 n)
  show ?case
  proof (cases "n < 10")
    case True
    then have "n = 1 \<or> n = 2 \<or> n = 3 \<or> n = 4 \<or> n = 5 \<or> n = 6 \<or> n = 7 \<or> n = 8 \<or> n = 9" using 1(2) by arith
    then show ?thesis by (auto simp: Itoa.simps [of n] in_range_def)
  next
    case False
    then have "0 < n div 10" by (simp add: div_greater_zero_iff)
    then show ?thesis using 1(1) [OF False] False by (auto simp: Itoa.simps [of n])
  qed
qed

lemma scan_digits:
  "list_all is_digit ds \<Longrightarrow> scan_run (State1 acc, st) (ds @ r) = scan_run (State1 (rev ds @ acc), st) r"
  by (induction ds arbitrary: acc) simp_all

lemma scan_number_end:
  assumes "c \<in> {44, 93, 125}"
  shows "scan_run (State1 ds, st) (c # r) = scan_run (EndValue (JNum (rev ds)), st) (c # r)"
    "scan_run (State0 ds, st) (c # r) = scan_run (EndValue (JNum (rev ds)), st) (c # r)"
  using assms by (auto simp: is_digit_def state0_def)

lemma delimited_fmt_d: "delimited d (fmt_d n) (JNum (fmt_d n))"
proof -
  have nat: "scan_run (q, st) (Itoa m @ c # r) = scan_run (EndValue (JNum (rev acc @ Itoa m)), st) (c # r)"
    if "q = BeginValue \<and> acc = [] \<or> q = Neg acc" "c \<in> {44, 93, 125}" for q acc st c r m
  proof (cases "m = 0")
    case True
    then show ?thesis using that
      by (auto simp: Itoa.simps [of 0] stateBeginValue_def is_space_def state0_def)
  next
    case False
    then obtain b ds where b: "Itoa m = b # ds" "in_range 49 57 b" using Itoa_first [of m] by auto
    then have "list_all is_digit ds" using Itoa_spec [of m] by simp
    moreover have "b \<noteq> 123" "b \<noteq> 91" "b \<noteq> 34" "b \<noteq> 45" "b \<noteq> 48" "b \<noteq> 116" "b \<noteq> 102" "b \<noteq> 110" "\<not> is_space b"
      using b(2) by (auto simp: in_range_def is_space_def word_le_nat_alt)
    ultimately have "scan_run (q, st) (Itoa m @ c # r) = scan_run (State1 (rev ds @ b # acc), st) (c # r)"
      using that(1) b scan_digits [of ds "b # acc" st "c # r"]
      by (auto simp: stateBeginValue_def)
    then show ?thesis using scan_number_end(1) [OF that(2)] b(1) by simp
  qed
  show ?thesis
    unfolding delimited_def
  proof (intro allI impI)
    fix st c r assume "c \<in> {44, 93, 125 :: byte}"
    note n = nat [OF _ this]
    have "scan_run (BeginValue, st) (45 # Itoa m @ c # r) = scan_run (EndValue (JNum (45 # Itoa m)), st) (c # r)" for m
      using n [of "Neg [45]" "[45]" st m r] by (simp add: stateBeginValue_def is_space_def)
    then show "scan_run (BeginValue, st) (fmt_d n @ c # r) = scan_run (EndValue (JNum (fmt_d n)), st) (c # r)"
      using n [of BeginValue "[]" st "nat n" r] by (simp add: fmt_d_def)
  qed
qed

text \<open>The members of an object, and the elements of an array.\<close>

lemma scan_key:
  assumes "q = BeginString \<or> q = BeginStringOrEmpty"
  shows "scan_run (q, InKey ms # st) (json_string k @ 58 # r) = scan_run (BeginValue, InValue ms (json_escape k) # st) r"
proof -
  have "scan_run (InString [], InKey ms # st) ((json_escape k @ [34]) @ 58 # r)
      = scan_run (BeginValue, InValue ms (json_escape k) # st) r"
    using scan_string [of "InKey ms # st" k "58 # r"] by (simp add: stateEndValue_def is_space_def)
  then show ?thesis
    using assms by (auto simp: json_string_def stateBeginString_def is_space_def)
qed

abbreviation members :: "(string \<times> bytes) list \<Rightarrow> bytes" where
  "members fs \<equiv> commas (map (\<lambda>(k, v). json_string (str k) @ 58 # v) fs)"

abbreviation read_members :: "(string \<times> bytes) list \<Rightarrow> json list \<Rightarrow> (bytes \<times> json) list" where
  "read_members fs vs \<equiv> map2 (\<lambda>f v. (json_escape (str (fst f)), v)) fs vs"

lemma scan_members:
  assumes "list_all2 (\<lambda>f v. delimited d (snd f) v) fs vs" "fs \<noteq> []" "Suc (length st) + d \<le> maxNestingDepth"
    "q = BeginString \<or> q = BeginStringOrEmpty"
  shows "scan_run (q, InKey ms # st) (members fs @ 125 # r) = scan_run (EndValue (JObj (rev ms @ read_members fs vs)), st) r"
  using assms
proof (induction fs arbitrary: q ms vs)
  case (Cons f fs)
  obtain k b where f: "f = (k, b)" by (cases f)
  obtain v vs' where vs: "vs = v # vs'" "delimited d b v" "list_all2 (\<lambda>f v. delimited d (snd f) v) fs vs'"
    using Cons.prems(1) f by (cases vs) auto
  have val: "scan_run (q, InKey ms # st) (json_string (str k) @ 58 # b @ c # r')
      = scan_run (EndValue v, InValue ms (json_escape (str k)) # st) (c # r')" if "c \<in> {44, 93, 125}" for c r'
    using delimitedD [OF vs(2) _ that, of "InValue ms (json_escape (str k)) # st" r'] Cons.prems(3)
      scan_key [OF Cons.prems(4), of ms st "str k" "b @ c # r'"] by simp
  show ?case
  proof (cases fs)
    case Nil
    then show ?thesis using val [of 125 r] vs f by (simp add: stateEndValue_def is_space_def)
  next
    case (Cons g gs)
    have "scan_run (q, InKey ms # st) (members (f # fs) @ 125 # r)
        = scan_run (BeginString, InKey ((json_escape (str k), v) # ms) # st) (members fs @ 125 # r)"
      using val [of 44 "members fs @ 125 # r"] f Cons by (simp add: stateEndValue_def is_space_def)
    also have "\<dots> = scan_run (EndValue (JObj (rev ((json_escape (str k), v) # ms) @ read_members fs vs')), st) r"
      using Cons.IH [OF vs(3)] Cons.prems(3) Cons by simp
    finally show ?thesis using f vs(1) by simp
  qed
qed simp

lemma whole_json_object:
  assumes "list_all2 (\<lambda>f v. delimited d (snd f) v) fs vs" "fs \<noteq> []"
  shows "whole_value (Suc d) (json_object fs) (JObj (read_members fs vs))"
  using scan_members [OF assms, of _ BeginStringOrEmpty "[]" "[]"]
  by (simp add: whole_value_def json_object_def stateBeginValue_def is_space_def pushParseState_def)

lemma scan_elements:
  assumes "list_all2 (delimited d) bs vs" "bs \<noteq> []" "Suc (length st) + d \<le> maxNestingDepth"
  shows "scan_run (BeginValue, InArray ws # st) (commas bs @ 93 # r) = scan_run (EndValue (JArr (rev ws @ vs)), st) r"
  using assms
proof (induction bs arbitrary: ws vs)
  case (Cons b bs)
  obtain v vs' where vs: "vs = v # vs'" "delimited d b v" "list_all2 (delimited d) bs vs'"
    using Cons.prems(1) by (cases vs) auto
  have val: "scan_run (BeginValue, InArray ws # st) (b @ c # r') = scan_run (EndValue v, InArray ws # st) (c # r')"
    if "c \<in> {44, 93, 125}" for c r'
    using delimitedD [OF vs(2) _ that, of "InArray ws # st" r'] Cons.prems(3) by simp
  show ?case
  proof (cases bs)
    case Nil
    then show ?thesis using val [of 93 r] vs by (simp add: stateEndValue_def is_space_def)
  next
    case (Cons b' bs')
    have "scan_run (BeginValue, InArray ws # st) (commas (b # bs) @ 93 # r)
        = scan_run (BeginValue, InArray (v # ws) # st) (commas bs @ 93 # r)"
      using val [of 44 "commas bs @ 93 # r"] Cons by (simp add: stateEndValue_def is_space_def)
    also have "\<dots> = scan_run (EndValue (JArr (rev (v # ws) @ vs')), st) r"
      using Cons.IH [OF vs(3)] Cons.prems(3) Cons by simp
    finally show ?thesis using vs(1) by simp
  qed
qed simp

lemma whole_json_array:
  assumes "list_all2 (delimited d) bs vs" "list_all (\<lambda>b. \<exists>r. b = 123 # r) bs"
  shows "whole_value (Suc d) (91 # commas bs @ [93]) (JArr vs)"
  unfolding whole_value_def
proof (intro allI impI)
  fix st :: "frame list" assume depth: "length st + Suc d \<le> maxNestingDepth"
  show "scan_run (BeginValue, st) (91 # commas bs @ [93]) = Inr (EndValue (JArr vs), st)"
  proof (cases bs)
    case Nil
    then show ?thesis using assms(1) depth by (simp add: stateBeginValue_def is_space_def pushParseState_def)
  next
    case (Cons b bs')
    then obtain r where "commas bs @ [93] = 123 # r" using assms(2) by (cases bs') auto
    then have "scan_run (BeginValueOrEmpty, InArray [] # st) (commas bs @ [93])
        = scan_run (BeginValue, InArray [] # st) (commas bs @ [93])" by (simp add: is_space_def)
    then show ?thesis
      using scan_elements [OF assms(1), of st "[]" "[]"] Cons depth
      by (simp add: stateBeginValue_def [of st] is_space_def pushParseState_def)
  qed
qed

subsection \<open>What is read is valid UTF-8\<close>

lemma in_range_of_nat: "n < 256 \<Longrightarrow> in_range lo hi (of_nat n) \<longleftrightarrow> unat lo \<le> n \<and> n \<le> unat hi"
  by (simp add: in_range_def word_le_nat_alt unat_of_nat)

lemma of_nat_byte_eq: "n < 256 \<Longrightarrow> (of_nat n = (b :: byte)) \<longleftrightarrow> n = unat b"
  by (auto simp: unat_of_nat)

lemma utf8_length_encode_rune:
  assumes "0x80 \<le> r" "r < 0x110000" "\<not> (0xD800 \<le> r \<and> r < 0xE000)"
  shows "utf8_length (encode_rune r @ t) = Some (length (encode_rune r))"
proof -
  consider "r < 0x800" | "0x800 \<le> r" "r < 0x10000" | "0x10000 \<le> r" by linarith
  then show ?thesis
  proof cases
    case 1
    then have "2 \<le> r div 64" "r div 64 < 32" using assms(1) by auto
    moreover have "r mod 64 \<le> 63" using mod_less_divisor [of 64 r] by linarith
    ultimately have "in_range 0xC2 0xDF (of_nat (0xC0 + r div 64))" "in_range 0x80 0xBF (of_nat (0x80 + r mod 64))"
      by (simp_all add: in_range_of_nat del: of_nat_add)
    then show ?thesis using 1 assms(1) by (simp add: encode_rune_def utf8_length_def del: of_nat_add)
  next
    case 2
    define x where "x = r div 4096"
    define y where "y = r div 64 mod 64"
    have x: "x < 16" "x = 0 \<Longrightarrow> 32 \<le> y" "x = 13 \<Longrightarrow> y < 32" "y < 64"
    proof -
      have xy: "r div 64 = 64 * x + y" using div_mult_mod_eq [of "r div 64" 64] div_mult2_eq [of r 64 64] by (simp add: x_def y_def)
      show "x < 16" using 2 by (simp add: x_def)
      show "y < 64" by (simp add: y_def)
      show "32 \<le> y" if "x = 0" using xy that 2(1) by linarith
      show "y < 32" if "x = 13"
      proof -
        have "r div 4096 = 13" using that by (simp add: x_def)
        then have "r < 0xE000" by linarith
        then have "r div 64 < 864" using assms(3) by linarith
        then show ?thesis using xy that by linarith
      qed
    qed
    have e: "encode_rune r = [of_nat (0xE0 + x), of_nat (0x80 + y), of_nat (0x80 + r mod 64)]"
      using 2 by (simp add: encode_rune_def x_def y_def)
    have "\<not> in_range 0xC2 0xDF (of_nat (0xE0 + x))" "in_range 0xE0 0xEF (of_nat (0xE0 + x))"
      "in_range 0x80 0xBF (of_nat (0x80 + r mod 64))" "(of_nat (0xE0 + x) = (0xE0::byte)) = (x = 0)"
      "(of_nat (0xE0 + x) = (0xED::byte)) = (x = 13)"
      using x(1) by (simp_all only: in_range_of_nat of_nat_byte_eq) simp_all
    moreover have "in_range (if x = 0 then 0xA0 else 0x80) (if x = 13 then 0x9F else 0xBF) (of_nat (0x80 + y))"
      using x by (cases "x = 0"; cases "x = 13") (simp_all add: in_range_of_nat del: of_nat_add)
    ultimately show ?thesis
      unfolding e utf8_length_def by (simp only: append_Cons append_Nil list.case if_True if_False simp_thms) simp
  next
    case 3
    define x where "x = r div 262144"
    define y where "y = r div 4096 mod 64"
    have x: "x < 5" "x = 0 \<Longrightarrow> 16 \<le> y" "x = 4 \<Longrightarrow> y < 16" "y < 64"
    proof -
      have xy: "r div 4096 = 64 * x + y" using div_mult_mod_eq [of "r div 4096" 64] div_mult2_eq [of r 4096 64] by (simp add: x_def y_def)
      show "x < 5" using assms(2) by (simp add: x_def)
      show "y < 64" by (simp add: y_def)
      show "16 \<le> y" if "x = 0" using xy that 3 by linarith
      show "y < 16" if "x = 4" using xy that assms(2) by linarith
    qed
    have e: "encode_rune r = [of_nat (0xF0 + x), of_nat (0x80 + y), of_nat (0x80 + r div 64 mod 64), of_nat (0x80 + r mod 64)]"
      using 3 by (simp add: encode_rune_def x_def y_def)
    have "\<not> in_range 0xC2 0xDF (of_nat (0xF0 + x))" "\<not> in_range 0xE0 0xEF (of_nat (0xF0 + x))"
      "in_range 0xF0 0xF4 (of_nat (0xF0 + x))" "in_range 0x80 0xBF (of_nat (0x80 + r mod 64))"
      "in_range 0x80 0xBF (of_nat (0x80 + r div 64 mod 64))" "(of_nat (0xF0 + x) = (0xF0::byte)) = (x = 0)"
      "(of_nat (0xF0 + x) = (0xF4::byte)) = (x = 4)"
      using x(1) by (simp_all only: in_range_of_nat of_nat_byte_eq) simp_all
    moreover have "in_range (if x = 0 then 0x90 else 0x80) (if x = 4 then 0x8F else 0xBF) (of_nat (0x80 + y))"
      using x by (cases "x = 0"; cases "x = 4") (simp_all add: in_range_of_nat del: of_nat_add)
    ultimately show ?thesis
      unfolding e utf8_length_def by (simp only: append_Cons append_Nil list.case if_True if_False simp_thms) simp
  qed
qed

lemma coerce_rune:
  assumes "utf8_length (u @ t) = Some (length u)"
  shows "coerce_utf8 (u @ t) = u @ coerce_utf8 t"
proof -
  note l = utf8_length_spec [OF assms]
  obtain b v where u: "u = b # v" using l(1) by (cases u) auto
  then have "0x80 \<le> b" using l(3) by simp
  then show ?thesis using assms u by (simp add: coerce_utf8.simps(2) not_less [symmetric])
qed

lemma coerce_encode_rune:
  assumes "r < 0x110000" "\<not> (0xD800 \<le> r \<and> r < 0xE000)"
  shows "coerce_utf8 (encode_rune r @ t) = encode_rune r @ coerce_utf8 t"
proof (cases "r < 0x80")
  case True
  then have "(of_nat r :: byte) < 0x80" by (simp add: word_less_nat_alt unat_of_nat)
  then show ?thesis using True by (simp add: encode_rune_def coerce_utf8.simps(2))
next
  case False
  then show ?thesis using coerce_rune [OF utf8_length_encode_rune] assms by simp
qed

lemma coerce_RuneError [simp]: "coerce_utf8 (RuneError @ t) = RuneError @ coerce_utf8 t"
  by (rule coerce_rune) (simp add: RuneError_def utf8_length_def in_range_def)

lemma getu4_bound:
  assumes "getu4 s = Some r"
  shows "r < 0x10000"
proof -
  have h: "hex_val c < 16" if "is_hex c" for c
    using that by (auto simp: hex_val_def is_hex_def in_range_def is_digit_def word_le_nat_alt unat_sub)
  obtain c1 c2 c3 c4 where c: "is_hex c1" "is_hex c2" "is_hex c3" "is_hex c4"
    "r = ((hex_val c1 * 16 + hex_val c2) * 16 + hex_val c3) * 16 + hex_val c4"
    using assms by (auto simp: getu4_def split: list.splits if_splits)
  then have "r = 4096 * hex_val c1 + 256 * hex_val c2 + 16 * hex_val c3 + hex_val c4" by simp
  then show ?thesis using h [OF c(1)] h [OF c(2)] h [OF c(3)] h [OF c(4)] by linarith
qed

lemma valid_unquote: "valid_utf8 (unquote s)"
  unfolding valid_utf8_def
proof (induction s rule: unquote.induct)
  case (2 b s)
  note valid = coerce_encode_rune
  show ?case
  proof (cases "b = 92")
    case True
    show ?thesis
    proof (cases "getu4 (b # s)")
      case None
      have "unescape e < 0x80" if "is_escape e" for e using that by (auto simp: is_escape_def unescape_def)
      then show ?thesis using 2(1) [OF True None] True None
        by (auto simp: unquote.simps(2) coerce_utf8.simps(2) split: list.split)
    next
      case (Some r)
      have r: "r < 0x10000" by (rule getu4_bound [OF Some])
      show ?thesis
      proof (cases "0xD800 \<le> r \<and> r < 0xE000")
        case False
        have "unquote (b # s) = encode_rune r @ unquote (drop 5 s)"
          by (simp only: unquote.simps(2) if_P [OF True] Some option.case if_not_P [OF False])
        then show ?thesis using 2(5) [OF True Some False] valid [OF _ False] r by simp
      next
        case sur: True
        show ?thesis
        proof (cases "getu4 (drop 5 s)")
          case None
          then show ?thesis using 2(2) [OF True Some sur None] True Some sur by (simp add: unquote.simps(2))
        next
          case (Some r2)
          note r2 = this
          show ?thesis
          proof (cases "r < 0xDC00 \<and> 0xDC00 \<le> r2 \<and> r2 < 0xE000")
            case low: True
            then have "0x10000 + (r - 0xD800) * 1024 + (r2 - 0xDC00) < 0x110000" using sur by auto
            then show ?thesis using 2(3) [OF True \<open>getu4 (b # s) = Some r\<close> sur r2 low] True \<open>getu4 (b # s) = Some r\<close> sur r2 low
              by (simp add: unquote.simps(2) valid)
          next
            case low: False
            have "unquote (b # s) = RuneError @ unquote (drop 5 s)"
              by (simp only: unquote.simps(2) if_P [OF True] \<open>getu4 (b # s) = Some r\<close> option.case if_P [OF sur] r2 if_not_P [OF low])
            then show ?thesis using 2(4) [OF True \<open>getu4 (b # s) = Some r\<close> sur r2 low] by simp
          qed
        qed
      qed
    qed
  next
    case no: False
    show ?thesis
    proof (cases "b < 0x80")
      case True
      then show ?thesis using 2(6) [OF no True] no by (simp add: unquote.simps(2) coerce_utf8.simps(2))
    next
      case high: False
      show ?thesis
      proof (cases "utf8_length (b # s)")
        case None
        then show ?thesis using 2(7) [OF no high None] no high by (simp add: unquote.simps(2))
      next
        case (Some n)
        note u = utf8_length_spec [OF Some]
        have "length (take n (b # s)) = n" using u(2) by simp
        then show ?thesis using 2(8) [OF no high Some] no high Some coerce_rune [of "take n (b # s)"] u(4)
          by (simp only: unquote.simps(2)) simp
      qed
    qed
  qed
qed simp

subsection \<open>Objects that are cut short\<close>

text \<open>Once the scanner is within an object, it is back at the top level only after the whole of it.\<close>

definition enclosed :: "scanner \<Rightarrow> bool" where
  "enclosed q \<longleftrightarrow> (snd q = [] \<longrightarrow> (\<exists>v. fst q = EndValue v))"

lemmas scan_states = stateBeginValue_def stateBeginString_def stateEndValue_def state0_def stateESign_def
  pushParseState_def scan_error_def

lemma enclosed_step:
  assumes "enclosed q" "scan_step q c = Inr q'"
  shows "enclosed q'"
  using assms
  by (cases "(q, c)" rule: scan_step.cases)
    (auto simp: enclosed_def scan_states split: if_splits list.splits frame.splits)

lemma enclosed_run: "enclosed q \<Longrightarrow> scan_run q s = Inr q' \<Longrightarrow> enclosed q'"
  by (induction q s rule: scan_run.induct) (auto split: sum.splits dest: enclosed_step)

lemma space_keeps_level: "scan_step q 32 = Inr q' \<Longrightarrow> snd q' = snd q"
  by (cases "(q, 32 :: byte)" rule: scan_step.cases)
    (auto simp: scan_states is_space_def is_digit_def is_escape_def is_hex_def in_range_def split: if_splits list.splits frame.splits)

lemma only_spaces_follow: "scan_run (EndValue v, []) s = Inr q \<Longrightarrow> list_all is_space s"
  by (induction s) (auto simp: scan_states split: if_splits)

lemma cut_object_is_refused:
  assumes "parse_json (p @ r) = Inr v" "p @ r = 123 # s" "r \<noteq> []" "last r = 125"
  shows "\<exists>e. parse_json p = Inl e"
proof (rule ccontr)
  assume "\<nexists>e. parse_json p = Inl e"
  then obtain w where w: "parse_json p = Inr w" by (cases "parse_json p") auto
  show False
  proof (cases p)
    case Nil
    then show False using w by (simp add: parse_json_def scan_eof_def stateBeginValue_def is_space_def)
  next
    case (Cons b p')
    then have b: "b = 123" "p' @ r = s" using assms(2) by auto
    let ?q0 = "(BeginStringOrEmpty, [InKey []])"
    have start: "scan_run (BeginValue, []) (123 # t) = scan_run ?q0 t" for t
      by (simp add: stateBeginValue_def is_space_def pushParseState_def maxNestingDepth_def)
    obtain q where q: "scan_run ?q0 p' = Inr q" "scan_eof q = Inr w"
      using w Cons b start by (auto simp: parse_json_def split: sum.splits)
    have "enclosed q" by (rule enclosed_run [OF _ q(1)]) (simp add: enclosed_def)
    moreover obtain v' where "scan_step q 32 = Inr (EndValue v', [])"
      using q(2) by (auto simp: scan_eof_def split: sum.splits prod.splits scan.splits list.splits)
    ultimately obtain u where u: "q = (EndValue u, [])"
      using space_keeps_level by (cases q) (fastforce simp: enclosed_def)
    obtain q' where "scan_run q r = Inr q'"
      using assms(1,2) b start [of "p' @ r"] q(1) by (auto simp: parse_json_def scan_run_append split: sum.splits)
    then have "list_all is_space r" unfolding u by (rule only_spaces_follow)
    then have "is_space (last r)" using assms(3) by (simp add: list_all_iff)
    then show False using assms(4) by (simp add: is_space_def)
  qed
qed

end
