(* ===== verification/Orders.thy ===== *)
theory Orders
  imports Go_Json Go_Time "HOL-Library.Sublist"
begin

section \<open>The order API and its store (orders/handlers.go, orders/store.go)\<close>

text \<open>
  The handlers of \<^verbatim>\<open>/orders\<close> and \<^verbatim>\<open>/orders/{id}\<close> and the store behind them. The database
  (\<^verbatim>\<open>database/sql\<close> with the SQLite driver) is a parameter: its operations are the fields of \<open>sql\<close>,
  its state is of type \<open>'db\<close>, and \<open>sqlite_ok\<close> states what SQLite documents of them. Another parameter
  is \<open>library\<close>: instants of time (of type \<open>'t\<close>) with their textual forms, of which \<open>Go_Time\<close> has the one of
  Go. Reading and writing JSON is written out.
\<close>

subsection \<open>Orders and JSON\<close>

record 't Order =
  ID :: int
  Customer :: bytes
  Item :: bytes
  Quantity :: int
  PriceCents :: int
  CreatedAt :: 't

record createRequest =
  in_Customer :: bytes
  in_Item :: bytes
  in_Quantity :: int
  in_PriceCents :: int

text \<open>
  Instants of time: the zero \<^verbatim>\<open>Time\<close>, \<^verbatim>\<open>Time.Format\<close> and \<^verbatim>\<open>time.Parse\<close> with \<^verbatim>\<open>RFC3339Nano\<close>, and \<^verbatim>\<open>Time.MarshalJSON\<close>.
\<close>

record 't library =
  lib_ZeroTime :: 't
  lib_Format :: "'t \<Rightarrow> bytes"
  lib_Parse :: "bytes \<Rightarrow> bytes + 't"
  lib_MarshalTime :: "'t \<Rightarrow> bytes + bytes"

text \<open>
  \<^verbatim>\<open>json.Unmarshal\<close> into a \<^verbatim>\<open>createRequest\<close>: the text is scanned to its end first; then the members of the object
  are stored in the fields their keys name (whatever the case of the letters), \<open>null\<close> stores nothing, unknown keys
  are skipped, and the first value of a wrong type is the error.
\<close>

definition json_kind :: "json \<Rightarrow> bytes" where
  "json_kind v = (case v of JNull \<Rightarrow> str ''null'' | JBool _ \<Rightarrow> str ''bool'' | JNum _ \<Rightarrow> str ''number''
     | JStr _ \<Rightarrow> str ''string'' | JArr _ \<Rightarrow> str ''array'' | JObj _ \<Rightarrow> str ''object'')"

definition field_error :: "bytes \<Rightarrow> string \<Rightarrow> string \<Rightarrow> bytes" where
  "field_error kind name type = str ''json: cannot unmarshal '' @ kind
     @ str '' into Go struct field createRequest.'' @ str name @ str '' of type '' @ str type"

definition save_error :: "bytes option \<Rightarrow> bytes \<Rightarrow> bytes option" where
  "save_error err e = (case err of None \<Rightarrow> Some e | Some _ \<Rightarrow> err)"

type_synonym decoding = "createRequest \<times> bytes option"

definition string_field :: "string \<Rightarrow> (bytes \<Rightarrow> createRequest \<Rightarrow> createRequest) \<Rightarrow> json \<Rightarrow> decoding \<Rightarrow> decoding" where
  "string_field name put v d = (case v of
       JStr raw \<Rightarrow> (put (unquote raw) (fst d), snd d)
     | JNull \<Rightarrow> d
     | _ \<Rightarrow> (fst d, save_error (snd d) (field_error (json_kind v) name ''string'')))"

definition int_field :: "string \<Rightarrow> (int \<Rightarrow> createRequest \<Rightarrow> createRequest) \<Rightarrow> json \<Rightarrow> decoding \<Rightarrow> decoding" where
  "int_field name put v d = (case v of
       JNum ds \<Rightarrow> (case Atoi ds of
           Some n \<Rightarrow> (put n (fst d), snd d)
         | None \<Rightarrow> (fst d, save_error (snd d) (field_error (str ''number '' @ ds) name ''int'')))
     | JNull \<Rightarrow> d
     | _ \<Rightarrow> (fst d, save_error (snd d) (field_error (json_kind v) name ''int'')))"

text \<open>
  The folding of keys: ASCII letters to upper case, and the two other characters whose simple folding is an ASCII
  letter, U+017F and U+212A. The bytes of other characters match no field name, folded or not.
\<close>

fun fold_name :: "bytes \<Rightarrow> bytes" where
  "fold_name [] = []"
| "fold_name (b # s) =
     (if take 2 (b # s) = [0xC5, 0xBF] then 83 # fold_name (drop 1 s)
      else if take 3 (b # s) = [0xE2, 0x84, 0xAA] then 75 # fold_name (drop 2 s)
      else (if 97 \<le> b \<and> b \<le> 122 then b - 32 else b) # fold_name s)"

definition decode_member :: "bytes \<times> json \<Rightarrow> decoding \<Rightarrow> decoding" where
  "decode_member m d =
     (let key = fold_name (unquote (fst m)); v = snd m in
      if key = str ''CUSTOMER'' then string_field ''customer'' (\<lambda>x. in_Customer_update (\<lambda>_. x)) v d
      else if key = str ''ITEM'' then string_field ''item'' (\<lambda>x. in_Item_update (\<lambda>_. x)) v d
      else if key = str ''QUANTITY'' then int_field ''quantity'' (\<lambda>x. in_Quantity_update (\<lambda>_. x)) v d
      else if key = str ''PRICE_CENTS'' then int_field ''price_cents'' (\<lambda>x. in_PriceCents_update (\<lambda>_. x)) v d
      else d)"

definition json_Unmarshal :: "bytes \<Rightarrow> bytes + createRequest" where
  "json_Unmarshal b = (let zero = \<lparr>in_Customer = [], in_Item = [], in_Quantity = 0, in_PriceCents = 0\<rparr> in
     case parse_json b of
       Inl e \<Rightarrow> Inl e
     | Inr JNull \<Rightarrow> Inr zero
     | Inr (JObj ms) \<Rightarrow> (case fold decode_member ms (zero, None) of
         (inp, None) \<Rightarrow> Inr inp
       | (inp, Some e) \<Rightarrow> Inl e)
     | Inr v \<Rightarrow> Inl (str ''json: cannot unmarshal '' @ json_kind v @ str '' into Go value of type orders.createRequest''))"

text \<open>\<^verbatim>\<open>json.Marshal\<close> of an \<^verbatim>\<open>Order\<close>, of a \<^verbatim>\<open>[]Order\<close> (\<open>None\<close> is the nil slice) and of an error.\<close>

definition marshalOrder :: "'t library \<Rightarrow> 't Order \<Rightarrow> bytes + bytes" where
  "marshalOrder lib ord = (case lib_MarshalTime lib (CreatedAt ord) of
       Inl e \<Rightarrow> Inl e
     | Inr t \<Rightarrow> Inr (json_object
         [(''id'', fmt_d (ID ord)), (''customer'', json_string (Customer ord)), (''item'', json_string (Item ord)),
          (''quantity'', fmt_d (Quantity ord)), (''price_cents'', fmt_d (PriceCents ord)), (''created_at'', t)]))"

fun marshal_each :: "'t library \<Rightarrow> 't Order list \<Rightarrow> bytes + bytes list" where
  "marshal_each lib [] = Inr []"
| "marshal_each lib (ord # os) = (case marshalOrder lib ord of
       Inl e \<Rightarrow> Inl e
     | Inr b \<Rightarrow> (case marshal_each lib os of Inl e \<Rightarrow> Inl e | Inr bs \<Rightarrow> Inr (b # bs)))"

definition marshalOrders :: "'t library \<Rightarrow> 't Order list option \<Rightarrow> bytes + bytes" where
  "marshalOrders lib os = (case os of
       None \<Rightarrow> Inr (str ''null'')
     | Some l \<Rightarrow> (case marshal_each lib l of Inl e \<Rightarrow> Inl e | Inr bs \<Rightarrow> Inr (91 # commas bs @ [93])))"

definition marshalError :: "bytes \<Rightarrow> bytes" where
  "marshalError msg = json_object [(''error'', json_string msg)]"

text \<open>What is read from a request is valid UTF-8 and within the range of \<^verbatim>\<open>int\<close>.\<close>

definition int64 :: "int \<Rightarrow> bool" where
  "int64 n \<longleftrightarrow> - (2 ^ 63) \<le> n \<and> n < 2 ^ 63"

definition json_request :: "createRequest \<Rightarrow> bool" where
  "json_request inp \<longleftrightarrow> valid_utf8 (in_Customer inp) \<and> valid_utf8 (in_Item inp)
     \<and> int64 (in_Quantity inp) \<and> int64 (in_PriceCents inp)"

lemma Atoi_int64: "Atoi s = Some n \<Longrightarrow> int64 n"
  by (auto simp: Atoi_def int64_def Let_def split: if_splits)

lemma decode_member_json: "json_request (fst d) \<Longrightarrow> json_request (fst (decode_member m d))"
  by (auto simp: decode_member_def Let_def string_field_def int_field_def json_request_def valid_unquote
      split: json.split option.split dest: Atoi_int64)

lemma Unmarshal_json: "json_Unmarshal b = Inr inp \<Longrightarrow> json_request inp"
proof -
  have step: "json_request (fst (fold decode_member ms d))" if "json_request (fst d)" for ms d
    using that by (induction ms arbitrary: d) (simp_all add: decode_member_json)
  have zero: "json_request \<lparr>in_Customer = [], in_Item = [], in_Quantity = 0, in_PriceCents = 0\<rparr>"
    by (simp add: json_request_def valid_utf8_def int64_def)
  assume "json_Unmarshal b = Inr inp"
  then show ?thesis
    using zero step [of "(\<lparr>in_Customer = [], in_Item = [], in_Quantity = 0, in_PriceCents = 0\<rparr>, None)"]
    by (auto simp: json_Unmarshal_def Let_def split: sum.splits json.splits prod.splits option.splits)
      (metis fst_conv)
qed

text \<open>The body a client sends to create an order, and what is read from it.\<close>

definition create_body :: "bytes \<Rightarrow> bytes \<Rightarrow> int \<Rightarrow> int \<Rightarrow> bytes" where
  "create_body c i q p = json_object
     [(''customer'', json_string c), (''item'', json_string i), (''quantity'', fmt_d q), (''price_cents'', fmt_d p)]"

lemma Atoi_fmt_d:
  assumes "- (2 ^ 63) \<le> n" "n < 2 ^ 63"
  shows "Atoi (fmt_d n) = Some n"
proof (cases "n < 0")
  case True
  then show ?thesis using assms Itoa_spec [of "nat (- n)"] by (simp add: fmt_d_def Atoi_def Let_def)
next
  case False
  then show ?thesis using assms Atoi_Itoa [of "nat n"] by (simp add: fmt_d_def nat_less_iff)
qed

lemma field_keys:
  "fold_name (unquote (json_escape (str ''customer''))) = str ''CUSTOMER''"
  "fold_name (unquote (json_escape (str ''item''))) = str ''ITEM''"
  "fold_name (unquote (json_escape (str ''quantity''))) = str ''QUANTITY''"
  "fold_name (unquote (json_escape (str ''price_cents''))) = str ''PRICE_CENTS''"
  by (simp_all add: unquote_json_escape str_def coerce_utf8.simps(2))

lemma decode_member_keys:
  "decode_member (json_escape (str ''customer''), v) d = string_field ''customer'' (\<lambda>x. in_Customer_update (\<lambda>_. x)) v d"
  "decode_member (json_escape (str ''item''), v) d = string_field ''item'' (\<lambda>x. in_Item_update (\<lambda>_. x)) v d"
  "decode_member (json_escape (str ''quantity''), v) d = int_field ''quantity'' (\<lambda>x. in_Quantity_update (\<lambda>_. x)) v d"
  "decode_member (json_escape (str ''price_cents''), v) d
    = int_field ''price_cents'' (\<lambda>x. in_PriceCents_update (\<lambda>_. x)) v d"
  by (simp_all only: decode_member_def field_keys Let_def fst_conv snd_conv) (simp_all add: str_def)

lemma parse_create_body:
  "parse_json (create_body c i q p) = Inr (JObj
     [(json_escape (str ''customer''), JStr (json_escape c)), (json_escape (str ''item''), JStr (json_escape i)),
      (json_escape (str ''quantity''), JNum (fmt_d q)), (json_escape (str ''price_cents''), JNum (fmt_d p))])"
proof -
  let ?fs = "[(''customer'', json_string c), (''item'', json_string i), (''quantity'', fmt_d q), (''price_cents'', fmt_d p)]"
  let ?vs = "[JStr (json_escape c), JStr (json_escape i), JNum (fmt_d q), JNum (fmt_d p)]"
  have "list_all2 (\<lambda>f. delimited 0 (snd f)) ?fs ?vs"
    by (simp add: delimited_fmt_d whole_value_delimited [OF whole_json_string])
  from whole_json_object [OF this] show ?thesis
    unfolding create_body_def
    by (intro parse_whole_value [of "Suc 0"]) (simp_all add: maxNestingDepth_def)
qed

lemma Unmarshal_create_body:
  assumes "- (2 ^ 63) \<le> q" "q < 2 ^ 63" "- (2 ^ 63) \<le> p" "p < 2 ^ 63"
  shows "json_Unmarshal (create_body c i q p) =
    Inr \<lparr>in_Customer = coerce_utf8 c, in_Item = coerce_utf8 i, in_Quantity = q, in_PriceCents = p\<rparr>"
  using parse_create_body [of c i q p] Atoi_fmt_d [OF assms(1,2)] Atoi_fmt_d [OF assms(3,4)]
  by (simp add: json_Unmarshal_def decode_member_keys string_field_def int_field_def unquote_json_escape)

subsection \<open>The store\<close>

text \<open>The four statements of \<^verbatim>\<open>store.go\<close>, the rows they read, and the database.\<close>

datatype statement = CreateTable | InsertOrder | SelectOrder | SelectOrders
datatype sql_val = SqlInt int | SqlText bytes
datatype sql_error = ErrNoRows | SqlErr bytes

type_synonym row = "int \<times> bytes \<times> bytes \<times> int \<times> int \<times> bytes"

record 'db sql =
  sql_Open :: "bytes \<Rightarrow> bytes \<Rightarrow> sql_error + 'db"
  sql_SetMaxOpenConns :: "nat \<Rightarrow> 'db \<Rightarrow> 'db"
  sql_Close :: "'db \<Rightarrow> sql_error option"
  sql_Exec :: "statement \<Rightarrow> sql_val list \<Rightarrow> 'db \<Rightarrow> (sql_error + (sql_error + int)) \<times> 'db"
  sql_QueryRow :: "statement \<Rightarrow> sql_val list \<Rightarrow> 'db \<Rightarrow> sql_error + row"
  sql_Query :: "statement \<Rightarrow> sql_val list \<Rightarrow> 'db \<Rightarrow> sql_error + ((sql_error + row) list \<times> sql_error option)"

text \<open>An error of the store is \<^verbatim>\<open>ErrNotFound\<close> or one with a text.\<close>

datatype order_error = ErrNotFound | ErrOrders bytes

definition sql_text :: "sql_error \<Rightarrow> bytes" where
  "sql_text e = (case e of ErrNoRows \<Rightarrow> str ''sql: no rows in result set'' | SqlErr t \<Rightarrow> t)"

definition order_text :: "order_error \<Rightarrow> bytes" where
  "order_text e = (case e of ErrNotFound \<Rightarrow> str ''orders: not found'' | ErrOrders t \<Rightarrow> t)"

text \<open>On a schema error the database is closed; what \<^verbatim>\<open>Close\<close> returns is dropped, and so is the database.\<close>

definition NewStore :: "'db sql \<Rightarrow> bytes \<Rightarrow> (order_error, 'db) res" where
  "NewStore sq dsn = (case sql_Open sq (str ''sqlite'') dsn of
       Inl e \<Rightarrow> Err (ErrOrders (str ''open sqlite: '' @ sql_text e))
     | Inr db \<Rightarrow>
         let db = (if dsn = str '':memory:'' then sql_SetMaxOpenConns sq 1 db else db) in
         (case sql_Exec sq CreateTable [] db of
            (Inl e, db) \<Rightarrow>
              let closed = sql_Close sq db in Err (ErrOrders (str ''apply schema: '' @ sql_text e))
          | (Inr _, db) \<Rightarrow> Ok db))"

definition store_Close :: "'db sql \<Rightarrow> 'db \<Rightarrow> sql_error option" where
  "store_Close sq db = sql_Close sq db"

text \<open>\<open>now\<close> is what \<^verbatim>\<open>time.Now().UTC()\<close> returns.\<close>

definition store_Create ::
  "'t library \<Rightarrow> 'db sql \<Rightarrow> 't \<Rightarrow> 't Order \<Rightarrow> 'db \<Rightarrow> (order_error, 't Order) res \<times> 'db" where
  "store_Create lib sq now ord db =
     (let ord = ord\<lparr>CreatedAt := now\<rparr> in
      case sql_Exec sq InsertOrder [SqlText (Customer ord), SqlText (Item ord), SqlInt (Quantity ord),
             SqlInt (PriceCents ord), SqlText (lib_Format lib (CreatedAt ord))] db of
        (Inl e, db) \<Rightarrow> (Err (ErrOrders (str ''insert order: '' @ sql_text e)), db)
      | (Inr (Inl e), db) \<Rightarrow> (Err (ErrOrders (str ''last insert id: '' @ sql_text e)), db)
      | (Inr (Inr i), db) \<Rightarrow> (Ok (ord\<lparr>ID := i\<rparr>), db))"

definition scanOrder :: "'t library \<Rightarrow> sql_error + row \<Rightarrow> (order_error, 't Order) res" where
  "scanOrder lib r = (case r of
       Inl ErrNoRows \<Rightarrow> Err ErrNotFound
     | Inl e \<Rightarrow> Err (ErrOrders (str ''scan order: '' @ sql_text e))
     | Inr (i, customer, item, quantity, price, createdAt) \<Rightarrow>
         (case lib_Parse lib createdAt of
            Inl e \<Rightarrow> Err (ErrOrders (str ''parse created_at: '' @ e))
          | Inr t \<Rightarrow> Ok \<lparr>ID = i, Customer = customer, Item = item, Quantity = quantity, PriceCents = price,
                        CreatedAt = t\<rparr>))"

definition store_Get :: "'t library \<Rightarrow> 'db sql \<Rightarrow> int \<Rightarrow> 'db \<Rightarrow> (order_error, 't Order) res" where
  "store_Get lib sq i db = scanOrder lib (sql_QueryRow sq SelectOrder [SqlInt i] db)"

text \<open>The loop over the rows, appending to \<^verbatim>\<open>out\<close>, which starts as the nil slice.\<close>

fun list_loop ::
  "'t library \<Rightarrow> (sql_error + row) list \<Rightarrow> sql_error option \<Rightarrow> 't Order list option \<Rightarrow>
   (order_error, 't Order list option) res" where
  "list_loop lib [] err out = (case err of Some e \<Rightarrow> Err (ErrOrders (sql_text e)) | None \<Rightarrow> Ok out)"
| "list_loop lib (r # rs) err out =
     rbind (scanOrder lib r) (\<lambda>ord. list_loop lib rs err (Some (case out of None \<Rightarrow> [ord] | Some l \<Rightarrow> l @ [ord])))"

definition store_List :: "'t library \<Rightarrow> 'db sql \<Rightarrow> 'db \<Rightarrow> (order_error, 't Order list option) res" where
  "store_List lib sq db = (case sql_Query sq SelectOrders [] db of
       Inl e \<Rightarrow> Err (ErrOrders (str ''list orders: '' @ sql_text e))
     | Inr (rows, err) \<Rightarrow> list_loop lib rows err None)"

subsection \<open>The handlers\<close>

text \<open>The state a handler works on: the database, and the instant the clock shows.\<close>

record ('db, 't) app =
  app_db :: 'db
  app_clock :: 't

definition writeError :: "ResponseWriter \<Rightarrow> int \<Rightarrow> bytes \<Rightarrow> ResponseWriter" where
  "writeError w status msg =
     rw_Write (marshalError msg)
       (rw_WriteHeader status (w\<lparr>w_Headers := set_header (str ''Content-Type'') (str ''application/json'') (w_Headers w)\<rparr>))"

text \<open>\<open>body\<close> is what \<^verbatim>\<open>json.Marshal(v)\<close> returns.\<close>

definition writeJSON :: "ResponseWriter \<Rightarrow> int \<Rightarrow> bytes + bytes \<Rightarrow> ResponseWriter" where
  "writeJSON w status body = (case body of
       Inl e \<Rightarrow> writeError w 500 e
     | Inr b \<Rightarrow> rw_Write b (rw_WriteHeader status
         (w\<lparr>w_Headers := set_header (str ''Content-Type'') (str ''application/json'') (w_Headers w)\<rparr>)))"

definition handleCreate :: "'t library \<Rightarrow> 'db sql \<Rightarrow> ('db, 't) app handler" where
  "handleCreate lib sq req w s = (case json_Unmarshal (Body req) of
       Inl e \<Rightarrow> Ok (writeError w 400 (str ''invalid JSON: '' @ e), s)
     | Inr inp \<Rightarrow>
         if in_Customer inp = [] \<or> in_Item inp = [] \<or> in_Quantity inp \<le> 0 \<or> in_PriceCents inp < 0
         then Ok (writeError w 400 (str ''customer, item required; quantity > 0; price_cents >= 0''), s)
         else (case store_Create lib sq (app_clock s)
                 \<lparr>ID = 0, Customer = in_Customer inp, Item = in_Item inp, Quantity = in_Quantity inp,
                  PriceCents = in_PriceCents inp, CreatedAt = lib_ZeroTime lib\<rparr> (app_db s) of
             (Ok ord, db) \<Rightarrow> Ok (writeJSON w 201 (marshalOrder lib ord), s\<lparr>app_db := db\<rparr>)
           | (Err e, db) \<Rightarrow> Ok (writeError w 500 (order_text e), s\<lparr>app_db := db\<rparr>)
           | (Panic, db) \<Rightarrow> Panic))"

definition handleList :: "'t library \<Rightarrow> 'db sql \<Rightarrow> ('db, 't) app handler" where
  "handleList lib sq req w s = (case store_List lib sq (app_db s) of
       Err e \<Rightarrow> Ok (writeError w 500 (order_text e), s)
     | Panic \<Rightarrow> Panic
     | Ok os \<Rightarrow>
         let os = (if os = None then Some [] else os) in
         Ok (writeJSON w 200 (marshalOrders lib os), s))"

definition trim_prefix :: "bytes \<Rightarrow> bytes \<Rightarrow> bytes" where
  "trim_prefix s p = (if has_prefix s p then drop (length p) s else s)"

definition handleGet :: "'t library \<Rightarrow> 'db sql \<Rightarrow> ('db, 't) app handler" where
  "handleGet lib sq req w s = (case Atoi (trim_prefix (Path req) (str ''/orders/'')) of
       None \<Rightarrow> Ok (writeError w 400 (str ''invalid id''), s)
     | Some i \<Rightarrow>
         if i \<le> 0 then Ok (writeError w 400 (str ''invalid id''), s)
         else (case store_Get lib sq i (app_db s) of
             Err ErrNotFound \<Rightarrow> Ok (writeError w 404 (str ''order not found''), s)
           | Err e \<Rightarrow> Ok (writeError w 500 (order_text e), s)
           | Panic \<Rightarrow> Panic
           | Ok ord \<Rightarrow> Ok (writeJSON w 200 (marshalOrder lib ord), s)))"

definition orders_handler :: "'t library \<Rightarrow> 'db sql \<Rightarrow> ('db, 't) app handler" where
  "orders_handler lib sq req w s =
     (if Method req = str ''POST'' then handleCreate lib sq req w s
      else if Method req = str ''GET'' then handleList lib sq req w s
      else Ok (writeError w 405 (str ''method not allowed''), s))"

definition order_handler :: "'t library \<Rightarrow> 'db sql \<Rightarrow> ('db, 't) app handler" where
  "order_handler lib sq req w s =
     (if Method req \<noteq> str ''GET'' then Ok (writeError w 405 (str ''method not allowed''), s)
      else handleGet lib sq req w s)"

definition orders_Register ::
  "('db, 't) app ServeMux \<Rightarrow> 't library \<Rightarrow> 'db sql \<Rightarrow> ('db, 't) app ServeMux" where
  "orders_Register mux lib sq =
     RegisterHandler (str ''/orders/'') (order_handler lib sq)
       (RegisterHandler (str ''/orders'') (orders_handler lib sq) mux)"

subsection \<open>What the parameters promise\<close>

text \<open>
  Instants the library can print and read back (\<^verbatim>\<open>RFC3339Nano\<close> is exact for UTC times of four-digit
  years), and a database that keeps its rows: an insertion appends a row under an identifier above all
  others (\<^verbatim>\<open>AUTOINCREMENT\<close>) or fails and changes nothing; the queries read the rows.
\<close>

definition library_ok :: "'t library \<Rightarrow> bool" where
  "library_ok lib \<longleftrightarrow> (\<forall>t. lib_Parse lib (lib_Format lib t) = Inr t \<and> (\<exists>b. lib_MarshalTime lib t = Inr b))"

text \<open>
  The library of Go: the texts of the instants of the years 1 to 9999 as \<open>Go_Time\<close> has them. Of what \<^verbatim>\<open>time.Parse\<close> does with
  a text of another form only the result \<open>other s\<close> is known; the store never writes such a text.
\<close>

definition go_library :: "(bytes \<Rightarrow> bytes + instant) \<Rightarrow> instant library" where
  "go_library other = \<lparr>lib_ZeroTime = instant_of 0, lib_Format = time_Format,
     lib_Parse = \<lambda>s. (case parseRFC3339 s of Some t \<Rightarrow> Inr t | None \<Rightarrow> other s),
     lib_MarshalTime = \<lambda>t. Inr (time_MarshalJSON t)\<rparr>"

lemma go_library_ok: "library_ok (go_library other)"
  by (simp add: library_ok_def go_library_def parseRFC3339_Format)

definition row_id :: "row \<Rightarrow> int" where
  "row_id r = fst r"

definition sqlite_ok :: "'db sql \<Rightarrow> ('db \<Rightarrow> row list) \<Rightarrow> bool" where
  "sqlite_ok sq rows \<longleftrightarrow>
     (\<forall>db c i q p t. case sql_Exec sq InsertOrder [SqlText c, SqlText i, SqlInt q, SqlInt p, SqlText t] db of
          (Inl e, db') \<Rightarrow> rows db' = rows db
        | (Inr r, db') \<Rightarrow> \<exists>n. r = Inr n \<and> 0 < n \<and> n < 2 ^ 63 \<and> list_all (\<lambda>r. row_id r < n) (rows db)
             \<and> rows db' = rows db @ [(n, c, i, q, p, t)])
     \<and> (\<forall>db n. sql_QueryRow sq SelectOrder [SqlInt n] db =
          (case find (\<lambda>r. row_id r = n) (rows db) of None \<Rightarrow> Inl ErrNoRows | Some r \<Rightarrow> Inr r))
     \<and> (\<forall>db. sql_Query sq SelectOrders [] db = Inr (map Inr (rows db), None))"

text \<open>The row of an order, and the table of a list of orders.\<close>

definition order_row :: "'t library \<Rightarrow> 't Order \<Rightarrow> row" where
  "order_row lib ord = (ID ord, Customer ord, Item ord, Quantity ord, PriceCents ord, lib_Format lib (CreatedAt ord))"

text \<open>The order book: orders by ascending positive identifier; the table holds exactly these.\<close>

definition book_of :: "'t library \<Rightarrow> ('db \<Rightarrow> row list) \<Rightarrow> 't Order list \<Rightarrow> 'db \<Rightarrow> bool" where
  "book_of lib rows book db \<longleftrightarrow> rows db = map (order_row lib) book \<and> sorted_wrt (<) (map ID book)
     \<and> list_all (\<lambda>ord. 0 < ID ord \<and> ID ord < 2 ^ 63) book"

lemma row_id_order [simp]: "row_id (order_row lib ord) = ID ord"
  by (simp add: row_id_def order_row_def)

lemma scan_order_row [simp]: "library_ok lib \<Longrightarrow> scanOrder lib (Inr (order_row lib ord)) = Ok ord"
  by (simp add: scanOrder_def order_row_def library_ok_def)

lemma sqlite_insert:
  assumes "sqlite_ok sq rows"
    "sql_Exec sq InsertOrder [SqlText c, SqlText i, SqlInt q, SqlInt p, SqlText t] db = (x, d)"
  shows "case x of Inl e \<Rightarrow> rows d = rows db
      | Inr r \<Rightarrow> \<exists>n. r = Inr n \<and> 0 < n \<and> n < 2 ^ 63 \<and> list_all (\<lambda>r. row_id r < n) (rows db)
          \<and> rows d = rows db @ [(n, c, i, q, p, t)]"
  using assms(1) [unfolded sqlite_ok_def, THEN conjunct1, rule_format, of db c i q p t]
  unfolding assms(2) by (cases x) (simp_all only: prod.case sum.case)

lemma store_Create_book:
  assumes "sqlite_ok sq rows" "book_of lib rows book db" "store_Create lib sq now ord db = (r, db')"
  shows "(\<exists>n. r = Ok (ord\<lparr>CreatedAt := now, ID := n\<rparr>) \<and> 0 < n \<and> list_all (\<lambda>o'. ID o' < n) book
      \<and> book_of lib rows (book @ [ord\<lparr>CreatedAt := now, ID := n\<rparr>]) db')
    \<or> (\<exists>e. r = Err (ErrOrders e) \<and> book_of lib rows book db')"
proof -
  obtain x d where x: "sql_Exec sq InsertOrder [SqlText (Customer ord), SqlText (Item ord), SqlInt (Quantity ord),
      SqlInt (PriceCents ord), SqlText (lib_Format lib now)] db = (x, d)" by fastforce
  then have law: "case x of Inl e \<Rightarrow> rows d = rows db
      | Inr r \<Rightarrow> \<exists>n. r = Inr n \<and> 0 < n \<and> n < 2 ^ 63 \<and> list_all (\<lambda>r. row_id r < n) (rows db)
          \<and> rows d = rows db @ [(n, Customer ord, Item ord, Quantity ord, PriceCents ord, lib_Format lib now)]"
    by (rule sqlite_insert [OF assms(1)])
  show ?thesis
  proof (cases x)
    case (Inl e)
    then have "r = Err (ErrOrders (str ''insert order: '' @ sql_text e))" "rows db' = rows db"
      using assms(3) x law by (simp_all add: store_Create_def Let_def)
    then show ?thesis using assms(2) by (simp add: book_of_def)
  next
    case (Inr r')
    then obtain n where n: "r' = Inr n" "0 < n" "n < 2 ^ 63" "list_all (\<lambda>r. row_id r < n) (rows db)"
        "rows d = rows db @ [(n, Customer ord, Item ord, Quantity ord, PriceCents ord, lib_Format lib now)]"
      using law by auto
    have r: "r = Ok (ord\<lparr>CreatedAt := now, ID := n\<rparr>)" "db' = d"
      using assms(3) x Inr n(1) by (simp_all add: store_Create_def Let_def)
    have below: "list_all (\<lambda>o'. ID o' < n) book"
      using n(4) assms(2) by (simp add: book_of_def list_all_iff)
    have "book_of lib rows (book @ [ord\<lparr>CreatedAt := now, ID := n\<rparr>]) db'"
      using assms(2) below n(2,3,5) r(2) by (simp add: book_of_def order_row_def sorted_wrt_append list_all_iff)
    then show ?thesis using r(1) below n(2) by blast
  qed
qed

lemma find_book:
  "sorted_wrt (<) (map ID book) \<Longrightarrow>
   find (\<lambda>r. row_id r = n) (map (order_row lib) book) = map_option (order_row lib) (find (\<lambda>ord. ID ord = n) book)"
  by (induction book) auto

lemma store_Get_book:
  assumes "library_ok lib" "sqlite_ok sq rows" "book_of lib rows book db"
  shows "store_Get lib sq n db = (case find (\<lambda>ord. ID ord = n) book of None \<Rightarrow> Err ErrNotFound | Some ord \<Rightarrow> Ok ord)"
proof -
  have "sql_QueryRow sq SelectOrder [SqlInt n] db =
      (case find (\<lambda>r. row_id r = n) (map (order_row lib) book) of None \<Rightarrow> Inl ErrNoRows | Some r \<Rightarrow> Inr r)"
    using assms(2,3) by (simp add: sqlite_ok_def book_of_def)
  then show ?thesis
    using assms(1,3) find_book [of book n lib]
    by (auto simp: store_Get_def book_of_def scanOrder_def [of lib "Inl ErrNoRows"] split: option.split)
qed

lemma list_loop_book:
  assumes "library_ok lib"
  shows "list_loop lib (map Inr (map (order_row lib) os)) None out =
    Ok (if os = [] then out else Some ((case out of None \<Rightarrow> [] | Some l \<Rightarrow> l) @ os))"
  using assms by (induction os arbitrary: out) (auto split: option.split)

lemma store_List_book:
  assumes "library_ok lib" "sqlite_ok sq rows" "book_of lib rows book db"
  shows "store_List lib sq db = Ok (if book = [] then None else Some book)"
  using list_loop_book [OF assms(1), of book None] assms(2,3)
  by (simp add: store_List_def sqlite_ok_def book_of_def comp_def)

subsection \<open>The routes of main.go over the store\<close>

definition server_mux :: "'t library \<Rightarrow> 'db sql \<Rightarrow> ('db, 't) app ServeMux" where
  "server_mux lib sq = main_mux (orders_Register NewServeMux lib sq)"

text \<open>\<open>order\<close> is an order in which Go may iterate over the prefix routes.\<close>

definition route_order :: "(bytes \<times> 's handler) list \<Rightarrow> 's ServeMux \<Rightarrow> bool" where
  "route_order order mux \<longleftrightarrow> distinct (map fst order) \<and> set order = set (mux_prefix mux)"

lemma server_mux_routes:
  "mux_exact (server_mux lib sq) = [(str ''/orders'', orders_handler lib sq), (str ''/healthz'', healthz_handler)]"
  "mux_prefix (server_mux lib sq) =
     [(str ''/orders/'', order_handler lib sq), (str ''/'', main_handler), (str ''/echo/'', echo_handler)]"
  by (simp_all add: server_mux_def main_mux_def orders_Register_def NewServeMux_def RegisterHandler_def
      has_suffix_def has_prefix_def str_def)

lemma server_match_cases:
  assumes "route_order order (server_mux lib sq)" "mux_match order (server_mux lib sq) path = Some h"
  shows "h = orders_handler lib sq \<or> h = healthz_handler \<or> h = order_handler lib sq \<or> h = main_handler
    \<or> h = echo_handler \<and> has_prefix path (str ''/echo/'')"
proof (cases "map_of (mux_exact (server_mux lib sq)) path")
  case None
  then have "longest_prefix order path h"
    using assms best_prefix_iff [of order path h] by (simp add: mux_match_def route_order_def)
  then show ?thesis
    using assms(1) by (auto simp: longest_prefix_def route_order_def server_mux_routes)
next
  case (Some g)
  then show ?thesis
    using assms(2) by (auto simp: mux_match_def server_mux_routes split: if_splits)
qed

text \<open>One request, answered at the instant \<open>t\<close>, and a series of them with the answers.\<close>

definition server_handle ::
  "('db, 't) app ServeMux \<Rightarrow> (bytes \<times> ('db, 't) app handler) list \<Rightarrow> Request \<times> 't \<Rightarrow> ('db, 't) app \<Rightarrow>
   (unit, ResponseWriter \<times> ('db, 't) app) res" where
  "server_handle mux order rt s = mux_Handle order mux (fst rt) (s\<lparr>app_clock := snd rt\<rparr>)"

fun serve_all ::
  "('db, 't) app ServeMux \<Rightarrow> (bytes \<times> ('db, 't) app handler) list \<Rightarrow> (Request \<times> 't) list \<Rightarrow> ('db, 't) app \<Rightarrow>
   (unit, ResponseWriter list \<times> ('db, 't) app) res" where
  "serve_all mux order [] s = Ok ([], s)"
| "serve_all mux order (rt # rts) s =
     rbind (server_handle mux order rt s) (\<lambda>(w, s1).
     rbind (serve_all mux order rts s1) (\<lambda>(ws, s2). Ok (w # ws, s2)))"

definition order_json :: "'t library \<Rightarrow> 't Order \<Rightarrow> bytes" where
  "order_json lib ord = projr (marshalOrder lib ord)"

definition valid_order :: "'t Order \<Rightarrow> bool" where
  "valid_order ord \<longleftrightarrow> Customer ord \<noteq> [] \<and> Item ord \<noteq> [] \<and> 0 < Quantity ord \<and> 0 \<le> PriceCents ord
     \<and> valid_utf8 (Customer ord) \<and> valid_utf8 (Item ord) \<and> int64 (Quantity ord) \<and> int64 (PriceCents ord)"

lemma marshalOrder_ok: "library_ok lib \<Longrightarrow> marshalOrder lib ord = Inr (order_json lib ord)"
  by (cases "lib_MarshalTime lib (CreatedAt ord)")
    (auto simp: order_json_def marshalOrder_def library_ok_def dest!: spec [of _ "CreatedAt ord"])

lemma marshal_each_ok: "library_ok lib \<Longrightarrow> marshal_each lib os = Inr (map (order_json lib) os)"
  by (induction os) (simp_all add: marshalOrder_ok)

lemma writer_fields [simp]:
  "StatusCode (rw_Write b w) = StatusCode w" "w_Body (rw_Write b w) = w_Body w @ b"
  "w_Headers (rw_Write b w) = w_Headers w" "StatusCode (rw_WriteHeader n w) = n"
  "w_Body (rw_WriteHeader n w) = w_Body w" "w_Headers (rw_WriteHeader n w) = w_Headers w"
  by (simp_all add: rw_Write_def rw_WriteHeader_def)

lemma writeError_fields [simp]:
  "StatusCode (writeError w n msg) = n" "w_Body (writeError w n msg) = w_Body w @ marshalError msg"
  "w_Headers (writeError w n msg) = set_header (str ''Content-Type'') (str ''application/json'') (w_Headers w)"
  by (simp_all add: writeError_def)

lemma writeJSON_fields [simp]:
  "StatusCode (writeJSON w n (Inr b)) = n" "w_Body (writeJSON w n (Inr b)) = w_Body w @ b"
  "w_Headers (writeJSON w n r) = set_header (str ''Content-Type'') (str ''application/json'') (w_Headers w)"
  by (simp_all add: writeJSON_def split: sum.split)

text \<open>What one request does to the order book.\<close>

lemma handleCreate_book:
  assumes "library_ok lib" "sqlite_ok sq rows" "book_of lib rows book (app_db s)" "w_Body w = []"
  shows "\<exists>w' s'. handleCreate lib sq req w s = Ok (w', s') \<and>
    (StatusCode w' = 201 \<and> (\<exists>ord. valid_order ord \<and> CreatedAt ord = app_clock s \<and> w_Body w' = order_json lib ord
        \<and> book_of lib rows (book @ [ord]) (app_db s'))
     \<or> StatusCode w' \<noteq> 201 \<and> book_of lib rows book (app_db s'))"
proof (cases "json_Unmarshal (Body req)")
  case (Inl e)
  then show ?thesis using assms(3) by (simp add: handleCreate_def)
next
  case (Inr inp)
  show ?thesis
  proof (cases "in_Customer inp = [] \<or> in_Item inp = [] \<or> in_Quantity inp \<le> 0 \<or> in_PriceCents inp < 0")
    case True
    then show ?thesis using assms(3) Inr by (simp add: handleCreate_def)
  next
    case False
    let ?o = "\<lparr>ID = 0, Customer = in_Customer inp, Item = in_Item inp, Quantity = in_Quantity inp,
                  PriceCents = in_PriceCents inp, CreatedAt = lib_ZeroTime lib\<rparr>"
    obtain r db where c: "store_Create lib sq (app_clock s) ?o (app_db s) = (r, db)" by fastforce
    from store_Create_book [OF assms(2,3) c] show ?thesis
    proof (elim disjE exE conjE)
      fix n
      assume n: "r = Ok (?o\<lparr>CreatedAt := app_clock s, ID := n\<rparr>)"
        "book_of lib rows (book @ [?o\<lparr>CreatedAt := app_clock s, ID := n\<rparr>]) db"
      have "valid_order (?o\<lparr>CreatedAt := app_clock s, ID := n\<rparr>)"
        using False Unmarshal_json [OF Inr] by (simp add: valid_order_def json_request_def)
      then show ?thesis
        using n c Inr False assms(4) by (auto simp: handleCreate_def marshalOrder_ok [OF assms(1)])
    next
      fix e
      assume "r = Err (ErrOrders e)" "book_of lib rows book db"
      then show ?thesis using c Inr False by (auto simp: handleCreate_def)
    qed
  qed
qed

lemma other_handlers_book:
  assumes "library_ok lib" "sqlite_ok sq rows" "book_of lib rows book (app_db s)"
    and "h = handleList lib sq \<or> h = handleGet lib sq \<or> h = healthz_handler \<or> h = main_handler
      \<or> h = echo_handler \<and> has_prefix (Path req) (str ''/echo/'')"
  shows "\<exists>w'. h req w s = Ok (w', s) \<and> StatusCode w' \<noteq> 201"
proof -
  have echo: "length (str ''/echo/'') \<le> length (Path req)" if "has_prefix (Path req) (str ''/echo/'')"
    using that by (metis has_prefix_def length_take min.cobounded1)
  show ?thesis
    using assms(4)
    by (elim disjE conjE)
      (auto simp: handleList_def store_List_book [OF assms(1-3)] marshalOrders_def marshal_each_ok [OF assms(1)]
        handleGet_def store_Get_book [OF assms(1-3)] marshalOrder_ok [OF assms(1)] healthz_handler_def main_handler_def
        echo_handler_def slice_from_def dest: echo split: option.split)
qed

lemma server_handle_book:
  assumes "library_ok lib" "sqlite_ok sq rows" "route_order order (server_mux lib sq)"
    and "book_of lib rows book (app_db s)"
  shows "\<exists>w s'. server_handle (server_mux lib sq) order rt s = Ok (w, s') \<and>
    (StatusCode w = 201 \<and> (\<exists>ord. valid_order ord \<and> CreatedAt ord = snd rt \<and> w_Body w = order_json lib ord
        \<and> book_of lib rows (book @ [ord]) (app_db s'))
     \<or> StatusCode w \<noteq> 201 \<and> book_of lib rows book (app_db s'))"
proof -
  obtain req t where rt: "rt = (req, t)" by (cases rt)
  let ?s = "s\<lparr>app_clock := t\<rparr>" and ?w = "\<lparr>StatusCode = 200, w_Headers = [], w_Body = []\<rparr>"
  have book: "book_of lib rows book (app_db ?s)" using assms(4) by simp
  note other = other_handlers_book [OF assms(1,2) book, where req = req and w = ?w]
  show ?thesis
  proof (cases "mux_match order (server_mux lib sq) (Path req)")
    case None
    then show ?thesis using assms(4) rt by (simp add: server_handle_def mux_Handle_def Let_def)
  next
    case (Some h)
    have run: "server_handle (server_mux lib sq) order rt s = h req ?w ?s"
      using Some rt by (simp add: server_handle_def mux_Handle_def)
    have refused: "Method req \<noteq> str ''POST'' \<Longrightarrow> Method req \<noteq> str ''GET'' \<Longrightarrow>
        orders_handler lib sq req ?w ?s = Ok (writeError ?w 405 (str ''method not allowed''), ?s)"
      "Method req \<noteq> str ''GET'' \<Longrightarrow>
        order_handler lib sq req ?w ?s = Ok (writeError ?w 405 (str ''method not allowed''), ?s)"
      by (simp_all add: orders_handler_def order_handler_def)
    consider "h = orders_handler lib sq" "Method req = str ''POST''"
      | "h = orders_handler lib sq" "Method req = str ''GET''" "Method req \<noteq> str ''POST''"
      | "h req ?w ?s = Ok (writeError ?w 405 (str ''method not allowed''), ?s)"
      | "h = order_handler lib sq" "Method req = str ''GET''"
      | "h = healthz_handler \<or> h = main_handler \<or> h = echo_handler \<and> has_prefix (Path req) (str ''/echo/'')"
      using server_match_cases [OF assms(3) Some] refused by blast
    then show ?thesis
    proof cases
      case 1
      then show ?thesis using handleCreate_book [OF assms(1,2) book, of ?w req] run rt by (simp add: orders_handler_def)
    next
      case 2
      then show ?thesis using other [of "handleList lib sq"] run book by (auto simp: orders_handler_def)
    next
      case 3
      then show ?thesis using run book by simp
    next
      case 4
      then show ?thesis using other [of "handleGet lib sq"] run book by (auto simp: order_handler_def)
    next
      case 5
      then show ?thesis using other [of h] run book by auto
    qed
  qed
qed

lemma serve_all_book:
  assumes "library_ok lib" "sqlite_ok sq rows" "route_order order (server_mux lib sq)"
  shows "book_of lib rows book (app_db s) \<Longrightarrow> \<exists>ws s' new. serve_all (server_mux lib sq) order rts s = Ok (ws, s')
    \<and> book_of lib rows (book @ new) (app_db s') \<and> list_all valid_order new \<and> subseq (map CreatedAt new) (map snd rts)
    \<and> map (order_json lib) new = map w_Body (filter (\<lambda>w. StatusCode w = 201) ws)"
proof (induction rts arbitrary: book s)
  case (Cons rt rts)
  from server_handle_book [OF assms Cons.prems, of rt] obtain w s1 where
    step: "server_handle (server_mux lib sq) order rt s = Ok (w, s1)" and
    cs: "StatusCode w = 201 \<and> (\<exists>ord. valid_order ord \<and> CreatedAt ord = snd rt \<and> w_Body w = order_json lib ord
        \<and> book_of lib rows (book @ [ord]) (app_db s1))
     \<or> StatusCode w \<noteq> 201 \<and> book_of lib rows book (app_db s1)" by blast
  from cs show ?case
  proof (elim disjE exE conjE)
    fix ord
    assume o: "StatusCode w = 201" "valid_order ord" "w_Body w = order_json lib ord"
      "book_of lib rows (book @ [ord]) (app_db s1)" "CreatedAt ord = snd rt"
    from Cons.IH [OF o(4)] obtain ws s' new where
      "serve_all (server_mux lib sq) order rts s1 = Ok (ws, s')"
      "book_of lib rows ((book @ [ord]) @ new) (app_db s')" "list_all valid_order new" "subseq (map CreatedAt new) (map snd rts)"
      "map (order_json lib) new = map w_Body (filter (\<lambda>w. StatusCode w = 201) ws)" by blast
    then show ?thesis using step o
      by (intro exI [of _ "w # ws"] exI [of _ s'] exI [of _ "ord # new"]) simp
  next
    assume o: "StatusCode w \<noteq> 201" "book_of lib rows book (app_db s1)"
    from Cons.IH [OF o(2)] obtain ws s' new where
      "serve_all (server_mux lib sq) order rts s1 = Ok (ws, s')"
      "book_of lib rows (book @ new) (app_db s')" "list_all valid_order new" "subseq (map CreatedAt new) (map snd rts)"
      "map (order_json lib) new = map w_Body (filter (\<lambda>w. StatusCode w = 201) ws)" by blast
    then show ?thesis using step o
      by (intro exI [of _ "w # ws"] exI [of _ s'] exI [of _ new]) (simp add: list_emb_Cons)
  qed
qed (auto intro!: exI [of _ "[]"])

definition get_request :: "bytes \<Rightarrow> Request" where
  "get_request path = \<lparr>Method = str ''GET'', Path = path, req_Version = str ''HTTP/1.1'', Headers = [], Body = []\<rparr>"

lemma get_routes:
  assumes "route_order order (server_mux lib sq)"
  shows "mux_match order (server_mux lib sq) (str ''/orders'') = Some (orders_handler lib sq)"
    and "mux_match order (server_mux lib sq) (str ''/orders/'' @ x) = Some (order_handler lib sq)"
proof -
  show "mux_match order (server_mux lib sq) (str ''/orders'') = Some (orders_handler lib sq)"
    by (simp add: mux_match_def server_mux_routes)
  have "longest_prefix order (str ''/orders/'' @ x) (order_handler lib sq)"
    using assms unfolding longest_prefix_def route_order_def server_mux_routes list_all_iff
    by (intro exI [of _ "str ''/orders/''"]) (simp add: has_prefix_def str_def)
  moreover have "map_of (mux_exact (server_mux lib sq)) (str ''/orders/'' @ x) = None"
    by (simp add: server_mux_routes str_def)
  ultimately show "mux_match order (server_mux lib sq) (str ''/orders/'' @ x) = Some (order_handler lib sq)"
    using assms best_prefix_iff [of order] by (simp add: mux_match_def route_order_def)
qed

text \<open>A table and a library for the witnesses: the library of Go, and a table that assigns the least identifier above all others.\<close>

definition table_insert :: "row list \<Rightarrow> sql_val list \<Rightarrow> (sql_error + (sql_error + int)) \<times> row list" where
  "table_insert tab vs = (let n = 1 + foldr (\<lambda>r m. max (row_id r) m) tab 0 in
     case vs of
       [SqlText c, SqlText i, SqlInt q, SqlInt p, SqlText t] \<Rightarrow>
         if n < 2 ^ 63 then (Inr (Inr n), tab @ [(n, c, i, q, p, t)]) else (Inl (SqlErr []), tab)
     | _ \<Rightarrow> (Inl (SqlErr []), tab))"

definition table_sql :: "row list sql" where
  "table_sql = \<lparr>sql_Open = \<lambda>_ _. Inr [], sql_SetMaxOpenConns = \<lambda>_ tab. tab, sql_Close = \<lambda>_. None,
     sql_Exec = \<lambda>st vs tab. (if st = InsertOrder then table_insert tab vs else (Inr (Inr 0), tab)),
     sql_QueryRow = \<lambda>_ vs tab. (case vs of
         [SqlInt n] \<Rightarrow> (case find (\<lambda>r. row_id r = n) tab of None \<Rightarrow> Inl ErrNoRows | Some r \<Rightarrow> Inr r)
       | _ \<Rightarrow> Inl (SqlErr [])),
     sql_Query = \<lambda>_ _ tab. Inr (map Inr tab, None)\<rparr>"

definition demo_library :: "instant library" where
  "demo_library = go_library (\<lambda>_. Inl (str ''cannot parse''))"

lemma foldr_max_bounds: "0 \<le> foldr (\<lambda>r m. max (row_id r) m) tab 0"
  "list_all (\<lambda>r. row_id r < 1 + foldr (\<lambda>r m. max (row_id r) m) tab 0) tab"
  by (induction tab) (auto simp: list_all_iff max_def)

lemma parameters_ok: "library_ok demo_library" "sqlite_ok table_sql (\<lambda>tab. tab)"
  using foldr_max_bounds(2)
  by (auto simp: go_library_ok demo_library_def sqlite_ok_def table_sql_def table_insert_def Let_def
      intro!: add_pos_nonneg foldr_max_bounds(1))

text \<open>
  The order API keeps an order book. Over a database that keeps its rows, from an empty table, after any
  requests to the server, at any times, whatever they contain and however often an insertion fails:
  \<^verbatim>\<open>GET /orders\<close> answers 200 with the JSON array of exactly the bodies of the 201 answers so far, in the order
  they were given. Nothing is lost, invented or reordered, and none of the handlers panics.
\<close>
theorem list_shows_exactly_the_created_orders:
  assumes "library_ok lib" "sqlite_ok sq rows" "route_order order (server_mux lib sq)" "rows (app_db s) = []"
  shows "\<exists>ws s' w s''. serve_all (server_mux lib sq) order rts s = Ok (ws, s')
    \<and> server_handle (server_mux lib sq) order (get_request (str ''/orders''), t) s' = Ok (w, s'')
    \<and> StatusCode w = 200
    \<and> w_Body w = 91 # commas (map w_Body (filter (\<lambda>w. StatusCode w = 201) ws)) @ [93]"
proof -
  have "book_of lib rows [] (app_db s)" using assms(4) by (simp add: book_of_def)
  from serve_all_book [OF assms(1-3) this, of rts] obtain ws s' new where
    run: "serve_all (server_mux lib sq) order rts s = Ok (ws, s')" and
    book: "book_of lib rows new (app_db s')" and
    new: "map (order_json lib) new = map w_Body (filter (\<lambda>w. StatusCode w = 201) ws)" by auto
  have post: "str ''GET'' \<noteq> str ''POST''" by (simp add: str_def)
  show ?thesis
    using run store_List_book [OF assms(1,2) book] get_routes(1) [OF assms(3)] new post
    by (auto simp: server_handle_def mux_Handle_def Let_def get_request_def orders_handler_def handleList_def
        marshalOrders_def marshal_each_ok [OF assms(1)])
qed

theorem list_shows_exactly_the_created_orders_witness:
  "\<exists>ws s' w s''. serve_all (server_mux demo_library table_sql) (mux_prefix (server_mux demo_library table_sql))
      [(\<lparr>Method = str ''POST'', Path = str ''/orders'', req_Version = [], Headers = [], Body = create_body [65] [66] 1 5\<rparr>, instant_of 1)]
      \<lparr>app_db = [], app_clock = instant_of 0\<rparr> = Ok (ws, s')
    \<and> server_handle (server_mux demo_library table_sql) (mux_prefix (server_mux demo_library table_sql))
        (get_request (str ''/orders''), instant_of 2) s' = Ok (w, s'')
    \<and> StatusCode w = 200
    \<and> w_Body w = 91 # commas (map w_Body (filter (\<lambda>w. StatusCode w = 201) ws)) @ [93]"
  by (rule list_shows_exactly_the_created_orders [OF parameters_ok])
    (simp_all add: route_order_def server_mux_routes str_def)

text \<open>
  A created order stays readable, unchanged. Each 201 answer in a series of requests that starts from an
  empty table is the JSON of a valid order under a positive identifier, and at the end of the series
  \<^verbatim>\<open>GET /orders/{id}\<close> answers 200 with the same body.
\<close>
theorem created_order_stays_readable:
  assumes "library_ok lib" "sqlite_ok sq rows" "route_order order (server_mux lib sq)" "rows (app_db s) = []"
    and "serve_all (server_mux lib sq) order rts s = Ok (ws, s')" "w \<in> set ws" "StatusCode w = 201"
  shows "\<exists>ord w' s''. valid_order ord \<and> 0 < ID ord \<and> marshalOrder lib ord = Inr (w_Body w)
    \<and> server_handle (server_mux lib sq) order (get_request (str ''/orders/'' @ Itoa (nat (ID ord))), t) s' = Ok (w', s'')
    \<and> StatusCode w' = 200 \<and> w_Body w' = w_Body w"
proof -
  have "book_of lib rows [] (app_db s)" using assms(4) by (simp add: book_of_def)
  from serve_all_book [OF assms(1-3) this, of rts] obtain new where
    book: "book_of lib rows new (app_db s')" and valid: "list_all valid_order new" and
    new: "map (order_json lib) new = map w_Body (filter (\<lambda>w. StatusCode w = 201) ws)" using assms(5) by auto
  have "w_Body w \<in> set (map (order_json lib) new)" unfolding new using assms(6,7) by simp
  then obtain ord where o: "ord \<in> set new" "w_Body w = order_json lib ord" by auto
  have range: "0 < ID ord" "ID ord < 2 ^ 63" and sorted: "sorted_wrt (<) (map ID new)"
    using book o(1) by (auto simp: book_of_def list_all_iff)
  have "find (\<lambda>o'. ID o' = ID ord) new = Some ord"
    using o(1) sorted by (induction new) auto
  then have get: "store_Get lib sq (ID ord) (app_db s') = Ok ord"
    using store_Get_book [OF assms(1,2) book] by simp
  have path: "Atoi (trim_prefix (str ''/orders/'' @ Itoa (nat (ID ord))) (str ''/orders/'')) = Some (ID ord)"
    using Atoi_Itoa [of "nat (ID ord)"] range by (simp add: trim_prefix_def has_prefix_def nat_less_iff)
  have json: "marshalOrder lib ord = Inr (w_Body w)" by (simp add: marshalOrder_ok [OF assms(1)] o(2))
  have "valid_order ord" using valid o(1) by (simp add: list_all_iff)
  then show ?thesis
    using range(1) json get path get_routes(2) [OF assms(3), of "Itoa (nat (ID ord))"]
    by (auto simp: server_handle_def mux_Handle_def Let_def get_request_def order_handler_def handleGet_def
        intro!: exI [of _ ord])
qed

theorem created_order_stays_readable_witness:
  "\<exists>ws s' w ord w' s''. serve_all (server_mux demo_library table_sql) (mux_prefix (server_mux demo_library table_sql))
      [(\<lparr>Method = str ''POST'', Path = str ''/orders'', req_Version = [], Headers = [], Body = create_body [65] [66] 1 5\<rparr>, instant_of 1)]
      \<lparr>app_db = [], app_clock = instant_of 0\<rparr> = Ok (ws, s') \<and> w \<in> set ws
    \<and> valid_order (ord :: instant Order) \<and> marshalOrder demo_library ord = Inr (w_Body w)
    \<and> server_handle (server_mux demo_library table_sql) (mux_prefix (server_mux demo_library table_sql))
        (get_request (str ''/orders/'' @ Itoa (nat (ID ord))), instant_of 2) s' = Ok (w', s'')
    \<and> StatusCode w' = 200 \<and> w_Body w' = w_Body w"
proof -
  let ?m = "server_mux demo_library table_sql"
  let ?rts = "[(\<lparr>Method = str ''POST'', Path = str ''/orders'', req_Version = [], Headers = [], Body = create_body [65] [66] 1 5\<rparr>, instant_of 1)]"
  have r: "route_order (mux_prefix ?m) ?m" by (simp add: route_order_def server_mux_routes str_def)
  have e: "(\<lambda>tab. tab) (app_db \<lparr>app_db = [] :: row list, app_clock = instant_of 0\<rparr>) = []" by simp
  have "\<exists>ws s' w. serve_all ?m (mux_prefix ?m) ?rts \<lparr>app_db = [], app_clock = instant_of 0\<rparr> = Ok (ws, s')
      \<and> w \<in> set ws \<and> StatusCode w = 201"
    using get_routes(1) [OF r]
    by (simp add: server_handle_def mux_Handle_def Let_def orders_handler_def handleCreate_def demo_library_def go_library_def
        Unmarshal_create_body coerce_utf8.simps(2) store_Create_def table_sql_def table_insert_def writeJSON_def marshalOrder_def)
  then obtain ws s' w where w: "serve_all ?m (mux_prefix ?m) ?rts \<lparr>app_db = [], app_clock = instant_of 0\<rparr> = Ok (ws, s')"
      "w \<in> set ws" "StatusCode w = 201" by blast
  from created_order_stays_readable [OF parameters_ok r e w, of "instant_of 2"] w show ?thesis by blast
qed

lemma json_bodies:
  "marshalOrder lib ord = Inr b \<Longrightarrow> b \<noteq> []" "marshalOrders lib os = Inr b \<Longrightarrow> b \<noteq> []"
  "marshalError msg \<noteq> []"
  by (auto simp: marshalOrder_def marshalOrders_def marshalError_def json_object_def str_def
      split: sum.splits option.splits)

lemma writeJSON_body: "(\<And>b. r = Inr b \<Longrightarrow> b \<noteq> []) \<Longrightarrow> w_Body (writeJSON w n r) \<noteq> []"
  by (cases r) (simp_all add: writeJSON_def json_bodies)

lemma writeJSON_bodies:
  "w_Body (writeJSON w n (marshalOrder lib ord)) \<noteq> []" "w_Body (writeJSON w n (marshalOrders lib os)) \<noteq> []"
  by (rule writeJSON_body, erule json_bodies)+

text \<open>
  C40: every JSON answer of the order API contradicts itself about its type (a defect). The handlers set the
  header \<open>Content-Type\<close>, but \<^verbatim>\<open>WriteResponse\<close> looks for the lower-case key \<open>content-type\<close>, which it does not find
  in the map, and adds the default: the answer carries \<open>Content-Type: application/json\<close> and, behind it,
  \<open>Content-Type: text/plain; charset=utf-8\<close>.
\<close>
theorem json_answers_have_two_content_types:
  assumes "w_Headers w = []" "w_Body w = []"
    and "orders_handler lib sq req w s = Ok (w', s') \<or> order_handler lib sq req w s = Ok (w', s')"
  shows "\<exists>pre mid post. snd (WriteResponse now w') =
    pre @ str ''Content-Type: application/json'' @ [CR, LF] @ mid
    @ str ''Content-Type: text/plain; charset=utf-8'' @ [CR, LF] @ post"
proof -
  have json: "w_Headers w' = [(str ''Content-Type'', str ''application/json'')] \<and> w_Body w' \<noteq> []"
    if "w' = writeError w n msg \<or> w' = writeJSON w n (marshalOrder lib ord) \<or> w' = writeJSON w n (marshalOrders lib os)"
    for n msg ord os
    using that assms(1) by (auto simp: set_header_def json_bodies writeJSON_bodies)
  have "\<exists>n msg ord os. w' = writeError w n msg \<or> w' = writeJSON w n (marshalOrder lib ord)
      \<or> w' = writeJSON w n (marshalOrders lib os)"
    using assms(3)
    by (elim disjE)
      (auto simp: orders_handler_def order_handler_def handleCreate_def handleList_def handleGet_def Let_def
        split: if_splits sum.splits res.splits prod.splits option.splits order_error.splits)
  then have w': "w_Headers w' = [(str ''Content-Type'', str ''application/json'')]" "w_Body w' \<noteq> []"
    using json by blast+
  have hs: "response_headers now w' = [(str ''Content-Type'', str ''application/json''),
      (str ''content-length'', Itoa (length (w_Body w'))), (str ''connection'', str ''close''), (str ''date'', now),
      (str ''server'', str ''rawhttp''), (str ''content-type'', str ''text/plain; charset=utf-8'')]"
    using w' by (simp add: response_headers_def set_header_def default_header_def str_def Let_def)
  have names: "sort (map fst (response_headers now w')) = [str ''Content-Type'', str ''connection'',
      str ''content-length'', str ''content-type'', str ''date'', str ''server'']"
    unfolding hs by (simp add: str_def)
  define line where "line n = canonicalHeaderName n @ 58 # SP # the (map_of (response_headers now w') n) @ [CR, LF]" for n
  have l1: "line (str ''Content-Type'') = str ''Content-Type: application/json'' @ [CR, LF]"
    and l2: "line (str ''content-type'') = str ''Content-Type: text/plain; charset=utf-8'' @ [CR, LF]"
    unfolding line_def hs by (simp_all add: canonicalHeaderName_def str_def SP_def)
  have "\<exists>pre post. snd (WriteResponse now w') =
      pre @ concat (map line (sort (map fst (response_headers now w')))) @ post"
    unfolding WriteResponse_def line_def Let_def snd_conv
    by (intro exI [of _ "str ''HTTP/1.1 '' @ fmt_d (if StatusCode w' = 0 then 200 else StatusCode w') @ SP #
          (case map_of statusTexts (if StatusCode w' = 0 then 200 else StatusCode w') of
             None \<Rightarrow> str ''Status'' | Some t \<Rightarrow> t) @ [CR, LF]"] exI [of _ "[CR, LF] @ w_Body w'"])
      (simp only: append_assoc append_Cons append_Nil)
  then obtain pre post where "snd (WriteResponse now w') =
      pre @ line (str ''Content-Type'') @ (line (str ''connection'') @ line (str ''content-length''))
      @ line (str ''content-type'') @ (line (str ''date'') @ line (str ''server'') @ post)"
    unfolding names by auto
  then show ?thesis
    unfolding l1 l2
    by (intro exI [of _ pre] exI [of _ "line (str ''connection'') @ line (str ''content-length'')"]
        exI [of _ "line (str ''date'') @ line (str ''server'') @ post"])
      (simp only: append_assoc)
qed

theorem json_answers_have_two_content_types_witness:
  "\<exists>pre mid post. snd (WriteResponse [49] (writeError \<lparr>StatusCode = 200, w_Headers = [], w_Body = []\<rparr> 405 (str ''method not allowed''))) =
    pre @ str ''Content-Type: application/json'' @ [CR, LF] @ mid
    @ str ''Content-Type: text/plain; charset=utf-8'' @ [CR, LF] @ post"
  by (rule json_answers_have_two_content_types [where w = "\<lparr>StatusCode = 200, w_Headers = [], w_Body = []\<rparr>"
        and lib = demo_library and sq = table_sql and req = "(get_request [])\<lparr>Method := [80]\<rparr>" and s = s and s' = s for s])
    (simp_all add: orders_handler_def get_request_def str_def)

end
