(* ===== verification/Orders_Json.thy ===== *)
theory Orders_Json
  imports Orders
begin

section \<open>The order API as its clients see it: JSON in, JSON out\<close>

text \<open>
  The theorems of \<open>Orders\<close> speak of the bytes of the answers; the ones here of what these bytes mean to a client that
  reads JSON. \<open>read_order\<close> is such a client's reading of an order and \<open>read_orders\<close> of a list of them; every order of
  the book is read back as it is, because what the decoder reads from a request is valid UTF-8 and within \<^verbatim>\<open>int\<close>.
\<close>

subsection \<open>A client's reading\<close>

definition order_keys :: "bytes list" where
  "order_keys = map str [''id'', ''customer'', ''item'', ''quantity'', ''price_cents'', ''created_at'']"

definition order_of_json :: "json \<Rightarrow> instant Order option" where
  "order_of_json v = (case v of
       JObj ms \<Rightarrow>
         if map fst ms = order_keys then (case map snd ms of
             [JNum i, JStr c, JStr it, JNum q, JNum p, JStr t] \<Rightarrow>
               (case (Atoi i, Atoi q, Atoi p, parseRFC3339 (unquote t)) of
                  (Some i', Some q', Some p', Some t') \<Rightarrow>
                    Some \<lparr>ID = i', Customer = unquote c, Item = unquote it, Quantity = q', PriceCents = p', CreatedAt = t'\<rparr>
                | _ \<Rightarrow> None)
           | _ \<Rightarrow> None)
         else None
     | _ \<Rightarrow> None)"

definition read_order :: "bytes \<Rightarrow> instant Order option" where
  "read_order b = (case parse_json b of Inl e \<Rightarrow> None | Inr v \<Rightarrow> order_of_json v)"

fun all_some :: "'a option list \<Rightarrow> 'a list option" where
  "all_some [] = Some []"
| "all_some (x # xs) = (case x of None \<Rightarrow> None | Some a \<Rightarrow> map_option ((#) a) (all_some xs))"

definition read_orders :: "bytes \<Rightarrow> instant Order list option" where
  "read_orders b = (case parse_json b of Inr (JArr vs) \<Rightarrow> all_some (map order_of_json vs) | _ \<Rightarrow> None)"

text \<open>The orders JSON can carry.\<close>

definition json_order :: "'t Order \<Rightarrow> bool" where
  "json_order ord \<longleftrightarrow> valid_utf8 (Customer ord) \<and> valid_utf8 (Item ord)
     \<and> int64 (ID ord) \<and> int64 (Quantity ord) \<and> int64 (PriceCents ord)"

definition order_value :: "instant Order \<Rightarrow> json" where
  "order_value ord = JObj (zip order_keys
     [JNum (fmt_d (ID ord)), JStr (json_escape (Customer ord)), JStr (json_escape (Item ord)),
      JNum (fmt_d (Quantity ord)), JNum (fmt_d (PriceCents ord)), JStr (time_Format (CreatedAt ord))])"

lemma order_keys_escape:
  "json_escape (str ''id'') = str ''id''" "json_escape (str ''customer'') = str ''customer''"
  "json_escape (str ''item'') = str ''item''" "json_escape (str ''quantity'') = str ''quantity''"
  "json_escape (str ''price_cents'') = str ''price_cents''" "json_escape (str ''created_at'') = str ''created_at''"
  by (simp_all add: str_def json_escape.simps(2) escape_ascii_def)

text \<open>The text of an instant needs no escapes.\<close>

lemma time_Format_bytes: "list_all (\<lambda>b. 32 \<le> b \<and> b < 0x80 \<and> b \<noteq> 34 \<and> b \<noteq> 92) (time_Format t)"
proof -
  have d: "is_digit b \<Longrightarrow> 32 \<le> b \<and> b < 0x80 \<and> b \<noteq> 34 \<and> b \<noteq> 92" for b
    by (auto simp: is_digit_def word_le_nat_alt word_less_nat_alt)
  have p: "list_all (\<lambda>b. 32 \<le> b \<and> b < 0x80 \<and> b \<noteq> 34 \<and> b \<noteq> 92) (pad k n)" for k n
    using pad_digits [of k n] d by (auto simp: list_all_iff)
  have keep: "list_all Q xs \<Longrightarrow> list_all Q (rev (dropWhile P (rev xs)))" for P Q and xs :: bytes
    by (auto simp: list_all_iff dest: set_dropWhileD)
  have f: "list_all (\<lambda>b. 32 \<le> b \<and> b < 0x80 \<and> b \<noteq> 34 \<and> b \<noteq> 92) (frac_ns n)" for n
    using keep [OF p [of 9 n], of "\<lambda>b. b = 48"] by (simp add: frac_ns_def)
  show ?thesis unfolding time_Format_def Let_def by (auto split: prod.split simp: p f)
qed

lemma scan_plain_ascii:
  "list_all (\<lambda>b. 32 \<le> b \<and> b < 0x80 \<and> b \<noteq> 34 \<and> b \<noteq> 92) xs \<Longrightarrow>
   scan_run (InString acc, st) (xs @ r) = scan_run (InString (rev xs @ acc), st) r"
  by (induction xs arbitrary: acc) (auto simp: not_less)

lemma unquote_plain_ascii:
  "list_all (\<lambda>b. 32 \<le> b \<and> b < 0x80 \<and> b \<noteq> 34 \<and> b \<noteq> 92) xs \<Longrightarrow> unquote xs = xs"
  by (induction xs) (auto simp: unquote_plain)

lemma whole_MarshalJSON: "whole_value d (time_MarshalJSON t) (JStr (time_Format t))"
  using scan_plain_ascii [OF time_Format_bytes, of "[]" _ t "[34]"]
  by (simp add: whole_value_def time_MarshalJSON_def stateBeginValue_def is_space_def)

lemma go_library_Marshal: "lib_MarshalTime (go_library other) t = Inr (time_MarshalJSON t)"
  by (simp add: go_library_def)

lemma whole_order_json: "whole_value (Suc 0) (order_json (go_library other) ord) (order_value ord)"
proof -
  let ?fs = "[(''id'', fmt_d (ID ord)), (''customer'', json_string (Customer ord)), (''item'', json_string (Item ord)),
    (''quantity'', fmt_d (Quantity ord)), (''price_cents'', fmt_d (PriceCents ord)),
    (''created_at'', time_MarshalJSON (CreatedAt ord))]"
  let ?vs = "[JNum (fmt_d (ID ord)), JStr (json_escape (Customer ord)), JStr (json_escape (Item ord)),
    JNum (fmt_d (Quantity ord)), JNum (fmt_d (PriceCents ord)), JStr (time_Format (CreatedAt ord))]"
  have "list_all2 (\<lambda>f. delimited 0 (snd f)) ?fs ?vs"
    by (simp add: delimited_fmt_d whole_value_delimited [OF whole_json_string] whole_value_delimited [OF whole_MarshalJSON])
  from whole_json_object [OF this] show ?thesis
    by (simp add: order_json_def marshalOrder_def go_library_Marshal order_value_def order_keys_def order_keys_escape)
qed

lemma order_of_value: "json_order ord \<Longrightarrow> order_of_json (order_value ord) = Some ord"
  by (simp add: order_of_json_def order_value_def order_keys_def json_order_def int64_def Atoi_fmt_d
      unquote_json_escape valid_utf8_def unquote_plain_ascii time_Format_bytes parseRFC3339_Format)

lemma read_order_json: "json_order ord \<Longrightarrow> read_order (order_json (go_library other) ord) = Some ord"
  using parse_whole_value [OF whole_order_json] order_of_value by (simp add: read_order_def maxNestingDepth_def)

lemma two_levels: "Suc (Suc 0) \<le> maxNestingDepth"
  unfolding maxNestingDepth_def by linarith

lemma read_orders_json:
  assumes "list_all json_order os"
  shows "read_orders (91 # commas (map (order_json (go_library other)) os) @ [93]) = Some os"
proof -
  have "list_all2 (delimited (Suc 0)) (map (order_json (go_library other)) os) (map order_value os)"
    by (induction os) (simp_all add: whole_value_delimited [OF whole_order_json])
  moreover have "list_all (\<lambda>b. \<exists>r. b = 123 # r) (map (order_json (go_library other)) os)"
    by (induction os) (simp_all add: order_json_def marshalOrder_def go_library_Marshal json_object_def)
  ultimately have "parse_json (91 # commas (map (order_json (go_library other)) os) @ [93]) = Inr (JArr (map order_value os))"
    by (rule parse_whole_value [OF whole_json_array two_levels])
  moreover have "all_some (map order_of_json (map order_value os)) = Some os"
    using assms by (induction os) (simp_all add: order_of_value)
  ultimately show ?thesis by (simp add: read_orders_def)
qed


subsection \<open>What a client gets\<close>

lemma book_json:
  "book_of lib rows book db \<Longrightarrow> list_all valid_order book \<Longrightarrow> list_all json_order book"
  by (auto simp: book_of_def list_all_iff valid_order_def json_order_def int64_def)

lemma get_lists_book:
  assumes "sqlite_ok sq rows" "route_order order (server_mux (go_library other) sq)"
    and "book_of (go_library other) rows book (app_db s)" "list_all valid_order book"
  shows "\<exists>w s'. server_handle (server_mux (go_library other) sq) order (get_request (str ''/orders''), t) s = Ok (w, s')
    \<and> StatusCode w = 200 \<and> read_orders (w_Body w) = Some book"
proof -
  have "str ''GET'' \<noteq> str ''POST''" by (simp add: str_def)
  then show ?thesis
    using store_List_book [OF go_library_ok assms(1,3)] get_routes(1) [OF assms(2)]
      read_orders_json [OF book_json [OF assms(3,4)]]
    by (auto simp: server_handle_def mux_Handle_def Let_def get_request_def orders_handler_def handleList_def
        marshalOrders_def marshal_each_ok [OF go_library_ok])
qed

lemma post_reaches_handleCreate:
  assumes "route_order order (server_mux lib sq)" "Method req = str ''POST''" "Path req = str ''/orders''"
  shows "server_handle (server_mux lib sq) order (req, t) s =
    handleCreate lib sq req \<lparr>StatusCode = 200, w_Headers = [], w_Body = []\<rparr> (s\<lparr>app_clock := t\<rparr>)"
  using get_routes(1) [OF assms(1)] assms(2,3) by (simp add: server_handle_def mux_Handle_def orders_handler_def)

lemma sorted_subseq: "subseq xs ys \<Longrightarrow> sorted ys \<Longrightarrow> sorted (xs :: instant list)"
proof (induction xs ys rule: list_emb.induct)
  case (list_emb_Cons2 x y xs ys)
  then have "set xs \<subseteq> set ys" by (auto elim: list_emb_set)
  with list_emb_Cons2 show ?case by auto
qed simp_all

text \<open>
  C21: a well-formed order is created as it was sent. The client posts an order as JSON, with a customer and an item that
  are not empty, in valid UTF-8, a positive quantity and a price that is not negative, both within \<^verbatim>\<open>int\<close>. Then the
  answer is 201 and reads, as JSON, as exactly this order under its new identifier and with the time of the request, and
  the table has one more row, of this order; or the database refused the row, the answer is 500 and the table is as before.
\<close>
theorem posted_order_is_created_as_sent:
  assumes "sqlite_ok sq rows" "route_order order (server_mux (go_library other) sq)"
    and "Method req = str ''POST''" "Path req = str ''/orders''" "Body req = create_body c i q p"
    and "valid_utf8 c" "valid_utf8 i" "c \<noteq> []" "i \<noteq> []" "0 < q" "q < 2 ^ 63" "0 \<le> p" "p < 2 ^ 63"
  shows "\<exists>w s'. server_handle (server_mux (go_library other) sq) order (req, t) s = Ok (w, s') \<and>
    (StatusCode w = 201 \<and> (\<exists>n. rows (app_db s') = rows (app_db s) @ [(n, c, i, q, p, time_Format t)] \<and>
        read_order (w_Body w) = Some \<lparr>ID = n, Customer = c, Item = i, Quantity = q, PriceCents = p, CreatedAt = t\<rparr>)
     \<or> StatusCode w = 500 \<and> rows (app_db s') = rows (app_db s))"
proof -
  let ?lib = "go_library other"
  let ?o = "\<lparr>ID = 0, Customer = c, Item = i, Quantity = q, PriceCents = p, CreatedAt = lib_ZeroTime ?lib\<rparr>"
  have inp: "json_Unmarshal (Body req) = Inr \<lparr>in_Customer = c, in_Item = i, in_Quantity = q, in_PriceCents = p\<rparr>"
    using Unmarshal_create_body [of q p c i] assms(5-13) by (simp add: valid_utf8_def)
  obtain x d where x: "sql_Exec sq InsertOrder [SqlText c, SqlText i, SqlInt q, SqlInt p, SqlText (time_Format t)] (app_db s)
      = (x, d)" by fastforce
  note law = sqlite_insert [OF assms(1) x]
  have fmt: "lib_Format ?lib t = time_Format t" by (simp add: go_library_def)
  have run: "server_handle (server_mux ?lib sq) order (req, t) s = (case store_Create ?lib sq t ?o (app_db s) of
             (Ok ord, db) \<Rightarrow> Ok (writeJSON \<lparr>StatusCode = 200, w_Headers = [], w_Body = []\<rparr> 201 (marshalOrder ?lib ord),
               s\<lparr>app_clock := t, app_db := db\<rparr>)
           | (Err e, db) \<Rightarrow> Ok (writeError \<lparr>StatusCode = 200, w_Headers = [], w_Body = []\<rparr> 500 (order_text e),
               s\<lparr>app_clock := t, app_db := db\<rparr>)
           | (Panic, db) \<Rightarrow> Panic)"
    using post_reaches_handleCreate [OF assms(2-4)] assms(8-13) by (simp add: handleCreate_def inp)
  show ?thesis
  proof (cases x)
    case (Inl e)
    then show ?thesis unfolding run using law by (simp add: store_Create_def fmt x)
  next
    case (Inr r)
    then obtain n where n: "r = Inr n" "0 < n" "n < 2 ^ 63"
        "rows d = rows (app_db s) @ [(n, c, i, q, p, time_Format t)]" using law by auto
    let ?ord = "\<lparr>ID = n, Customer = c, Item = i, Quantity = q, PriceCents = p, CreatedAt = t\<rparr>"
    have "json_order ?ord" using assms(6,7,10-13) n(2,3) by (simp add: json_order_def int64_def)
    then have "read_order (order_json ?lib ?ord) = Some ?ord" by (rule read_order_json)
    then show ?thesis
      unfolding run using n Inr by (simp add: store_Create_def fmt x marshalOrder_ok [OF go_library_ok])
  qed
qed

text \<open>
  C22: the order book in JSON. After any requests to the server, from an empty table, there is one list of orders,
  ascending by identifier, which a client reads in the answer to \<^verbatim>\<open>GET /orders\<close>, and whose orders, one by one, it read in
  the 201 answers, in the order they were given: what it was told was created is what is listed. If the clock does not run
  backwards between the requests, the list is also ascending by the time of creation.
\<close>
theorem listed_orders_are_the_created_ones:
  assumes "sqlite_ok sq rows" "route_order order (server_mux (go_library other) sq)" "rows (app_db s) = []"
  shows "\<exists>ws s' w s'' book. serve_all (server_mux (go_library other) sq) order rts s = Ok (ws, s')
    \<and> server_handle (server_mux (go_library other) sq) order (get_request (str ''/orders''), t) s' = Ok (w, s'')
    \<and> StatusCode w = 200 \<and> read_orders (w_Body w) = Some book \<and> sorted_wrt (<) (map ID book)
    \<and> map (\<lambda>w. read_order (w_Body w)) (filter (\<lambda>w. StatusCode w = 201) ws) = map Some book
    \<and> (sorted (map snd rts) \<longrightarrow> sorted (map CreatedAt book))"
proof -
  let ?lib = "go_library other"
  have "book_of ?lib rows [] (app_db s)" using assms(3) by (simp add: book_of_def)
  from serve_all_book [OF go_library_ok assms(1,2) this, of rts] obtain ws s' book where
    run: "serve_all (server_mux ?lib sq) order rts s = Ok (ws, s')" and
    book: "book_of ?lib rows book (app_db s')" "list_all valid_order book" and
    times: "subseq (map CreatedAt book) (map snd rts)" and
    new: "map (order_json ?lib) book = map w_Body (filter (\<lambda>w. StatusCode w = 201) ws)" by auto
  note json = book_json [OF book]
  have "map (\<lambda>w. read_order (w_Body w)) (filter (\<lambda>w. StatusCode w = 201) ws)
      = map read_order (map (order_json ?lib) book)" unfolding new by simp
  also have "\<dots> = map Some book" using json by (induction book) (simp_all add: read_order_json)
  finally have each: "map (\<lambda>w. read_order (w_Body w)) (filter (\<lambda>w. StatusCode w = 201) ws) = map Some book" .
  show ?thesis
    using run each get_lists_book [OF assms(1,2) book, of t] book(1) sorted_subseq [OF times] by (auto simp: book_of_def)
qed


text \<open>
  A request whose body was cut short creates nothing. Whatever order the client was sending, if the body ends before the
  last byte of its JSON, the answer is 400 with the error of the JSON scanner, and the state of the server is as before.
\<close>
theorem truncated_post_is_refused:
  assumes "route_order order (server_mux lib sq)" "Method req = str ''POST''" "Path req = str ''/orders''"
    and "Body req @ missing = create_body c i q p" "missing \<noteq> []"
  shows "\<exists>e w. server_handle (server_mux lib sq) order (req, t) s = Ok (w, s\<lparr>app_clock := t\<rparr>) \<and>
    StatusCode w = 400 \<and> w_Body w = marshalError (str ''invalid JSON: '' @ e)"
proof -
  have ends: "create_body c i q p = 123 # tl (create_body c i q p)" "last (create_body c i q p) = 125"
    by (simp_all add: create_body_def json_object_def)
  have "\<exists>v. parse_json (Body req @ missing) = Inr v" unfolding assms(4) parse_create_body by blast
  moreover have "last missing = 125" using ends(2) assms(4,5) by (metis last_appendR)
  ultimately obtain e where "parse_json (Body req) = Inl e"
    using cut_object_is_refused [of "Body req" missing] ends(1) assms(4,5) by metis
  then have "json_Unmarshal (Body req) = Inl e" by (simp add: json_Unmarshal_def Let_def)
  then show ?thesis using post_reaches_handleCreate [OF assms(1-3)] by (auto simp: handleCreate_def)
qed

theorem truncated_post_is_refused_witness:
  "\<exists>e w. server_handle (server_mux demo_library table_sql) (mux_prefix (server_mux demo_library table_sql))
      (\<lparr>Method = str ''POST'', Path = str ''/orders'', req_Version = [], Headers = [], Body = butlast (create_body [65] [66] 1 5)\<rparr>,
       instant_of 1) \<lparr>app_db = [], app_clock = instant_of 0\<rparr>
      = Ok (w, \<lparr>app_db = [], app_clock = instant_of 0\<rparr>\<lparr>app_clock := instant_of 1\<rparr>) \<and>
    StatusCode w = 400 \<and> w_Body w = marshalError (str ''invalid JSON: '' @ e)"
proof (rule truncated_post_is_refused)
  show "route_order (mux_prefix (server_mux demo_library table_sql)) (server_mux demo_library table_sql)"
    by (simp add: route_order_def server_mux_routes str_def)
  have "create_body [65] [66] 1 5 \<noteq> []" by (simp add: create_body_def json_object_def)
  then show "Body \<lparr>Method = str ''POST'', Path = str ''/orders'', req_Version = [], Headers = [],
      Body = butlast (create_body [65] [66] 1 5)\<rparr> @ [last (create_body [65] [66] 1 5)] = create_body [65] [66] 1 5" by simp
qed simp_all

theorem posted_order_is_created_as_sent_witness:
  "\<exists>w s'. server_handle (server_mux demo_library table_sql) (mux_prefix (server_mux demo_library table_sql))
      (\<lparr>Method = str ''POST'', Path = str ''/orders'', req_Version = [], Headers = [], Body = create_body [65] [66] 1 5\<rparr>,
       instant_of 1) \<lparr>app_db = [], app_clock = instant_of 0\<rparr> = Ok (w, s') \<and>
    (StatusCode w = 201 \<and> (\<exists>n. app_db s' = [(n, [65], [66], 1, 5, time_Format (instant_of 1))] \<and>
        read_order (w_Body w) = Some \<lparr>ID = n, Customer = [65], Item = [66], Quantity = 1, PriceCents = 5,
          CreatedAt = instant_of 1\<rparr>)
     \<or> StatusCode w = 500 \<and> app_db s' = [])"
proof -
  have v: "valid_utf8 [65]" "valid_utf8 [66]" by (simp_all add: valid_utf8_def coerce_utf8.simps(2))
  have r: "route_order (mux_prefix (server_mux demo_library table_sql)) (server_mux demo_library table_sql)"
    by (simp add: route_order_def server_mux_routes str_def)
  show ?thesis
    using posted_order_is_created_as_sent [OF parameters_ok(2) r [unfolded demo_library_def], of
        "\<lparr>Method = str ''POST'', Path = str ''/orders'', req_Version = [], Headers = [], Body = create_body [65] [66] 1 5\<rparr>"
        "[65]" "[66]" 1 5 "instant_of 1" "\<lparr>app_db = [], app_clock = instant_of 0\<rparr>"] v
    by (simp add: demo_library_def)
qed

theorem listed_orders_are_the_created_ones_witness:
  "\<exists>ws s' w s'' book. serve_all (server_mux demo_library table_sql) (mux_prefix (server_mux demo_library table_sql))
      [(\<lparr>Method = str ''POST'', Path = str ''/orders'', req_Version = [], Headers = [], Body = create_body [65] [66] 1 5\<rparr>,
        instant_of 1)] \<lparr>app_db = [], app_clock = instant_of 0\<rparr> = Ok (ws, s')
    \<and> server_handle (server_mux demo_library table_sql) (mux_prefix (server_mux demo_library table_sql))
        (get_request (str ''/orders''), instant_of 2) s' = Ok (w, s'')
    \<and> StatusCode w = 200 \<and> read_orders (w_Body w) = Some book \<and> sorted_wrt (<) (map ID book)
    \<and> map (\<lambda>w. read_order (w_Body w)) (filter (\<lambda>w. StatusCode w = 201) ws) = map Some book
    \<and> sorted (map CreatedAt book)"
proof -
  let ?m = "server_mux demo_library table_sql"
  let ?rts = "[(\<lparr>Method = str ''POST'', Path = str ''/orders'', req_Version = [], Headers = [], Body = create_body [65] [66] 1 5\<rparr>,
        instant_of 1)]"
  have r: "route_order (mux_prefix ?m) ?m" by (simp add: route_order_def server_mux_routes str_def)
  have e: "(\<lambda>tab. tab) (app_db \<lparr>app_db = [] :: row list, app_clock = instant_of 0\<rparr>) = []" by simp
  have "sorted (map snd ?rts)" by simp
  with listed_orders_are_the_created_ones [OF parameters_ok(2) r [unfolded demo_library_def] e, of ?rts "instant_of 2"]
  show ?thesis unfolding demo_library_def by blast
qed

end
