(* ===== verification/Tls_Base.thy ===== *)
theory Tls_Base
  imports Net_Prelude
begin

section \<open>Errors and state of the TLS package\<close>

text \<open>
  The error values of \<^verbatim>\<open>src/tls\<close> and the state-and-error style its methods share: an operation on a
  state returns an outcome and the state it leaves, also when it fails, since the caller can go on
  using the connection. \<^verbatim>\<open>fmt.Errorf("...: %w", err)\<close> is \<open>ErrWrap\<close>; an error without a sentinel is
  \<open>ErrText\<close> with its text.
\<close>

datatype tls_error =
    ErrIO io_error
  | ErrRecordTooLarge nat
  | ErrEmptyInnerPlaintext
  | ErrInvalidKeyLength nat
  | ErrInvalidIVLength nat
  | ErrMessageTruncated
  | ErrTrailingBytes nat
  | ErrBadLengthPrefix nat nat
  | ErrDuplicateExtension u16
  | ErrAEADOpen
  | ErrZeroSharedSecret
  | ErrPeerAlert bytes
  | ErrRecordType byte
  | ErrText string
  | ErrExternal nat
  | ErrWrap string tls_error

type_synonym 'a outcome = "(tls_error, 'a) res"
type_synonym ('s, 'a) action = "'s \<Rightarrow> 'a outcome \<times> 's"

definition ret :: "'a \<Rightarrow> ('s, 'a) action" where
  "ret a s = (Ok a, s)"

definition fail :: "tls_error \<Rightarrow> ('s, 'a) action" where
  "fail e s = (Err e, s)"

definition bindS :: "('s, 'a) action \<Rightarrow> ('a \<Rightarrow> ('s, 'b) action) \<Rightarrow> ('s, 'b) action" where
  "bindS m f s = (case m s of
       (Ok a, s') \<Rightarrow> f a s'
     | (Err e, s') \<Rightarrow> (Err e, s')
     | (Panic, s') \<Rightarrow> (Panic, s'))"

text \<open>A computation that does not touch the state, and the wrapping of an error.\<close>

definition liftR :: "'a outcome \<Rightarrow> ('s, 'a) action" where
  "liftR r s = (r, s)"

definition wrapS :: "string \<Rightarrow> ('s, 'a) action \<Rightarrow> ('s, 'a) action" where
  "wrapS ctx m s = (case m s of (r, s') \<Rightarrow> (rwrap (ErrWrap ctx) r, s'))"

named_theorems action_simps \<open>running actions step by step\<close>

lemma ret_simp [action_simps]: "ret a s = (Ok a, s)" by (simp add: ret_def)
lemma fail_simp [action_simps]: "fail e s = (Err e, s)" by (simp add: fail_def)
lemma liftR_simp [action_simps]: "liftR r s = (r, s)" by (simp add: liftR_def)

lemma bindS_Ok [action_simps]: "m s = (Ok a, s') \<Longrightarrow> bindS m f s = f a s'"
  by (simp add: bindS_def)

lemma bindS_Err [action_simps]: "m s = (Err e, s') \<Longrightarrow> bindS m f s = (Err e, s')"
  by (simp add: bindS_def)

lemma wrapS_Ok [action_simps]: "m s = (Ok a, s') \<Longrightarrow> wrapS ctx m s = (Ok a, s')"
  by (simp add: wrapS_def)

lemma wrapS_Err [action_simps]: "m s = (Err e, s') \<Longrightarrow> wrapS ctx m s = (Err (ErrWrap ctx e), s')"
  by (simp add: wrapS_def)

lemma bindS_cong [fundef_cong]:
  "m s = m' s' \<Longrightarrow> (\<And>a t. m' s' = (Ok a, t) \<Longrightarrow> f a t = f' a t) \<Longrightarrow> bindS m f s = bindS m' f' s'"
  by (auto simp: bindS_def split: prod.splits res.splits)

lemma bindS_eq_Ok: "bindS m f s = (Ok b, t) \<longleftrightarrow> (\<exists>a s'. m s = (Ok a, s') \<and> f a s' = (Ok b, t))"
  by (auto simp: bindS_def split: prod.splits res.splits)

lemma bindS_ne_Panic:
  "fst (m s) \<noteq> Panic \<Longrightarrow> (\<And>a s'. m s = (Ok a, s') \<Longrightarrow> fst (f a s') \<noteq> Panic)
     \<Longrightarrow> fst (bindS m f s) \<noteq> Panic"
  by (auto simp: bindS_def split: prod.splits res.splits)

lemma wrapS_eq_Ok: "wrapS ctx m s = (Ok a, t) \<longleftrightarrow> m s = (Ok a, t)"
  by (cases "m s") (auto simp: wrapS_def rwrap_eq_Ok)

lemma wrapS_ne_Panic: "fst (wrapS ctx m s) \<noteq> Panic \<longleftrightarrow> fst (m s) \<noteq> Panic"
  by (cases "m s") (simp add: wrapS_def rwrap_eq_Panic)

text \<open>A property of states that every step of an action keeps.\<close>

lemma bindS_preserves:
  assumes "P s" "\<And>s. P s \<Longrightarrow> P (snd (m s))" "\<And>a s. P s \<Longrightarrow> P (snd (f a s))"
  shows "P (snd (bindS m f s))"
  using assms(2) [OF assms(1)] assms(3)
  by (auto simp: bindS_def split: prod.splits res.splits)

end
