(* ===== verification/Tls_Messages.thy ===== *)
theory Tls_Messages
  imports Tls_Base
begin

unbundle bit_operations_syntax

section \<open>TLS 1.3 handshake messages (tls/messages.go)\<close>

text \<open>
  The wire format of the handshake: the read cursor, the ClientHello parser with the extensions it
  reads, and the marshalers of the server's messages. Slices are read through the checked operations
  of \<open>Net_Prelude\<close>, so that freedom from panics is a theorem. A Go string is the list of its bytes.
\<close>

subsection \<open>Constants and messages\<close>

definition handshakeTypeClientHello :: byte where "handshakeTypeClientHello = 1"
definition handshakeTypeServerHello :: byte where "handshakeTypeServerHello = 2"
definition handshakeTypeEncryptedExtensions :: byte where "handshakeTypeEncryptedExtensions = 8"
definition handshakeTypeCertificate :: byte where "handshakeTypeCertificate = 11"
definition handshakeTypeCertificateVerify :: byte where "handshakeTypeCertificateVerify = 15"
definition handshakeTypeFinished :: byte where "handshakeTypeFinished = 20"
definition handshakeHeaderLen :: nat where "handshakeHeaderLen = 4"

lemmas handshake_types = handshakeTypeClientHello_def handshakeTypeServerHello_def
  handshakeTypeEncryptedExtensions_def handshakeTypeCertificate_def
  handshakeTypeCertificateVerify_def handshakeTypeFinished_def

definition extTypeServerName :: u16 where "extTypeServerName = 0"
definition extTypeSupportedGroups :: u16 where "extTypeSupportedGroups = 10"
definition extTypeSignatureAlgorithms :: u16 where "extTypeSignatureAlgorithms = 13"
definition extTypeSupportedVersions :: u16 where "extTypeSupportedVersions = 43"
definition extTypeKeyShare :: u16 where "extTypeKeyShare = 51"

lemmas ext_types = extTypeServerName_def extTypeSupportedGroups_def extTypeSignatureAlgorithms_def
  extTypeSupportedVersions_def extTypeKeyShare_def

definition tls13Version :: u16 where "tls13Version = 0x0304"
definition tls12Version :: u16 where "tls12Version = 0x0303"
definition namedGroupX25519 :: u16 where "namedGroupX25519 = 0x001D"
definition sigSchemeECDSAP256SHA256 :: u16 where "sigSchemeECDSAP256SHA256 = 0x0403"
definition cipherTLSAES128GCMSHA256 :: u16 where "cipherTLSAES128GCMSHA256 = 0x1301"
definition sniHostName :: byte where "sniHostName = 0"

record keyShareEntry =
  ks_group :: u16
  ks_keyExchange :: bytes

record clientHello =
  ch_legacyVersion :: u16
  ch_random :: bytes
  ch_legacySessionID :: bytes
  ch_cipherSuites :: "u16 list"
  ch_serverName :: bytes
  ch_supportedVersions :: "u16 list"
  ch_supportedGroups :: "u16 list"
  ch_signatureAlgorithms :: "u16 list"
  ch_keyShares :: "keyShareEntry list"

text \<open>
  \<^verbatim>\<open>findKeyShare\<close> returns nil when there is no entry. The parser copies a key exchange with
  \<^verbatim>\<open>append([]byte(nil), ke...)\<close>, which is nil too when it is empty: nil is the empty list.
\<close>

fun findKeyShare_loop :: "u16 \<Rightarrow> keyShareEntry list \<Rightarrow> bytes" where
  "findKeyShare_loop g [] = []"
| "findKeyShare_loop g (k # ks) = (if ks_group k = g then ks_keyExchange k else findKeyShare_loop g ks)"

definition findKeyShare :: "clientHello \<Rightarrow> u16 \<Rightarrow> bytes" where
  "findKeyShare c g = findKeyShare_loop g (ch_keyShares c)"

definition u24_of :: "byte \<Rightarrow> byte \<Rightarrow> byte \<Rightarrow> u32" where
  "u24_of a b c = push_bit 16 (ucast a) OR push_bit 8 (ucast b) OR ucast c"

definition u24_bytes :: "nat \<Rightarrow> bytes" where
  "u24_bytes n = [of_nat (n div 2 ^ 16), of_nat (n div 2 ^ 8), of_nat n]"

definition parseHandshake :: "bytes \<Rightarrow> (byte \<times> bytes) outcome" where
  "parseHandshake msg =
     (if length msg < handshakeHeaderLen then Err ErrMessageTruncated
      else rbind (idx msg 0) (\<lambda>typ. rbind (idx msg 1) (\<lambda>a. rbind (idx msg 2) (\<lambda>b. rbind (idx msg 3) (\<lambda>c.
        let bodyLen = unat (u24_of a b c) in
        if bodyLen \<noteq> length msg - handshakeHeaderLen
        then Err (ErrBadLengthPrefix bodyLen (length msg - handshakeHeaderLen))
        else rbind (slice_from msg handshakeHeaderLen) (\<lambda>body. Ok (typ, body)))))))"

definition marshalHandshake :: "byte \<Rightarrow> bytes \<Rightarrow> bytes outcome" where
  "marshalHandshake typ body =
     (if 0xFFFFFF < length body then Panic
      else Ok (typ # u24_bytes (length body) @ body))"

subsection \<open>The cursor\<close>

record cursor =
  cur_data :: bytes
  cur_pos :: nat

definition remaining :: "cursor \<Rightarrow> int" where
  "remaining c = int (length (cur_data c)) - int (cur_pos c)"

definition readU8 :: "cursor \<Rightarrow> (byte \<times> cursor) outcome" where
  "readU8 c = (if remaining c < 1 then Err ErrMessageTruncated
     else rbind (idx (cur_data c) (cur_pos c)) (\<lambda>v. Ok (v, c\<lparr>cur_pos := cur_pos c + 1\<rparr>)))"

definition readU16 :: "cursor \<Rightarrow> (u16 \<times> cursor) outcome" where
  "readU16 c = (if remaining c < 2 then Err ErrMessageTruncated
     else rbind (slice_from (cur_data c) (cur_pos c)) (\<lambda>d. rbind (be_u16 d) (\<lambda>v.
       Ok (v, c\<lparr>cur_pos := cur_pos c + 2\<rparr>))))"

definition readBytes :: "nat \<Rightarrow> cursor \<Rightarrow> (bytes \<times> cursor) outcome" where
  "readBytes n c = (if remaining c < int n then Err ErrMessageTruncated
     else rbind (slice_at (cur_data c) (cur_pos c) (cur_pos c + n)) (\<lambda>v.
       Ok (v, c\<lparr>cur_pos := cur_pos c + n\<rparr>)))"

definition readVector :: "nat \<Rightarrow> cursor \<Rightarrow> (bytes \<times> cursor) outcome" where
  "readVector lenBytes c =
     (if lenBytes = 1 then rbind (readU8 c) (\<lambda>(v, c1). readBytes (unat v) c1)
      else if lenBytes = 2 then rbind (readU16 c) (\<lambda>(v, c1). readBytes (unat v) c1)
      else Panic)"

definition new_cursor :: "bytes \<Rightarrow> cursor" where
  "new_cursor d = \<lparr>cur_data = d, cur_pos = 0\<rparr>"

subsection \<open>Extensions of the ClientHello\<close>

text \<open>\<^verbatim>\<open>for i := range out { out[i] = binary.BigEndian.Uint16(body[i*2:]) }\<close>\<close>

definition u16_list :: "bytes \<Rightarrow> u16 list" where
  "u16_list body = map (\<lambda>i. u16_of (body ! (i * 2)) (body ! (i * 2 + 1))) [0..<length body div 2]"

definition parseU16Vector :: "bytes \<Rightarrow> nat \<Rightarrow> u16 list outcome" where
  "parseU16Vector data lenBytes =
     rbind (if 0 < lenBytes then
              rbind (readVector lenBytes (new_cursor data)) (\<lambda>(v, c).
                if remaining c \<noteq> 0 then Err (ErrWrap ''in u16 vector'' (ErrTrailingBytes 0)) else Ok v)
            else Ok data)
       (\<lambda>body. if length body mod 2 \<noteq> 0 then Err (ErrText ''u16 vector length not a multiple of 2'')
          else Ok (u16_list body))"

definition parseSupportedVersionsExtension :: "bytes \<Rightarrow> u16 list outcome" where
  "parseSupportedVersionsExtension data =
     rbind (rwrap (ErrWrap ''versions vector'') (readVector 1 (new_cursor data))) (\<lambda>(body, c).
       if remaining c \<noteq> 0 then Err (ErrWrap ''in supported_versions'' (ErrTrailingBytes 0))
       else parseU16Vector body 0)"

lemma readU8_shrinks: "readU8 c = Ok (v, c') \<Longrightarrow> remaining c' < remaining c \<and> cur_pos c < length (cur_data c)"
  by (auto simp: readU8_def remaining_def rbind_eqs split: if_splits)

lemma readU16_shrinks:
  "readU16 c = Ok (v, c') \<Longrightarrow> remaining c' = remaining c - 2 \<and> cur_data c' = cur_data c"
  by (auto simp: readU16_def remaining_def rbind_eqs split: if_splits)

lemma readBytes_shrinks: "readBytes n c = Ok (v, c') \<Longrightarrow> remaining c' \<le> remaining c"
  by (auto simp: readBytes_def remaining_def rbind_eqs split: if_splits)

lemma readVector_shrinks: "readVector k c = Ok (v, c') \<Longrightarrow> remaining c' < remaining c"
  by (fastforce simp: readVector_def rbind_eqs split: if_splits
      dest!: readU8_shrinks readU16_shrinks readBytes_shrinks)

lemma nat_remaining_less: "0 < remaining c \<Longrightarrow> remaining c' < remaining c \<Longrightarrow> nat (remaining c') < nat (remaining c)"
  by simp

function serverName_loop :: "cursor \<Rightarrow> bytes outcome" where
  "serverName_loop lc =
     (if 0 < remaining lc then
        rbind (readU8 lc) (\<lambda>(nameType, lc1).
        rbind (readVector 2 lc1) (\<lambda>(hostName, lc2).
        if nameType = sniHostName then Ok hostName else serverName_loop lc2))
      else Ok [])"
  by pat_completeness auto
termination
  by (relation "measure (nat \<circ> remaining)")
    (auto intro!: nat_remaining_less dest!: readU8_shrinks readVector_shrinks)

declare serverName_loop.simps [simp del]

definition parseServerNameExtension :: "bytes \<Rightarrow> bytes outcome" where
  "parseServerNameExtension data =
     rbind (rwrap (ErrWrap ''server_name_list'') (readVector 2 (new_cursor data))) (\<lambda>(l, c).
       if remaining c \<noteq> 0 then Err (ErrWrap ''in server_name'' (ErrTrailingBytes 0))
       else serverName_loop (new_cursor l))"

function keyShare_loop :: "cursor \<Rightarrow> keyShareEntry list \<Rightarrow> keyShareEntry list outcome" where
  "keyShare_loop lc out =
     (if 0 < remaining lc then
        rbind (readU16 lc) (\<lambda>(group, lc1).
        rbind (readVector 2 lc1) (\<lambda>(ke, lc2).
        keyShare_loop lc2 (out @ [\<lparr>ks_group = group, ks_keyExchange = ke\<rparr>])))
      else Ok out)"
  by pat_completeness auto
termination
  by (relation "measure (nat \<circ> remaining \<circ> fst)")
    (auto intro!: nat_remaining_less dest!: readU16_shrinks readVector_shrinks)

declare keyShare_loop.simps [simp del]

definition parseClientKeyShareExtension :: "bytes \<Rightarrow> keyShareEntry list outcome" where
  "parseClientKeyShareExtension data =
     rbind (rwrap (ErrWrap ''client_shares'') (readVector 2 (new_cursor data))) (\<lambda>(l, c).
       if remaining c \<noteq> 0 then Err (ErrWrap ''in key_share'' (ErrTrailingBytes 0))
       else keyShare_loop (new_cursor l) [])"

text \<open>The \<^verbatim>\<open>switch extType\<close> of the extension loop, and the loop with its set of types seen.\<close>

definition apply_extension :: "u16 \<Rightarrow> bytes \<Rightarrow> clientHello \<Rightarrow> clientHello outcome" where
  "apply_extension extType extData out =
     (if extType = extTypeServerName then
        rbind (rwrap (ErrWrap ''server_name'') (parseServerNameExtension extData)) (\<lambda>name.
          Ok (out\<lparr>ch_serverName := name\<rparr>))
      else if extType = extTypeSupportedVersions then
        rbind (rwrap (ErrWrap ''supported_versions'') (parseSupportedVersionsExtension extData)) (\<lambda>vers.
          Ok (out\<lparr>ch_supportedVersions := vers\<rparr>))
      else if extType = extTypeSupportedGroups then
        rbind (rwrap (ErrWrap ''supported_groups'') (parseU16Vector extData 2)) (\<lambda>groups.
          Ok (out\<lparr>ch_supportedGroups := groups\<rparr>))
      else if extType = extTypeSignatureAlgorithms then
        rbind (rwrap (ErrWrap ''signature_algorithms'') (parseU16Vector extData 2)) (\<lambda>schemes.
          Ok (out\<lparr>ch_signatureAlgorithms := schemes\<rparr>))
      else if extType = extTypeKeyShare then
        rbind (rwrap (ErrWrap ''key_share'') (parseClientKeyShareExtension extData)) (\<lambda>ks.
          Ok (out\<lparr>ch_keyShares := ks\<rparr>))
      else Ok out)"

function extensions_loop :: "cursor \<Rightarrow> u16 list \<Rightarrow> clientHello \<Rightarrow> clientHello outcome" where
  "extensions_loop c seen out =
     (if 0 < remaining c then
        rbind (rwrap (ErrWrap ''extension type'') (readU16 c)) (\<lambda>(extType, c1).
        rbind (rwrap (ErrWrap ''extension data'') (readVector 2 c1)) (\<lambda>(extData, c2).
        if extType \<in> set seen then Err (ErrDuplicateExtension extType)
        else rbind (apply_extension extType extData out) (\<lambda>out'.
          extensions_loop c2 (extType # seen) out')))
      else Ok out)"
  by pat_completeness auto
termination
  by (relation "measure (nat \<circ> remaining \<circ> fst)")
    (auto intro!: nat_remaining_less simp: rwrap_eq_Ok dest!: readU16_shrinks readVector_shrinks)

declare extensions_loop.simps [simp del]

definition parseClientHelloExtensions :: "bytes \<Rightarrow> clientHello \<Rightarrow> clientHello outcome" where
  "parseClientHelloExtensions exts out = extensions_loop (new_cursor exts) [] out"

subsection \<open>The ClientHello\<close>

definition empty_hello :: clientHello where
  "empty_hello = \<lparr>ch_legacyVersion = 0, ch_random = replicate 32 0, ch_legacySessionID = [],
     ch_cipherSuites = [], ch_serverName = [], ch_supportedVersions = [], ch_supportedGroups = [],
     ch_signatureAlgorithms = [], ch_keyShares = []\<rparr>"

definition parseClientHello :: "bytes \<Rightarrow> clientHello outcome" where
  "parseClientHello body =
     rbind (rwrap (ErrWrap ''legacy_version'') (readU16 (new_cursor body))) (\<lambda>(v, c1).
     rbind (rwrap (ErrWrap ''random'') (readBytes 32 c1)) (\<lambda>(rand, c2).
     rbind (rwrap (ErrWrap ''legacy_session_id'') (readVector 1 c2)) (\<lambda>(sid, c3).
     if 32 < length sid then Err (ErrText ''legacy_session_id too long'')
     else rbind (rwrap (ErrWrap ''cipher_suites'') (readVector 2 c3)) (\<lambda>(cs, c4).
     if length cs mod 2 \<noteq> 0 then Err (ErrText ''cipher_suites length not a multiple of 2'')
     else rbind (rwrap (ErrWrap ''legacy_compression_methods'') (readVector 1 c4)) (\<lambda>(comp, c5).
     if length comp \<noteq> 1 \<or> comp ! 0 \<noteq> 0 then Err (ErrText ''legacy_compression_methods must be {0}'')
     else rbind (rwrap (ErrWrap ''extensions'') (readVector 2 c5)) (\<lambda>(exts, c6).
     if remaining c6 \<noteq> 0 then Err (ErrTrailingBytes (nat (remaining c6)))
     else parseClientHelloExtensions exts
       (empty_hello\<lparr>ch_legacyVersion := v, ch_random := rand, ch_legacySessionID := sid,
          ch_cipherSuites := u16_list cs\<rparr>)))))))"

subsection \<open>Outgoing messages\<close>

definition appendU8Vector :: "bytes \<Rightarrow> bytes \<Rightarrow> bytes outcome" where
  "appendU8Vector buf body = (if 0xFF < length body then Panic
     else Ok (buf @ [of_nat (length body)] @ body))"

definition appendU16Vector :: "bytes \<Rightarrow> bytes \<Rightarrow> bytes outcome" where
  "appendU16Vector buf body = (if 0xFFFF < length body then Panic
     else Ok (buf @ u16_bytes (of_nat (length body)) @ body))"

definition appendU24Vector :: "bytes \<Rightarrow> bytes \<Rightarrow> bytes outcome" where
  "appendU24Vector buf body = (if 0xFFFFFF < length body then Panic
     else Ok (buf @ u24_bytes (length body) @ body))"

definition appendExtension :: "bytes \<Rightarrow> u16 \<Rightarrow> bytes \<Rightarrow> bytes outcome" where
  "appendExtension buf extType body = appendU16Vector (buf @ u16_bytes extType) body"

definition appendServerSupportedVersionsExtension :: "bytes \<Rightarrow> bytes outcome" where
  "appendServerSupportedVersionsExtension buf =
     appendExtension buf extTypeSupportedVersions (u16_bytes tls13Version)"

definition appendServerKeyShareExtension :: "bytes \<Rightarrow> bytes \<Rightarrow> bytes outcome" where
  "appendServerKeyShareExtension buf serverPub =
     rbind (appendU16Vector (u16_bytes namedGroupX25519) serverPub) (\<lambda>body.
       appendExtension buf extTypeKeyShare body)"

definition marshalServerHello :: "bytes \<Rightarrow> bytes \<Rightarrow> bytes \<Rightarrow> bytes outcome" where
  "marshalServerHello random sessionIDEcho serverPub =
     rbind (appendU8Vector (u16_bytes tls12Version @ random) sessionIDEcho) (\<lambda>out.
     rbind (appendServerSupportedVersionsExtension []) (\<lambda>exts.
     rbind (appendServerKeyShareExtension exts serverPub) (\<lambda>exts'.
       appendU16Vector (out @ u16_bytes cipherTLSAES128GCMSHA256 @ [0]) exts')))"

definition marshalEncryptedExtensions :: bytes where
  "marshalEncryptedExtensions = [0, 0]"

definition marshalCertificate :: "bytes \<Rightarrow> bytes outcome" where
  "marshalCertificate certDER =
     rbind (appendU24Vector [] certDER) (\<lambda>entry. appendU24Vector [0] (entry @ [0, 0]))"

definition marshalCertificateVerify :: "u16 \<Rightarrow> bytes \<Rightarrow> bytes outcome" where
  "marshalCertificateVerify sigScheme signature = appendU16Vector (u16_bytes sigScheme) signature"

definition marshalFinished :: "bytes \<Rightarrow> bytes" where
  "marshalFinished verifyData = verifyData"

subsection \<open>What the cursor reads\<close>

text \<open>A cursor standing between the bytes it has read and the rest; the length-prefixed vectors.\<close>

definition at_cursor :: "bytes \<Rightarrow> bytes \<Rightarrow> cursor" where
  "at_cursor pre rest = \<lparr>cur_data = pre @ rest, cur_pos = length pre\<rparr>"

definition vec8 :: "bytes \<Rightarrow> bytes" where
  "vec8 b = of_nat (length b) # b"

definition vec16 :: "bytes \<Rightarrow> bytes" where
  "vec16 b = u16_bytes (of_nat (length b)) @ b"

named_theorems cursor_simps \<open>reads of a cursor that stands before known bytes\<close>

lemma new_cursor_at: "new_cursor d = at_cursor [] d"
  by (simp add: new_cursor_def at_cursor_def)

lemma remaining_at [simp]: "remaining (at_cursor pre rest) = int (length rest)"
  by (simp add: remaining_def at_cursor_def)

lemma length_vec8 [simp]: "length (vec8 b) = Suc (length b)" by (simp add: vec8_def)
lemma length_vec16 [simp]: "length (vec16 b) = length b + 2" by (simp add: vec16_def)

lemma readU8_at [cursor_simps]:
  "readU8 (at_cursor pre rest) =
     (case rest of [] \<Rightarrow> Err ErrMessageTruncated | b # r \<Rightarrow> Ok (b, at_cursor (pre @ [b]) r))"
  by (cases rest) (simp_all add: readU8_def remaining_def at_cursor_def go_simps nth_append)

lemma readU16_at:
  "readU16 (at_cursor pre rest) =
     (case rest of [] \<Rightarrow> Err ErrMessageTruncated | a # r \<Rightarrow>
       (case r of [] \<Rightarrow> Err ErrMessageTruncated
        | b # r' \<Rightarrow> Ok (u16_of a b, at_cursor (pre @ [a, b]) r')))"
  by (cases rest; cases "tl rest") (simp_all add: readU16_def remaining_def at_cursor_def go_simps)

lemma readBytes_at:
  "readBytes n (at_cursor pre rest) =
     (if n \<le> length rest then Ok (take n rest, at_cursor (pre @ take n rest) (drop n rest))
      else Err ErrMessageTruncated)"
  by (simp add: readBytes_def remaining_def at_cursor_def go_simps)

text \<open>Each read succeeds exactly when the encoding it looks for stands in front of the cursor.\<close>

lemma readU8_Ok_iff: "readU8 (at_cursor pre rest) = Ok (v, c) \<longleftrightarrow>
    (\<exists>r. rest = v # r \<and> c = at_cursor (pre @ [v]) r)"
  by (auto simp: cursor_simps split: list.splits)

lemma readU16_Ok_iff: "readU16 (at_cursor pre rest) = Ok (v, c) \<longleftrightarrow>
    (\<exists>r. rest = u16_bytes v @ r \<and> c = at_cursor (pre @ u16_bytes v) r)"
  by (auto simp: cursor_simps readU16_at readBytes_at u16_bytes_def split: list.splits)

lemma readBytes_Ok_iff: "readBytes n (at_cursor pre rest) = Ok (v, c) \<longleftrightarrow>
    (\<exists>r. rest = v @ r \<and> length v = n \<and> c = at_cursor (pre @ v) r)"
proof
  assume "readBytes n (at_cursor pre rest) = Ok (v, c)"
  then show "\<exists>r. rest = v @ r \<and> length v = n \<and> c = at_cursor (pre @ v) r"
    by (intro exI [of _ "drop n rest"]) (auto simp: cursor_simps readU16_at readBytes_at split: if_splits)
qed (auto simp: cursor_simps readU16_at readBytes_at)

lemma readVector1_Ok_iff: "readVector (Suc 0) (at_cursor pre rest) = Ok (v, c) \<longleftrightarrow>
    (\<exists>r. rest = vec8 v @ r \<and> length v < 256 \<and> c = at_cursor (pre @ vec8 v) r)"
proof -
  have "unat b = length v \<longleftrightarrow> length v < 256 \<and> b = of_nat (length v)" for b :: byte
    using unat_byte_lt [of b] by (auto simp: unat_of_nat) (metis of_nat_unat ucast_id)
  then show ?thesis
    by (force simp: readVector_def rbind_eq_Ok readU8_Ok_iff readBytes_Ok_iff vec8_def)
qed

lemma readVector2_Ok_iff: "readVector 2 (at_cursor pre rest) = Ok (v, c) \<longleftrightarrow>
    (\<exists>r. rest = vec16 v @ r \<and> length v < 65536 \<and> c = at_cursor (pre @ vec16 v) r)"
proof -
  have "unat b = length v \<longleftrightarrow> length v < 65536 \<and> b = of_nat (length v)" for b :: u16
    using unat_u16_lt [of b] by (auto simp: unat_of_nat) (metis of_nat_unat ucast_id)
  then show ?thesis
    by (force simp: readVector_def rbind_eq_Ok readU16_Ok_iff readBytes_Ok_iff vec16_def)
qed

lemmas read_Ok_iffs = readU8_Ok_iff readU16_Ok_iff readBytes_Ok_iff readVector1_Ok_iff readVector2_Ok_iff

lemma readVector1_at [cursor_simps]:
  "length v < 256 \<Longrightarrow> readVector (Suc 0) (at_cursor pre (vec8 v @ r)) = Ok (v, at_cursor (pre @ vec8 v) r)"
  using readVector1_Ok_iff by simp

lemma readVector2_at [cursor_simps]:
  "length v < 65536 \<Longrightarrow> readVector 2 (at_cursor pre (vec16 v @ r)) = Ok (v, at_cursor (pre @ vec16 v) r)"
  using readVector2_Ok_iff by simp

lemma readU16_at_u16 [cursor_simps]:
  "readU16 (at_cursor pre (u16_bytes v @ r)) = Ok (v, at_cursor (pre @ u16_bytes v) r)"
  using readU16_Ok_iff by simp

lemma reads_never_panic [simp]:
  "readU8 (at_cursor pre rest) \<noteq> Panic" "readU16 (at_cursor pre rest) \<noteq> Panic"
  "readBytes n (at_cursor pre rest) \<noteq> Panic"
  by (auto simp: cursor_simps readU16_at readBytes_at split: list.splits)

lemma readVector_never_panics [simp]:
  "readVector (Suc 0) (at_cursor pre rest) \<noteq> Panic" "readVector 2 (at_cursor pre rest) \<noteq> Panic"
  by (auto simp: readVector_def rbind_eqs readU8_Ok_iff readU16_Ok_iff)

subsection \<open>Vectors of u16\<close>

definition u16s_bytes :: "u16 list \<Rightarrow> bytes" where
  "u16s_bytes vs = concat (map u16_bytes vs)"

lemma length_u16s_bytes [simp]: "length (u16s_bytes vs) = 2 * length vs"
  by (induction vs) (simp_all add: u16s_bytes_def)

lemma u16_list_Cons: "u16_list (a # b # rest) = u16_of a b # u16_list rest"
proof -
  have "[0..<length (a # b # rest) div 2] = 0 # map Suc [0..<length rest div 2]"
    by (simp add: upt_conv_Cons map_Suc_upt del: upt_Suc)
  then show ?thesis by (simp add: u16_list_def comp_def)
qed

lemma u16_list_u16s_bytes [simp]: "u16_list (u16s_bytes vs) = vs"
proof (induction vs)
  case Nil then show ?case by (simp add: u16_list_def u16s_bytes_def)
next
  case (Cons v vs)
  then show ?case by (simp add: u16s_bytes_def u16_bytes_def u16_list_Cons)
qed

lemma u16s_bytes_u16_list: "length bs mod 2 = 0 \<Longrightarrow> u16s_bytes (u16_list bs) = bs"
proof (induction bs rule: induct_list012)
  case 1 then show ?case by (simp add: u16_list_def u16s_bytes_def)
next
  case (3 a b bs)
  then show ?case by (simp add: u16_list_Cons u16s_bytes_def)
qed simp

lemma parseU16Vector_0: "parseU16Vector (u16s_bytes vs) 0 = Ok vs"
  by (simp add: parseU16Vector_def)

lemma parseU16Vector_2: "length vs < 32768 \<Longrightarrow> parseU16Vector (vec16 (u16s_bytes vs)) 2 = Ok vs"
  using readVector2_at [of "u16s_bytes vs" "[]" "[]"]
  by (simp add: parseU16Vector_def new_cursor_at)

lemma parseSupportedVersions_vec8:
  "length vs < 128 \<Longrightarrow> parseSupportedVersionsExtension (vec8 (u16s_bytes vs)) = Ok vs"
  using readVector1_at [of "u16s_bytes vs" "[]" "[]"]
  by (simp add: parseSupportedVersionsExtension_def new_cursor_at parseU16Vector_0)

lemma parseU16Vector_never_panics [simp]:
  "parseU16Vector d 2 \<noteq> Panic" "parseU16Vector d 0 \<noteq> Panic"
  by (auto simp: parseU16Vector_def rbind_eqs new_cursor_at split: if_splits)

lemma parseSupportedVersions_never_panics [simp]: "parseSupportedVersionsExtension d \<noteq> Panic"
  by (auto simp: parseSupportedVersionsExtension_def rbind_eqs new_cursor_at split: if_splits)

subsection \<open>The extension loops\<close>

definition name_bytes :: "byte \<times> bytes \<Rightarrow> bytes" where
  "name_bytes n = fst n # vec16 (snd n)"

definition share_bytes :: "keyShareEntry \<Rightarrow> bytes" where
  "share_bytes k = u16_bytes (ks_group k) @ vec16 (ks_keyExchange k)"

definition extension_bytes :: "u16 \<times> bytes \<Rightarrow> bytes" where
  "extension_bytes e = u16_bytes (fst e) @ vec16 (snd e)"

lemma serverName_loop_names:
  "\<forall>n \<in> set ns. length (snd n) < 65536 \<Longrightarrow>
   serverName_loop (at_cursor pre (concat (map name_bytes ns))) =
     Ok (case find (\<lambda>n. fst n = sniHostName) ns of None \<Rightarrow> [] | Some n \<Rightarrow> snd n)"
  by (induction ns arbitrary: pre)
    (subst serverName_loop.simps; simp add: name_bytes_def cursor_simps)+

lemma keyShare_loop_shares:
  "\<forall>k \<in> set ks. length (ks_keyExchange k) < 65536 \<Longrightarrow>
   keyShare_loop (at_cursor pre (concat (map share_bytes ks))) out = Ok (out @ ks)"
proof (induction ks arbitrary: pre out)
  case Nil then show ?case by (subst keyShare_loop.simps) simp
next
  case (Cons k ks)
  have "share_bytes k = u16_bytes (ks_group k) @ vec16 (ks_keyExchange k)" by (simp add: share_bytes_def)
  moreover have "\<lparr>ks_group = ks_group k, ks_keyExchange = ks_keyExchange k\<rparr> = k" by (cases k) simp
  ultimately show ?case using Cons
    by (subst keyShare_loop.simps) (simp add: cursor_simps)
qed

lemma serverName_loop_never_panics: "serverName_loop (at_cursor pre rest) \<noteq> Panic"
proof -
  have "length rest \<le> n \<Longrightarrow> serverName_loop (at_cursor pre rest) \<noteq> Panic" for n
    by (induction n arbitrary: pre rest)
      (subst serverName_loop.simps; auto simp: rbind_eqs read_Ok_iffs split: if_splits)+
  then show ?thesis by blast
qed

lemma keyShare_loop_never_panics: "keyShare_loop (at_cursor pre rest) out \<noteq> Panic"
proof -
  have "length rest \<le> n \<Longrightarrow> keyShare_loop (at_cursor pre rest) out \<noteq> Panic" for n
    by (induction n arbitrary: pre rest out)
      (subst keyShare_loop.simps; auto simp: rbind_eqs read_Ok_iffs split: if_splits)+
  then show ?thesis by blast
qed

lemma apply_extension_never_panics [simp]: "apply_extension t d out \<noteq> Panic"
  by (auto simp: apply_extension_def parseServerNameExtension_def parseClientKeyShareExtension_def
      rbind_eqs new_cursor_at serverName_loop_never_panics keyShare_loop_never_panics split: if_splits)

lemma extensions_loop_never_panics: "extensions_loop (at_cursor pre rest) seen out \<noteq> Panic"
proof -
  have "length rest \<le> n \<Longrightarrow> extensions_loop (at_cursor pre rest) seen out \<noteq> Panic" for n
    by (induction n arbitrary: pre rest seen out)
      (subst extensions_loop.simps; auto simp: rbind_eqs read_Ok_iffs split: if_splits)+
  then show ?thesis by blast
qed

text \<open>The extensions applied one after the other; the loop accepts exactly a framed list of distinct types.\<close>

fun apply_all :: "(u16 \<times> bytes) list \<Rightarrow> clientHello \<Rightarrow> clientHello outcome" where
  "apply_all [] out = Ok out"
| "apply_all (e # es) out = rbind (apply_extension (fst e) (snd e) out) (apply_all es)"

definition framed_extensions :: "u16 set \<Rightarrow> (u16 \<times> bytes) list \<Rightarrow> bool" where
  "framed_extensions seen es \<longleftrightarrow> distinct (map fst es) \<and> set (map fst es) \<inter> seen = {}
     \<and> (\<forall>e \<in> set es. length (snd e) < 65536)"

lemma extensions_loop_reads:
  "framed_extensions (set seen) es \<Longrightarrow>
   extensions_loop (at_cursor pre (concat (map extension_bytes es))) seen out = apply_all es out"
proof (induction es arbitrary: pre seen out)
  case Nil then show ?case by (subst extensions_loop.simps) simp
next
  case (Cons e es)
  have IH: "extensions_loop (at_cursor pre' (concat (map extension_bytes es))) (fst e # seen) =
      apply_all es" for pre'
    using Cons.prems by (intro ext Cons.IH) (auto simp: framed_extensions_def)
  have "fst e \<notin> set seen" "length (snd e) < 65536"
    using Cons.prems by (auto simp: framed_extensions_def)
  then show ?case
    by (subst extensions_loop.simps) (simp add: extension_bytes_def cursor_simps IH)
qed

lemma extensions_loop_accepts:
  "extensions_loop (at_cursor pre rest) seen out = Ok h \<Longrightarrow>
   \<exists>es. rest = concat (map extension_bytes es) \<and> framed_extensions (set seen) es \<and> apply_all es out = Ok h"
proof (induction "length rest" arbitrary: pre rest seen out rule: less_induct)
  case less
  show ?case
  proof (cases "rest = []")
    case True
    then show ?thesis using less.prems
      by (intro exI [of _ "[]"]) (simp add: extensions_loop.simps framed_extensions_def)
  next
    case False
    then obtain t r d r' out' where rest: "rest = u16_bytes t @ r" "r = vec16 d @ r'"
        and d: "length d < 65536" "t \<notin> set seen" "apply_extension t d out = Ok out'"
        and loop: "extensions_loop (at_cursor ((pre @ u16_bytes t) @ vec16 d) r') (t # seen) out' = Ok h"
      using less.prems
      by (subst (asm) extensions_loop.simps [of "at_cursor pre rest"])
        (auto simp: rbind_eqs read_Ok_iffs split: if_splits)
    obtain es where "r' = concat (map extension_bytes es)" "framed_extensions (set (t # seen)) es"
        "apply_all es out' = Ok h"
      using less.hyps [OF _ loop] rest by auto
    then show ?thesis using rest d
      by (intro exI [of _ "(t, d) # es"]) (auto simp: extension_bytes_def framed_extensions_def)
  qed
qed

subsection \<open>The whole message\<close>

definition hello_bytes :: "u16 \<Rightarrow> bytes \<Rightarrow> bytes \<Rightarrow> u16 list \<Rightarrow> (u16 \<times> bytes) list \<Rightarrow> bytes" where
  "hello_bytes version random sid suites es =
     u16_bytes version @ random @ vec8 sid @ vec16 (u16s_bytes suites) @ vec8 [0]
       @ vec16 (concat (map extension_bytes es))"

definition hello_base :: "u16 \<Rightarrow> bytes \<Rightarrow> bytes \<Rightarrow> u16 list \<Rightarrow> clientHello" where
  "hello_base version random sid suites = empty_hello\<lparr>ch_legacyVersion := version,
     ch_random := random, ch_legacySessionID := sid, ch_cipherSuites := suites\<rparr>"

definition hello_fits :: "bytes \<Rightarrow> bytes \<Rightarrow> u16 list \<Rightarrow> (u16 \<times> bytes) list \<Rightarrow> bool" where
  "hello_fits random sid suites es \<longleftrightarrow> length random = 32 \<and> length sid \<le> 32 \<and> length suites < 32768
     \<and> length (concat (map extension_bytes es)) < 65536 \<and> framed_extensions {} es"

lemma length_u16_list [simp]: "length (u16_list bs) = length bs div 2"
  by (simp add: u16_list_def)

lemma parseClientHello_reads:
  assumes "hello_fits random sid suites es"
  shows "parseClientHello (hello_bytes version random sid suites es) =
    apply_all es (hello_base version random sid suites)"
proof -
  have r: "readBytes 32 (at_cursor pre (random @ rest)) = Ok (random, at_cursor (pre @ random) rest)"
    for pre rest using assms by (simp add: readBytes_Ok_iff hello_fits_def)
  have c: "readVector (Suc 0) (at_cursor pre (vec8 [0] @ rest)) = Ok ([0], at_cursor (pre @ vec8 [0]) rest)"
    for pre rest by (rule readVector1_at) simp
  have l: "readVector 2 (at_cursor pre (vec16 d)) = Ok (d, at_cursor (pre @ vec16 d) [])"
    if "length d < 65536" for pre d using readVector2_at [OF that, of pre "[]"] by simp
  show ?thesis using assms
    by (simp add: parseClientHello_def hello_bytes_def new_cursor_at cursor_simps r c l hello_fits_def
        parseClientHelloExtensions_def extensions_loop_reads hello_base_def)
qed

lemma parseClientHello_accepts:
  assumes "parseClientHello body = Ok h"
  shows "\<exists>version random sid suites es. body = hello_bytes version random sid suites es
    \<and> hello_fits random sid suites es \<and> apply_all es (hello_base version random sid suites) = Ok h"
proof -
  obtain v rand sid cs comp exts where
    body: "body = u16_bytes v @ rand @ vec8 sid @ vec16 cs @ vec8 comp @ vec16 exts"
    and lens: "length rand = 32" "length sid \<le> 32" "length cs < 65536" "length cs mod 2 = 0"
      "length comp = 1" "comp ! 0 = 0" "length exts < 65536"
    and loop: "extensions_loop (new_cursor exts) [] (hello_base v rand sid (u16_list cs)) = Ok h"
    using assms
    by (auto simp: parseClientHello_def new_cursor_at rbind_eqs read_Ok_iffs
        parseClientHelloExtensions_def hello_base_def split: if_splits)
  have comp: "comp = [0]" using lens by (cases comp) auto
  have cs: "length (u16_list cs) < 32768" "u16s_bytes (u16_list cs) = cs"
    using lens by (simp_all add: u16s_bytes_u16_list)
  obtain es where es: "exts = concat (map extension_bytes es)" "framed_extensions {} es"
      "apply_all es (hello_base v rand sid (u16_list cs)) = Ok h"
    using extensions_loop_accepts [OF loop [unfolded new_cursor_at]] by auto
  have "body = hello_bytes v rand sid (u16_list cs) es" "hello_fits rand sid (u16_list cs) es"
    using body comp lens cs es by (simp_all add: hello_bytes_def hello_fits_def)
  then show ?thesis using es(3) by blast
qed

lemma parseClientHello_never_panics_lemma: "parseClientHello body \<noteq> Panic"
  by (auto simp: parseClientHello_def new_cursor_at rbind_eqs read_Ok_iffs
      parseClientHelloExtensions_def extensions_loop_never_panics split: if_splits)

subsection \<open>Extensions by meaning\<close>

text \<open>
  The extensions a client can send, as values: the five the server reads and any other. \<open>ext_code\<close>
  is the encoding of RFC 8446 and RFC 6066, \<open>ext_fits\<close> its length limits.
\<close>

datatype hello_ext =
    ServerNames "(byte \<times> bytes) list"
  | SupportedVersions "u16 list"
  | SupportedGroups "u16 list"
  | SignatureAlgorithms "u16 list"
  | KeyShares "keyShareEntry list"
  | OtherExt u16 bytes

fun ext_code :: "hello_ext \<Rightarrow> u16 \<times> bytes" where
  "ext_code (ServerNames ns) = (0, vec16 (concat (map name_bytes ns)))"
| "ext_code (SupportedVersions vs) = (43, vec8 (u16s_bytes vs))"
| "ext_code (SupportedGroups gs) = (10, vec16 (u16s_bytes gs))"
| "ext_code (SignatureAlgorithms ss) = (13, vec16 (u16s_bytes ss))"
| "ext_code (KeyShares ks) = (51, vec16 (concat (map share_bytes ks)))"
| "ext_code (OtherExt t d) = (t, d)"

fun ext_fits :: "hello_ext \<Rightarrow> bool" where
  "ext_fits (ServerNames ns) \<longleftrightarrow> list_all (\<lambda>n. length (snd n) < 65536) ns
     \<and> length (concat (map name_bytes ns)) < 65536"
| "ext_fits (SupportedVersions vs) \<longleftrightarrow> length vs < 128"
| "ext_fits (SupportedGroups gs) \<longleftrightarrow> length gs < 32768"
| "ext_fits (SignatureAlgorithms ss) \<longleftrightarrow> length ss < 32768"
| "ext_fits (KeyShares ks) \<longleftrightarrow> list_all (\<lambda>k. length (ks_keyExchange k) < 65536) ks
     \<and> length (concat (map share_bytes ks)) < 65536"
| "ext_fits (OtherExt t d) \<longleftrightarrow> t \<notin> {0, 43, 10, 13, 51}"

definition host_name :: "(byte \<times> bytes) list \<Rightarrow> bytes" where
  "host_name ns = (case find (\<lambda>n. fst n = 0) ns of None \<Rightarrow> [] | Some n \<Rightarrow> snd n)"

fun ext_recorded :: "clientHello \<Rightarrow> hello_ext \<Rightarrow> bool" where
  "ext_recorded h (ServerNames ns) \<longleftrightarrow> ch_serverName h = host_name ns"
| "ext_recorded h (SupportedVersions vs) \<longleftrightarrow> ch_supportedVersions h = vs"
| "ext_recorded h (SupportedGroups gs) \<longleftrightarrow> ch_supportedGroups h = gs"
| "ext_recorded h (SignatureAlgorithms ss) \<longleftrightarrow> ch_signatureAlgorithms h = ss"
| "ext_recorded h (KeyShares ks) \<longleftrightarrow> ch_keyShares h = ks"
| "ext_recorded h (OtherExt t d) \<longleftrightarrow> True"

lemma vec_at_end:
  "length v < 256 \<Longrightarrow> readVector (Suc 0) (at_cursor pre (vec8 v)) = Ok (v, at_cursor (pre @ vec8 v) [])"
  "length v < 65536 \<Longrightarrow> readVector 2 (at_cursor pre (vec16 v)) = Ok (v, at_cursor (pre @ vec16 v) [])"
  using readVector1_at [of v pre "[]"] readVector2_at [of v pre "[]"] by simp_all

lemma parseServerName_names:
  "ext_fits (ServerNames ns) \<Longrightarrow>
     parseServerNameExtension (vec16 (concat (map name_bytes ns))) = Ok (host_name ns)"
  by (simp add: parseServerNameExtension_def new_cursor_at vec_at_end serverName_loop_names
      host_name_def sniHostName_def list_all_iff)

lemma parseClientKeyShare_shares:
  "ext_fits (KeyShares ks) \<Longrightarrow>
     parseClientKeyShareExtension (vec16 (concat (map share_bytes ks))) = Ok ks"
  by (simp add: parseClientKeyShareExtension_def new_cursor_at vec_at_end keyShare_loop_shares
      list_all_iff)

text \<open>One extension sets its field and leaves what extensions of other types have set.\<close>

lemma apply_extension_records:
  assumes "ext_fits e"
  shows "\<exists>h'. apply_extension (fst (ext_code e)) (snd (ext_code e)) h = Ok h' \<and> ext_recorded h' e
    \<and> (\<forall>e'. ext_fits e' \<longrightarrow> fst (ext_code e') \<noteq> fst (ext_code e) \<longrightarrow>
         ext_recorded h' e' = ext_recorded h e')
    \<and> ch_legacyVersion h' = ch_legacyVersion h \<and> ch_random h' = ch_random h
    \<and> ch_legacySessionID h' = ch_legacySessionID h \<and> ch_cipherSuites h' = ch_cipherSuites h"
proof -
  have other: "(ext_recorded h' e' = ext_recorded h e') \<or> fst (ext_code e') = fst (ext_code e)"
    if "ext_fits e'" "h' = (case e of ServerNames ns \<Rightarrow> h\<lparr>ch_serverName := host_name ns\<rparr>
        | SupportedVersions vs \<Rightarrow> h\<lparr>ch_supportedVersions := vs\<rparr>
        | SupportedGroups gs \<Rightarrow> h\<lparr>ch_supportedGroups := gs\<rparr>
        | SignatureAlgorithms ss \<Rightarrow> h\<lparr>ch_signatureAlgorithms := ss\<rparr>
        | KeyShares ks \<Rightarrow> h\<lparr>ch_keyShares := ks\<rparr> | OtherExt t d \<Rightarrow> h)" for h' e'
    using that by (cases e; cases e') simp_all
  show ?thesis
    using assms other
    by (cases e) (auto simp: apply_extension_def ext_types parseServerName_names
        parseClientKeyShare_shares parseSupportedVersions_vec8 parseU16Vector_2
        simp del: ext_fits.simps(1,5) split: if_splits)
qed

lemma apply_all_records:
  assumes "list_all ext_fits es" "distinct (map (fst \<circ> ext_code) es)"
  shows "\<exists>h'. apply_all (map ext_code es) h = Ok h' \<and> list_all (ext_recorded h') es
    \<and> (\<forall>e'. ext_fits e' \<longrightarrow> fst (ext_code e') \<notin> set (map (fst \<circ> ext_code) es) \<longrightarrow>
         ext_recorded h' e' = ext_recorded h e')
    \<and> ch_legacyVersion h' = ch_legacyVersion h \<and> ch_random h' = ch_random h
    \<and> ch_legacySessionID h' = ch_legacySessionID h \<and> ch_cipherSuites h' = ch_cipherSuites h"
  using assms
proof (induction es arbitrary: h)
  case Nil then show ?case by simp
next
  case (Cons e es)
  obtain h1 where h1: "apply_extension (fst (ext_code e)) (snd (ext_code e)) h = Ok h1"
      "ext_recorded h1 e"
      "\<And>e'. ext_fits e' \<Longrightarrow> fst (ext_code e') \<noteq> fst (ext_code e) \<Longrightarrow> ext_recorded h1 e' = ext_recorded h e'"
      "ch_legacyVersion h1 = ch_legacyVersion h" "ch_random h1 = ch_random h"
      "ch_legacySessionID h1 = ch_legacySessionID h" "ch_cipherSuites h1 = ch_cipherSuites h"
    using apply_extension_records [of e h] Cons.prems(1) by auto
  obtain h2 where h2: "apply_all (map ext_code es) h1 = Ok h2" "list_all (ext_recorded h2) es"
      "\<And>e'. ext_fits e' \<Longrightarrow> fst (ext_code e') \<notin> set (map (fst \<circ> ext_code) es) \<Longrightarrow>
         ext_recorded h2 e' = ext_recorded h1 e'"
      "ch_legacyVersion h2 = ch_legacyVersion h1" "ch_random h2 = ch_random h1"
      "ch_legacySessionID h2 = ch_legacySessionID h1" "ch_cipherSuites h2 = ch_cipherSuites h1"
    using Cons.IH [of h1] Cons.prems by auto
  have "ext_recorded h2 e" using h2(3) h1(2) Cons.prems by simp
  then show ?case using h1 h2 by (intro exI [of _ h2]) simp
qed

subsection \<open>Framing of a handshake message\<close>

lemma unat_u24_of: "unat (u24_of a b c) = unat a * 65536 + unat b * 256 + unat c"
proof -
  have "u24_of a b c = push_bit 16 (ucast a) + (push_bit 8 (ucast b) + ucast c)"
    unfolding u24_of_def or.assoc
    by (subst disjunctive_add [symmetric], fastforce simp: bit_simps dest: bit_imp_le_length)+ (rule refl)
  also have "\<dots> = of_nat (unat a * 65536 + unat b * 256 + unat c)"
    by (simp add: push_bit_eq_mult mult.commute)
  finally have "unat (u24_of a b c) = (unat a * 65536 + unat b * 256 + unat c) mod 2 ^ 32"
    by (simp only: unat_of_nat) simp
  moreover have "unat a < 256" "unat b < 256" "unat c < 256" by (rule unat_byte_lt)+
  ultimately show ?thesis by simp
qed

lemma base256_digits:
  fixes n a b c :: nat
  assumes "n < 2 ^ 24" "a < 256" "b < 256" "c < 256"
  shows "n div 65536 mod 256 = a \<and> n div 256 mod 256 = b \<and> n mod 256 = c
    \<longleftrightarrow> n = a * 65536 + b * 256 + c"
proof
  assume l: "n div 65536 mod 256 = a \<and> n div 256 mod 256 = b \<and> n mod 256 = c"
  have d: "n div 65536 = n div 256 div 256" by (simp add: div_mult2_eq [symmetric])
  have "n div 65536 < 256" using assms(1) by (simp add: less_mult_imp_div_less)
  then have "n div 256 div 256 = a" using l d by simp
  then have "n div 256 = a * 256 + b" using l div_mult_mod_eq [of "n div 256" 256] by simp
  then show "n = a * 65536 + b * 256 + c" using l div_mult_mod_eq [of n 256] by simp
next
  assume n: "n = a * 65536 + b * 256 + c"
  have n': "n = (a * 256 + b) * 256 + c" using n by simp
  have m: "n mod 256 = c" using assms(4) unfolding n' by (simp only: mod_mult_self3 mod_less)
  have "n div 256 = a * 256 + b" using n' assms by simp
  moreover have "n div 65536 = n div 256 div 256" by (simp add: div_mult2_eq [symmetric])
  ultimately show "n div 65536 mod 256 = a \<and> n div 256 mod 256 = b \<and> n mod 256 = c"
    using m assms by simp
qed

lemma u24_bytes_eq_iff:
  assumes "n < 2 ^ 24"
  shows "u24_bytes n = [a, b, c] \<longleftrightarrow> unat (u24_of a b c) = n"
proof -
  have "u24_bytes n = [a, b, c] \<longleftrightarrow>
      n div 65536 mod 256 = unat a \<and> n div 256 mod 256 = unat b \<and> n mod 256 = unat c"
    by (simp add: u24_bytes_def word_unat_eq_iff unat_of_nat)
  also have "\<dots> \<longleftrightarrow> n = unat a * 65536 + unat b * 256 + unat c"
    using assms by (intro base256_digits unat_byte_lt)
  finally show ?thesis by (auto simp: unat_u24_of)
qed

lemma length_u24_bytes [simp]: "length (u24_bytes n) = 3"
  by (simp add: u24_bytes_def)

lemma marshal_parse_iff:
  "marshalHandshake typ body = Ok msg \<longleftrightarrow> parseHandshake msg = Ok (typ, body)"
proof (cases "4 \<le> length msg")
  case False
  then show ?thesis
    by (auto simp: marshalHandshake_def parseHandshake_def handshakeHeaderLen_def u24_bytes_def)
next
  case True
  then obtain t a b c rest where msg: "msg = t # a # b # c # rest"
    by (auto simp: numeral_eq_Suc Suc_le_length_iff)
  have "unat (u24_of a b c) < 2 ^ 24"
    using unat_byte_lt [of a] unat_byte_lt [of b] unat_byte_lt [of c] by (simp add: unat_u24_of)
  then show ?thesis
    using u24_bytes_eq_iff [of "length rest" a b c]
    by (auto simp: msg marshalHandshake_def parseHandshake_def handshakeHeaderLen_def go_simps Let_def
        u24_bytes_def)
qed

subsection \<open>The server's messages\<close>

lemma length_extension_bytes [simp]: "length (extension_bytes e) = length (snd e) + 4"
  by (simp add: extension_bytes_def)

lemma marshalServerHello_layout:
  assumes "length sid \<le> 255" "length pub = 32"
  shows "marshalServerHello random sid pub =
    Ok (u16_bytes tls12Version @ random @ vec8 sid @ u16_bytes cipherTLSAES128GCMSHA256 @ [0]
      @ vec16 (extension_bytes (extTypeSupportedVersions, u16_bytes tls13Version)
           @ extension_bytes (extTypeKeyShare, u16_bytes namedGroupX25519 @ vec16 pub)))"
  using assms
  by (simp add: marshalServerHello_def appendU8Vector_def appendU16Vector_def appendExtension_def
      appendServerSupportedVersionsExtension_def appendServerKeyShareExtension_def extension_bytes_def
      vec8_def vec16_def)

lemma marshalCertificate_layout:
  assumes "length der < 2 ^ 24 - 5"
  shows "marshalCertificate der =
    Ok ([0] @ u24_bytes (length der + 5) @ u24_bytes (length der) @ der @ [0, 0])"
  using assms by (simp add: marshalCertificate_def appendU24Vector_def add.commute)

lemma marshalCertificateVerify_layout:
  "length sig < 65536 \<Longrightarrow> marshalCertificateVerify scheme sig = Ok (u16_bytes scheme @ vec16 sig)"
  by (simp add: marshalCertificateVerify_def appendU16Vector_def vec16_def)

subsection \<open>Properties of the messages\<close>

text \<open>
  C24: the ClientHello parser reads every well-formed ClientHello: whatever the version, random,
  session id, cipher suites and extensions (of distinct types, within the length limits of the wire
  format, in any order, unknown ones among them), the parsed message has exactly these fields, and
  for each extension the value it carries.
\<close>
theorem parseClientHello_reads_well_formed:
  assumes "length random = 32" "length sid \<le> 32" "length suites < 32768"
    and "list_all ext_fits exts" "distinct (map (fst \<circ> ext_code) exts)"
    and "list_all (\<lambda>e. length (snd (ext_code e)) < 65536) exts"
    and "length (concat (map (extension_bytes \<circ> ext_code) exts)) < 65536"
  shows "\<exists>h. parseClientHello (hello_bytes version random sid suites (map ext_code exts)) = Ok h
    \<and> ch_legacyVersion h = version \<and> ch_random h = random \<and> ch_legacySessionID h = sid
    \<and> ch_cipherSuites h = suites \<and> list_all (ext_recorded h) exts"
proof -
  have "hello_fits random sid suites (map ext_code exts)"
    using assms by (auto simp: hello_fits_def framed_extensions_def list_all_iff comp_def)
  then show ?thesis
    using apply_all_records [OF assms(4,5), of "hello_base version random sid suites"]
    by (auto simp: parseClientHello_reads hello_base_def)
qed

definition curl_hello_exts :: "hello_ext list" where
  "curl_hello_exts = [ServerNames [(0, [108, 111, 99])], OtherExt 16 [0, 0], SupportedGroups [0x1D, 0x17],
     SignatureAlgorithms [0x0403], SupportedVersions [0x0304, 0x0303],
     KeyShares [\<lparr>ks_group = 0x1D, ks_keyExchange = replicate 32 7\<rparr>]]"

theorem parseClientHello_reads_well_formed_witness:
  "\<exists>h. parseClientHello (hello_bytes 0x0303 (replicate 32 1) [5] [0x1301, 0x1302]
      (map ext_code curl_hello_exts)) = Ok h
    \<and> ch_cipherSuites h = [0x1301, 0x1302] \<and> ch_serverName h = [108, 111, 99]
    \<and> ch_supportedVersions h = [0x0304, 0x0303]
    \<and> findKeyShare h 0x1D = replicate 32 7"
proof -
  have "\<exists>h. parseClientHello (hello_bytes 0x0303 (replicate 32 1) [5] [0x1301, 0x1302]
      (map ext_code curl_hello_exts)) = Ok h
    \<and> ch_legacyVersion h = 0x0303 \<and> ch_random h = replicate 32 1 \<and> ch_legacySessionID h = [5]
    \<and> ch_cipherSuites h = [0x1301, 0x1302] \<and> list_all (ext_recorded h) curl_hello_exts"
    by (rule parseClientHello_reads_well_formed)
      (simp_all add: curl_hello_exts_def name_bytes_def share_bytes_def)
  then show ?thesis
    by (auto simp: curl_hello_exts_def host_name_def findKeyShare_def)
qed

text \<open>
  C30: the ClientHello parser is strict, total and exact. Whatever bytes arrive, it returns, without a panic.
  It accepts a byte string if and only if it is a framed ClientHello: 32 random bytes, a session id of at most
  32, every length prefix consistent with what follows and with its enclosing vector, no byte left over, the
  null compression method alone, no extension type twice, and every known extension well formed; the result
  records exactly the fixed fields and what the extensions say.
\<close>
theorem parseClientHello_strict:
  "parseClientHello body \<noteq> Panic \<and>
   (parseClientHello body = Ok h \<longleftrightarrow>
     (\<exists>version random sid suites es. body = hello_bytes version random sid suites es
        \<and> hello_fits random sid suites es \<and> apply_all es (hello_base version random sid suites) = Ok h))"
  using parseClientHello_accepts [of body h] parseClientHello_reads parseClientHello_never_panics_lemma
  by auto

text \<open>
  Framing of handshake messages. \<^verbatim>\<open>marshalHandshake\<close> and \<^verbatim>\<open>parseHandshake\<close> are inverse to each
  other: a byte string is the message of a type and a body if and only if it parses to them, and the
  marshaler refuses (with the panic of the code) only bodies that a 24-bit length cannot hold.
\<close>
theorem handshake_framing_inverse:
  "(marshalHandshake t body = Ok msg \<longleftrightarrow> parseHandshake msg = Ok (t, body))
   \<and> (marshalHandshake t body = Panic \<longleftrightarrow> 2 ^ 24 \<le> length body) \<and> parseHandshake msg \<noteq> Panic"
  using marshal_parse_iff [of t body msg]
  by (auto simp: marshalHandshake_def parseHandshake_def rbind_eqs idx_def slice_from_def
      handshakeHeaderLen_def Let_def)

end
