(* ===== verification/Tls_Record.thy ===== *)
theory Tls_Record
  imports Tls_Base
begin

unbundle bit_operations_syntax

section \<open>The TLS 1.3 record layer (tls/record.go)\<close>

text \<open>
  Records on the wire, the nonce of a record, sealing and opening. AES-128-GCM is not part of the
  repository: an AEAD is a record of functions, and what the code relies on is \<open>aead_correct\<close>. Fixed
  arrays are byte lists whose length the definitions keep.
\<close>

subsection \<open>Constants and errors\<close>

definition contentTypeChangeCipherSpec :: byte where "contentTypeChangeCipherSpec = 20"
definition contentTypeAlert :: byte where "contentTypeAlert = 21"
definition contentTypeHandshake :: byte where "contentTypeHandshake = 22"
definition contentTypeApplicationData :: byte where "contentTypeApplicationData = 23"

lemmas content_types = contentTypeChangeCipherSpec_def contentTypeAlert_def contentTypeHandshake_def
  contentTypeApplicationData_def

definition legacyRecordVersion :: u16 where "legacyRecordVersion = 0x0303"
definition recordHeaderLen :: nat where "recordHeaderLen = 5"
definition maxPlaintextLength :: nat where "maxPlaintextLength = 2 ^ 14"
definition maxCiphertextLength :: nat where "maxCiphertextLength = 2 ^ 14 + 256"
definition aeadKeyLen :: nat where "aeadKeyLen = 16"
definition aeadIVLen :: nat where "aeadIVLen = 12"
definition aeadOverhead :: nat where "aeadOverhead = 16"

lemmas record_limits = recordHeaderLen_def maxPlaintextLength_def maxCiphertextLength_def
  aeadKeyLen_def aeadIVLen_def aeadOverhead_def

subsection \<open>Reading and writing records\<close>

definition tls_readRecord :: "(reader, bytes \<times> bytes) action" where
  "tls_readRecord r =
     (case ReadFull recordHeaderLen r of
        Ok (header, r1) \<Rightarrow>
          let n = unat (u16_of (header ! 3) (header ! 4)) in
          if maxCiphertextLength < n then (Err (ErrRecordTooLarge n), r1)
          else (case ReadFull n r1 of
              Ok (fragment, r2) \<Rightarrow> (Ok (header, fragment), r2)
            | Err e \<Rightarrow> (Err (ErrIO e), ([], snd r))
            | Panic \<Rightarrow> (Panic, r1))
      | Err e \<Rightarrow> (Err (ErrIO e), ([], snd r))
      | Panic \<Rightarrow> (Panic, r))"

definition record_header :: "byte \<Rightarrow> nat \<Rightarrow> bytes" where
  "record_header contentType n = contentType # u16_bytes legacyRecordVersion @ u16_bytes (of_nat n)"

text \<open>The bytes that \<^verbatim>\<open>writeRecord\<close> hands to the writer.\<close>

definition record_bytes :: "byte \<Rightarrow> bytes \<Rightarrow> bytes outcome" where
  "record_bytes contentType fragment =
     (if maxCiphertextLength < length fragment then Err (ErrRecordTooLarge (length fragment))
      else Ok (record_header contentType (length fragment) @ fragment))"

subsection \<open>Nonces and keys\<close>

definition nonceForSeq :: "bytes \<Rightarrow> u64 \<Rightarrow> bytes" where
  "nonceForSeq iv sq = map2 (XOR) (replicate 4 0 @ u64_bytes sq) iv"

record aead =
  aead_Overhead :: nat
  aead_Seal :: "bytes \<Rightarrow> bytes \<Rightarrow> bytes \<Rightarrow> bytes"
  aead_Open :: "bytes \<Rightarrow> bytes \<Rightarrow> bytes \<Rightarrow> bytes option"

text \<open>
  What the code relies on: \<open>Open\<close> undoes \<open>Seal\<close> under the same nonce and additional data, and
  sealing adds the 16 bytes that \<^verbatim>\<open>Overhead()\<close> reports.
\<close>

definition aead_correct :: "aead \<Rightarrow> bool" where
  "aead_correct a \<longleftrightarrow> aead_Overhead a = aeadOverhead \<and> (\<forall>n p d. aead_Open a n (aead_Seal a n p d) d = Some p
     \<and> length (aead_Seal a n p d) = length p + aeadOverhead)"

record recordKeys =
  rk_aead :: aead
  rk_iv :: bytes
  rk_seq :: u64

text \<open>\<open>gcm key\<close> is the AEAD that \<^verbatim>\<open>aes.NewCipher\<close> and \<^verbatim>\<open>cipher.NewGCM\<close> build from a 16-byte key.\<close>

definition newRecordKeys :: "(bytes \<Rightarrow> aead) \<Rightarrow> bytes \<Rightarrow> bytes \<Rightarrow> recordKeys outcome" where
  "newRecordKeys gcm key iv =
     (if length key \<noteq> aeadKeyLen then Err (ErrInvalidKeyLength (length key))
      else if length iv \<noteq> aeadIVLen then Err (ErrInvalidIVLength (length iv))
      else Ok \<lparr>rk_aead = gcm key, rk_iv = iv, rk_seq = 0\<rparr>)"

subsection \<open>Seal and Open\<close>

definition rk_Seal :: "byte \<Rightarrow> bytes \<Rightarrow> recordKeys \<Rightarrow> (bytes \<times> recordKeys) outcome" where
  "rk_Seal innerType plaintext r =
     (let inner = plaintext @ [innerType]; ciphertextLen = length inner + aead_Overhead (rk_aead r) in
      if maxCiphertextLength < ciphertextLen then Err (ErrRecordTooLarge ciphertextLen)
      else
        let header = record_header contentTypeApplicationData ciphertextLen;
            sealed = aead_Seal (rk_aead r) (nonceForSeq (rk_iv r) (rk_seq r)) inner header in
        Ok (header @ sealed, r\<lparr>rk_seq := rk_seq r + 1\<rparr>))"

text \<open>The scan back over the zero padding: the bytes up to the last non-zero one.\<close>

definition strip_zeros :: "bytes \<Rightarrow> bytes" where
  "strip_zeros inner = rev (dropWhile (\<lambda>b. b = 0) (rev inner))"

definition rk_Open ::
  "bytes \<Rightarrow> bytes \<Rightarrow> recordKeys \<Rightarrow> (byte \<times> bytes \<times> recordKeys) outcome" where
  "rk_Open header ciphertext r =
     (case aead_Open (rk_aead r) (nonceForSeq (rk_iv r) (rk_seq r)) ciphertext header of
        None \<Rightarrow> Err ErrAEADOpen
      | Some inner \<Rightarrow>
          let kept = strip_zeros inner in
          if kept = [] then Err ErrEmptyInnerPlaintext
          else Ok (last kept, butlast kept, r\<lparr>rk_seq := rk_seq r + 1\<rparr>))"

subsection \<open>Record framing\<close>

lemma length_record_header [simp]: "length (record_header t n) = 5"
  by (simp add: record_header_def)

lemma record_header_nth [simp]: "record_header t n ! 0 = t"
  by (simp add: record_header_def)

lemma record_header_length:
  "u16_of (record_header t n ! 3) (record_header t n ! 4) = of_nat n"
  by (simp add: record_header_def u16_bytes_def)

lemma tls_readRecord_framed:
  assumes "length fragment \<le> maxCiphertextLength"
  shows "tls_readRecord (record_header t (length fragment) @ fragment @ rest, e) =
    (Ok (record_header t (length fragment), fragment), (rest, e))"
proof -
  have n: "unat (of_nat (length fragment) :: u16) = length fragment"
    using assms by (simp only: unat_of_nat) (simp add: maxCiphertextLength_def)
  have hd: "ReadFull recordHeaderLen (record_header t (length fragment) @ fragment @ rest, e) =
      Ok (record_header t (length fragment), fragment @ rest, e)"
    using ReadFull_append [of "record_header t (length fragment)"] by (simp add: recordHeaderLen_def)
  show ?thesis
    using assms n by (simp add: tls_readRecord_def Let_def hd ReadFull_append record_header_length)
qed

lemma take_take_drop: "take k xs @ take n (drop k xs) @ drop (n + k) xs = xs"
  by (metis append_take_drop_id drop_drop)

lemma tls_readRecord_cases:
  obtains e r' where "tls_readRecord r = (Err e, r')"
  | header fragment r' where "tls_readRecord r = (Ok (header, fragment), r')"
      "length header = 5" "length fragment \<le> maxCiphertextLength"
      "fst r = header @ fragment @ fst r'" "snd r' = snd r"
proof (cases "fst (tls_readRecord r)")
  case Panic
  then show ?thesis
    by (auto simp: tls_readRecord_def ReadFull_def Let_def split: if_splits)
next
  case (Err e)
  then show ?thesis using that(1) by (metis prod.collapse)
next
  case (Ok a)
  obtain header fragment where a: "a = (header, fragment)" by (cases a)
  obtain r' where r': "tls_readRecord r = (Ok (header, fragment), r')"
    using Ok a by (metis prod.collapse)
  then have "length header = 5" "length fragment \<le> maxCiphertextLength"
      "fst r = header @ fragment @ fst r'" "snd r' = snd r"
    by (auto simp: tls_readRecord_def ReadFull_def Let_def recordHeaderLen_def take_take_drop split: if_splits)
  then show ?thesis using r' that(2) by blast
qed

lemma rk_Seal_opens:
  assumes "aead_correct (rk_aead w)" "rk_aead r = rk_aead w" "rk_iv r = rk_iv w" "rk_seq r = rk_seq w"
    "t \<noteq> 0" "length p \<le> maxPlaintextLength"
  shows "\<exists>fragment. rk_Seal t p w = Ok (record_header contentTypeApplicationData (length fragment) @ fragment,
        w\<lparr>rk_seq := rk_seq w + 1\<rparr>)
    \<and> length fragment \<le> maxCiphertextLength
    \<and> rk_Open (record_header contentTypeApplicationData (length fragment)) fragment r =
        Ok (t, p, r\<lparr>rk_seq := rk_seq r + 1\<rparr>)"
proof -
  let ?h = "record_header contentTypeApplicationData (17 + length p)"
  let ?f = "aead_Seal (rk_aead w) (nonceForSeq (rk_iv w) (rk_seq w)) (p @ [t]) ?h"
  have o: "aead_Overhead (rk_aead w) = 16" using assms(1) by (simp add: aead_correct_def aeadOverhead_def)
  have f: "length ?f = length p + 17"
    "aead_Open (rk_aead r) (nonceForSeq (rk_iv r) (rk_seq r)) ?f ?h = Some (p @ [t])"
    using assms(1-4) by (simp_all add: aead_correct_def aeadOverhead_def)
  have "strip_zeros (p @ [t]) = p @ [t]" using assms(5) by (simp add: strip_zeros_def)
  then show ?thesis
    using f o assms(6) by (intro exI [of _ ?f]) (simp add: rk_Seal_def rk_Open_def Let_def record_limits add.commute)
qed

lemma byte_of_drop_bit:
  fixes a b :: u64
  assumes "(ucast (drop_bit k a) :: byte) = ucast (drop_bit k b)" "k \<le> n" "n < k + 8"
  shows "bit a n = bit b n"
proof -
  have "bit (ucast (drop_bit k a) :: byte) (n - k) = bit (ucast (drop_bit k b) :: byte) (n - k)"
    by (simp only: assms(1))
  moreover have "n - k < 8" "k + (n - k) = n" using assms(2,3) by simp_all
  ultimately show ?thesis by (simp only: bit_ucast_iff bit_drop_bit_eq) (simp add: bit_drop_bit_eq)
qed

lemma u64_bytes_inject: "u64_bytes a = u64_bytes b \<longleftrightarrow> a = b"
proof
  assume eq: "u64_bytes a = u64_bytes b"
  show "a = b"
  proof (rule bit_word_eqI)
    fix n assume n: "n < LENGTH(64)"
    have bytes: "(ucast (drop_bit 56 a) :: byte) = ucast (drop_bit 56 b)"
      "(ucast (drop_bit 48 a) :: byte) = ucast (drop_bit 48 b)"
      "(ucast (drop_bit 40 a) :: byte) = ucast (drop_bit 40 b)"
      "(ucast (drop_bit 32 a) :: byte) = ucast (drop_bit 32 b)"
      "(ucast (drop_bit 24 a) :: byte) = ucast (drop_bit 24 b)"
      "(ucast (drop_bit 16 a) :: byte) = ucast (drop_bit 16 b)"
      "(ucast (drop_bit 8 a) :: byte) = ucast (drop_bit 8 b)"
      "(ucast (drop_bit 0 a) :: byte) = ucast (drop_bit 0 b)"
      using eq unfolding u64_bytes_def list.inject drop_bit_0 id_apply by blast+
    consider "n < 8" | "8 \<le> n" "n < 16" | "16 \<le> n" "n < 24" | "24 \<le> n" "n < 32"
      | "32 \<le> n" "n < 40" | "40 \<le> n" "n < 48" | "48 \<le> n" "n < 56" | "56 \<le> n"
      by linarith
    then show "bit a n = bit b n"
    proof cases
      case 1 then show ?thesis by (intro byte_of_drop_bit [OF bytes(8)]) simp_all
    next
      case 2 then show ?thesis by (intro byte_of_drop_bit [OF bytes(7)]) simp_all
    next
      case 3 then show ?thesis by (intro byte_of_drop_bit [OF bytes(6)]) simp_all
    next
      case 4 then show ?thesis by (intro byte_of_drop_bit [OF bytes(5)]) simp_all
    next
      case 5 then show ?thesis by (intro byte_of_drop_bit [OF bytes(4)]) simp_all
    next
      case 6 then show ?thesis by (intro byte_of_drop_bit [OF bytes(3)]) simp_all
    next
      case 7 then show ?thesis by (intro byte_of_drop_bit [OF bytes(2)]) simp_all
    next
      case 8 then show ?thesis using n by (intro byte_of_drop_bit [OF bytes(1)]) simp_all
    qed
  qed
qed simp

lemma nonceForSeq_inject:
  assumes "length iv = 12"
  shows "nonceForSeq iv a = nonceForSeq iv b \<longleftrightarrow> a = b"
proof
  assume eq: "nonceForSeq iv a = nonceForSeq iv b"
  have len: "length (replicate 4 0 @ u64_bytes c) = length iv" for c
    using assms by simp
  have inj: "map2 (XOR) xs zs = map2 (XOR) ys zs \<Longrightarrow> length xs = length zs \<Longrightarrow> length ys = length zs
      \<Longrightarrow> xs = ys" for xs ys zs :: bytes
  proof (induction xs zs arbitrary: ys rule: list_induct2')
    case (4 x xs z zs)
    then obtain y ys' where ys: "ys = y # ys'" by (cases ys) auto
    have "x XOR z = y XOR z" using 4(2) ys by simp
    then have "(x XOR z) XOR z = (y XOR z) XOR z" by simp
    then have "x = y" by (simp add: xor.assoc)
    then show ?case using 4 ys by simp
  qed auto
  have "replicate 4 0 @ u64_bytes a = replicate 4 0 @ u64_bytes b"
    by (rule inj [OF eq [unfolded nonceForSeq_def] len len])
  then have "u64_bytes a = u64_bytes b" by (simp only: same_append_eq)
  then show "a = b" by (simp only: u64_bytes_inject)
qed simp

subsection \<open>A run of seals\<close>

text \<open>
  The records that a series of \<^verbatim>\<open>Seal\<close> calls on one \<^verbatim>\<open>recordKeys\<close> returns, each with the nonce it was sealed
  under. A call that refuses its plaintext returns no record and leaves the keys as they are.
\<close>

fun seal_run :: "(byte \<times> bytes) list \<Rightarrow> recordKeys \<Rightarrow> (bytes \<times> bytes) list" where
  "seal_run [] r = []"
| "seal_run ((t, p) # ms) r =
     (case rk_Seal t p r of
        Ok (out, r') \<Rightarrow> (nonceForSeq (rk_iv r) (rk_seq r), out) # seal_run ms r'
      | _ \<Rightarrow> seal_run ms r)"

lemma rk_Seal_cases:
  obtains e where "rk_Seal t p r = Err e"
  | inner header where "rk_Seal t p r =
      Ok (header @ aead_Seal (rk_aead r) (nonceForSeq (rk_iv r) (rk_seq r)) inner header,
          r\<lparr>rk_seq := rk_seq r + 1\<rparr>)" "inner = p @ [t]"
  by (cases "rk_Seal t p r") (auto simp: rk_Seal_def Let_def split: if_splits)

lemma seal_run_nonces:
  "length ms \<le> n \<Longrightarrow> map fst (seal_run ms r) =
     map (\<lambda>i. nonceForSeq (rk_iv r) (rk_seq r + of_nat i)) [0..<length (seal_run ms r)]"
proof (induction ms arbitrary: r)
  case (Cons m ms)
  obtain t p where m: "m = (t, p)" by (cases m)
  show ?case
  proof (cases rule: rk_Seal_cases [of t p r])
    case (1 e)
    then show ?thesis using Cons m by simp
  next
    case (2 inner header)
    let ?r' = "r\<lparr>rk_seq := rk_seq r + 1\<rparr>"
    have "map fst (seal_run ms ?r') =
        map (\<lambda>i. nonceForSeq (rk_iv r) (rk_seq r + of_nat (Suc i))) [0..<length (seal_run ms ?r')]"
      using Cons by (simp add: ac_simps)
    then show ?thesis using 2 m
      by (simp add: upt_conv_Cons map_Suc_upt [symmetric] comp_def del: upt_Suc)
  qed
qed simp

lemma seal_run_sealed:
  "(n, out) \<in> set (seal_run ms r) \<Longrightarrow> \<exists>inner header. out = header @ aead_Seal (rk_aead r) n inner header"
proof (induction ms arbitrary: r)
  case (Cons m ms)
  obtain t p where m: "m = (t, p)" by (cases m)
  show ?case
  proof (cases rule: rk_Seal_cases [of t p r])
    case (1 e)
    then show ?thesis using Cons m by simp
  next
    case (2 inner header)
    then show ?thesis using Cons.IH [of "r\<lparr>rk_seq := rk_seq r + 1\<rparr>"] Cons.prems m by auto
  qed
qed simp

lemma length_seal_run: "length (seal_run ms r) \<le> length ms"
proof (induction ms arbitrary: r)
  case (Cons m ms)
  obtain t p where m: "m = (t, p)" by (cases m)
  show ?case
    using Cons [of r] Cons [of "r\<lparr>rk_seq := rk_seq r + 1\<rparr>"] m
    by (cases rule: rk_Seal_cases [of t p r]) auto
qed simp

subsection \<open>Properties of the record layer\<close>

text \<open>
  C28: a nonce is never used twice with one key. Over any series of \<^verbatim>\<open>Seal\<close> calls on one \<^verbatim>\<open>recordKeys\<close>
  (refused ones among them), up to the 2^64 that the sequence number counts, every record is sealed
  under a nonce of its own; sealing is deterministic otherwise.
\<close>
theorem seal_nonces_never_repeat:
  assumes "length (rk_iv r) = aeadIVLen" "length ms \<le> 2 ^ 64"
  shows "distinct (map fst (seal_run ms r)) \<and>
    (\<forall>(n, out) \<in> set (seal_run ms r). \<exists>inner header.
      out = header @ aead_Seal (rk_aead r) n inner header)"
proof
  let ?k = "length (seal_run ms r)"
  have k: "?k \<le> 2 ^ 64" using length_seal_run [of ms r] assms(2) by (rule order.trans)
  have "inj_on (\<lambda>i. nonceForSeq (rk_iv r) (rk_seq r + of_nat i)) {0..<?k}"
  proof (rule inj_onI)
    fix i j assume "i \<in> {0..<?k}" "j \<in> {0..<?k}"
      and "nonceForSeq (rk_iv r) (rk_seq r + of_nat i) = nonceForSeq (rk_iv r) (rk_seq r + of_nat j)"
    then have eq: "(of_nat i :: u64) = of_nat j" and lt: "i < 2 ^ 64" "j < 2 ^ 64"
      using assms(1) k by (simp_all add: nonceForSeq_inject aeadIVLen_def)
    have "i mod 2 ^ LENGTH(64) = j mod 2 ^ LENGTH(64)"
      using arg_cong [OF eq, of unat] unfolding unat_of_nat .
    then show "i = j" using lt by simp
  qed
  then show "distinct (map fst (seal_run ms r))"
    by (simp add: seal_run_nonces [OF order.refl] distinct_map)
  show "\<forall>(n, out) \<in> set (seal_run ms r). \<exists>inner header.
      out = header @ aead_Seal (rk_aead r) n inner header"
    using seal_run_sealed by blast
qed

text \<open>A transparent AEAD, for evaluating the definitions: a 16-byte tag of the nonce.\<close>

definition tag_aead :: aead where
  "tag_aead = \<lparr>aead_Overhead = 16, aead_Seal = \<lambda>n p d. p @ take 16 (n @ replicate 16 0),
     aead_Open = \<lambda>n c d.
       if drop (length c - 16) c = take 16 (n @ replicate 16 0) then Some (take (length c - 16) c) else None\<rparr>"

definition tag_keys :: recordKeys where
  "tag_keys = \<lparr>rk_aead = tag_aead, rk_iv = [1, 2, 3, 4, 5, 6, 7, 8, 9, 10, 11, 12], rk_seq = 0\<rparr>"

lemma tag_aead_correct: "aead_correct tag_aead"
  by (simp add: aead_correct_def tag_aead_def aeadOverhead_def min_def)

theorem seal_nonces_never_repeat_witness:
  "distinct (map fst (seal_run [(23, [1]), (22, []), (23, [1])] tag_keys))
   \<and> length (seal_run [(23, [1]), (22, []), (23, [1])] tag_keys) = 3"
  using seal_nonces_never_repeat [of tag_keys "[(23, [1]), (22, []), (23, [1])]"]
  by (simp add: tag_keys_def tag_aead_def rk_Seal_def record_limits Let_def)

lemma rk_Open_strips_padding:
  assumes "t \<noteq> 0" "aead_Open (rk_aead r) (nonceForSeq (rk_iv r) (rk_seq r)) c header =
      Some (p @ [t] @ replicate k 0)"
  shows "rk_Open header c r = Ok (t, p, r\<lparr>rk_seq := rk_seq r + 1\<rparr>)"
  using assms by (simp add: rk_Open_def strip_zeros_def Let_def dropWhile_append)

lemma rk_Open_only_zeros:
  assumes "aead_Open (rk_aead r) (nonceForSeq (rk_iv r) (rk_seq r)) c header = Some (replicate k 0)"
  shows "rk_Open header c r = Err ErrEmptyInnerPlaintext"
  using assms by (simp add: rk_Open_def strip_zeros_def Let_def dropWhile_append)

lemma rk_Open_never_panics [simp]: "rk_Open header c r \<noteq> Panic"
  by (auto simp: rk_Open_def Let_def split: option.splits)

lemma rk_Seal_never_panics [simp]: "rk_Seal t p r \<noteq> Panic"
  by (cases rule: rk_Seal_cases [of t p r]) auto

text \<open>
  The code does not tell a truncated stream from a closed one, as the comment on \<^verbatim>\<open>readRecord\<close> says
  it does. A stream that ends between the header of a record and its fragment is answered with the
  plain \<^verbatim>\<open>io.EOF\<close> of a connection closed at a record boundary; only a stream that ends inside the
  header or inside the fragment is answered with \<^verbatim>\<open>io.ErrUnexpectedEOF\<close>.
\<close>
theorem cut_after_header_reads_as_clean_close:
  assumes "0 < n" "n \<le> maxCiphertextLength" "0 < k" "k < 5" "0 < m" "m < n"
  shows "fst (tls_readRecord ([], EOF)) = Err (ErrIO EOF)
    \<and> fst (tls_readRecord (take k (record_header t n), EOF)) = Err (ErrIO UnexpectedEOF)
    \<and> fst (tls_readRecord (record_header t n, EOF)) = Err (ErrIO EOF)
    \<and> fst (tls_readRecord (record_header t n @ replicate m b, EOF)) = Err (ErrIO UnexpectedEOF)"
proof -
  have n: "unat (of_nat n :: u16) = n"
    using assms(2) by (simp only: unat_of_nat) (simp add: maxCiphertextLength_def)
  have nth: "(record_header t n @ ys) ! 3 = record_header t n ! 3"
    "(record_header t n @ ys) ! 4 = record_header t n ! 4" for ys
    by (simp_all add: nth_append)
  have "record_header t n \<noteq> []" by (simp add: record_header_def)
  then show ?thesis
    using assms n
    by (auto simp: tls_readRecord_def ReadFull_def recordHeaderLen_def record_header_length nth Let_def)
qed

theorem cut_after_header_reads_as_clean_close_witness:
  "fst (tls_readRecord (record_header 23 100, EOF)) = Err (ErrIO EOF)
   \<and> fst (tls_readRecord (record_header 23 100 @ replicate 99 0, EOF)) = Err (ErrIO UnexpectedEOF)"
  using cut_after_header_reads_as_clean_close [of 100 1 99 23 0] by (simp add: record_limits)

end
