(* ===== verification/Tls_Keys.thy ===== *)
theory Tls_Keys
  imports Tls_Record
begin

unbundle bit_operations_syntax

section \<open>Key schedule, transcript and certificate signature input\<close>

text \<open>
  \<^verbatim>\<open>tls/keyschedule.go\<close>, \<^verbatim>\<open>tls/transcript.go\<close> and the signing input of \<^verbatim>\<open>tls/cert.go\<close>. HMAC and HKDF of the
  Go library are written out over a hash function; SHA-256 itself, AES-128-GCM and the ECDSA signature
  are arguments. What the code relies on of SHA-256 is that a digest has 32 bytes. \<^verbatim>\<open>hkdf.Extract\<close> fails
  only in FIPS-only mode, which the server does not set.
\<close>

record crypto =
  cr_sha256 :: "bytes \<Rightarrow> bytes"
  cr_gcm :: "bytes \<Rightarrow> aead"

definition hashLen :: nat where "hashLen = 32"
definition keyLen :: nat where "keyLen = 16"
definition ivLen :: nat where "ivLen = 12"

lemmas key_lens = hashLen_def keyLen_def ivLen_def

definition hash_ok :: "(bytes \<Rightarrow> bytes) \<Rightarrow> bool" where
  "hash_ok H \<longleftrightarrow> (\<forall>m. length (H m) = hashLen)"

subsection \<open>HMAC and HKDF\<close>

definition hmac_key :: "(bytes \<Rightarrow> bytes) \<Rightarrow> bytes \<Rightarrow> bytes" where
  "hmac_key H key = (let k = if 64 < length key then H key else key in k @ replicate (64 - length k) 0)"

definition hmac :: "(bytes \<Rightarrow> bytes) \<Rightarrow> bytes \<Rightarrow> bytes \<Rightarrow> bytes" where
  "hmac H key msg =
     (let k = hmac_key H key in H (map ((XOR) 0x5c) k @ H (map ((XOR) 0x36) k @ msg)))"

definition hkdf_Extract :: "(bytes \<Rightarrow> bytes) \<Rightarrow> bytes \<Rightarrow> bytes \<Rightarrow> bytes" where
  "hkdf_Extract H secret salt = hmac H (if salt = [] then replicate hashLen 0 else salt) secret"

fun hkdf_blocks :: "(bytes \<Rightarrow> bytes) \<Rightarrow> bytes \<Rightarrow> bytes \<Rightarrow> bytes \<Rightarrow> nat \<Rightarrow> nat \<Rightarrow> bytes" where
  "hkdf_blocks H prk info prev i 0 = []"
| "hkdf_blocks H prk info prev i (Suc n) =
     (let t = hmac H prk (prev @ info @ [of_nat i]) in t @ hkdf_blocks H prk info t (Suc i) n)"

definition hkdf_Expand :: "(bytes \<Rightarrow> bytes) \<Rightarrow> bytes \<Rightarrow> bytes \<Rightarrow> nat \<Rightarrow> bytes option" where
  "hkdf_Expand H prk info len =
     (if 255 * hashLen < len then None
      else Some (take len (hkdf_blocks H prk info [] 1 ((len + hashLen - 1) div hashLen))))"

subsection \<open>Labels and secrets\<close>

definition buildHkdfLabel :: "bytes \<Rightarrow> bytes \<Rightarrow> nat \<Rightarrow> bytes" where
  "buildHkdfLabel label context len =
     (let full = str ''tls13 '' @ label in
      u16_bytes (of_nat len) @ [of_nat (length full)] @ full @ [of_nat (length context)] @ context)"

definition hkdfExpandLabel ::
  "(bytes \<Rightarrow> bytes) \<Rightarrow> bytes \<Rightarrow> bytes \<Rightarrow> bytes \<Rightarrow> nat \<Rightarrow> bytes outcome" where
  "hkdfExpandLabel H secret label context len =
     (case hkdf_Expand H secret (buildHkdfLabel label context len) len of
        Some out \<Rightarrow> Ok out
      | None \<Rightarrow> Panic)"

definition deriveSecret :: "(bytes \<Rightarrow> bytes) \<Rightarrow> bytes \<Rightarrow> bytes \<Rightarrow> bytes \<Rightarrow> bytes outcome" where
  "deriveSecret H secret label transcriptHash = hkdfExpandLabel H secret label transcriptHash hashLen"

definition hkdfExtract :: "(bytes \<Rightarrow> bytes) \<Rightarrow> bytes \<Rightarrow> bytes \<Rightarrow> bytes" where
  "hkdfExtract H salt ikm = hkdf_Extract H ikm salt"

record keySchedule =
  k_earlySecret :: bytes
  k_handshakeSecret :: bytes
  k_masterSecret :: bytes
  k_clientHandshakeTrafficSecret :: bytes
  k_serverHandshakeTrafficSecret :: bytes
  k_clientApplicationTrafficSecret :: bytes
  k_serverApplicationTrafficSecret :: bytes

definition newKeySchedule :: "(bytes \<Rightarrow> bytes) \<Rightarrow> bytes \<Rightarrow> bytes \<Rightarrow> keySchedule outcome" where
  "newKeySchedule H ecdheShared transcriptCHSH =
     (let zeros = replicate hashLen 0; emptyHash = H []; early = hkdfExtract H [] zeros in
      rbind (deriveSecret H early (str ''derived'') emptyHash) (\<lambda>derivedEarly.
      let handshake = hkdfExtract H derivedEarly ecdheShared in
      rbind (deriveSecret H handshake (str ''c hs traffic'') transcriptCHSH) (\<lambda>chs.
      rbind (deriveSecret H handshake (str ''s hs traffic'') transcriptCHSH) (\<lambda>shs.
      Ok \<lparr>k_earlySecret = early, k_handshakeSecret = handshake, k_masterSecret = [],
          k_clientHandshakeTrafficSecret = chs, k_serverHandshakeTrafficSecret = shs,
          k_clientApplicationTrafficSecret = [], k_serverApplicationTrafficSecret = []\<rparr>))))"

definition SetServerFinishedTranscript ::
  "(bytes \<Rightarrow> bytes) \<Rightarrow> bytes \<Rightarrow> keySchedule \<Rightarrow> keySchedule outcome" where
  "SetServerFinishedTranscript H transcriptCHSF k =
     (let zeros = replicate hashLen 0; emptyHash = H [] in
      rbind (deriveSecret H (k_handshakeSecret k) (str ''derived'') emptyHash) (\<lambda>derivedHandshake.
      let master = hkdfExtract H derivedHandshake zeros in
      rbind (deriveSecret H master (str ''c ap traffic'') transcriptCHSF) (\<lambda>cap.
      rbind (deriveSecret H master (str ''s ap traffic'') transcriptCHSF) (\<lambda>sap.
      Ok (k\<lparr>k_masterSecret := master, k_clientApplicationTrafficSecret := cap,
            k_serverApplicationTrafficSecret := sap\<rparr>)))))"

definition trafficKeyAndIV :: "(bytes \<Rightarrow> bytes) \<Rightarrow> bytes \<Rightarrow> (bytes \<times> bytes) outcome" where
  "trafficKeyAndIV H trafficSecret =
     rbind (hkdfExpandLabel H trafficSecret (str ''key'') [] keyLen) (\<lambda>key.
     rbind (hkdfExpandLabel H trafficSecret (str ''iv'') [] ivLen) (\<lambda>iv. Ok (key, iv)))"

definition finishedKey :: "(bytes \<Rightarrow> bytes) \<Rightarrow> bytes \<Rightarrow> bytes outcome" where
  "finishedKey H trafficSecret = hkdfExpandLabel H trafficSecret (str ''finished'') [] hashLen"

definition verifyData :: "(bytes \<Rightarrow> bytes) \<Rightarrow> bytes \<Rightarrow> bytes \<Rightarrow> bytes outcome" where
  "verifyData H trafficSecret transcriptHash =
     rbind (finishedKey H trafficSecret) (\<lambda>key. Ok (hmac H key transcriptHash))"

definition newRecordKeysFromSecret :: "crypto \<Rightarrow> bytes \<Rightarrow> recordKeys outcome" where
  "newRecordKeysFromSecret cr trafficSecret =
     rbind (trafficKeyAndIV (cr_sha256 cr) trafficSecret) (\<lambda>(key, iv). newRecordKeys (cr_gcm cr) key iv)"

subsection \<open>The transcript\<close>

text \<open>A running hash is the bytes written to it; \<^verbatim>\<open>Sum\<close> leaves it unchanged.\<close>

record transcript = t_written :: bytes

definition newTranscript :: transcript where
  "newTranscript = \<lparr>t_written = []\<rparr>"

definition t_update :: "bytes \<Rightarrow> transcript \<Rightarrow> transcript" where
  "t_update msg t = t\<lparr>t_written := t_written t @ msg\<rparr>"

definition t_sum :: "(bytes \<Rightarrow> bytes) \<Rightarrow> transcript \<Rightarrow> bytes" where
  "t_sum H t = H (t_written t)"

subsection \<open>CertificateVerify\<close>

text \<open>
  The identity: the certificate, and \<^verbatim>\<open>ecdsa.SignASN1\<close> with the private key, given the randomness it
  draws; \<open>None\<close> is its error.
\<close>

record ServerIdentity =
  si_certDER :: bytes
  si_priv :: "bytes \<Rightarrow> bytes \<Rightarrow> bytes option"

definition certificateVerifySignInput :: "bytes \<Rightarrow> bytes" where
  "certificateVerifySignInput transcriptHash =
     replicate 64 0x20 @ str ''TLS 1.3, server CertificateVerify'' @ [0] @ transcriptHash"

definition signCertificateVerify ::
  "(bytes \<Rightarrow> bytes) \<Rightarrow> bytes \<Rightarrow> ServerIdentity \<Rightarrow> bytes \<Rightarrow> bytes outcome" where
  "signCertificateVerify H rnd s transcriptHash =
     (case si_priv s rnd (H (certificateVerifySignInput transcriptHash)) of
        Some sig \<Rightarrow> Ok sig
      | None \<Rightarrow> Err (ErrExternal 0))"

subsection \<open>Lengths\<close>

lemma length_hmac [simp]: "hash_ok H \<Longrightarrow> length (hmac H key msg) = hashLen"
  by (simp add: hmac_def hash_ok_def Let_def)

lemma length_hkdf_blocks: "hash_ok H \<Longrightarrow> length (hkdf_blocks H prk info prev i n) = hashLen * n"
  by (induction n arbitrary: prev i) (simp_all add: Let_def)

lemma hkdfExpandLabel_total:
  assumes "hash_ok H" "len \<le> hashLen"
  shows "\<exists>out. hkdfExpandLabel H secret label context len = Ok out \<and> length out = len"
proof -
  have "\<not> 255 * hashLen < len" using assms(2) by (simp add: hashLen_def)
  moreover have "len \<le> hashLen * ((len + hashLen - 1) div hashLen)"
    using assms(2) by (cases "len = 0") (auto simp: hashLen_def div_add_self2 le_div_geq)
  ultimately show ?thesis
    using assms(1) by (simp add: hkdfExpandLabel_def hkdf_Expand_def length_hkdf_blocks)
qed

lemma deriveSecret_total:
  assumes "hash_ok H"
  obtains out where "deriveSecret H secret label th = Ok out" "length out = hashLen"
  using hkdfExpandLabel_total [OF assms order.refl, of secret label th] that by (auto simp: deriveSecret_def)

lemma newKeySchedule_total:
  assumes "hash_ok H"
  obtains k where "newKeySchedule H shared th = Ok k"
    "length (k_clientHandshakeTrafficSecret k) = 32" "length (k_serverHandshakeTrafficSecret k) = 32"
proof -
  let ?early = "hkdfExtract H [] (replicate hashLen 0)"
  obtain d where d: "deriveSecret H ?early (str ''derived'') (H []) = Ok d"
    by (rule deriveSecret_total [OF assms])
  let ?hs = "hkdfExtract H d shared"
  obtain c where c: "deriveSecret H ?hs (str ''c hs traffic'') th = Ok c" "length c = hashLen"
    by (rule deriveSecret_total [OF assms])
  obtain s where s: "deriveSecret H ?hs (str ''s hs traffic'') th = Ok s" "length s = hashLen"
    by (rule deriveSecret_total [OF assms])
  show ?thesis using that d c s by (simp add: newKeySchedule_def Let_def hashLen_def)
qed

lemma SetServerFinishedTranscript_total:
  assumes "hash_ok H"
  obtains k' where "SetServerFinishedTranscript H th k = Ok k'"
    "k_clientHandshakeTrafficSecret k' = k_clientHandshakeTrafficSecret k"
    "k_serverHandshakeTrafficSecret k' = k_serverHandshakeTrafficSecret k"
proof -
  obtain d where d: "deriveSecret H (k_handshakeSecret k) (str ''derived'') (H []) = Ok d"
    by (rule deriveSecret_total [OF assms])
  let ?m = "hkdfExtract H d (replicate hashLen 0)"
  obtain c where c: "deriveSecret H ?m (str ''c ap traffic'') th = Ok c"
    by (rule deriveSecret_total [OF assms])
  obtain s where s: "deriveSecret H ?m (str ''s ap traffic'') th = Ok s"
    by (rule deriveSecret_total [OF assms])
  show ?thesis using that d c s by (simp add: SetServerFinishedTranscript_def Let_def)
qed

lemma verifyData_total:
  assumes "hash_ok H"
  obtains v where "verifyData H secret th = Ok v" "length v = 32"
proof -
  obtain k where "finishedKey H secret = Ok k"
    using hkdfExpandLabel_total [OF assms order.refl, of secret "str ''finished''" "[]"]
    by (auto simp: finishedKey_def)
  then show ?thesis using that assms by (simp add: verifyData_def hashLen_def)
qed

text \<open>Fresh record keys: the sequence number starts at zero and the IV has 12 bytes.\<close>

lemma newRecordKeysFromSecret_total:
  assumes "hash_ok (cr_sha256 cr)"
  obtains r where "newRecordKeysFromSecret cr secret = Ok r" "rk_seq r = 0" "length (rk_iv r) = 12"
    "\<exists>key. rk_aead r = cr_gcm cr key"
proof -
  obtain key where key: "hkdfExpandLabel (cr_sha256 cr) secret (str ''key'') [] keyLen = Ok key"
      "length key = keyLen"
    using hkdfExpandLabel_total [OF assms, of keyLen secret "str ''key''" "[]"] by (auto simp: key_lens)
  obtain iv where iv: "hkdfExpandLabel (cr_sha256 cr) secret (str ''iv'') [] ivLen = Ok iv"
      "length iv = ivLen"
    using hkdfExpandLabel_total [OF assms, of ivLen secret "str ''iv''" "[]"] by (auto simp: key_lens)
  show ?thesis using key iv that
    by (auto simp: newRecordKeysFromSecret_def trafficKeyAndIV_def newRecordKeys_def key_lens record_limits)
qed

subsection \<open>Separation of the derived keys\<close>

text \<open>
  The input to HKDF determines what is derived: two calls of \<^verbatim>\<open>buildHkdfLabel\<close> give the same bytes
  only for the same label, context and length. So the keys, IVs, Finished keys and secrets of the
  schedule are expanded from pairwise different inputs, however contexts and labels are chosen.
\<close>
theorem hkdf_labels_separate:
  assumes "length l \<le> 249" "length l' \<le> 249" "length c \<le> 255" "length c' \<le> 255" "n < 2 ^ 16" "n' < 2 ^ 16"
    and "buildHkdfLabel l c n = buildHkdfLabel l' c' n'"
  shows "l = l' \<and> c = c' \<and> n = n'"
proof -
  have byte: "a = b" if "(of_nat a :: byte) = of_nat b" "a \<le> 255" "b \<le> 255" for a b
    using arg_cong [OF that(1), of unat] that(2,3) unfolding unat_of_nat by simp
  have 1: "(of_nat n :: u16) = of_nat n'" and 2: "(of_nat (length l + 6) :: byte) = of_nat (length l' + 6)"
    and rest: "l @ of_nat (length c) # c = l' @ of_nat (length c') # c'"
    using assms(7) unfolding buildHkdfLabel_def Let_def by (simp_all add: append_eq_append_conv str_def)
  have "n mod 2 ^ LENGTH(16) = n' mod 2 ^ LENGTH(16)"
    using arg_cong [OF 1, of unat] unfolding unat_of_nat .
  moreover have "length l = length l'" using byte [OF 2] assms(1,2) by simp
  ultimately show ?thesis using rest assms(5,6) by simp
qed

theorem hkdf_labels_separate_witness:
  "buildHkdfLabel (str ''key'') [] 16 = buildHkdfLabel (str ''key'') [] 16 \<and>
   buildHkdfLabel (str ''c hs traffic'') [1, 2] 32 \<noteq> buildHkdfLabel (str ''s hs traffic'') [1, 2] 32"
  using hkdf_labels_separate [of "str ''c hs traffic''" "str ''s hs traffic''" "[1, 2]" "[1, 2]" 32 32]
  by (auto simp: str_def)

end
