(* ===== verification/Tls_Conn.thy ===== *)
theory Tls_Conn
  imports Tls_Messages Tls_Keys
begin


section \<open>A TLS connection: records in and out, handshake messages (tls/conn.go)\<close>

text \<open>
  The state of a \<^verbatim>\<open>Conn\<close>. The transport under it is the bytes it will still deliver (with the error that
  ends them), the bytes it has accepted, and the outcomes of the coming \<^verbatim>\<open>Write\<close> calls: \<open>None\<close>, or a
  missing entry, is a write that takes everything, \<open>Some (k, e)\<close> one that takes \<open>k\<close> bytes and fails
  with \<open>e\<close>.
\<close>

record Conn =
  c_in :: reader
  c_out :: bytes
  c_faults :: "(nat \<times> io_error) option list"
  c_identity :: "ServerIdentity option"
  c_readKeys :: "recordKeys option"
  c_writeKeys :: "recordKeys option"
  c_handshakeDone :: bool
  c_handshakeErr :: "tls_error option"
  c_inAppData :: bytes
  c_hsBuf :: bytes
  c_rawClosed :: bool

definition tls_Server :: "reader \<Rightarrow> (nat \<times> io_error) option list \<Rightarrow> ServerIdentity option \<Rightarrow> Conn" where
  "tls_Server raw faults identity = \<lparr>c_in = raw, c_out = [], c_faults = faults, c_identity = identity,
     c_readKeys = None, c_writeKeys = None, c_handshakeDone = False, c_handshakeErr = None,
     c_inAppData = [], c_hsBuf = [], c_rawClosed = False\<rparr>"

subsection \<open>Writing\<close>

definition raw_Write :: "bytes \<Rightarrow> (Conn, unit) action" where
  "raw_Write out c = (case c_faults c of
       Some (k, e) # fs \<Rightarrow> (Err (ErrIO e), c\<lparr>c_out := c_out c @ take k out, c_faults := fs\<rparr>)
     | None # fs \<Rightarrow> (Ok (), c\<lparr>c_out := c_out c @ out, c_faults := fs\<rparr>)
     | [] \<Rightarrow> (Ok (), c\<lparr>c_out := c_out c @ out\<rparr>))"

definition tls_writeRecord :: "byte \<Rightarrow> bytes \<Rightarrow> (Conn, unit) action" where
  "tls_writeRecord contentType fragment =
     bindS (liftR (record_bytes contentType fragment)) (\<lambda>out. raw_Write out)"

definition writePlaintextHandshake :: "bytes \<Rightarrow> (Conn, unit) action" where
  "writePlaintextHandshake msg = tls_writeRecord contentTypeHandshake msg"

text \<open>\<^verbatim>\<open>c.writeKeys.Seal(...)\<close>: the keys are dereferenced (a nil pointer panics) and advanced.\<close>

definition conn_Seal :: "byte \<Rightarrow> bytes \<Rightarrow> (Conn, bytes) action" where
  "conn_Seal innerType plaintext c = (case c_writeKeys c of
       None \<Rightarrow> (Panic, c)
     | Some k \<Rightarrow> (case rk_Seal innerType plaintext k of
           Ok (out, k') \<Rightarrow> (Ok out, c\<lparr>c_writeKeys := Some k'\<rparr>)
         | Err e \<Rightarrow> (Err e, c)
         | Panic \<Rightarrow> (Panic, c)))"

definition writeEncryptedHandshake :: "bytes \<Rightarrow> (Conn, unit) action" where
  "writeEncryptedHandshake msg c =
     (if c_writeKeys c = None then (Err (ErrText ''writeEncryptedHandshake before AEAD active''), c)
      else bindS (conn_Seal contentTypeHandshake msg) (\<lambda>sealed. raw_Write sealed) c)"

subsection \<open>Reading\<close>

definition conn_readRecord :: "(Conn, byte \<times> bytes) action" where
  "conn_readRecord c0 = (case tls_readRecord (c_in c0) of
       (Ok (header, fragment), r) \<Rightarrow>
         let c = c0\<lparr>c_in := r\<rparr> in
         (case c_readKeys c of
            None \<Rightarrow> (Ok (header ! 0, fragment), c)
          | Some k \<Rightarrow>
              if header ! 0 = contentTypeChangeCipherSpec then
                (Ok (contentTypeChangeCipherSpec, fragment), c)
              else if header ! 0 \<noteq> contentTypeApplicationData then
                (Err (ErrRecordType (header ! 0)), c)
              else (case rk_Open header fragment k of
                  Ok (innerType, plaintext, k') \<Rightarrow>
                    (Ok (innerType, plaintext), c\<lparr>c_readKeys := Some k'\<rparr>)
                | Err e \<Rightarrow> (Err (ErrWrap ''AEAD open failed'' e), c)
                | Panic \<Rightarrow> (Panic, c)))
     | (Err e, r) \<Rightarrow> (Err e, c0\<lparr>c_in := r\<rparr>)
     | (Panic, r) \<Rightarrow> (Panic, c0\<lparr>c_in := r\<rparr>))"

text \<open>\<^verbatim>\<open>takeBufferedHandshake\<close>: \<open>None\<close> is its \<^verbatim>\<open>ok = false\<close>.\<close>

definition takeBufferedHandshake :: "bytes \<Rightarrow> (bytes \<times> bytes) option" where
  "takeBufferedHandshake hsBuf =
     (if length hsBuf < handshakeHeaderLen then None
      else let total = handshakeHeaderLen + unat (u24_of (hsBuf ! 1) (hsBuf ! 2) (hsBuf ! 3)) in
        if length hsBuf < total then None else Some (take total hsBuf, drop total hsBuf))"

lemma conn_readRecord_Ok:
  assumes "conn_readRecord c = (Ok v, c')"
  shows "length (fst (c_in c')) < length (fst (c_in c))" "snd (c_in c') = snd (c_in c)"
    "\<exists>k. c' = c\<lparr>c_in := c_in c', c_readKeys := k\<rparr>"
proof -
  obtain header fragment r where r: "tls_readRecord (c_in c) = (Ok (header, fragment), r)"
    using assms by (auto simp: conn_readRecord_def split: prod.splits res.splits)
  then have len: "length (fst r) < length (fst (c_in c))" "snd r = snd (c_in c)"
    by (cases rule: tls_readRecord_cases [of "c_in c"]; simp)+
  have same: "\<exists>k. c\<lparr>c_in := r\<rparr> = c\<lparr>c_in := r, c_readKeys := k\<rparr>"
    by (intro exI [of _ "c_readKeys c"]) (cases c, simp)
  have "\<exists>k. c' = c\<lparr>c_in := r, c_readKeys := k\<rparr>"
    using assms r same
    by (auto simp: conn_readRecord_def Let_def split: option.splits if_splits res.splits prod.splits)
  then obtain k where "c' = c\<lparr>c_in := r, c_readKeys := k\<rparr>" ..
  then show "length (fst (c_in c')) < length (fst (c_in c))" "snd (c_in c') = snd (c_in c)"
    "\<exists>k. c' = c\<lparr>c_in := c_in c', c_readKeys := k\<rparr>"
    using len by auto
qed

lemma conn_readRecord_shrinks:
  "(Ok v, c') = conn_readRecord c \<Longrightarrow> length (fst (c_in c')) < length (fst (c_in c))"
  using conn_readRecord_Ok(1) [of c v c'] by simp

function readHandshakeMessage :: "(Conn, bytes) action" where
  "readHandshakeMessage c =
     (case takeBufferedHandshake (c_hsBuf c) of
        Some (msg, rest) \<Rightarrow> (Ok msg, c\<lparr>c_hsBuf := rest\<rparr>)
      | None \<Rightarrow> (case conn_readRecord c of
            (Ok (t, plaintext), c1) \<Rightarrow>
              if t = contentTypeChangeCipherSpec then readHandshakeMessage c1
              else if t = contentTypeHandshake then
                readHandshakeMessage (c1\<lparr>c_hsBuf := c_hsBuf c1 @ plaintext\<rparr>)
              else if t = contentTypeAlert then (Err (ErrPeerAlert plaintext), c1)
              else (Err (ErrRecordType t), c1)
          | (Err e, c1) \<Rightarrow> (Err e, c1)
          | (Panic, c1) \<Rightarrow> (Panic, c1)))"
  by pat_completeness auto
termination
  by (relation "measure (\<lambda>c. length (fst (c_in c)))")
    (auto dest: conn_readRecord_shrinks)

declare readHandshakeMessage.simps [simp del]

subsection \<open>The incoming records of a connection\<close>

text \<open>
  What \<^verbatim>\<open>readRecord\<close> depends on and changes: the transport and the read keys. \<open>pull\<close> is \<^verbatim>\<open>readRecord\<close> on
  these two, \<open>pulls\<close> the records a source delivers.
\<close>

type_synonym source = "reader \<times> recordKeys option"

definition src :: "Conn \<Rightarrow> source" where
  "src c = (c_in c, c_readKeys c)"

definition put_src :: "source \<Rightarrow> Conn \<Rightarrow> Conn" where
  "put_src s c = c\<lparr>c_in := fst s, c_readKeys := snd s\<rparr>"

definition pull :: "source \<Rightarrow> (byte \<times> bytes) outcome \<times> source" where
  "pull s = (case conn_readRecord (put_src s (tls_Server ([], EOF) [] None)) of (r, c) \<Rightarrow> (r, src c))"

lemma src_put_src [simp]: "src (put_src s c) = s"
  by (simp add: src_def put_src_def)

lemma put_src_src [simp]: "put_src (src c) c = c"
  by (simp add: src_def put_src_def)

lemma put_src_put_src [simp]: "put_src s (put_src s' c) = put_src s c"
  by (simp add: put_src_def)

lemma put_src_simps [simp]:
  "c_hsBuf (put_src s c) = c_hsBuf c" "c_inAppData (put_src s c) = c_inAppData c"
  "c_out (put_src s c) = c_out c" "c_faults (put_src s c) = c_faults c"
  "c_writeKeys (put_src s c) = c_writeKeys c" "c_handshakeDone (put_src s c) = c_handshakeDone c"
  "c_handshakeErr (put_src s c) = c_handshakeErr c" "c_identity (put_src s c) = c_identity c"
  "c_in (put_src s c) = fst s" "c_readKeys (put_src s c) = snd s"
  "put_src s (c\<lparr>c_hsBuf := b\<rparr>) = (put_src s c)\<lparr>c_hsBuf := b\<rparr>"
  "put_src s (c\<lparr>c_inAppData := b\<rparr>) = (put_src s c)\<lparr>c_inAppData := b\<rparr>"
  by (simp_all add: put_src_def)

lemma src_update [simp]: "src (c\<lparr>c_hsBuf := b\<rparr>) = src c" "src (c\<lparr>c_inAppData := b\<rparr>) = src c"
  by (simp_all add: src_def)

lemma conn_readRecord_pull:
  "conn_readRecord c = (fst (pull (src c)), put_src (snd (pull (src c))) c)"
proof -
  obtain res r where r: "tls_readRecord (c_in c) = (res, r)" by (cases "tls_readRecord (c_in c)")
  show ?thesis
    by (cases res; cases "c_readKeys c")
      (auto simp: pull_def conn_readRecord_def put_src_def src_def r Let_def split: res.split prod.split)
qed

fun pulls :: "(byte \<times> bytes) list \<Rightarrow> source \<Rightarrow> source \<Rightarrow> bool" where
  "pulls [] s s' \<longleftrightarrow> s' = s"
| "pulls (r # rs) s s' \<longleftrightarrow> (\<exists>s1. pull s = (Ok r, s1) \<and> pulls rs s1 s')"

lemma pulls_append: "pulls (rs1 @ rs2) s s' \<longleftrightarrow> (\<exists>s1. pulls rs1 s s1 \<and> pulls rs2 s1 s')"
  by (induction rs1 arbitrary: s) (simp, simp del: split_paired_Ex, blast)

subsection \<open>Reassembly of handshake messages\<close>

definition framed_message :: "bytes \<Rightarrow> bool" where
  "framed_message m \<longleftrightarrow> handshakeHeaderLen \<le> length m
     \<and> length m = handshakeHeaderLen + unat (u24_of (m ! 1) (m ! 2) (m ! 3))"

definition handshake_bytes :: "(byte \<times> bytes) list \<Rightarrow> bytes" where
  "handshake_bytes rs = concat (map snd (filter (\<lambda>r. fst r = contentTypeHandshake) rs))"

definition handshake_records :: "(byte \<times> bytes) list \<Rightarrow> bool" where
  "handshake_records rs \<longleftrightarrow> (\<forall>r \<in> set rs. fst r = contentTypeHandshake \<or> fst r = contentTypeChangeCipherSpec)"

lemma framed_message_iff: "framed_message m \<longleftrightarrow> (\<exists>t body. parseHandshake m = Ok (t, body))"
  by (auto simp: framed_message_def parseHandshake_def go_simps Let_def handshakeHeaderLen_def
      split: if_splits)

lemma framed_marshal: "marshalHandshake t body = Ok m \<Longrightarrow> framed_message m"
  by (auto simp: framed_message_iff marshal_parse_iff)

lemma takeBuffered_framed:
  assumes "framed_message m"
  shows "takeBufferedHandshake (m @ extra) = Some (m, extra)"
proof -
  have "(m @ extra) ! i = m ! i" if "i < 4" for i
    using that assms by (simp add: framed_message_def nth_append handshakeHeaderLen_def)
  then show ?thesis
    using assms by (simp add: takeBufferedHandshake_def framed_message_def Let_def handshakeHeaderLen_def)
qed

lemma takeBuffered_short:
  assumes "framed_message m" "b @ later = m @ extra" "length b < length m"
  shows "takeBufferedHandshake b = None"
proof -
  have "b ! i = m ! i" if "i < 4" "4 \<le> length b" for i
    using that assms(3) arg_cong [OF assms(2), of "\<lambda>xs. xs ! i"] by (simp add: nth_append)
  then show ?thesis
    using assms(1,3) by (auto simp: takeBufferedHandshake_def framed_message_def Let_def handshakeHeaderLen_def)
qed

lemma readHandshakeMessage_reassembles:
  assumes "framed_message m" "handshake_records rs" "pulls rs (src c) s'"
    and "c_hsBuf c @ handshake_bytes rs = m @ extra"
  shows "\<exists>rs1 rs2 s1 b. rs = rs1 @ rs2 \<and> pulls rs2 s1 s' \<and> b @ handshake_bytes rs2 = extra
    \<and> readHandshakeMessage c = (Ok m, put_src s1 (c\<lparr>c_hsBuf := b\<rparr>))"
  using assms(2-)
proof (induction rs arbitrary: c)
  case Nil
  then have "takeBufferedHandshake (c_hsBuf c) = Some (m, extra)"
    using takeBuffered_framed [OF assms(1)] by (simp add: handshake_bytes_def)
  then have "readHandshakeMessage c = (Ok m, put_src (src c) (c\<lparr>c_hsBuf := extra\<rparr>))"
    by (subst readHandshakeMessage.simps) simp
  then show ?case using Nil
    by (intro exI [of _ "[]"] exI [of _ "src c"] exI [of _ extra]) (simp add: handshake_bytes_def)
next
  case (Cons r rs)
  show ?case
  proof (cases "length (c_hsBuf c) < length m")
    case False
    then obtain b where b: "c_hsBuf c = m @ b" "b @ handshake_bytes (r # rs) = extra"
      using Cons.prems(3) by (auto simp: append_eq_append_conv2)
    then have "readHandshakeMessage c = (Ok m, put_src (src c) (c\<lparr>c_hsBuf := b\<rparr>))"
      using takeBuffered_framed [OF assms(1), of b] by (subst readHandshakeMessage.simps) simp
    then show ?thesis using b Cons.prems(2)
      by (intro exI [of _ "[]"] exI [of _ "r # rs"] exI [of _ "src c"] exI [of _ b]) simp
  next
    case True
    have none: "takeBufferedHandshake (c_hsBuf c) = None"
      using takeBuffered_short [OF assms(1) Cons.prems(3) True] .
    obtain t f where r: "r = (t, f)" by (cases r)
    obtain s1 where s1: "pull (src c) = (Ok (t, f), s1)" "pulls rs s1 s'"
      using Cons.prems(2) r by auto
    have read: "conn_readRecord c = (Ok (t, f), put_src s1 c)"
      using s1 by (simp add: conn_readRecord_pull)
    have hs: "handshake_records rs" using Cons.prems(1) by (simp add: handshake_records_def)
    define c1 where "c1 = (if t = contentTypeHandshake then put_src s1 (c\<lparr>c_hsBuf := c_hsBuf c @ f\<rparr>)
      else put_src s1 c)"
    have step: "readHandshakeMessage c = readHandshakeMessage c1"
      using Cons.prems(1) read none r
      by (subst readHandshakeMessage.simps) (auto simp: c1_def handshake_records_def content_types)
    have buf: "c_hsBuf c1 @ handshake_bytes rs = m @ extra"
      using Cons.prems(3) r by (auto simp: c1_def handshake_bytes_def split: if_splits)
    have "pulls rs (src c1) s'" using s1 by (simp add: c1_def)
    then obtain rs1 rs2 s2 b where "rs = rs1 @ rs2" "pulls rs2 s2 s'" "b @ handshake_bytes rs2 = extra"
        "readHandshakeMessage c1 = (Ok m, put_src s2 (c1\<lparr>c_hsBuf := b\<rparr>))"
      using Cons.IH [OF hs _ buf] by blast
    moreover have "put_src s2 (c1\<lparr>c_hsBuf := b\<rparr>) = put_src s2 (c\<lparr>c_hsBuf := b\<rparr>)"
      by (simp add: c1_def flip: put_src_simps)
    ultimately show ?thesis using step
      by (intro exI [of _ "r # rs1"] exI [of _ rs2] exI [of _ s2] exI [of _ b]) simp
  qed
qed

subsection \<open>What a peer sends\<close>

text \<open>
  The records of a peer: a bare record of a type and a fragment, or a protected one, sealed under the
  peer's keys. \<open>wire_bytes\<close> are the bytes on the wire and the keys afterwards; \<open>carried\<close> is what
  \<^verbatim>\<open>readRecord\<close> should hand up.
\<close>

datatype wire_item = Bare byte bytes | Protected byte bytes

fun carried :: "wire_item \<Rightarrow> byte \<times> bytes" where
  "carried (Bare t f) = (t, f)"
| "carried (Protected t p) = (t, p)"

fun wire_bytes :: "wire_item list \<Rightarrow> recordKeys \<Rightarrow> bytes \<times> recordKeys" where
  "wire_bytes [] k = ([], k)"
| "wire_bytes (Bare t f # ws) k =
     (case wire_bytes ws k of (out, k') \<Rightarrow> (record_header t (length f) @ f @ out, k'))"
| "wire_bytes (Protected t p # ws) k =
     (case rk_Seal t p k of
        Ok (sealed, k1) \<Rightarrow> (case wire_bytes ws k1 of (out, k') \<Rightarrow> (sealed @ out, k'))
      | _ \<Rightarrow> wire_bytes ws k)"

definition plain_bytes :: "(byte \<times> bytes) list \<Rightarrow> bytes" where
  "plain_bytes rs = concat (map (\<lambda>r. record_header (fst r) (length (snd r)) @ snd r) rs)"

text \<open>Items a receiver with keys can take: only ChangeCipherSpec is bare.\<close>

fun item_ok :: "wire_item \<Rightarrow> bool" where
  "item_ok (Bare t f) \<longleftrightarrow> t = contentTypeChangeCipherSpec \<and> length f \<le> maxCiphertextLength"
| "item_ok (Protected t p) \<longleftrightarrow> t \<noteq> 0 \<and> length p \<le> maxPlaintextLength"

lemma pull_bare:
  assumes "length f \<le> maxCiphertextLength" "k = None \<or> t = contentTypeChangeCipherSpec"
  shows "pull ((record_header t (length f) @ f @ rest, e), k) = (Ok (t, f), ((rest, e), k))"
  using assms
  by (auto simp: pull_def conn_readRecord_def put_src_def src_def tls_readRecord_framed Let_def
      split: option.split)

lemma pull_sealed:
  assumes "aead_correct (rk_aead k)" "t \<noteq> 0" "length p \<le> maxPlaintextLength"
  shows "\<exists>sealed. rk_Seal t p k = Ok (sealed, k\<lparr>rk_seq := rk_seq k + 1\<rparr>)
    \<and> (\<forall>rest e. pull ((sealed @ rest, e), Some k) =
        (Ok (t, p), ((rest, e), Some (k\<lparr>rk_seq := rk_seq k + 1\<rparr>))))"
proof -
  obtain f where f: "rk_Seal t p k = Ok (record_header contentTypeApplicationData (length f) @ f,
        k\<lparr>rk_seq := rk_seq k + 1\<rparr>)" "length f \<le> maxCiphertextLength"
      "rk_Open (record_header contentTypeApplicationData (length f)) f k =
        Ok (t, p, k\<lparr>rk_seq := rk_seq k + 1\<rparr>)"
    using rk_Seal_opens [OF assms(1) refl refl refl assms(2,3)] by blast
  have "pull (((record_header contentTypeApplicationData (length f) @ f) @ rest, e), Some k) =
      (Ok (t, p), ((rest, e), Some (k\<lparr>rk_seq := rk_seq k + 1\<rparr>)))" for rest e
    using f by (simp add: pull_def conn_readRecord_def put_src_def src_def tls_readRecord_framed Let_def
        content_types)
  then show ?thesis using f(1) by blast
qed

lemma pulls_plain:
  "\<forall>r \<in> set rs. length (snd r) \<le> maxCiphertextLength \<Longrightarrow>
   pulls rs ((plain_bytes rs @ rest, e), None) ((rest, e), None)"
proof (induction rs)
  case (Cons r rs)
  then show ?case
    using pull_bare [of "snd r" None "fst r" "plain_bytes rs @ rest" e] by (simp add: plain_bytes_def)
qed (simp add: plain_bytes_def)

lemma pulls_wire:
  assumes "aead_correct (rk_aead k)" "list_all item_ok ws"
  shows "pulls (map carried ws) ((fst (wire_bytes ws k) @ rest, e), Some k)
      ((rest, e), Some (snd (wire_bytes ws k)))
    \<and> rk_aead (snd (wire_bytes ws k)) = rk_aead k"
  using assms
proof (induction ws arbitrary: k)
  case (Cons w ws)
  show ?case
  proof (cases w)
    case (Bare t f)
    then show ?thesis
      using Cons.IH [of k] Cons.prems pull_bare [of f "Some k" t "fst (wire_bytes ws k) @ rest" e]
      by (auto split: prod.split)
  next
    case (Protected t p)
    let ?k = "k\<lparr>rk_seq := rk_seq k + 1\<rparr>"
    obtain sealed where "rk_Seal t p k = Ok (sealed, ?k)"
        "\<And>rest e. pull ((sealed @ rest, e), Some k) = (Ok (t, p), ((rest, e), Some ?k))"
      using pull_sealed [of k t p] Cons.prems Protected by auto
    then show ?thesis using Cons.IH [of ?k] Cons.prems Protected by (auto split: prod.split)
  qed
qed simp

subsection \<open>Series of messages\<close>

fun readMessages :: "nat \<Rightarrow> (Conn, bytes list) action" where
  "readMessages 0 = ret []"
| "readMessages (Suc n) =
     bindS readHandshakeMessage (\<lambda>m. bindS (readMessages n) (\<lambda>ms. ret (m # ms)))"

lemma readMessages_reassembles:
  assumes "list_all framed_message ms" "handshake_records rs" "pulls rs (src c) s'"
    and "c_hsBuf c @ handshake_bytes rs = concat ms @ extra"
  shows "\<exists>rs1 rs2 s1 b. rs = rs1 @ rs2 \<and> b @ handshake_bytes rs2 = extra
    \<and> readMessages (length ms) c = (Ok ms, put_src s1 (c\<lparr>c_hsBuf := b\<rparr>))"
  using assms
proof (induction ms arbitrary: rs c)
  case Nil
  have "put_src (src c) (c\<lparr>c_hsBuf := c_hsBuf c\<rparr>) = c" by (simp add: put_src_def src_def)
  then have "readMessages 0 c = (Ok [], put_src (src c) (c\<lparr>c_hsBuf := c_hsBuf c\<rparr>))" by (simp add: ret_def)
  then show ?case using Nil.prems(4) by (intro exI [of _ "[]"] exI [of _ rs] exI [of _ "src c"] exI [of _ "c_hsBuf c"]) simp
next
  case (Cons m ms)
  obtain rs1 rs2 s1 b where rs: "rs = rs1 @ rs2" "pulls rs2 s1 s'" "b @ handshake_bytes rs2 = concat ms @ extra"
      "readHandshakeMessage c = (Ok m, put_src s1 (c\<lparr>c_hsBuf := b\<rparr>))"
    using readHandshakeMessage_reassembles [of m rs c s' "concat ms @ extra"] Cons.prems by auto
  let ?c = "put_src s1 (c\<lparr>c_hsBuf := b\<rparr>)"
  have "handshake_records rs2" using Cons.prems(2) rs(1) by (simp add: handshake_records_def)
  then obtain rs3 rs4 s2 b2 where "rs2 = rs3 @ rs4" "b2 @ handshake_bytes rs4 = extra"
      "readMessages (length ms) ?c = (Ok ms, put_src s2 (?c\<lparr>c_hsBuf := b2\<rparr>))"
    using Cons.IH [of rs2 ?c] Cons.prems(1) rs by auto
  moreover have "put_src s2 (?c\<lparr>c_hsBuf := b2\<rparr>) = put_src s2 (c\<lparr>c_hsBuf := b2\<rparr>)"
    by (simp add: put_src_def)
  ultimately show ?case using rs(1,4)
    by (intro exI [of _ "rs1 @ rs3"] exI [of _ rs4] exI [of _ s2] exI [of _ b2]) (simp add: bindS_def ret_def)
qed

text \<open>
  The bytes of a peer's records as a connection meets them: in the clear as long as it has no read keys,
  and under these keys once it has them.
\<close>

definition incoming :: "recordKeys option \<Rightarrow> wire_item list \<Rightarrow> bytes" where
  "incoming keys ws = (case keys of None \<Rightarrow> plain_bytes (map carried ws) | Some k \<Rightarrow> fst (wire_bytes ws k))"

definition receivable :: "recordKeys option \<Rightarrow> wire_item list \<Rightarrow> bool" where
  "receivable keys ws = (case keys of
       None \<Rightarrow> list_all (\<lambda>w. length (snd (carried w)) \<le> maxCiphertextLength) ws
     | Some k \<Rightarrow> aead_correct (rk_aead k) \<and> list_all item_ok ws)"

lemma pulls_incoming:
  assumes "receivable keys ws"
  shows "\<exists>keys'. pulls (map carried ws) ((incoming keys ws @ rest, e), keys) ((rest, e), keys')"
proof (cases keys)
  case None
  then show ?thesis
    using assms pulls_plain [of "map carried ws" rest e] by (auto simp: receivable_def incoming_def list_all_iff)
next
  case (Some k)
  then show ?thesis
    using assms pulls_wire [of k ws rest e] by (auto simp: receivable_def incoming_def)
qed

text \<open>
  C17: handshake messages do not depend on how they are cut into records, sealed or not. Take a connection
  in any state: without read keys, as before the ServerHello, when the peer's records come in the clear, or
  with read keys, when all of them but ChangeCipherSpec are sealed under these keys. However the peer splits a
  sequence of messages over handshake records (several messages in one, one over many, empty records, the
  first bytes already in \<^verbatim>\<open>hsBuf\<close>), and wherever ChangeCipherSpec records stand between them,
  \<^verbatim>\<open>readHandshakeMessage\<close> returns the same messages, one call after the other, and what follows them stays.
\<close>
theorem handshake_messages_survive_fragmentation:
  assumes "list_all framed_message ms" "handshake_records (map carried ws)"
    and "receivable (c_readKeys c) ws" "c_in c = (incoming (c_readKeys c) ws @ rest, e)"
    and "c_hsBuf c @ handshake_bytes (map carried ws) = concat ms @ extra"
  shows "\<exists>c'. readMessages (length ms) c = (Ok ms, c') \<and> c_out c' = c_out c
    \<and> (\<exists>seen unread. map carried ws = seen @ unread \<and> c_hsBuf c' @ handshake_bytes unread = extra)"
proof -
  obtain keys' where "pulls (map carried ws) (src c) ((rest, e), keys')"
    using pulls_incoming [OF assms(3), of rest e] assms(4) by (auto simp: src_def)
  then obtain rs1 rs2 s1 b where "map carried ws = rs1 @ rs2" "b @ handshake_bytes rs2 = extra"
      "readMessages (length ms) c = (Ok ms, put_src s1 (c\<lparr>c_hsBuf := b\<rparr>))"
    using readMessages_reassembles [OF assms(1,2) _ assms(5)] by blast
  then show ?thesis by (intro exI conjI) (assumption | simp)+
qed

theorem handshake_messages_survive_fragmentation_witness:
  "\<exists>c1 c2 c3. readMessages 2 (tls_Server (plain_bytes [(22, [1, 0]), (20, [1]), (22, [0, 2, 7]), (22, []),
        (22, [8, 20, 0, 0, 0, 24])], EOF) [] None) = (Ok [[1, 0, 0, 2, 7, 8], [20, 0, 0, 0]], c1)
    \<and> readMessages 2 ((tls_Server (fst (wire_bytes [Protected 22 [1, 0], Bare 20 [1], Protected 22 [0, 2, 7],
        Protected 22 [], Protected 22 [8, 20, 0, 0, 0, 24]] tag_keys), EOF) [] None)\<lparr>c_readKeys := Some tag_keys\<rparr>)
      = (Ok [[1, 0, 0, 2, 7, 8], [20, 0, 0, 0]], c2)
    \<and> readMessages 1 ((tls_Server (fst (wire_bytes [Protected 22 [0]] tag_keys), EOF) [] None)
        \<lparr>c_readKeys := Some tag_keys, c_hsBuf := [20, 0, 0]\<rparr>) = (Ok [[20, 0, 0, 0]], c3)"
proof -
  let ?ms = "[[1, 0, 0, 2, 7, 8], [20, 0, 0, 0]] :: bytes list"
  let ?sealed = "[Protected 22 [1, 0], Bare 20 [1], Protected 22 [0, 2, 7], Protected 22 [],
      Protected 22 [8, 20, 0, 0, 0, 24]]"
  let ?bare = "[Bare 22 [1, 0], Bare 20 [1], Bare 22 [0, 2, 7], Bare 22 [], Bare 22 [8, 20, 0, 0, 0, 24]]"
  note facts = framed_message_def handshakeHeaderLen_def handshake_records_def handshake_bytes_def content_types
    record_limits u24_of_def receivable_def incoming_def tls_Server_def tag_aead_correct tag_keys_def
  have 1: "\<exists>c'. readMessages (length ?ms) (tls_Server (plain_bytes (map carried ?bare), EOF) [] None) = (Ok ?ms, c')"
    using handshake_messages_survive_fragmentation [of ?ms ?bare "tls_Server (plain_bytes (map carried ?bare), EOF) [] None"
        "[]" EOF "[24]"] by (simp add: facts) blast
  have 2: "\<exists>c'. readMessages (length ?ms) ((tls_Server (fst (wire_bytes ?sealed tag_keys), EOF) [] None)
      \<lparr>c_readKeys := Some tag_keys\<rparr>) = (Ok ?ms, c')"
    using handshake_messages_survive_fragmentation [of ?ms ?sealed "(tls_Server (fst (wire_bytes ?sealed tag_keys), EOF) [] None)
        \<lparr>c_readKeys := Some tag_keys\<rparr>" "[]" EOF "[24]"] by (simp add: facts del: wire_bytes.simps) blast
  have 3: "\<exists>c'. readMessages (length [[20, 0, 0, 0 :: byte]]) ((tls_Server (fst (wire_bytes [Protected 22 [0]] tag_keys), EOF) [] None)
      \<lparr>c_readKeys := Some tag_keys, c_hsBuf := [20, 0, 0]\<rparr>) = (Ok [[20, 0, 0, 0]], c')"
    using handshake_messages_survive_fragmentation [of "[[20, 0, 0, 0]]" "[Protected 22 [0]]"
        "(tls_Server (fst (wire_bytes [Protected 22 [0]] tag_keys), EOF) [] None)
        \<lparr>c_readKeys := Some tag_keys, c_hsBuf := [20, 0, 0]\<rparr>" "[]" EOF "[]"] by (simp add: facts del: wire_bytes.simps) blast
  show ?thesis using 1 2 3 by (simp del: wire_bytes.simps readMessages.simps add: numeral_2_eq_2) 
qed

end
