(* ===== verification/X25519_Ladder.thy ===== *)
theory X25519_Ladder
  imports Tls_Base
begin

unbundle bit_operations_syntax

section \<open>X25519 (tls/x25519.go)\<close>

text \<open>
  Scalar multiplication on Curve25519 with the Montgomery ladder. \<^verbatim>\<open>big.Int\<close> is \<open>int\<close>: the values are
  unbounded and every field operation reduces modulo \<open>p\<close> with the Euclidean remainder of
  \<^verbatim>\<open>big.Int.Mod\<close>, which \<open>mod\<close> is for a positive modulus. A \<^verbatim>\<open>[32]byte\<close> is a list of 32 bytes.
\<close>

subsection \<open>Field arithmetic\<close>

definition p25519 :: int where "p25519 = 2 ^ 255 - 19"
definition a24 :: int where "a24 = 121665"

definition feAdd :: "int \<Rightarrow> int \<Rightarrow> int" where "feAdd a b = (a + b) mod p25519"
definition feSub :: "int \<Rightarrow> int \<Rightarrow> int" where "feSub a b = (a - b) mod p25519"
definition feMul :: "int \<Rightarrow> int \<Rightarrow> int" where "feMul a b = (a * b) mod p25519"
definition feSquare :: "int \<Rightarrow> int" where "feSquare a = feMul a a"

lemmas fe_defs = feAdd_def feSub_def feMul_def feSquare_def

text \<open>\<^verbatim>\<open>big.Int.Exp(x, y, m)\<close> for \<open>0 \<le> y\<close> and \<open>0 < m\<close>, by squaring.\<close>

fun big_Exp :: "int \<Rightarrow> nat \<Rightarrow> int \<Rightarrow> int" where
  "big_Exp x n m =
     (if n = 0 then 1 mod m
      else let h = big_Exp (x * x mod m) (n div 2) m in
        if even n then h else x * h mod m)"

declare big_Exp.simps [simp del]

definition feInverse :: "int \<Rightarrow> int" where
  "feInverse a = big_Exp a (nat (p25519 - 2)) p25519"

subsection \<open>Coordinates and scalars\<close>

definition reverse32 :: "bytes \<Rightarrow> bytes" where
  "reverse32 a = map (\<lambda>i. a ! (31 - i)) [0..<32]"

text \<open>\<^verbatim>\<open>SetBytes\<close> and \<^verbatim>\<open>FillBytes\<close> on 32 big-endian bytes.\<close>

definition big_SetBytes :: "bytes \<Rightarrow> int" where
  "big_SetBytes be = foldl (\<lambda>acc b. acc * 256 + uint b) 0 be"

definition big_FillBytes :: "int \<Rightarrow> bytes" where
  "big_FillBytes n = map (\<lambda>i. word_of_int (n div 256 ^ (31 - i))) [0..<32]"

definition decodeUCoordinate :: "bytes \<Rightarrow> int" where
  "decodeUCoordinate u = (let masked = u[31 := u ! 31 AND 0x7F] in big_SetBytes (reverse32 masked))"

definition encodeUCoordinate :: "int \<Rightarrow> bytes" where
  "encodeUCoordinate a = reverse32 (big_FillBytes (a mod p25519))"

definition clampScalar :: "bytes \<Rightarrow> bytes" where
  "clampScalar k =
     (let out = k[0 := k ! 0 AND 248]; out = out[31 := out ! 31 AND 127] in out[31 := out ! 31 OR 64])"

subsection \<open>The ladder\<close>

record ladder =
  l_x2 :: int
  l_z2 :: int
  l_x3 :: int
  l_z3 :: int
  l_swap :: bool

definition cond_swap :: "bool \<Rightarrow> ladder \<Rightarrow> ladder" where
  "cond_swap b s = (if b then s\<lparr>l_x2 := l_x3 s, l_z2 := l_z3 s, l_x3 := l_x2 s, l_z3 := l_z2 s\<rparr> else s)"

definition ladder_step :: "int \<Rightarrow> ladder \<Rightarrow> ladder" where
  "ladder_step x1 s =
     (let A = feAdd (l_x2 s) (l_z2 s); AA = feSquare A;
          B = feSub (l_x2 s) (l_z2 s); BB = feSquare B;
          E = feSub AA BB;
          C = feAdd (l_x3 s) (l_z3 s);
          D = feSub (l_x3 s) (l_z3 s);
          DA = feMul D A;
          CB = feMul C B in
      s\<lparr>l_x2 := feMul AA BB, l_z2 := feMul E (feAdd AA (feMul a24 E)),
        l_x3 := feSquare (feAdd DA CB), l_z3 := feMul x1 (feSquare (feSub DA CB))\<rparr>)"

text \<open>One turn of the loop: \<^verbatim>\<open>bit\<close> is bit \<open>t\<close> of the scalar; the swap flag is kept modulo 2.\<close>

definition ladder_turn :: "bytes \<Rightarrow> int \<Rightarrow> nat \<Rightarrow> ladder \<Rightarrow> ladder" where
  "ladder_turn k x1 t s =
     (let b = bit (k ! (t div 8)) (t mod 8);
          swap = (l_swap s \<noteq> b) in
      ladder_step x1 ((cond_swap swap s)\<lparr>l_swap := b\<rparr>))"

fun ladder_loop :: "bytes \<Rightarrow> int \<Rightarrow> nat \<Rightarrow> ladder \<Rightarrow> ladder" where
  "ladder_loop k x1 0 s = s"
| "ladder_loop k x1 (Suc t) s = ladder_loop k x1 t (ladder_turn k x1 t s)"

definition scalarMult :: "bytes \<Rightarrow> bytes \<Rightarrow> bytes" where
  "scalarMult scalar u =
     (let k = clampScalar scalar; x1 = decodeUCoordinate u;
          s = ladder_loop k x1 255 \<lparr>l_x2 = 1, l_z2 = 0, l_x3 = x1, l_z3 = 1, l_swap = False\<rparr>;
          s = cond_swap (l_swap s) s in
      encodeUCoordinate (feMul (l_x2 s) (feInverse (l_z2 s))))"

definition x25519Basepoint :: bytes where
  "x25519Basepoint = 9 # replicate 31 0"

definition x25519Base :: "bytes \<Rightarrow> bytes" where
  "x25519Base scalar = scalarMult scalar x25519Basepoint"

definition x25519 :: "bytes \<Rightarrow> bytes \<Rightarrow> bytes outcome" where
  "x25519 scalar peerPublic =
     (let out = scalarMult scalar peerPublic in
      if out = replicate 32 0 then Err ErrZeroSharedSecret else Ok out)"

subsection \<open>Encodings\<close>

lemma length_reverse32 [simp]: "length (reverse32 a) = 32"
  by (simp add: reverse32_def)

lemma length_scalarMult [simp]: "length (scalarMult k u) = 32"
  by (simp add: scalarMult_def encodeUCoordinate_def Let_def)

lemma reverse32_rev: "length a = 32 \<Longrightarrow> reverse32 a = rev a"
  by (rule nth_equalityI) (simp_all add: reverse32_def rev_nth)

lemma p25519_pos [simp]: "0 < p25519"
  by (simp add: p25519_def)

lemma big_Exp_power: "big_Exp x n m = x ^ n mod m"
proof (induction x n m rule: big_Exp.induct)
  case (1 x n m)
  show ?case
  proof (cases "n = 0")
    case True then show ?thesis by (subst big_Exp.simps) simp
  next
    case False
    have h: "big_Exp (x * x mod m) (n div 2) m = (x * x) ^ (n div 2) mod m"
      using 1 [OF False] by (simp add: power_mod)
    have "(x * x) ^ (n div 2) = x ^ (2 * (n div 2))"
      by (simp add: power_mult power2_eq_square)
    moreover have "even n \<Longrightarrow> 2 * (n div 2) = n" "odd n \<Longrightarrow> Suc (2 * (n div 2)) = n" by auto
    ultimately show ?thesis
      using False h by (subst big_Exp.simps) (auto simp: Let_def mod_mult_right_eq simp flip: power_Suc)
  qed
qed

subsection \<open>The textbook ladder\<close>

text \<open>
  The reference: doubling and differential addition on projective x-coordinates, and the ladder that
  keeps \<open>R1 - R0 = P\<close> and moves by the bits of the scalar without any swapping.
\<close>

definition xdbl :: "int \<times> int \<Rightarrow> int \<times> int" where
  "xdbl R = (let AA = (fst R + snd R)\<^sup>2; BB = (fst R - snd R)\<^sup>2; E = AA - BB in
     (AA * BB mod p25519, E * (AA + a24 * E) mod p25519))"

definition xadd :: "int \<Rightarrow> int \<times> int \<Rightarrow> int \<times> int \<Rightarrow> int \<times> int" where
  "xadd x1 R0 R1 = (let DA = (fst R1 - snd R1) * (fst R0 + snd R0); CB = (fst R1 + snd R1) * (fst R0 - snd R0) in
     ((DA + CB)\<^sup>2 mod p25519, x1 * (DA - CB)\<^sup>2 mod p25519))"

fun textbook_ladder :: "(nat \<Rightarrow> bool) \<Rightarrow> int \<Rightarrow> nat \<Rightarrow> (int \<times> int) \<times> (int \<times> int) \<Rightarrow> (int \<times> int) \<times> (int \<times> int)" where
  "textbook_ladder b x1 0 R = R"
| "textbook_ladder b x1 (Suc t) (R0, R1) =
     textbook_ladder b x1 t
       (if b t then (xadd x1 R0 R1, xdbl R1) else (xdbl R0, xadd x1 R0 R1))"

lemma xadd_commute: "xadd x1 R0 R1 = xadd x1 R1 R0"
proof -
  have "(DA - CB)\<^sup>2 = (CB - DA)\<^sup>2" for DA CB :: int by (simp add: power2_commute)
  then show ?thesis by (simp add: xadd_def Let_def algebra_simps power2_commute)
qed

text \<open>Field operations on representatives: what is congruent modulo \<open>p\<close> gives the same result.\<close>

lemma fe_mod_intros:
  "a mod p25519 = a' mod p25519 \<Longrightarrow> b mod p25519 = b' mod p25519 \<Longrightarrow> feAdd a b mod p25519 = (a' + b') mod p25519"
  "a mod p25519 = a' mod p25519 \<Longrightarrow> b mod p25519 = b' mod p25519 \<Longrightarrow> feSub a b mod p25519 = (a' - b') mod p25519"
  "a mod p25519 = a' mod p25519 \<Longrightarrow> b mod p25519 = b' mod p25519 \<Longrightarrow> feMul a b mod p25519 = a' * b' mod p25519"
  "a mod p25519 = a' mod p25519 \<Longrightarrow> feSquare a mod p25519 = a'\<^sup>2 mod p25519"
  by (simp_all add: fe_defs power2_eq_square) (metis mod_add_eq, metis mod_diff_eq, metis mod_mult_eq, metis mod_mult_eq)

lemma fe_reduced [simp]:
  "feAdd a b mod p25519 = feAdd a b" "feSub a b mod p25519 = feSub a b"
  "feMul a b mod p25519 = feMul a b" "feSquare a mod p25519 = feSquare a"
  by (simp_all add: fe_defs)

lemmas fe_intros = fe_mod_intros [unfolded fe_reduced] fe_mod_intros

lemma ladder_step_formulas:
  "l_x2 (ladder_step x1 s) = fst (xdbl (l_x2 s, l_z2 s))"
  "l_z2 (ladder_step x1 s) = snd (xdbl (l_x2 s, l_z2 s))"
  "l_x3 (ladder_step x1 s) = fst (xadd x1 (l_x2 s, l_z2 s) (l_x3 s, l_z3 s))"
  "l_z3 (ladder_step x1 s) = snd (xadd x1 (l_x2 s, l_z2 s) (l_x3 s, l_z3 s))"
  "l_swap (ladder_step x1 s) = l_swap s"
  unfolding ladder_step_def xdbl_def xadd_def Let_def
  by simp_all (intro fe_intros refl)+

definition tracks :: "ladder \<Rightarrow> (int \<times> int) \<times> (int \<times> int) \<Rightarrow> bool" where
  "tracks s R \<longleftrightarrow> ((l_x2 s, l_z2 s), (l_x3 s, l_z3 s)) = (if l_swap s then (snd R, fst R) else R)"

lemma ladder_turn_tracks:
  assumes "tracks s (R0, R1)" "b = bit (k ! (t div 8)) (t mod 8)"
  shows "tracks (ladder_turn k x1 t s)
    (if b then (xadd x1 R0 R1, xdbl R1) else (xdbl R0, xadd x1 R0 R1))"
  using assms xadd_commute [of x1 R0 R1]
  by (auto simp: tracks_def ladder_turn_def Let_def cond_swap_def ladder_step_formulas split: if_splits)

lemma ladder_loop_tracks:
  "tracks s R \<Longrightarrow> tracks (ladder_loop k x1 t s)
     (textbook_ladder (\<lambda>i. bit (k ! (i div 8)) (i mod 8)) x1 t R)"
proof (induction t arbitrary: s R)
  case (Suc t)
  obtain R0 R1 where R: "R = (R0, R1)" by (cases R)
  show ?case
    using Suc.IH [OF ladder_turn_tracks [OF Suc.prems [unfolded R] refl]]
    by (simp only: R ladder_loop.simps textbook_ladder.simps)
qed simp

lemma tracks_result:
  "tracks s R \<Longrightarrow> (l_x2 (cond_swap (l_swap s) s), l_z2 (cond_swap (l_swap s) s)) = fst R"
  by (cases R) (auto simp: tracks_def cond_swap_def split: if_splits)

lemma scalarMult_textbook_lemma:
  "scalarMult scalar u =
     (let k = clampScalar scalar; x1 = decodeUCoordinate u;
          (x, z) = fst (textbook_ladder (\<lambda>i. bit (k ! (i div 8)) (i mod 8)) x1 255 ((1, 0), (x1, 1))) in
      encodeUCoordinate (x * z ^ nat (p25519 - 2)))"
proof -
  let ?k = "clampScalar scalar" and ?x1 = "decodeUCoordinate u"
  let ?s = "ladder_loop ?k ?x1 255 \<lparr>l_x2 = 1, l_z2 = 0, l_x3 = ?x1, l_z3 = 1, l_swap = False\<rparr>"
  let ?R = "textbook_ladder (\<lambda>i. bit (?k ! (i div 8)) (i mod 8)) ?x1 255 ((1, 0), (?x1, 1))"
  have "tracks ?s ?R" by (rule ladder_loop_tracks) (simp add: tracks_def)
  then have "(l_x2 (cond_swap (l_swap ?s) ?s), l_z2 (cond_swap (l_swap ?s) ?s)) = fst ?R"
    by (rule tracks_result)
  moreover have "encodeUCoordinate (feMul x (feInverse z)) = encodeUCoordinate (x * z ^ nat (p25519 - 2))" for x z
    by (simp add: encodeUCoordinate_def feMul_def feInverse_def big_Exp_power mod_mult_right_eq)
  ultimately show ?thesis
    unfolding scalarMult_def Let_def
    by (cases "fst ?R") (simp only: prod.inject prod.case)
qed

subsection \<open>Points of order two and the point at infinity\<close>

lemma xdbl_degenerate:
  assumes "fst R * snd R mod p25519 = 0"
  shows "snd (xdbl R) = 0"
proof -
  have "(fst R + snd R)\<^sup>2 - (fst R - snd R)\<^sup>2 = fst R * snd R * 4" by (simp add: power2_eq_square algebra_simps)
  then have "((fst R + snd R)\<^sup>2 - (fst R - snd R)\<^sup>2) mod p25519 = 0"
    using assms by (metis mod_mult_left_eq mult_zero_left mod_0)
  then show ?thesis by (auto simp: xdbl_def Let_def mod_eq_0_iff_dvd)
qed

lemma textbook_ladder_degenerate:
  assumes "x1 mod p25519 = 0" "fst R0 * snd R0 mod p25519 = 0" "fst R1 * snd R1 mod p25519 = 0" "0 < t"
  shows "snd (fst (textbook_ladder b x1 t (R0, R1))) = 0"
proof -
  have xadd: "snd (xadd x1 A B) = 0" for A B
    using assms(1) by (auto simp: xadd_def Let_def mod_eq_0_iff_dvd)
  have zero: "snd R0 = 0 \<Longrightarrow> snd R1 = 0 \<Longrightarrow> snd (fst (textbook_ladder b x1 t (R0, R1))) = 0" for R0 R1 t
    by (induction t arbitrary: R0 R1) (simp_all add: xadd xdbl_degenerate)
  show ?thesis using assms(2-4)
    by (cases t) (simp_all add: zero xadd xdbl_degenerate)
qed

subsection \<open>Encodings of field elements\<close>

lemma big_SetBytes_append: "big_SetBytes (a @ [b]) = big_SetBytes a * 256 + uint b"
  by (simp add: big_SetBytes_def)

lemma big_SetBytes_digits:
  "big_SetBytes (map (\<lambda>i. word_of_int (n div 256 ^ (m - i))) [0..<Suc m]) = n mod 256 ^ Suc m"
proof (induction m arbitrary: n)
  case 0
  then show ?case by (simp add: big_SetBytes_def uint_word_of_int)
next
  case (Suc m)
  have "map (\<lambda>i. word_of_int (n div 256 ^ (Suc m - i))) [0..<Suc (Suc m)] =
      map (\<lambda>i. word_of_int ((n div 256) div 256 ^ (m - i))) [0..<Suc m] @ [word_of_int n :: byte]"
  proof -
    have "n div 256 ^ (Suc m - i) = (n div 256) div 256 ^ (m - i)" if "i < Suc m" for i
      using that by (simp add: Suc_diff_le zdiv_zmult2_eq mult.commute)
    then show ?thesis by (simp add: Suc_diff_le zdiv_zmult2_eq mult.commute)
  qed
  then have "big_SetBytes (map (\<lambda>i. word_of_int (n div 256 ^ (Suc m - i))) [0..<Suc (Suc m)]) =
      (n div 256) mod 256 ^ Suc m * 256 + n mod 256"
    by (simp only: big_SetBytes_append Suc.IH) (simp add: uint_word_of_int)
  also have "\<dots> = n mod 256 ^ Suc (Suc m)"
    using zmod_zmult2_eq [of "256 ^ Suc m" n 256] by (simp only: power_Suc mult.commute [of _ 256]) simp
  finally show ?case .
qed

lemma big_SetBytes_FillBytes: "0 \<le> n \<Longrightarrow> n < 2 ^ 256 \<Longrightarrow> big_SetBytes (big_FillBytes n) = n"
  using big_SetBytes_digits [of n 31] by (simp add: big_FillBytes_def del: upt_Suc)

lemma length_big_FillBytes [simp]: "length (big_FillBytes n) = 32"
  by (simp add: big_FillBytes_def)

lemma encodeUCoordinate_nth31: "encodeUCoordinate a ! 31 AND 0x7F = encodeUCoordinate a ! 31"
proof -
  let ?n = "a mod p25519"
  have n: "0 \<le> ?n" "?n < 2 ^ 255"
    using pos_mod_bound [of p25519 a] by (simp_all add: p25519_def)
  have e: "encodeUCoordinate a ! 31 = word_of_int (?n div 256 ^ 31)"
    by (simp add: encodeUCoordinate_def reverse32_def big_FillBytes_def)
  have d: "0 \<le> ?n div 256 ^ 31" "?n div 256 ^ 31 < 128"
    using n by (simp_all add: pos_imp_zdiv_nonneg_iff div_less_iff_less_mult)
  then have "uint (word_of_int (?n div 256 ^ 31) :: byte) < 2 ^ 7" by (simp add: uint_word_of_int)
  then have "take_bit 7 (encodeUCoordinate a ! 31) = encodeUCoordinate a ! 31"
    unfolding e word_uint_eq_iff by (simp add: unsigned_take_bit_eq take_bit_int_eq_self)
  moreover have "(0x7F :: byte) = mask 7" by (simp add: mask_eq_exp_minus_1)
  ultimately show ?thesis by (simp add: take_bit_eq_mask)
qed

lemma decode_encode_lemma: "decodeUCoordinate (encodeUCoordinate a) = a mod p25519"
proof -
  let ?n = "a mod p25519"
  have n: "0 \<le> ?n" "?n < 2 ^ 256"
    using pos_mod_bound [of p25519 a] by (simp_all add: p25519_def)
  have "(encodeUCoordinate a)[31 := encodeUCoordinate a ! 31 AND 0x7F] = encodeUCoordinate a"
    by (simp add: encodeUCoordinate_nth31)
  moreover have "reverse32 (encodeUCoordinate a) = big_FillBytes ?n"
    by (simp add: encodeUCoordinate_def reverse32_rev)
  ultimately show ?thesis using n by (simp add: decodeUCoordinate_def Let_def big_SetBytes_FillBytes)
qed

lemma encodeUCoordinate_0: "encodeUCoordinate 0 = replicate 32 0"
proof -
  have "big_FillBytes 0 = replicate 32 0" by (simp add: big_FillBytes_def map_replicate_const)
  then show ?thesis by (simp add: encodeUCoordinate_def reverse32_rev)
qed

lemma encode_zero_iff: "encodeUCoordinate a = replicate 32 0 \<longleftrightarrow> a mod p25519 = 0"
proof
  assume "encodeUCoordinate a = replicate 32 0"
  then have "encodeUCoordinate a = encodeUCoordinate 0" by (simp add: encodeUCoordinate_0)
  then show "a mod p25519 = 0" using decode_encode_lemma [of a] decode_encode_lemma [of 0] by simp
next
  assume "a mod p25519 = 0"
  then show "encodeUCoordinate a = replicate 32 0"
    using encodeUCoordinate_0 by (simp add: encodeUCoordinate_def)
qed

subsection \<open>Clamping\<close>

lemma clampScalar_idem_lemma:
  assumes "length k = 32"
  shows "clampScalar (clampScalar k) = clampScalar k"
proof -
  have "(b AND 248) AND 248 = b AND 248" for b :: byte by (simp add: and.assoc)
  moreover have "((b AND 127 OR 64) AND 127) OR 64 = b AND 127 OR 64" for b :: byte
    by (rule bit_word_eqI) (auto simp: bit_simps)
  ultimately show ?thesis
    using assms by (simp add: clampScalar_def Let_def list_update_swap)
qed

subsection \<open>Properties of X25519\<close>

text \<open>
  C26: the ladder of the code, which swaps its two points only when the scalar bit changes, computes the
  textbook Montgomery ladder: the projective x-coordinate after the 255 bits of the clamped scalar,
  brought to affine form by Fermat inversion. Every scalar and every 32 bytes of a peer are covered.
\<close>
theorem scalarMult_is_textbook_ladder:
  "scalarMult scalar u =
     (let k = clampScalar scalar; x1 = decodeUCoordinate u;
          (x, z) = fst (textbook_ladder (\<lambda>i. bit (k ! (i div 8)) (i mod 8)) x1 255 ((1, 0), (x1, 1))) in
      encodeUCoordinate (x * z ^ nat (p25519 - 2)))"
  by (rule scalarMult_textbook_lemma)

lemma scalarMult_zero_point:
  assumes "decodeUCoordinate u mod p25519 = 0"
  shows "scalarMult k u = replicate 32 0"
proof -
  let ?R = "fst (textbook_ladder (\<lambda>i. bit (clampScalar k ! (i div 8)) (i mod 8))
      (decodeUCoordinate u) 255 ((1, 0), (decodeUCoordinate u, 1)))"
  have "snd ?R = 0"
    by (rule textbook_ladder_degenerate [OF assms]) (use assms in simp_all)
  moreover have "0 < nat (p25519 - 2)" by (simp add: p25519_def)
  ultimately have "fst ?R * snd ?R ^ nat (p25519 - 2) = 0" by simp
  then show ?thesis
    by (simp only: scalarMult_textbook_lemma Let_def case_prod_beta encodeUCoordinate_0)
qed

text \<open>
  A peer that sends the point of order two, in either of its encodings (0 or p, with or without the
  ignored top bit), is refused with every private scalar: the shared secret would be all zeros. No
  other input is refused, and a secret that is returned has 32 bytes and is not zero.
\<close>
theorem x25519_refuses_zero_point:
  "(decodeUCoordinate u mod p25519 = 0 \<longrightarrow> x25519 k u = Err ErrZeroSharedSecret)
   \<and> (x25519 k u = Err ErrZeroSharedSecret \<longleftrightarrow> scalarMult k u = replicate 32 0)
   \<and> (\<forall>s. x25519 k u = Ok s \<longrightarrow> length s = 32 \<and> s \<noteq> replicate 32 0)
   \<and> x25519 k u \<noteq> Panic"
  by (auto simp: x25519_def Let_def scalarMult_zero_point)

theorem x25519_refuses_zero_point_witness:
  "x25519 (replicate 32 7) (replicate 32 0) = Err ErrZeroSharedSecret
   \<and> x25519 (replicate 32 7) (237 # replicate 30 255 @ [255]) = Err ErrZeroSharedSecret"
proof -
  have "decodeUCoordinate (replicate 32 0) mod p25519 = 0"
    "decodeUCoordinate (237 # replicate 30 255 @ [255]) mod p25519 = 0"
    by code_simp+
  then show ?thesis
    by (intro conjI x25519_refuses_zero_point [THEN conjunct1, THEN mp])
qed

text \<open>
  Field elements survive their encoding: the 32 bytes that \<^verbatim>\<open>encodeUCoordinate\<close> writes decode to the
  element reduced modulo p (so the ignored top bit is always clear), and clamping a scalar twice is
  clamping it once, so a stored, already clamped private key computes the same secrets.
\<close>
theorem coordinate_roundtrip:
  "decodeUCoordinate (encodeUCoordinate a) = a mod p25519
   \<and> (length k = 32 \<longrightarrow> x25519 (clampScalar k) u = x25519 k u)"
  by (simp add: decode_encode_lemma x25519_def scalarMult_def clampScalar_idem_lemma)

theorem coordinate_roundtrip_witness:
  "x25519 (clampScalar (replicate 32 255)) (9 # replicate 31 0) = x25519 (replicate 32 255) (9 # replicate 31 0)"
  using coordinate_roundtrip [of 0 "replicate 32 255" "9 # replicate 31 0"] by simp

end
