(* ===== verification/Rfc8446.thy ===== *)
theory Rfc8446
  imports Tls_Keys Tls_Messages
begin

section \<open>The TLS 1.3 key schedule and server messages, written from the RFCs\<close>

text \<open>
  An independent statement of what \<^verbatim>\<open>tls/keyschedule.go\<close> has to compute: HMAC (RFC 2104), HKDF (RFC 5869),
  HkdfLabel, HKDF-Expand-Label and Derive-Secret (RFC 8446, section 7.1), the secrets of section 7.1, the
  traffic keys of section 7.3, the Finished MAC of section 4.4.4 and the messages of section 4 that the server
  sends. The specifications use no definition of the code's model, only its record types; every label, length,
  code point and encoding is a literal. The lemmas of the second part show that the functions of
  \<^verbatim>\<open>tls/keyschedule.go\<close>, \<^verbatim>\<open>tls/cert.go\<close> and \<^verbatim>\<open>tls/messages.go\<close> compute these values when digests have 32 bytes.
\<close>

subsection \<open>The presentation language\<close>

definition rfc_uint :: "nat \<Rightarrow> nat \<Rightarrow> bytes" where
  "rfc_uint k n = map (\<lambda>i. of_nat (n div 256 ^ i mod 256)) (rev [0..<k])"

definition rfc_opaque :: "nat \<Rightarrow> bytes \<Rightarrow> bytes" where
  "rfc_opaque k b = rfc_uint k (length b) @ b"

definition rfc_ascii :: "string \<Rightarrow> bytes" where
  "rfc_ascii s = map of_char s"

subsection \<open>HMAC and HKDF with a 32-byte hash of 64-byte blocks\<close>

definition rfc_HMAC :: "(bytes \<Rightarrow> bytes) \<Rightarrow> bytes \<Rightarrow> bytes \<Rightarrow> bytes" where
  "rfc_HMAC H K text =
     (let K0 = take 64 ((if 64 < length K then H K else K) @ replicate 64 0) in
      H (map2 (XOR) K0 (replicate 64 0x5C) @ H (map2 (XOR) K0 (replicate 64 0x36) @ text)))"

definition rfc_Extract :: "(bytes \<Rightarrow> bytes) \<Rightarrow> bytes \<Rightarrow> bytes \<Rightarrow> bytes" where
  "rfc_Extract H salt IKM = rfc_HMAC H salt IKM"

fun rfc_T :: "(bytes \<Rightarrow> bytes) \<Rightarrow> bytes \<Rightarrow> bytes \<Rightarrow> nat \<Rightarrow> bytes" where
  "rfc_T H PRK info 0 = []"
| "rfc_T H PRK info (Suc n) = rfc_HMAC H PRK (rfc_T H PRK info n @ info @ [of_nat (Suc n)])"

definition rfc_Expand :: "(bytes \<Rightarrow> bytes) \<Rightarrow> bytes \<Rightarrow> bytes \<Rightarrow> nat \<Rightarrow> bytes" where
  "rfc_Expand H PRK info L = take L (concat (map (rfc_T H PRK info) [1..<Suc ((L + 31) div 32)]))"

subsection \<open>Section 7.1: labels and secrets\<close>

definition rfc_HkdfLabel :: "nat \<Rightarrow> string \<Rightarrow> bytes \<Rightarrow> bytes" where
  "rfc_HkdfLabel L label context =
     rfc_uint 2 L @ rfc_opaque 1 (rfc_ascii (''tls13 '' @ label)) @ rfc_opaque 1 context"

definition rfc_Expand_Label :: "(bytes \<Rightarrow> bytes) \<Rightarrow> bytes \<Rightarrow> string \<Rightarrow> bytes \<Rightarrow> nat \<Rightarrow> bytes" where
  "rfc_Expand_Label H secret label context L = rfc_Expand H secret (rfc_HkdfLabel L label context) L"

definition rfc_Derive_Secret :: "(bytes \<Rightarrow> bytes) \<Rightarrow> bytes \<Rightarrow> string \<Rightarrow> bytes \<Rightarrow> bytes" where
  "rfc_Derive_Secret H secret label messages = rfc_Expand_Label H secret label (H messages) 32"

definition rfc_early_secret :: "(bytes \<Rightarrow> bytes) \<Rightarrow> bytes" where
  "rfc_early_secret H = rfc_Extract H (replicate 32 0) (replicate 32 0)"

definition rfc_handshake_secret :: "(bytes \<Rightarrow> bytes) \<Rightarrow> bytes \<Rightarrow> bytes" where
  "rfc_handshake_secret H dhe = rfc_Extract H (rfc_Derive_Secret H (rfc_early_secret H) ''derived'' []) dhe"

definition rfc_master_secret :: "(bytes \<Rightarrow> bytes) \<Rightarrow> bytes \<Rightarrow> bytes" where
  "rfc_master_secret H dhe =
     rfc_Extract H (rfc_Derive_Secret H (rfc_handshake_secret H dhe) ''derived'' []) (replicate 32 0)"

text \<open>
  The schedule after the server's Finished: \<open>hello\<close> is ClientHello and ServerHello, \<open>finished\<close> all messages
  from the ClientHello to the server's Finished.
\<close>

definition rfc_schedule :: "(bytes \<Rightarrow> bytes) \<Rightarrow> bytes \<Rightarrow> bytes \<Rightarrow> bytes \<Rightarrow> keySchedule" where
  "rfc_schedule H dhe hello finished =
     \<lparr>k_earlySecret = rfc_early_secret H,
      k_handshakeSecret = rfc_handshake_secret H dhe,
      k_masterSecret = rfc_master_secret H dhe,
      k_clientHandshakeTrafficSecret = rfc_Derive_Secret H (rfc_handshake_secret H dhe) ''c hs traffic'' hello,
      k_serverHandshakeTrafficSecret = rfc_Derive_Secret H (rfc_handshake_secret H dhe) ''s hs traffic'' hello,
      k_clientApplicationTrafficSecret = rfc_Derive_Secret H (rfc_master_secret H dhe) ''c ap traffic'' finished,
      k_serverApplicationTrafficSecret = rfc_Derive_Secret H (rfc_master_secret H dhe) ''s ap traffic'' finished\<rparr>"

subsection \<open>Sections 7.3 and 4.4.4: record keys and the Finished MAC\<close>

definition rfc_record_keys :: "crypto \<Rightarrow> bytes \<Rightarrow> recordKeys" where
  "rfc_record_keys cr secret =
     \<lparr>rk_aead = cr_gcm cr (rfc_Expand_Label (cr_sha256 cr) secret ''key'' [] 16),
      rk_iv = rfc_Expand_Label (cr_sha256 cr) secret ''iv'' [] 12,
      rk_seq = 0\<rparr>"

definition rfc_verify_data :: "(bytes \<Rightarrow> bytes) \<Rightarrow> bytes \<Rightarrow> bytes \<Rightarrow> bytes" where
  "rfc_verify_data H base_key messages =
     rfc_HMAC H (rfc_Expand_Label H base_key ''finished'' [] 32) (H messages)"

subsection \<open>Section 4: the messages of the server's flight\<close>

definition rfc_handshake :: "byte \<Rightarrow> bytes \<Rightarrow> bytes" where
  "rfc_handshake msg_type body = [msg_type] @ rfc_opaque 3 body"

text \<open>TLS_AES_128_GCM_SHA256, null compression, supported_versions (43) with 0x0304, key_share (51) with x25519.\<close>

definition rfc_ServerHello :: "bytes \<Rightarrow> bytes \<Rightarrow> bytes \<Rightarrow> bytes" where
  "rfc_ServerHello random session_id pub = rfc_handshake 2
     ([3, 3] @ random @ rfc_opaque 1 session_id @ [0x13, 0x01] @ [0] @
      rfc_opaque 2 ([0, 43] @ rfc_opaque 2 [3, 4] @ [0, 51] @ rfc_opaque 2 ([0, 0x1D] @ rfc_opaque 2 pub)))"

definition rfc_EncryptedExtensions :: bytes where
  "rfc_EncryptedExtensions = rfc_handshake 8 (rfc_opaque 2 [])"

definition rfc_Certificate :: "bytes \<Rightarrow> bytes" where
  "rfc_Certificate der =
     rfc_handshake 11 (rfc_opaque 1 [] @ rfc_opaque 3 (rfc_opaque 3 der @ rfc_opaque 2 []))"

definition rfc_signed_content :: "bytes \<Rightarrow> bytes" where
  "rfc_signed_content th = replicate 64 0x20 @ rfc_ascii ''TLS 1.3, server CertificateVerify'' @ [0] @ th"

definition rfc_CertificateVerify :: "bytes \<Rightarrow> bytes" where
  "rfc_CertificateVerify sig = rfc_handshake 15 ([0x04, 0x03] @ rfc_opaque 2 sig)"

definition rfc_Finished :: "bytes \<Rightarrow> bytes" where
  "rfc_Finished verify_data = rfc_handshake 20 verify_data"

subsection \<open>The code computes these values\<close>

lemma rfc_ascii [simp]: "rfc_ascii s = str s"
  by (simp add: rfc_ascii_def str_def)

lemma byte_of_nat_mod [simp]: "(of_nat (n mod 256) :: byte) = of_nat n"
  by (simp add: word_of_nat_eq_iff take_bit_eq_mod)

lemma rfc_uint_1: "rfc_uint (Suc 0) n = [of_nat n]"
  by (simp add: rfc_uint_def)

lemma rfc_uint_2: "rfc_uint 2 n = u16_bytes (of_nat n)"
proof -
  have "n mod 65536 div 256 = n div 256 mod 256"
    using mod_mult2_eq [of n 256 256] by simp
  then have "unat (of_nat (n div 256) :: byte) = unat (ucast (drop_bit 8 (of_nat n :: u16)) :: byte)"
    by (simp add: unat_of_nat unat_drop_bit_eq unsigned_ucast_eq take_bit_eq_mod)
      (simp add: unat_of_nat drop_bit_eq_div flip: unat_drop_bit_eq)
  then have "(of_nat (n div 256) :: byte) = ucast (drop_bit 8 (of_nat n :: u16))"
    by (simp only: word_unat_eq_iff)
  moreover have "(of_nat n :: byte) = ucast (of_nat n :: u16)"
    using mod_mod_cancel [of 256 65536 n]
    by (simp add: word_unat_eq_iff unsigned_ucast_eq take_bit_eq_mod unat_of_nat)
  ultimately show ?thesis by (simp add: rfc_uint_def u16_bytes_def numeral_2_eq_2)
qed

lemma rfc_uint_3: "rfc_uint 3 n = u24_bytes n"
  by (simp add: rfc_uint_def u24_bytes_def numeral_3_eq_3)

lemma rfc_HMAC:
  assumes "hash_ok H"
  shows "rfc_HMAC H = hmac H"
proof (intro ext)
  fix K msg
  define k where "k = (if 64 < length K then H K else K)"
  have "length k \<le> 64" using assms by (auto simp: k_def hash_ok_def hashLen_def)
  then have pad: "take 64 (k @ replicate 64 0) = hmac_key H K"
    by (simp add: hmac_key_def k_def [symmetric])
  have len: "length (hmac_key H K) = 64" 
    using \<open>length k \<le> 64\<close> by (simp add: hmac_key_def k_def [symmetric])
  have xor: "map2 (XOR) ks (replicate (length ks) b) = map ((XOR) b) ks" for ks :: bytes and b
    by (induction ks) (simp_all add: xor.commute)
  show "rfc_HMAC H K msg = hmac H K msg"
    using xor [of "hmac_key H K"] len
    by (simp only: rfc_HMAC_def hmac_def k_def [symmetric] pad Let_def)
qed

lemma rfc_Expand:
  assumes "hash_ok H" "L \<le> 255 * 32"
  shows "hkdf_Expand H PRK info L = Some (rfc_Expand H PRK info L)"
proof -
  have "hkdf_blocks H PRK info (rfc_T H PRK info i) (Suc i) n
      = concat (map (rfc_T H PRK info) [Suc i..<Suc i + n])" for i n
  proof (induction n arbitrary: i)
    case (Suc n)
    have "[Suc i..<Suc i + Suc n] = Suc i # [Suc (Suc i)..<Suc (Suc i) + n]"
      by (simp add: upt_conv_Cons)
    then show ?case using Suc [of "Suc i"] by (simp add: Let_def rfc_HMAC [OF assms(1)])
  qed simp
  from this [of 0 "(L + 31) div 32"] show ?thesis
    using assms(2) by (simp add: hkdf_Expand_def rfc_Expand_def hashLen_def add.commute del: upt_Suc)
qed

lemma rfc_Expand_Label:
  assumes "hash_ok H" "L \<le> 255 * 32"
  shows "hkdfExpandLabel H secret (str label) context L = Ok (rfc_Expand_Label H secret label context L)"
proof -
  have "buildHkdfLabel (str label) context L = rfc_HkdfLabel L label context"
    by (simp add: buildHkdfLabel_def rfc_HkdfLabel_def rfc_opaque_def rfc_uint_1 rfc_uint_2 str_def)
  then show ?thesis
    using rfc_Expand [OF assms] by (simp add: hkdfExpandLabel_def rfc_Expand_Label_def)
qed

lemma rfc_Derive_Secret:
  "hash_ok H \<Longrightarrow> deriveSecret H secret (str label) (H messages) = Ok (rfc_Derive_Secret H secret label messages)"
  by (simp add: deriveSecret_def rfc_Derive_Secret_def rfc_Expand_Label hashLen_def)

lemma rfc_Extract:
  "hash_ok H \<Longrightarrow> hkdfExtract H salt ikm = rfc_Extract H (if salt = [] then replicate 32 0 else salt) ikm"
  by (simp add: hkdfExtract_def hkdf_Extract_def rfc_Extract_def rfc_HMAC hashLen_def)

lemma length_rfc_Derive_Secret:
  assumes "hash_ok H" shows "length (rfc_Derive_Secret H secret label messages) = 32"
  using deriveSecret_total [OF assms, of secret "str label" "H messages"] rfc_Derive_Secret [OF assms]
  by (metis hashLen_def res.inject(1))

theorem rfc_schedule_computed:
  assumes "hash_ok H"
  shows "newKeySchedule H dhe (H hello) = Ok ((rfc_schedule H dhe hello finished)
       \<lparr>k_masterSecret := [], k_clientApplicationTrafficSecret := [], k_serverApplicationTrafficSecret := []\<rparr>)"
    "SetServerFinishedTranscript H (H finished) ((rfc_schedule H dhe hello finished')
       \<lparr>k_masterSecret := [], k_clientApplicationTrafficSecret := [], k_serverApplicationTrafficSecret := []\<rparr>) =
     Ok (rfc_schedule H dhe hello finished)"
proof -
  have ne: "rfc_Derive_Secret H s l m \<noteq> []" for s l m
    using length_rfc_Derive_Secret [OF assms, of s l m] by auto
  note rules = rfc_Derive_Secret [OF assms] rfc_Extract [OF assms] ne rfc_early_secret_def [symmetric]
    rfc_handshake_secret_def [symmetric] rfc_master_secret_def [symmetric]
  show "newKeySchedule H dhe (H hello) = Ok ((rfc_schedule H dhe hello finished)
       \<lparr>k_masterSecret := [], k_clientApplicationTrafficSecret := [], k_serverApplicationTrafficSecret := []\<rparr>)"
    by (simp add: newKeySchedule_def Let_def hashLen_def rules rfc_schedule_def)
  show "SetServerFinishedTranscript H (H finished) ((rfc_schedule H dhe hello finished')
       \<lparr>k_masterSecret := [], k_clientApplicationTrafficSecret := [], k_serverApplicationTrafficSecret := []\<rparr>) =
     Ok (rfc_schedule H dhe hello finished)"
    by (simp add: SetServerFinishedTranscript_def Let_def hashLen_def rules rfc_schedule_def)
qed

theorem rfc_verify_data_computed:
  "hash_ok H \<Longrightarrow> verifyData H base_key (H messages) = Ok (rfc_verify_data H base_key messages)"
  by (simp add: verifyData_def finishedKey_def rfc_Expand_Label rfc_verify_data_def rfc_HMAC hashLen_def)

theorem rfc_record_keys_computed:
  assumes "hash_ok (cr_sha256 cr)"
  shows "newRecordKeysFromSecret cr secret = Ok (rfc_record_keys cr secret)"
proof -
  have "length (rfc_Expand_Label (cr_sha256 cr) secret label [] L) = L" if "L \<le> hashLen" for label L
    using hkdfExpandLabel_total [OF assms that, of secret "str label" "[]"]
      rfc_Expand_Label [OF assms, of L secret label "[]"] that
    by (auto simp: hashLen_def)
  then show ?thesis
    by (simp add: newRecordKeysFromSecret_def trafficKeyAndIV_def newRecordKeys_def rfc_Expand_Label [OF assms]
        rfc_record_keys_def key_lens record_limits)
qed

text \<open>The encoders of \<^verbatim>\<open>tls/messages.go\<close> write these messages.\<close>

lemma marshalHandshake_rfc: "length body \<le> 16380 \<Longrightarrow> marshalHandshake t body = Ok (rfc_handshake t body)"
  by (simp add: marshalHandshake_def rfc_handshake_def rfc_opaque_def rfc_uint_3)

lemma opaque_vec: "rfc_opaque (Suc 0) b = vec8 b" "rfc_opaque 2 b = vec16 b"
  by (simp_all add: rfc_opaque_def vec8_def vec16_def rfc_uint_1 rfc_uint_2)

lemma u16_literals: "u16_bytes 0 = [0, 0]" "u16_bytes 0x0303 = [3, 3]" "u16_bytes 0x0304 = [3, 4]"
    "u16_bytes 0x1301 = [0x13, 0x01]" "u16_bytes 0x001D = [0, 0x1D]" "u16_bytes 43 = [0, 43]"
    "u16_bytes 51 = [0, 51]" "u16_bytes 0x0403 = [0x04, 0x03]"
  by (simp_all add: u16_bytes_def)

lemmas wire_constants = u16_literals handshake_types ext_types tls12Version_def tls13Version_def
  cipherTLSAES128GCMSHA256_def namedGroupX25519_def sigSchemeECDSAP256SHA256_def

lemma ServerHello_computed:
  assumes "length random = 32" "length sid \<le> 32" "length pub = 32"
  shows "\<exists>body. marshalServerHello random sid pub = Ok body
    \<and> marshalHandshake handshakeTypeServerHello body = Ok (rfc_ServerHello random sid pub)"
  using assms
  by (simp add: marshalServerHello_layout extension_bytes_def rfc_ServerHello_def opaque_vec
      wire_constants marshalHandshake_rfc)

lemma EncryptedExtensions_computed:
  "marshalHandshake handshakeTypeEncryptedExtensions [0, 0] = Ok rfc_EncryptedExtensions"
  by (simp add: marshalHandshake_rfc rfc_EncryptedExtensions_def opaque_vec vec16_def wire_constants)

lemma Certificate_computed:
  assumes "length der \<le> 16000"
  shows "\<exists>body. marshalCertificate der = Ok body
    \<and> marshalHandshake handshakeTypeCertificate body = Ok (rfc_Certificate der)"
  using assms
  by (simp add: marshalCertificate_layout marshalHandshake_rfc rfc_Certificate_def rfc_opaque_def rfc_uint_1
      rfc_uint_2 rfc_uint_3 wire_constants add.commute)

lemma CertificateVerify_computed:
  assumes "length sig \<le> 128"
  shows "\<exists>body. marshalCertificateVerify sigSchemeECDSAP256SHA256 sig = Ok body
    \<and> marshalHandshake handshakeTypeCertificateVerify body = Ok (rfc_CertificateVerify sig)"
  using assms
  by (simp add: marshalCertificateVerify_layout marshalHandshake_rfc rfc_CertificateVerify_def opaque_vec
      wire_constants)

lemma Finished_computed:
  "length v = 32 \<Longrightarrow> marshalHandshake handshakeTypeFinished v = Ok (rfc_Finished v)"
  by (simp add: marshalHandshake_rfc rfc_Finished_def wire_constants)

lemma signed_content_computed: "certificateVerifySignInput th = rfc_signed_content th"
  by (simp add: certificateVerifySignInput_def rfc_signed_content_def)

lemma length_rfc_verify_data: "hash_ok H \<Longrightarrow> length (rfc_verify_data H k m) = 32"
  by (simp add: rfc_verify_data_def rfc_HMAC hashLen_def)

end
