(* ===== verification/Tls_Handshake.thy ===== *)
theory Tls_Handshake
  imports Tls_Conn X25519_Ladder Rfc8446
begin


section \<open>The server handshake and application data (tls/handshake.go, tls/conn.go)\<close>

text \<open>
  \<open>runHandshake\<close> in the steps of the code, with the running transcript it hands on. The random draws of
  one handshake (\<^verbatim>\<open>crypto/rand\<close>) are arguments: the private scalar, the server random, and what the
  signature consumes; a failing \<^verbatim>\<open>rand.Read\<close> is \<open>None\<close>.
\<close>

record entropy =
  e_priv :: "bytes option"
  e_random :: "bytes option"
  e_sign :: bytes

definition rand_Read :: "bytes option \<Rightarrow> bytes outcome" where
  "rand_Read d = (case d of Some b \<Rightarrow> Ok b | None \<Rightarrow> Err (ErrExternal 1))"

subsection \<open>Policy\<close>

fun containsU16 :: "u16 list \<Rightarrow> u16 \<Rightarrow> bool" where
  "containsU16 [] needle \<longleftrightarrow> False"
| "containsU16 (v # vs) needle \<longleftrightarrow> v = needle \<or> containsU16 vs needle"

definition validateClientHello :: "clientHello \<Rightarrow> unit outcome" where
  "validateClientHello h =
     (if \<not> containsU16 (ch_supportedVersions h) tls13Version
      then Err (ErrText ''client did not offer TLS 1.3'')
      else if \<not> containsU16 (ch_cipherSuites h) cipherTLSAES128GCMSHA256
      then Err (ErrText ''client did not offer TLS_AES_128_GCM_SHA256'')
      else if \<not> containsU16 (ch_supportedGroups h) namedGroupX25519
      then Err (ErrText ''client did not offer x25519'')
      else if \<not> containsU16 (ch_signatureAlgorithms h) sigSchemeECDSAP256SHA256
      then Err (ErrText ''client did not offer ecdsa_secp256r1_sha256'')
      else let share = findKeyShare h namedGroupX25519 in
        if share = [] then Err (ErrText ''client offered x25519 but sent no x25519 key_share'')
        else if length share \<noteq> 32 then Err (ErrText ''x25519 key_share must be 32 bytes'')
        else Ok ())"

subsection \<open>The steps of the handshake\<close>

text \<open>Step 1: the ClientHello, with the transcript that holds it.\<close>

definition receiveClientHello :: "(Conn, transcript \<times> clientHello) action" where
  "receiveClientHello =
     bindS (wrapS ''read ClientHello'' readHandshakeMessage) (\<lambda>chMsg.
     bindS (liftR (idx chMsg 0)) (\<lambda>t.
     if t \<noteq> handshakeTypeClientHello then fail (ErrText ''expected ClientHello'')
     else bindS (liftR (slice_from chMsg handshakeHeaderLen)) (\<lambda>body.
     bindS (wrapS ''parse ClientHello'' (liftR (parseClientHello body))) (\<lambda>hello.
     bindS (liftR (validateClientHello hello)) (\<lambda>_.
     ret (t_update chMsg newTranscript, hello))))))"

text \<open>Step 2: the ephemeral key and the shared secret. \<^verbatim>\<open>copy(clientPub[:], clientShare)\<close> fills 32 bytes.\<close>

definition keyExchange :: "entropy \<Rightarrow> clientHello \<Rightarrow> (bytes \<times> bytes) outcome" where
  "keyExchange rnd hello =
     rbind (rwrap (ErrWrap ''rand for server x25519'') (rand_Read (e_priv rnd))) (\<lambda>serverPriv.
     let serverPub = x25519Base serverPriv;
         clientPub = take 32 (findKeyShare hello namedGroupX25519 @ replicate 32 0) in
     rbind (rwrap (ErrWrap ''x25519 ECDHE'') (x25519 serverPriv clientPub)) (\<lambda>shared.
     Ok (serverPub, shared)))"

text \<open>Step 3: the ServerHello.\<close>

definition sendServerHello ::
  "entropy \<Rightarrow> clientHello \<Rightarrow> bytes \<Rightarrow> transcript \<Rightarrow> (Conn, transcript) action" where
  "sendServerHello rnd hello serverPub tx =
     bindS (wrapS ''rand for ServerHello'' (liftR (rand_Read (e_random rnd)))) (\<lambda>serverRandom.
     bindS (liftR (marshalServerHello serverRandom (ch_legacySessionID hello) serverPub)) (\<lambda>shBody.
     bindS (liftR (marshalHandshake handshakeTypeServerHello shBody)) (\<lambda>shMsg.
     bindS (wrapS ''write ServerHello'' (writePlaintextHandshake shMsg)) (\<lambda>_.
     ret (t_update shMsg tx)))))"

definition setKeys :: "recordKeys \<Rightarrow> recordKeys \<Rightarrow> (Conn, unit) action" where
  "setKeys r w c = (Ok (), c\<lparr>c_readKeys := Some r, c_writeKeys := Some w\<rparr>)"

text \<open>Step 4: the handshake-traffic keys.\<close>

definition deriveHandshakeKeys :: "crypto \<Rightarrow> bytes \<Rightarrow> transcript \<Rightarrow> (Conn, keySchedule) action" where
  "deriveHandshakeKeys cr shared tx =
     bindS (liftR (newKeySchedule (cr_sha256 cr) shared (t_sum (cr_sha256 cr) tx))) (\<lambda>schedule.
     bindS (liftR (newRecordKeysFromSecret cr (k_clientHandshakeTrafficSecret schedule))) (\<lambda>clientHSKeys.
     bindS (liftR (newRecordKeysFromSecret cr (k_serverHandshakeTrafficSecret schedule))) (\<lambda>serverHSKeys.
     bindS (setKeys clientHSKeys serverHSKeys) (\<lambda>_.
     ret schedule))))"

text \<open>Steps 5 to 9: one encrypted message after the other, each entered into the transcript.\<close>

definition sendEncrypted ::
  "string \<Rightarrow> byte \<Rightarrow> bytes \<Rightarrow> transcript \<Rightarrow> (Conn, transcript) action" where
  "sendEncrypted ctx ht body tx =
     bindS (liftR (marshalHandshake ht body)) (\<lambda>msg.
     bindS (wrapS ctx (writeEncryptedHandshake msg)) (\<lambda>_.
     ret (t_update msg tx)))"

definition sendFlight ::
  "crypto \<Rightarrow> entropy \<Rightarrow> ServerIdentity \<Rightarrow> keySchedule \<Rightarrow> transcript \<Rightarrow> (Conn, transcript) action" where
  "sendFlight cr rnd identity schedule tx =
     bindS (wrapS ''write CCS'' (tls_writeRecord contentTypeChangeCipherSpec [1])) (\<lambda>_.
     bindS (sendEncrypted ''write EncryptedExtensions'' handshakeTypeEncryptedExtensions
              marshalEncryptedExtensions tx) (\<lambda>tx.
     bindS (liftR (marshalCertificate (si_certDER identity))) (\<lambda>cert.
     bindS (sendEncrypted ''write Certificate'' handshakeTypeCertificate cert tx) (\<lambda>tx.
     bindS (wrapS ''sign CertificateVerify'' (liftR
              (signCertificateVerify (cr_sha256 cr) (e_sign rnd) identity (t_sum (cr_sha256 cr) tx)))) (\<lambda>sig.
     bindS (liftR (marshalCertificateVerify sigSchemeECDSAP256SHA256 sig)) (\<lambda>cv.
     bindS (sendEncrypted ''write CertificateVerify'' handshakeTypeCertificateVerify cv tx) (\<lambda>tx.
     bindS (liftR (verifyData (cr_sha256 cr) (k_serverHandshakeTrafficSecret schedule)
              (t_sum (cr_sha256 cr) tx))) (\<lambda>serverVerify.
     sendEncrypted ''write server Finished'' handshakeTypeFinished (marshalFinished serverVerify) tx))))))))"

text \<open>Steps 10 to 12: the client's Finished and the application-traffic keys.\<close>

definition receiveFinished :: "crypto \<Rightarrow> keySchedule \<Rightarrow> transcript \<Rightarrow> (Conn, unit) action" where
  "receiveFinished cr schedule0 tx =
     (let transcriptCHSF = t_sum (cr_sha256 cr) tx in
      bindS (liftR (SetServerFinishedTranscript (cr_sha256 cr) transcriptCHSF schedule0)) (\<lambda>schedule.
      bindS (wrapS ''read client Finished'' readHandshakeMessage) (\<lambda>clientFinMsg.
      bindS (liftR (idx clientFinMsg 0)) (\<lambda>t.
      if t \<noteq> handshakeTypeFinished then fail (ErrText ''expected client Finished'')
      else bindS (liftR (slice_from clientFinMsg handshakeHeaderLen)) (\<lambda>clientVerifyGot.
      bindS (liftR (verifyData (cr_sha256 cr) (k_clientHandshakeTrafficSecret schedule) transcriptCHSF))
        (\<lambda>clientVerifyWant.
      if clientVerifyGot \<noteq> clientVerifyWant then fail (ErrText ''client Finished verify_data mismatch'')
      else bindS (liftR (newRecordKeysFromSecret cr (k_clientApplicationTrafficSecret schedule)))
        (\<lambda>clientAppKeys.
      bindS (liftR (newRecordKeysFromSecret cr (k_serverApplicationTrafficSecret schedule)))
        (\<lambda>serverAppKeys.
      bindS (setKeys clientAppKeys serverAppKeys) (\<lambda>_ c.
      if length (c_hsBuf c) \<noteq> 0
      then (Err (ErrText ''unexpected bytes after client Finished''), c)
      else (Ok (), c))))))))))"

definition runHandshake :: "crypto \<Rightarrow> entropy \<Rightarrow> (Conn, unit) action" where
  "runHandshake cr rnd c =
     (case c_identity c of
        None \<Rightarrow> (Err (ErrText ''server identity not set''), c)
      | Some identity \<Rightarrow>
          bindS receiveClientHello (\<lambda>(tx, hello).
          bindS (liftR (keyExchange rnd hello)) (\<lambda>(serverPub, shared).
          bindS (sendServerHello rnd hello serverPub tx) (\<lambda>tx.
          bindS (deriveHandshakeKeys cr shared tx) (\<lambda>schedule.
          bindS (sendFlight cr rnd identity schedule tx) (\<lambda>tx.
          receiveFinished cr schedule tx))))) c)"

definition Handshake :: "crypto \<Rightarrow> entropy \<Rightarrow> (Conn, unit) action" where
  "Handshake cr rnd c =
     (if c_handshakeDone c then (Ok (), c)
      else case c_handshakeErr c of
        Some e \<Rightarrow> (Err e, c)
      | None \<Rightarrow> (case runHandshake cr rnd c of
            (Ok _, c') \<Rightarrow> (Ok (), c'\<lparr>c_handshakeDone := True\<rparr>)
          | (Err e, c') \<Rightarrow> (Err e, c'\<lparr>c_handshakeErr := Some e\<rparr>)
          | (Panic, c') \<Rightarrow> (Panic, c')))"

subsection \<open>Application data\<close>

text \<open>\<^verbatim>\<open>if !c.handshakeDone { c.Handshake() }\<close>\<close>

definition ensureHandshake :: "crypto \<Rightarrow> entropy \<Rightarrow> (Conn, unit) action" where
  "ensureHandshake cr rnd c = (if c_handshakeDone c then (Ok (), c) else Handshake cr rnd c)"

function fillAppData :: "(Conn, unit) action" where
  "fillAppData c =
     (if c_inAppData c \<noteq> [] then (Ok (), c)
      else (case conn_readRecord c of
          (Ok (t, plaintext), c1) \<Rightarrow>
            if t = contentTypeApplicationData then fillAppData (c1\<lparr>c_inAppData := plaintext\<rparr>)
            else if t = contentTypeAlert then (Err (ErrPeerAlert plaintext), c1)
            else if t = contentTypeHandshake then fillAppData c1
            else (Err (ErrRecordType t), c1)
        | (Err e, c1) \<Rightarrow> (Err e, c1)
        | (Panic, c1) \<Rightarrow> (Panic, c1)))"
  by pat_completeness auto
termination
  by (relation "measure (\<lambda>c. length (fst (c_in c)))")
    (auto dest: conn_readRecord_shrinks)

declare fillAppData.simps [simp del]

definition tls_Read :: "crypto \<Rightarrow> entropy \<Rightarrow> nat \<Rightarrow> (Conn, bytes) action" where
  "tls_Read cr rnd n =
     bindS (ensureHandshake cr rnd) (\<lambda>_.
     bindS fillAppData (\<lambda>_ c.
       (Ok (take n (c_inAppData c)), c\<lparr>c_inAppData := drop n (c_inAppData c)\<rparr>)))"

text \<open>\<^verbatim>\<open>Write\<close> returns how much it has written beside its outcome.\<close>

function writeChunks :: "bytes \<Rightarrow> nat \<Rightarrow> Conn \<Rightarrow> nat \<times> unit outcome \<times> Conn" where
  "writeChunks p written c =
     (if p = [] then (written, Ok (), c)
      else let chunk = take maxPlaintextLength p in
        (case bindS (conn_Seal contentTypeApplicationData chunk) raw_Write c of
           (Ok _, c1) \<Rightarrow> writeChunks (drop maxPlaintextLength p) (written + length chunk) c1
         | (Err e, c1) \<Rightarrow> (written, Err e, c1)
         | (Panic, c1) \<Rightarrow> (written, Panic, c1)))"
  by pat_completeness auto
termination
  by (relation "measure (\<lambda>(p, _, _). length p)") (auto simp: maxPlaintextLength_def)

declare writeChunks.simps [simp del]

definition tls_Write :: "crypto \<Rightarrow> entropy \<Rightarrow> bytes \<Rightarrow> Conn \<Rightarrow> nat \<times> unit outcome \<times> Conn" where
  "tls_Write cr rnd p c =
     (case ensureHandshake cr rnd c of
        (Ok _, c1) \<Rightarrow> writeChunks p 0 c1
      | (Err e, c1) \<Rightarrow> (0, Err e, c1)
      | (Panic, c1) \<Rightarrow> (0, Panic, c1))"

definition tls_Close :: "(Conn, unit) action" where
  "tls_Close c = (Ok (), c\<lparr>c_rawClosed := True\<rparr>)"

subsection \<open>The handshake on explicit transcripts\<close>

text \<open>
  The reference: the messages of RFC 8446, section 2, computed as functions of the ClientHello and the
  server's draws, every transcript hash written out over the concatenation of the messages before it.
  There is no connection, no running hash and no order of effects in it.
\<close>

record hs_plan =
  p_serverHello :: bytes
  p_encryptedExtensions :: bytes
  p_certificate :: bytes
  p_certificateVerify :: bytes
  p_serverFinished :: bytes
  p_clientFinished :: bytes
  p_schedule :: keySchedule

definition hs_reference ::
  "crypto \<Rightarrow> entropy \<Rightarrow> ServerIdentity \<Rightarrow> bytes \<Rightarrow> clientHello \<Rightarrow> hs_plan outcome" where
  "hs_reference cr rnd identity ch hello =
     (let H = cr_sha256 cr in
      rbind (keyExchange rnd hello) (\<lambda>(pub, shared).
      rbind (rand_Read (e_random rnd)) (\<lambda>random.
      rbind (marshalServerHello random (ch_legacySessionID hello) pub) (\<lambda>shBody.
      rbind (marshalHandshake handshakeTypeServerHello shBody) (\<lambda>sh.
      rbind (newKeySchedule H shared (H (ch @ sh))) (\<lambda>sched.
      rbind (marshalHandshake handshakeTypeEncryptedExtensions [0, 0]) (\<lambda>ee.
      rbind (marshalCertificate (si_certDER identity)) (\<lambda>certBody.
      rbind (marshalHandshake handshakeTypeCertificate certBody) (\<lambda>cert.
      rbind (signCertificateVerify H (e_sign rnd) identity (H (ch @ sh @ ee @ cert))) (\<lambda>sig.
      rbind (marshalCertificateVerify sigSchemeECDSAP256SHA256 sig) (\<lambda>cvBody.
      rbind (marshalHandshake handshakeTypeCertificateVerify cvBody) (\<lambda>cv.
      rbind (verifyData H (k_serverHandshakeTrafficSecret sched) (H (ch @ sh @ ee @ cert @ cv))) (\<lambda>sv.
      rbind (marshalHandshake handshakeTypeFinished sv) (\<lambda>sf.
      rbind (SetServerFinishedTranscript H (H (ch @ sh @ ee @ cert @ cv @ sf)) sched) (\<lambda>sched'.
      rbind (verifyData H (k_clientHandshakeTrafficSecret sched) (H (ch @ sh @ ee @ cert @ cv @ sf))) (\<lambda>v.
      rbind (marshalHandshake handshakeTypeFinished v) (\<lambda>cf.
      Ok \<lparr>p_serverHello = sh, p_encryptedExtensions = ee, p_certificate = cert, p_certificateVerify = cv,
           p_serverFinished = sf, p_clientFinished = cf, p_schedule = sched'\<rparr>)))))))))))))))))"

lemma SetServerFinished_keeps:
  assumes "SetServerFinishedTranscript H th k = Ok k'"
  shows "k_clientHandshakeTrafficSecret k' = k_clientHandshakeTrafficSecret k"
    "k_serverHandshakeTrafficSecret k' = k_serverHandshakeTrafficSecret k"
  using assms by (auto simp: SetServerFinishedTranscript_def Let_def rbind_eq_Ok)

lemma t_simps [simp]:
  "t_sum H tx = H (t_written tx)" "t_written (t_update m tx) = t_written tx @ m" "t_written newTranscript = []"
  by (simp_all add: t_sum_def t_update_def newTranscript_def)

subsection \<open>The steps, run\<close>

lemma raw_Write_no_fault: "c_faults c = [] \<Longrightarrow> raw_Write out c = (Ok (), c\<lparr>c_out := c_out c @ out\<rparr>)"
  by (simp add: raw_Write_def)

lemma readHandshakeMessage_framed:
  "readHandshakeMessage c = (Ok m, c') \<Longrightarrow> framed_message m"
proof (induction c rule: readHandshakeMessage.induct)
  case (1 c)
  show ?case
  proof (cases "takeBufferedHandshake (c_hsBuf c)")
    case None
    note unf = "1.prems" [unfolded readHandshakeMessage.simps [of c]]
    obtain t f c1 where read: "conn_readRecord c = (Ok (t, f), c1)"
      using unf None by (auto split: prod.splits res.splits)
    show ?thesis
    proof (cases "t = contentTypeChangeCipherSpec")
      case True
      then show ?thesis using unf None read by (intro "1.IH"(1)) auto
    next
      case False
      then have "t = contentTypeHandshake" using unf None read by (auto split: if_splits)
      then show ?thesis using unf None read False by (intro "1.IH"(2)) auto
    qed
  next
    case (Some a)
    obtain m' rest where a: "a = (m', rest)" by (cases a)
    then have "framed_message m'"
      using Some
      by (auto simp: takeBufferedHandshake_def framed_message_def handshakeHeaderLen_def Let_def split: if_splits)
    moreover have "m = m'" using "1.prems" Some a by (simp add: readHandshakeMessage.simps [of c])
    ultimately show ?thesis by simp
  qed
qed

lemma framed_fields:
  assumes "framed_message m"
  shows "idx m 0 = Ok (m ! 0)" "slice_from m handshakeHeaderLen = Ok (drop 4 m)"
  using assms by (auto simp: framed_message_def handshakeHeaderLen_def go_simps)

lemma receiveClientHello_Ok:
  "receiveClientHello c = (Ok (tx, hello), c') \<longleftrightarrow>
     (\<exists>ch. readHandshakeMessage c = (Ok ch, c') \<and> ch ! 0 = handshakeTypeClientHello
        \<and> parseClientHello (drop 4 ch) = Ok hello \<and> validateClientHello hello = Ok ()
        \<and> tx = t_update ch newTranscript)"
proof (cases "readHandshakeMessage c")
  case (Pair res c1)
  show ?thesis
  proof (cases res)
    case (Ok ch)
    then have "framed_message ch" using Pair readHandshakeMessage_framed by blast
    then show ?thesis
      using Pair Ok
      by (auto simp: receiveClientHello_def bindS_eq_Ok wrapS_eq_Ok action_simps framed_fields)
  qed (use Pair in \<open>auto simp: receiveClientHello_def bindS_eq_Ok wrapS_eq_Ok\<close>)
qed

lemma sendEncrypted_Ok_tx:
  "sendEncrypted ctx t body tx c = (Ok tx', c') \<Longrightarrow> \<exists>m. marshalHandshake t body = Ok m \<and> tx' = t_update m tx"
  by (auto simp: sendEncrypted_def bindS_eq_Ok action_simps)

lemma receiveFinished_Ok:
  assumes "receiveFinished cr sched tx c = (Ok (), c')"
  shows "\<exists>sched' v rk wk fin c1.
    SetServerFinishedTranscript (cr_sha256 cr) (cr_sha256 cr (t_written tx)) sched = Ok sched'
    \<and> readHandshakeMessage c = (Ok fin, c1)
    \<and> verifyData (cr_sha256 cr) (k_clientHandshakeTrafficSecret sched) (cr_sha256 cr (t_written tx)) = Ok v
    \<and> marshalHandshake handshakeTypeFinished v = Ok fin
    \<and> newRecordKeysFromSecret cr (k_clientApplicationTrafficSecret sched') = Ok rk
    \<and> newRecordKeysFromSecret cr (k_serverApplicationTrafficSecret sched') = Ok wk
    \<and> c' = c1\<lparr>c_readKeys := Some rk, c_writeKeys := Some wk\<rparr> \<and> c_hsBuf c1 = []"
proof -
  obtain sched' fin c1 t got v rk wk where r:
    "SetServerFinishedTranscript (cr_sha256 cr) (cr_sha256 cr (t_written tx)) sched = Ok sched'"
    "readHandshakeMessage c = (Ok fin, c1)" "(idx fin 0 :: byte outcome) = Ok t" "t = handshakeTypeFinished"
    "(slice_from fin handshakeHeaderLen :: bytes outcome) = Ok got"
    "verifyData (cr_sha256 cr) (k_clientHandshakeTrafficSecret sched') (cr_sha256 cr (t_written tx)) = Ok v"
    "got = v"
    "newRecordKeysFromSecret cr (k_clientApplicationTrafficSecret sched') = Ok rk"
    "newRecordKeysFromSecret cr (k_serverApplicationTrafficSecret sched') = Ok wk"
    "setKeys rk wk c1 = (Ok (), c')" "c_hsBuf c' = []"
    using assms
    by (auto simp: receiveFinished_def Let_def bindS_eq_Ok wrapS_eq_Ok action_simps split: if_splits)
  have fin: "framed_message fin" using r(2) by (rule readHandshakeMessage_framed)
  then have "got = drop 4 fin" "t = fin ! 0"
    using r(3,5) by (simp_all add: framed_fields)
  then have "parseHandshake fin = Ok (handshakeTypeFinished, v)"
    using fin r(4,7) by (auto simp: framed_message_iff parseHandshake_def go_simps Let_def
        handshakeHeaderLen_def split: if_splits)
  then have "marshalHandshake handshakeTypeFinished v = Ok fin" by (simp add: marshal_parse_iff)
  then show ?thesis using r SetServerFinished_keeps [OF r(1)] by (auto simp: setKeys_def)
qed

lemma sendFlight_Ok:
  assumes "sendFlight cr rnd identity sched tx c = (Ok tx', c')"
  shows "\<exists>ee certBody cert sig cvBody cv sv sf.
    marshalHandshake handshakeTypeEncryptedExtensions [0, 0] = Ok ee
    \<and> marshalCertificate (si_certDER identity) = Ok certBody
    \<and> marshalHandshake handshakeTypeCertificate certBody = Ok cert
    \<and> signCertificateVerify (cr_sha256 cr) (e_sign rnd) identity (cr_sha256 cr (t_written tx @ ee @ cert)) = Ok sig
    \<and> marshalCertificateVerify sigSchemeECDSAP256SHA256 sig = Ok cvBody
    \<and> marshalHandshake handshakeTypeCertificateVerify cvBody = Ok cv
    \<and> verifyData (cr_sha256 cr) (k_serverHandshakeTrafficSecret sched)
         (cr_sha256 cr (t_written tx @ ee @ cert @ cv)) = Ok sv
    \<and> marshalHandshake handshakeTypeFinished sv = Ok sf
    \<and> t_written tx' = t_written tx @ ee @ cert @ cv @ sf"
  using assms
  by (auto simp: sendFlight_def bindS_eq_Ok wrapS_eq_Ok action_simps marshalEncryptedExtensions_def
      marshalFinished_def dest!: sendEncrypted_Ok_tx)

lemma runHandshake_Ok:
  assumes "runHandshake cr rnd c = (Ok (), c')"
  shows "\<exists>identity ch hello c1 plan rk wk c3 c4.
    c_identity c = Some identity
    \<and> readHandshakeMessage c = (Ok ch, c1) \<and> ch ! 0 = handshakeTypeClientHello
    \<and> parseClientHello (drop 4 ch) = Ok hello \<and> validateClientHello hello = Ok ()
    \<and> hs_reference cr rnd identity ch hello = Ok plan
    \<and> readHandshakeMessage c3 = (Ok (p_clientFinished plan), c4)
    \<and> newRecordKeysFromSecret cr (k_clientApplicationTrafficSecret (p_schedule plan)) = Ok rk
    \<and> newRecordKeysFromSecret cr (k_serverApplicationTrafficSecret (p_schedule plan)) = Ok wk
    \<and> c' = c4\<lparr>c_readKeys := Some rk, c_writeKeys := Some wk\<rparr> \<and> c_hsBuf c' = []"
proof -
  obtain identity where id: "c_identity c = Some identity"
    using assms by (auto simp: runHandshake_def split: option.splits)
  obtain tx hello c1 pub shared sh tx2 c2 sched c3' tx3 c3 where steps:
    "receiveClientHello c = (Ok (tx, hello), c1)" "keyExchange rnd hello = Ok (pub, shared)"
    "sendServerHello rnd hello pub tx c1 = (Ok tx2, c2)"
    "deriveHandshakeKeys cr shared tx2 c2 = (Ok sched, c3')"
    "sendFlight cr rnd identity sched tx2 c3' = (Ok tx3, c3)"
    "receiveFinished cr sched tx3 c3 = (Ok (), c')"
    using assms id by (auto simp: runHandshake_def bindS_eq_Ok action_simps)
  obtain ch where ch: "readHandshakeMessage c = (Ok ch, c1)" "ch ! 0 = handshakeTypeClientHello"
      "parseClientHello (drop 4 ch) = Ok hello" "validateClientHello hello = Ok ()"
      "tx = t_update ch newTranscript"
    using steps(1) unfolding receiveClientHello_Ok by blast
  obtain random shBody sh where sh: "rand_Read (e_random rnd) = Ok random"
      "marshalServerHello random (ch_legacySessionID hello) pub = Ok shBody"
      "marshalHandshake handshakeTypeServerHello shBody = Ok sh" "tx2 = t_update sh tx"
    using steps(3) by (auto simp: sendServerHello_def bindS_eq_Ok wrapS_eq_Ok action_simps)
  have sched: "newKeySchedule (cr_sha256 cr) shared (cr_sha256 cr (ch @ sh)) = Ok sched"
    using steps(4) ch(5) sh(4) by (auto simp: deriveHandshakeKeys_def bindS_eq_Ok action_simps setKeys_def)
  obtain ee certBody cert sig cvBody cv sv sf where flight:
    "marshalHandshake handshakeTypeEncryptedExtensions [0, 0] = Ok ee"
    "marshalCertificate (si_certDER identity) = Ok certBody"
    "marshalHandshake handshakeTypeCertificate certBody = Ok cert"
    "signCertificateVerify (cr_sha256 cr) (e_sign rnd) identity (cr_sha256 cr (ch @ sh @ ee @ cert)) = Ok sig"
    "marshalCertificateVerify sigSchemeECDSAP256SHA256 sig = Ok cvBody"
    "marshalHandshake handshakeTypeCertificateVerify cvBody = Ok cv"
    "verifyData (cr_sha256 cr) (k_serverHandshakeTrafficSecret sched) (cr_sha256 cr (ch @ sh @ ee @ cert @ cv)) = Ok sv"
    "marshalHandshake handshakeTypeFinished sv = Ok sf" "t_written tx3 = ch @ sh @ ee @ cert @ cv @ sf"
    using sendFlight_Ok [OF steps(5)] ch(5) sh(4) by (auto simp del: append_assoc simp: append_assoc)
  obtain sched' v rk wk fin c4 where fin:
    "SetServerFinishedTranscript (cr_sha256 cr) (cr_sha256 cr (ch @ sh @ ee @ cert @ cv @ sf)) sched = Ok sched'"
    "readHandshakeMessage c3 = (Ok fin, c4)"
    "verifyData (cr_sha256 cr) (k_clientHandshakeTrafficSecret sched) (cr_sha256 cr (ch @ sh @ ee @ cert @ cv @ sf)) = Ok v"
    "marshalHandshake handshakeTypeFinished v = Ok fin"
    "newRecordKeysFromSecret cr (k_clientApplicationTrafficSecret sched') = Ok rk"
    "newRecordKeysFromSecret cr (k_serverApplicationTrafficSecret sched') = Ok wk"
    "c' = c4\<lparr>c_readKeys := Some rk, c_writeKeys := Some wk\<rparr>" "c_hsBuf c4 = []"
    using receiveFinished_Ok [OF steps(6)] flight(9) by auto
  let ?plan = "\<lparr>p_serverHello = sh, p_encryptedExtensions = ee, p_certificate = cert,
     p_certificateVerify = cv, p_serverFinished = sf, p_clientFinished = fin, p_schedule = sched'\<rparr>"
  have "hs_reference cr rnd identity ch hello = Ok ?plan"
    using steps(2) sh(1-3) sched flight(1-8) fin(1,3,4) by (simp add: hs_reference_def Let_def)
  then show ?thesis using id ch(1-4) fin(2,5-8) by (intro exI) (auto intro!: exI [of _ ?plan])
qed

subsection \<open>A complete run\<close>

text \<open>A message is returned once its last byte has been read, and no record is read beyond it.\<close>

lemma readHandshakeMessage_exact:
  assumes "framed_message m" "handshake_records rs" "pulls rs (src c) s'"
    and "c_hsBuf c @ handshake_bytes rs = m @ extra"
    and "rs = [] \<or> length (c_hsBuf c @ handshake_bytes (butlast rs)) < length m"
  shows "readHandshakeMessage c = (Ok m, put_src s' (c\<lparr>c_hsBuf := extra\<rparr>))"
proof -
  obtain rs1 rs2 s1 b where r: "rs = rs1 @ rs2" "pulls rs2 s1 s'" "b @ handshake_bytes rs2 = extra"
      "readHandshakeMessage c = (Ok m, put_src s1 (c\<lparr>c_hsBuf := b\<rparr>))"
    using readHandshakeMessage_reassembles [OF assms(1-4)] by blast
  have split: "handshake_bytes (xs @ ys) = handshake_bytes xs @ handshake_bytes ys" for xs ys
    by (simp add: handshake_bytes_def)
  have eq: "c_hsBuf c @ handshake_bytes rs1 = m @ b"
    using assms(4) r(1,3) by (auto simp: split)
  have "rs2 = []"
  proof (rule ccontr)
    assume "rs2 \<noteq> []"
    then have "butlast rs = rs1 @ butlast rs2" "rs \<noteq> []" using r(1) by (simp_all add: butlast_append)
    then have "length (c_hsBuf c @ handshake_bytes rs1) < length m"
      using assms(5) by (simp add: split)
    then show False using eq by simp
  qed
  then show ?thesis using r by (simp add: handshake_bytes_def)
qed

definition sent :: "bytes \<Rightarrow> Conn \<Rightarrow> Conn" where
  "sent out c = c\<lparr>c_out := c_out c @ out\<rparr>"

lemma sent_simps [simp]:
  "c_faults (sent out c) = c_faults c" "c_writeKeys (sent out c) = c_writeKeys c"
  "c_readKeys (sent out c) = c_readKeys c" "c_in (sent out c) = c_in c" "c_hsBuf (sent out c) = c_hsBuf c"
  "c_out (sent out c) = c_out c @ out" "sent b (sent a c) = sent (a @ b) c" "src (sent out c) = src c"
  by (simp_all add: sent_def src_def)

lemma tls_writeRecord_no_fault:
  "c_faults c = [] \<Longrightarrow> length f \<le> maxCiphertextLength \<Longrightarrow>
   tls_writeRecord t f c = (Ok (), sent (record_header t (length f) @ f) c)"
  by (simp add: tls_writeRecord_def record_bytes_def bindS_def liftR_def raw_Write_def sent_def)

lemma sendEncrypted_no_fault:
  assumes "c_faults c = []" "c_writeKeys c = Some k" "marshalHandshake t body = Ok m"
    and "rk_Seal contentTypeHandshake m k = Ok (sealed, k')"
  shows "sendEncrypted ctx t body tx c = (Ok (t_update m tx), (sent sealed c)\<lparr>c_writeKeys := Some k'\<rparr>)"
  using assms
  by (simp add: sendEncrypted_def writeEncryptedHandshake_def conn_Seal_def bindS_def wrapS_def liftR_def
      ret_def raw_Write_def sent_def)

lemma sendFlight_no_fault:
  assumes c: "c_faults c = []" "c_writeKeys c = Some k" "aead_correct (rk_aead k)"
    and msgs: "marshalHandshake handshakeTypeEncryptedExtensions [0, 0] = Ok ee"
      "marshalCertificate (si_certDER identity) = Ok certBody"
      "marshalHandshake handshakeTypeCertificate certBody = Ok cert"
      "signCertificateVerify (cr_sha256 cr) (e_sign rnd) identity (cr_sha256 cr (t_written tx @ ee @ cert)) = Ok sig"
      "marshalCertificateVerify sigSchemeECDSAP256SHA256 sig = Ok cvBody"
      "marshalHandshake handshakeTypeCertificateVerify cvBody = Ok cv"
      "verifyData (cr_sha256 cr) (k_serverHandshakeTrafficSecret sched)
         (cr_sha256 cr (t_written tx @ ee @ cert @ cv)) = Ok sv"
      "marshalHandshake handshakeTypeFinished sv = Ok sf"
    and len: "length ee \<le> maxPlaintextLength" "length cert \<le> maxPlaintextLength"
      "length cv \<le> maxPlaintextLength" "length sf \<le> maxPlaintextLength"
  shows "\<exists>out k' tx'. sendFlight cr rnd identity sched tx c =
      (Ok tx', (sent out c)\<lparr>c_writeKeys := Some k'\<rparr>)
    \<and> t_written tx' = t_written tx @ ee @ cert @ cv @ sf
    \<and> (out, k') = wire_bytes [Bare contentTypeChangeCipherSpec [1], Protected contentTypeHandshake ee,
        Protected contentTypeHandshake cert, Protected contentTypeHandshake cv,
        Protected contentTypeHandshake sf] k"
proof -
  have next_seal: "\<exists>s. rk_Seal contentTypeHandshake m q = Ok (s, q\<lparr>rk_seq := rk_seq q + 1\<rparr>)"
    if "aead_correct (rk_aead q)" "length m \<le> maxPlaintextLength" for m q
    using pull_sealed [OF that(1) _ that(2), of contentTypeHandshake] by (auto simp: content_types)
  define bump :: "recordKeys \<Rightarrow> recordKeys" where "bump q = q\<lparr>rk_seq := rk_seq q + 1\<rparr>" for q
  have aead: "rk_aead (bump q) = rk_aead q" for q by (simp add: bump_def)
  obtain s1 where s1: "rk_Seal contentTypeHandshake ee k = Ok (s1, bump k)"
    using next_seal [of k ee] c len by (auto simp: bump_def)
  define k1 where "k1 = bump k"
  obtain s2 where s2: "rk_Seal contentTypeHandshake cert k1 = Ok (s2, bump k1)"
    using next_seal [of k1 cert] c len by (auto simp: bump_def k1_def)
  define k2 where "k2 = bump k1"
  obtain s3 where s3: "rk_Seal contentTypeHandshake cv k2 = Ok (s3, bump k2)"
    using next_seal [of k2 cv] c len by (auto simp: bump_def k1_def k2_def)
  define k3 where "k3 = bump k2"
  obtain s4 where s4: "rk_Seal contentTypeHandshake sf k3 = Ok (s4, bump k3)"
    using next_seal [of k3 sf] c len by (auto simp: bump_def k1_def k2_def k3_def)
  define k4 where "k4 = bump k3"
  note seals = s1 [folded k1_def] s2 [folded k2_def] s3 [folded k3_def] s4 [folded k4_def]
  define ccs where "ccs = record_header contentTypeChangeCipherSpec (length [1 :: byte]) @ [1]"
  let ?out = "ccs @ s1 @ s2 @ s3 @ s4"
  let ?tx = "t_update sf (t_update cv (t_update cert (t_update ee tx)))"
  have write_ccs: "tls_writeRecord contentTypeChangeCipherSpec [1] c = (Ok (), sent ccs c)"
    using tls_writeRecord_no_fault [of c "[1]"] c by (simp add: record_limits ccs_def)
  have e1: "sendEncrypted ctx handshakeTypeEncryptedExtensions [0, 0] tx (sent ccs c) =
      (Ok (t_update ee tx), (sent (ccs @ s1) c)\<lparr>c_writeKeys := Some k1\<rparr>)" for ctx
    using sendEncrypted_no_fault [OF _ _ msgs(1) seals(1), of "sent ccs c"] c by simp
  have e2: "sendEncrypted ctx handshakeTypeCertificate certBody t2 ((sent x c)\<lparr>c_writeKeys := Some k1\<rparr>) =
      (Ok (t_update cert t2), (sent (x @ s2) c)\<lparr>c_writeKeys := Some k2\<rparr>)" for ctx t2 x
    using sendEncrypted_no_fault [OF _ _ msgs(3) seals(2), of "(sent x c)\<lparr>c_writeKeys := Some k1\<rparr>"] c
    by (simp add: sent_def)
  have e3: "sendEncrypted ctx handshakeTypeCertificateVerify cvBody t2 ((sent x c)\<lparr>c_writeKeys := Some k2\<rparr>) =
      (Ok (t_update cv t2), (sent (x @ s3) c)\<lparr>c_writeKeys := Some k3\<rparr>)" for ctx t2 x
    using sendEncrypted_no_fault [OF _ _ msgs(6) seals(3), of "(sent x c)\<lparr>c_writeKeys := Some k2\<rparr>"] c
    by (simp add: sent_def)
  have e4: "sendEncrypted ctx handshakeTypeFinished sv t2 ((sent x c)\<lparr>c_writeKeys := Some k3\<rparr>) =
      (Ok (t_update sf t2), (sent (x @ s4) c)\<lparr>c_writeKeys := Some k4\<rparr>)" for ctx t2 x
    using sendEncrypted_no_fault [OF _ _ msgs(8) seals(4), of "(sent x c)\<lparr>c_writeKeys := Some k3\<rparr>"] c
    by (simp add: sent_def)
  have "sendFlight cr rnd identity sched tx c =
      (Ok ?tx, (sent ?out c)\<lparr>c_writeKeys := Some k4\<rparr>)"
    unfolding sendFlight_def marshalEncryptedExtensions_def marshalFinished_def
    using msgs by (simp add: bindS_def wrapS_def liftR_def write_ccs e1 e2 e3 e4 cong: if_cong)
  moreover have "wire_bytes [Bare contentTypeChangeCipherSpec [1], Protected contentTypeHandshake ee,
        Protected contentTypeHandshake cert, Protected contentTypeHandshake cv,
        Protected contentTypeHandshake sf] k = (?out, k4)"
    using seals by (simp add: ccs_def)
  ultimately show ?thesis by (intro exI [of _ ?out] exI [of _ k4] exI [of _ ?tx]) simp
qed

lemma receiveFinished_run:
  assumes "SetServerFinishedTranscript (cr_sha256 cr) (cr_sha256 cr (t_written tx)) sched = Ok sched'"
    and "verifyData (cr_sha256 cr) (k_clientHandshakeTrafficSecret sched) (cr_sha256 cr (t_written tx)) = Ok v"
    and "marshalHandshake handshakeTypeFinished v = Ok cf" "framed_message fin"
    and "readHandshakeMessage c = (Ok fin, c1)" "c_hsBuf c1 = []"
    and "newRecordKeysFromSecret cr (k_clientApplicationTrafficSecret sched') = Ok rk"
    and "newRecordKeysFromSecret cr (k_serverApplicationTrafficSecret sched') = Ok wk"
  shows "receiveFinished cr sched tx c =
    (if fin = cf then (Ok (), c1\<lparr>c_readKeys := Some rk, c_writeKeys := Some wk\<rparr>)
     else (Err (ErrText (if fin ! 0 \<noteq> handshakeTypeFinished then ''expected client Finished''
                         else ''client Finished verify_data mismatch'')), c1))"
proof -
  obtain t body where body: "parseHandshake fin = Ok (t, body)"
    using assms(4) by (auto simp: framed_message_iff)
  then have "fin ! 0 = t" "drop 4 fin = body"
    by (auto simp: parseHandshake_def go_simps Let_def handshakeHeaderLen_def split: if_splits)
  note f = this
  have eq: "fin = cf \<longleftrightarrow> t = handshakeTypeFinished \<and> body = v"
    using body assms(3) marshal_parse_iff [of t body fin] marshal_parse_iff [of handshakeTypeFinished v cf]
    by (metis Pair_inject res.inject(1))
  note idx = framed_fields [OF assms(4)]
  have pre: "receiveFinished cr sched tx c =
      (if t \<noteq> handshakeTypeFinished then (Err (ErrText ''expected client Finished''), c1)
       else if body \<noteq> v then (Err (ErrText ''client Finished verify_data mismatch''), c1)
       else (Ok (), c1\<lparr>c_readKeys := Some rk, c_writeKeys := Some wk\<rparr>))"
    using assms(1,2,5-8) SetServerFinished_keeps [OF assms(1)] f
    by (simp add: receiveFinished_def Let_def bindS_def wrapS_def liftR_def fail_def setKeys_def idx)
  show ?thesis unfolding pre eq f(1) by simp
qed

text \<open>What the client sends: the ClientHello, and its Finished message under its handshake keys.\<close>

definition first_flight :: "(byte \<times> bytes) list \<Rightarrow> bytes \<Rightarrow> bytes \<Rightarrow> bool" where
  "first_flight rs ch early \<longleftrightarrow> handshake_records rs \<and> handshake_bytes rs = ch @ early
     \<and> length (handshake_bytes (butlast rs)) < length ch
     \<and> (\<forall>r \<in> set rs. length (snd r) \<le> maxCiphertextLength)"

definition second_flight :: "wire_item list \<Rightarrow> bytes \<Rightarrow> bytes \<Rightarrow> bool" where
  "second_flight ws early fin \<longleftrightarrow> list_all item_ok ws \<and> handshake_records (map carried ws)
     \<and> early @ handshake_bytes (map carried ws) = fin
     \<and> length (early @ handshake_bytes (butlast (map carried ws))) < length fin"

definition plan_fits :: "hs_plan \<Rightarrow> bool" where
  "plan_fits p \<longleftrightarrow> (\<forall>m \<in> {p_serverHello p, p_encryptedExtensions p, p_certificate p,
     p_certificateVerify p, p_serverFinished p}. length m \<le> maxPlaintextLength)"

definition server_flight :: "hs_plan \<Rightarrow> wire_item list" where
  "server_flight p = Bare contentTypeChangeCipherSpec [1] # map (Protected contentTypeHandshake)
     [p_encryptedExtensions p, p_certificate p, p_certificateVerify p, p_serverFinished p]"

lemma runHandshake_decides_lemma:
  fixes rest :: bytes and e :: io_error
  assumes hello: "framed_message ch" "ch ! 0 = handshakeTypeClientHello"
      "parseClientHello (drop 4 ch) = Ok hello" "validateClientHello hello = Ok ()"
    and plan: "hs_reference cr rnd identity ch hello = Ok plan" "plan_fits plan"
    and ck: "newRecordKeysFromSecret cr (k_clientHandshakeTrafficSecret (p_schedule plan)) = Ok ck"
    and sk: "newRecordKeysFromSecret cr (k_serverHandshakeTrafficSecret (p_schedule plan)) = Ok sk"
    and rk: "newRecordKeysFromSecret cr (k_clientApplicationTrafficSecret (p_schedule plan)) = Ok rk"
    and wk: "newRecordKeysFromSecret cr (k_serverApplicationTrafficSecret (p_schedule plan)) = Ok wk"
    and aead: "aead_correct (rk_aead ck)" "aead_correct (rk_aead sk)"
    and flights: "first_flight rs ch early" "second_flight ws early fin" "framed_message fin"
  defines "c' \<equiv> (tls_Server (rest, e) [] (Some identity))\<lparr>c_out :=
      record_header contentTypeHandshake (length (p_serverHello plan)) @ p_serverHello plan
         @ fst (wire_bytes (server_flight plan) sk)\<rparr>"
  shows "runHandshake cr rnd (tls_Server (plain_bytes rs @ fst (wire_bytes ws ck) @ rest, e) [] (Some identity)) =
    (if fin = p_clientFinished plan
     then (Ok (), c'\<lparr>c_readKeys := Some rk, c_writeKeys := Some wk\<rparr>)
     else (Err (ErrText (if fin ! 0 \<noteq> handshakeTypeFinished then ''expected client Finished''
                         else ''client Finished verify_data mismatch'')),
           c'\<lparr>c_readKeys := Some (snd (wire_bytes ws ck)),
              c_writeKeys := Some (snd (wire_bytes (server_flight plan) sk))\<rparr>))"
proof -
  let ?c = "tls_Server (plain_bytes rs @ fst (wire_bytes ws ck) @ rest, e) [] (Some identity)"
  let ?s1 = "((fst (wire_bytes ws ck) @ rest, e), None :: recordKeys option)"
  obtain pub shared random shBody sh sched ee certBody cert sig cvBody cv sv sf sched' v cf where p:
    "keyExchange rnd hello = Ok (pub, shared)" "rand_Read (e_random rnd) = Ok random"
    "marshalServerHello random (ch_legacySessionID hello) pub = Ok shBody"
    "marshalHandshake handshakeTypeServerHello shBody = Ok sh"
    "newKeySchedule (cr_sha256 cr) shared (cr_sha256 cr (ch @ sh)) = Ok sched"
    "marshalHandshake handshakeTypeEncryptedExtensions [0, 0] = Ok ee"
    "marshalCertificate (si_certDER identity) = Ok certBody"
    "marshalHandshake handshakeTypeCertificate certBody = Ok cert"
    "signCertificateVerify (cr_sha256 cr) (e_sign rnd) identity (cr_sha256 cr (ch @ sh @ ee @ cert)) = Ok sig"
    "marshalCertificateVerify sigSchemeECDSAP256SHA256 sig = Ok cvBody"
    "marshalHandshake handshakeTypeCertificateVerify cvBody = Ok cv"
    "verifyData (cr_sha256 cr) (k_serverHandshakeTrafficSecret sched) (cr_sha256 cr (ch @ sh @ ee @ cert @ cv)) = Ok sv"
    "marshalHandshake handshakeTypeFinished sv = Ok sf"
    "SetServerFinishedTranscript (cr_sha256 cr) (cr_sha256 cr (ch @ sh @ ee @ cert @ cv @ sf)) sched = Ok sched'"
    "verifyData (cr_sha256 cr) (k_clientHandshakeTrafficSecret sched) (cr_sha256 cr (ch @ sh @ ee @ cert @ cv @ sf)) = Ok v"
    "marshalHandshake handshakeTypeFinished v = Ok cf"
    "plan = \<lparr>p_serverHello = sh, p_encryptedExtensions = ee, p_certificate = cert, p_certificateVerify = cv,
       p_serverFinished = sf, p_clientFinished = cf, p_schedule = sched'\<rparr>"
    using plan(1) by (auto simp: hs_reference_def Let_def rbind_eq_Ok)
  note keeps = SetServerFinished_keeps [OF p(14)]
  have fits: "length sh \<le> maxPlaintextLength" "length ee \<le> maxPlaintextLength"
      "length cert \<le> maxPlaintextLength" "length cv \<le> maxPlaintextLength" "length sf \<le> maxPlaintextLength"
    using plan(2) by (simp_all add: plan_fits_def p(17))
  have "pulls rs (src ?c) ?s1"
    using pulls_plain [of rs "fst (wire_bytes ws ck) @ rest" e] flights(1)
    by (simp add: first_flight_def tls_Server_def src_def)
  then have "readHandshakeMessage ?c = (Ok ch, put_src ?s1 (?c\<lparr>c_hsBuf := early\<rparr>))"
    using flights(1) by (intro readHandshakeMessage_exact [OF hello(1)])
      (auto simp: first_flight_def tls_Server_def)
  then have 1: "receiveClientHello ?c =
      (Ok (t_update ch newTranscript, hello), put_src ?s1 (?c\<lparr>c_hsBuf := early\<rparr>))"
    unfolding receiveClientHello_Ok using hello by blast
  define c1 where "c1 = put_src ?s1 (?c\<lparr>c_hsBuf := early\<rparr>)"
  let ?shr = "record_header contentTypeHandshake (length sh) @ sh"
  have "tls_writeRecord contentTypeHandshake sh c1 = (Ok (), sent ?shr c1)"
    using fits(1) by (intro tls_writeRecord_no_fault) (simp_all add: c1_def tls_Server_def record_limits)
  then have 2: "sendServerHello rnd hello pub (t_update ch newTranscript) c1 =
      (Ok (t_update sh (t_update ch newTranscript)), sent ?shr c1)"
    using p(2,3,4) by (simp add: sendServerHello_def bindS_def wrapS_def liftR_def ret_def
        writePlaintextHandshake_def)
  let ?tx = "t_update sh (t_update ch newTranscript)"
  define c3 where "c3 = (sent ?shr c1)\<lparr>c_readKeys := Some ck, c_writeKeys := Some sk\<rparr>"
  have 3: "deriveHandshakeKeys cr shared ?tx (sent ?shr c1) = (Ok sched, c3)"
    using p(5) ck sk keeps
    by (simp add: deriveHandshakeKeys_def bindS_def liftR_def ret_def setKeys_def c3_def p(17))
  obtain out k' tx' where 4: "sendFlight cr rnd identity sched ?tx c3 =
        (Ok tx', (sent out c3)\<lparr>c_writeKeys := Some k'\<rparr>)"
      "t_written tx' = ch @ sh @ ee @ cert @ cv @ sf" "(out, k') = wire_bytes (server_flight plan) sk"
    using sendFlight_no_fault [of c3 sk ee identity certBody cert cr rnd ?tx sig cvBody cv sched sv sf]
      p(6-13) aead(2) fits
    by (auto simp: c3_def c1_def tls_Server_def server_flight_def p(17))
  define c4 where "c4 = (sent out c3)\<lparr>c_writeKeys := Some k'\<rparr>"
  let ?s2 = "((rest, e), Some (snd (wire_bytes ws ck)))"
  have src: "src c4 = ((fst (wire_bytes ws ck) @ rest, e), Some ck)" and hs: "c_hsBuf c4 = early"
    by (simp_all add: c4_def c3_def c1_def src_def sent_def)
  have "pulls (map carried ws) (src c4) ?s2"
    unfolding src using pulls_wire [OF aead(1)] flights(2) by (simp add: second_flight_def)
  then have 5: "readHandshakeMessage c4 = (Ok fin, put_src ?s2 (c4\<lparr>c_hsBuf := []\<rparr>))"
    using flights(2,3) hs
    by (intro readHandshakeMessage_exact) (auto simp: second_flight_def p(17))
  define c5 where "c5 = put_src ?s2 (c4\<lparr>c_hsBuf := []\<rparr>)"
  have 6: "receiveFinished cr sched tx' c4 =
      (if fin = cf then (Ok (), c5\<lparr>c_readKeys := Some rk, c_writeKeys := Some wk\<rparr>)
       else (Err (ErrText (if fin ! 0 \<noteq> handshakeTypeFinished then ''expected client Finished''
                           else ''client Finished verify_data mismatch'')), c5))"
    using p(14,15,16) 4(2) 5 rk wk flights(3)
    by (intro receiveFinished_run) (simp_all add: p(17) c5_def)
  have id: "c_identity ?c = Some identity" by (simp add: tls_Server_def)
  have run: "runHandshake cr rnd ?c = receiveFinished cr sched tx' c4"
    by (simp add: runHandshake_def id bindS_def liftR_def 1 [folded c1_def] 2 3
        4(1) [folded c4_def] p(1))
  have "out = fst (wire_bytes (server_flight plan) sk)" "k' = snd (wire_bytes (server_flight plan) sk)"
    using 4(3) by (metis fst_conv, metis snd_conv)
  then show ?thesis
    unfolding run 6
    by (simp add: c5_def c4_def c3_def c1_def put_src_def sent_def tls_Server_def p(17) c'_def)
qed

subsection \<open>When the handshake can go through\<close>

text \<open>
  What the code relies on outside the repository: 32-byte digests, an AEAD that opens what it seals, a
  signature of at most 128 bytes (DER of an ECDSA P-256 signature), draws of the length asked for. A
  certificate must leave room for its record.
\<close>

definition crypto_ok :: "crypto \<Rightarrow> bool" where
  "crypto_ok cr \<longleftrightarrow> hash_ok (cr_sha256 cr) \<and> (\<forall>key. aead_correct (cr_gcm cr key))"

definition server_ok :: "entropy \<Rightarrow> ServerIdentity \<Rightarrow> bool" where
  "server_ok rnd identity \<longleftrightarrow> (\<exists>priv. e_priv rnd = Some priv)
     \<and> (\<exists>random. e_random rnd = Some random \<and> length random = 32)
     \<and> length (si_certDER identity) \<le> 16000
     \<and> (\<forall>d. \<exists>sig. si_priv identity (e_sign rnd) d = Some sig \<and> length sig \<le> 128)"

definition good_hello :: "bytes \<Rightarrow> clientHello \<Rightarrow> bool" where
  "good_hello ch hello \<longleftrightarrow> framed_message ch \<and> ch ! 0 = handshakeTypeClientHello
     \<and> parseClientHello (drop 4 ch) = Ok hello \<and> validateClientHello hello = Ok ()"

lemma marshalHandshake_small: "length body \<le> 16380 \<Longrightarrow>
    marshalHandshake t body = Ok (t # u24_bytes (length body) @ body)"
  by (simp add: marshalHandshake_def)

lemma hello_session_id:
  assumes "parseClientHello body = Ok hello"
  shows "length (ch_legacySessionID hello) \<le> 32"
proof -
  have kept: "ch_legacySessionID h' = ch_legacySessionID h" if "apply_all es h = Ok h'" for es h h'
    using that by (induction es arbitrary: h) (auto simp: apply_extension_def rbind_eqs split: if_splits)
  show ?thesis
    using parseClientHello_accepts [OF assms] kept by (fastforce simp: hello_fits_def hello_base_def)
qed

lemma keyExchange_cases:
  assumes "server_ok rnd identity"
  obtains pub shared where "keyExchange rnd hello = Ok (pub, shared)" "length pub = 32"
  | "keyExchange rnd hello = Err (ErrWrap ''x25519 ECDHE'' ErrZeroSharedSecret)"
proof -
  obtain priv where "e_priv rnd = Some priv" using assms by (auto simp: server_ok_def)
  then show ?thesis
    using that
    by (cases "scalarMult priv (take 32 (findKeyShare hello namedGroupX25519 @ replicate 32 0)) = replicate 32 0")
      (simp_all add: keyExchange_def rand_Read_def x25519_def x25519Base_def Let_def)
qed

lemma signCertificateVerify_total:
  "server_ok rnd identity \<Longrightarrow>
   \<exists>sig. signCertificateVerify H (e_sign rnd) identity d = Ok sig \<and> length sig \<le> 128"
  unfolding server_ok_def signCertificateVerify_def by (metis option.simps(5))

lemma hs_reference_total:
  assumes "crypto_ok cr" "server_ok rnd identity" "length (ch_legacySessionID hello) \<le> 32"
    and "keyExchange rnd hello = Ok (pub, shared)" "length pub = 32"
  shows "\<exists>plan v. hs_reference cr rnd identity ch hello = Ok plan \<and> plan_fits plan
    \<and> p_clientFinished plan = [20, 0, 0, 32] @ v \<and> length v = 32"
proof -
  have H: "hash_ok (cr_sha256 cr)" using assms(1) by (simp add: crypto_ok_def)
  obtain random where random: "rand_Read (e_random rnd) = Ok random" "length random = 32"
    using assms(2) by (auto simp: server_ok_def rand_Read_def)
  obtain shBody where sh: "marshalServerHello random (ch_legacySessionID hello) pub = Ok shBody"
      "length shBody \<le> 1000"
    using marshalServerHello_layout [of "ch_legacySessionID hello" pub random] assms(3,5) random(2) by simp
  let ?sh = "handshakeTypeServerHello # u24_bytes (length shBody) @ shBody"
  obtain sched where sched: "newKeySchedule (cr_sha256 cr) shared (cr_sha256 cr (ch @ ?sh)) = Ok sched"
    using newKeySchedule_total [OF H] by blast
  obtain certBody where cert: "marshalCertificate (si_certDER identity) = Ok certBody" "length certBody \<le> 16100"
    using assms(2) by (simp add: server_ok_def marshalCertificate_layout)
  let ?cert = "handshakeTypeCertificate # u24_bytes (length certBody) @ certBody"
  let ?ee = "handshakeTypeEncryptedExtensions # u24_bytes 2 @ [0, 0]"
  obtain sig where sig: "signCertificateVerify (cr_sha256 cr) (e_sign rnd) identity
      (cr_sha256 cr (ch @ ?sh @ ?ee @ ?cert)) = Ok sig" "length sig \<le> 128"
    using signCertificateVerify_total [OF assms(2)] by blast
  let ?cvBody = "u16_bytes sigSchemeECDSAP256SHA256 @ vec16 sig"
  have cv: "marshalCertificateVerify sigSchemeECDSAP256SHA256 sig = Ok ?cvBody"
    using sig(2) by (simp add: marshalCertificateVerify_layout)
  let ?cv = "handshakeTypeCertificateVerify # u24_bytes (length ?cvBody) @ ?cvBody"
  obtain sv where sv: "verifyData (cr_sha256 cr) (k_serverHandshakeTrafficSecret sched)
      (cr_sha256 cr (ch @ ?sh @ ?ee @ ?cert @ ?cv)) = Ok sv" "length sv = 32"
    using verifyData_total [OF H] by blast
  let ?sf = "handshakeTypeFinished # u24_bytes (length sv) @ sv"
  obtain sched' where sched': "SetServerFinishedTranscript (cr_sha256 cr)
      (cr_sha256 cr (ch @ ?sh @ ?ee @ ?cert @ ?cv @ ?sf)) sched = Ok sched'"
    using SetServerFinishedTranscript_total [OF H] by blast
  obtain v where v: "verifyData (cr_sha256 cr) (k_clientHandshakeTrafficSecret sched)
      (cr_sha256 cr (ch @ ?sh @ ?ee @ ?cert @ ?cv @ ?sf)) = Ok v" "length v = 32"
    using verifyData_total [OF H] by blast
  have m: "marshalHandshake handshakeTypeServerHello shBody = Ok ?sh"
    "marshalHandshake handshakeTypeEncryptedExtensions [0, 0] = Ok ?ee"
    "marshalHandshake handshakeTypeCertificate certBody = Ok ?cert"
    "marshalHandshake handshakeTypeCertificateVerify ?cvBody = Ok ?cv"
    "marshalHandshake handshakeTypeFinished sv = Ok ?sf"
    "marshalHandshake handshakeTypeFinished v = Ok ([20, 0, 0, 32] @ v)"
    using sh(2) cert(2) sig(2) sv(2) v(2)
    by (simp_all add: marshalHandshake_small handshake_types u24_bytes_def)
  let ?plan = "\<lparr>p_serverHello = ?sh, p_encryptedExtensions = ?ee, p_certificate = ?cert,
    p_certificateVerify = ?cv, p_serverFinished = ?sf, p_clientFinished = [20, 0, 0, 32] @ v, p_schedule = sched'\<rparr>"
  have "hs_reference cr rnd identity ch hello = Ok ?plan"
    unfolding hs_reference_def Let_def
    by (simp only: assms(4) random(1) sh(1) m sched cert(1) sig(1) cv sv(1) sched' v(1) rbind.simps prod.case)
  moreover have "plan_fits ?plan"
    using sh(2) cert(2) sig(2) sv(2) by (simp add: plan_fits_def maxPlaintextLength_def)
  ultimately show ?thesis using v(2) by (intro exI [of _ ?plan] exI [of _ v]) simp
qed

text \<open>
  The plan of RFC 8446 itself: the same messages written with the specifications of theory \<open>Rfc8446\<close>, from the
  ClientHello message \<open>ch\<close>, its session id, the server's draws, its public share \<open>pub\<close> and the shared secret \<open>dhe\<close>.
\<close>

definition rfc_plan ::
  "crypto \<Rightarrow> entropy \<Rightarrow> ServerIdentity \<Rightarrow> bytes \<Rightarrow> bytes \<Rightarrow> bytes \<Rightarrow> bytes \<Rightarrow> hs_plan" where
  "rfc_plan cr rnd identity ch session_id pub dhe =
     (let H = cr_sha256 cr;
          sign = (\<lambda>d. case si_priv identity (e_sign rnd) d of Some sig \<Rightarrow> sig | None \<Rightarrow> []);
          random = (case e_random rnd of Some r \<Rightarrow> r | None \<Rightarrow> []);
          sh = rfc_ServerHello random session_id pub;
          ee = rfc_EncryptedExtensions;
          crt = rfc_Certificate (si_certDER identity);
          cv = rfc_CertificateVerify (sign (H (rfc_signed_content (H (ch @ sh @ ee @ crt)))));
          server_secret = rfc_Derive_Secret H (rfc_handshake_secret H dhe) ''s hs traffic'' (ch @ sh);
          client_secret = rfc_Derive_Secret H (rfc_handshake_secret H dhe) ''c hs traffic'' (ch @ sh);
          sf = rfc_Finished (rfc_verify_data H server_secret (ch @ sh @ ee @ crt @ cv))
      in \<lparr>p_serverHello = sh, p_encryptedExtensions = ee, p_certificate = crt, p_certificateVerify = cv,
          p_serverFinished = sf,
          p_clientFinished = rfc_Finished (rfc_verify_data H client_secret (ch @ sh @ ee @ crt @ cv @ sf)),
          p_schedule = rfc_schedule H dhe (ch @ sh) (ch @ sh @ ee @ crt @ cv @ sf)\<rparr>)"

lemma hs_reference_is_rfc8446:
  assumes "crypto_ok cr" "server_ok rnd identity" "length (ch_legacySessionID hello) \<le> 32"
    and "keyExchange rnd hello = Ok (pub, dhe)" "length pub = 32"
  shows "hs_reference cr rnd identity ch hello = Ok (rfc_plan cr rnd identity ch (ch_legacySessionID hello) pub dhe)"
proof -
  let ?H = "cr_sha256 cr"
  have H: "hash_ok ?H" using assms(1) by (simp add: crypto_ok_def)
  obtain random where random: "e_random rnd = Some random" "length random = 32"
    using assms(2) by (auto simp: server_ok_def)
  let ?sh = "rfc_ServerHello random (ch_legacySessionID hello) pub"
  let ?ee = "rfc_EncryptedExtensions" and ?crt = "rfc_Certificate (si_certDER identity)"
  obtain shBody where sh: "marshalServerHello random (ch_legacySessionID hello) pub = Ok shBody"
      "marshalHandshake handshakeTypeServerHello shBody = Ok ?sh"
    using ServerHello_computed assms(3,5) random(2) by blast
  obtain certBody where crt: "marshalCertificate (si_certDER identity) = Ok certBody"
      "marshalHandshake handshakeTypeCertificate certBody = Ok ?crt"
    using Certificate_computed assms(2) by (auto simp: server_ok_def)
  let ?d = "?H (rfc_signed_content (?H (ch @ ?sh @ ?ee @ ?crt)))"
  obtain sig where sig: "si_priv identity (e_sign rnd) ?d = Some sig" "length sig \<le> 128"
    using assms(2) by (auto simp: server_ok_def)
  let ?cv = "rfc_CertificateVerify sig"
  obtain cvBody where cv: "marshalCertificateVerify sigSchemeECDSAP256SHA256 sig = Ok cvBody"
      "marshalHandshake handshakeTypeCertificateVerify cvBody = Ok ?cv"
    using CertificateVerify_computed [OF sig(2)] by blast
  have signed: "signCertificateVerify ?H (e_sign rnd) identity (?H (ch @ ?sh @ ?ee @ ?crt)) = Ok sig"
    using sig(1) by (simp add: signCertificateVerify_def signed_content_computed)
  have fin: "marshalHandshake handshakeTypeFinished (rfc_verify_data ?H k m) = Ok (rfc_Finished (rfc_verify_data ?H k m))"
    for k m by (rule Finished_computed [OF length_rfc_verify_data [OF H]])
  show ?thesis
    unfolding hs_reference_def rfc_plan_def Let_def
    by (simp add: assms(4) random(1) rand_Read_def sh crt EncryptedExtensions_computed cv sig(1) signed fin
        rfc_schedule_computed(1) [OF H, where finished = "[]"]
        rfc_schedule_computed(2) [OF H, where finished' = "[]"] rfc_verify_data_computed [OF H])
      (simp add: rfc_schedule_def)
qed

subsection \<open>Safe actions\<close>

text \<open>
  An action is safe when it does not panic and leaves the handshake flags as they are; what it keeps
  besides is no matter. Safety composes along \<open>bindS\<close>.
\<close>

definition safe :: "(Conn, 'a) action \<Rightarrow> bool" where
  "safe m \<longleftrightarrow> (\<forall>c. fst (m c) \<noteq> Panic \<and> c_handshakeDone (snd (m c)) = c_handshakeDone c
     \<and> c_handshakeErr (snd (m c)) = c_handshakeErr c)"

named_theorems safe_intros \<open>safe actions\<close>

lemma safeD:
  assumes "safe m" "m c = (r, c')"
  shows "r \<noteq> Panic" "c_handshakeDone c' = c_handshakeDone c" "c_handshakeErr c' = c_handshakeErr c"
  using assms unfolding safe_def by (metis fst_conv snd_conv)+

lemma safeI:
  assumes "\<And>c r c'. m c = (r, c') \<Longrightarrow>
    r \<noteq> Panic \<and> c_handshakeDone c' = c_handshakeDone c \<and> c_handshakeErr c' = c_handshakeErr c"
  shows "safe m"
  using assms unfolding safe_def by (metis prod.collapse)

lemma safe_bindS [safe_intros]:
  assumes "safe m" "\<And>a. (\<exists>c c'. m c = (Ok a, c')) \<Longrightarrow> safe (f a)"
  shows "safe (bindS m f)"
proof (rule safeI)
  fix c r c' assume run: "bindS m f c = (r, c')"
  obtain r1 c1 where m: "m c = (r1, c1)" by (cases "m c")
  note kept = safeD [OF assms(1) m]
  show "r \<noteq> Panic \<and> c_handshakeDone c' = c_handshakeDone c \<and> c_handshakeErr c' = c_handshakeErr c"
  proof (cases r1)
    case (Ok a)
    then have "safe (f a)" "f a c1 = (r, c')" using assms(2) m run by (auto simp: bindS_def)
    then show ?thesis using safeD kept by metis
  qed (use run m kept in \<open>auto simp: bindS_def\<close>)
qed

lemma safe_liftR [safe_intros]: "r \<noteq> Panic \<Longrightarrow> safe (liftR r)"
  by (simp add: safe_def liftR_def)

lemma safe_ret [safe_intros]: "safe (ret a)"
  by (simp add: safe_def ret_def)

lemma safe_fail [safe_intros]: "safe (fail e)"
  by (simp add: safe_def fail_def)

lemma safe_wrapS [safe_intros]:
  assumes "safe m"
  shows "safe (wrapS ctx m)"
proof (rule safeI)
  fix c r c' assume run: "wrapS ctx m c = (r, c')"
  obtain r1 where m: "m c = (r1, c')" "r = rwrap (ErrWrap ctx) r1"
    using run by (cases "m c") (simp add: wrapS_def)
  then show "r \<noteq> Panic \<and> c_handshakeDone c' = c_handshakeDone c \<and> c_handshakeErr c' = c_handshakeErr c"
    using safeD [OF assms m(1)] by (simp add: rwrap_eq_Panic)
qed

lemma safe_setKeys [safe_intros]: "safe (setKeys r w)"
  by (simp add: safe_def setKeys_def)

lemma safe_raw_Write [safe_intros]: "safe (raw_Write out)"
  by (simp add: safe_def raw_Write_def split: list.split option.split)

lemma safe_if [safe_intros]: "(b \<Longrightarrow> safe m) \<Longrightarrow> (\<not> b \<Longrightarrow> safe n) \<Longrightarrow> safe (if b then m else n)"
  by simp

lemma safe_tls_writeRecord [safe_intros]: "safe (tls_writeRecord t f)"
  unfolding tls_writeRecord_def by (intro safe_intros) (simp add: record_bytes_def)

lemma safe_writeEncryptedHandshake [safe_intros]: "safe (writeEncryptedHandshake m)"
proof (rule safeI)
  fix c r c' assume run: "writeEncryptedHandshake m c = (r, c')"
  show "r \<noteq> Panic \<and> c_handshakeDone c' = c_handshakeDone c \<and> c_handshakeErr c' = c_handshakeErr c"
  proof (cases "c_writeKeys c")
    case (Some k)
    obtain r1 where r1: "rk_Seal contentTypeHandshake m k = r1" by simp
    show ?thesis
    proof (cases r1)
      case (Ok a)
      obtain out k' where a: "a = (out, k')" by (cases a)
      then have "raw_Write out (c\<lparr>c_writeKeys := Some k'\<rparr>) = (r, c')"
        using run Some r1 Ok by (simp add: writeEncryptedHandshake_def conn_Seal_def bindS_def)
      then show ?thesis using safeD [OF safe_raw_Write] by fastforce
    qed (use run Some r1 rk_Seal_never_panics [of contentTypeHandshake m k] in
      \<open>auto simp: writeEncryptedHandshake_def conn_Seal_def bindS_def\<close>)
  qed (use run in \<open>auto simp: writeEncryptedHandshake_def\<close>)
qed

lemma pull_never_panics: "fst (conn_readRecord c) \<noteq> Panic"
  by (cases rule: tls_readRecord_cases [of "c_in c"])
    (auto simp: conn_readRecord_def Let_def split: option.split res.split)

lemma conn_readRecord_flags:
  "c_handshakeDone (snd (conn_readRecord c)) = c_handshakeDone c"
  "c_handshakeErr (snd (conn_readRecord c)) = c_handshakeErr c"
  "c_writeKeys (snd (conn_readRecord c)) = c_writeKeys c"
  by (simp_all add: conn_readRecord_pull)

lemma safe_readHandshakeMessage [safe_intros]: "safe readHandshakeMessage"
proof -
  have "fst (readHandshakeMessage c) \<noteq> Panic
      \<and> c_handshakeDone (snd (readHandshakeMessage c)) = c_handshakeDone c
      \<and> c_handshakeErr (snd (readHandshakeMessage c)) = c_handshakeErr c" for c
  proof (induction c rule: readHandshakeMessage.induct)
    case (1 c)
    show ?case
    proof (cases "takeBufferedHandshake (c_hsBuf c)")
      case (Some a)
      then show ?thesis by (subst (1 2 3) readHandshakeMessage.simps) (auto split: prod.split)
    next
      case None
      obtain r c1 where r: "conn_readRecord c = (r, c1)" by (cases "conn_readRecord c")
      then have flags: "r \<noteq> Panic" "c_handshakeDone c1 = c_handshakeDone c" "c_handshakeErr c1 = c_handshakeErr c"
        using pull_never_panics [of c] conn_readRecord_flags [of c] by auto
      show ?thesis
      proof (cases r)
        case (Ok a)
        obtain t p where a: "a = (t, p)" by (cases a)
        show ?thesis
          using "1.IH"(1) [OF None r [symmetric] Ok a [symmetric]] "1.IH"(2) [OF None r [symmetric] Ok a [symmetric]]
            None r Ok a flags
          by (auto simp: readHandshakeMessage.simps [of c])
      qed (use r None flags in \<open>auto simp: readHandshakeMessage.simps [of c]\<close>)
    qed
  qed
  then show ?thesis by (simp add: safe_def)
qed

text \<open>
  The environment in which the handshake cannot panic: 32-byte digests and server random, a certificate
  and signatures that fit their length fields.
\<close>

definition tls_env :: "crypto \<Rightarrow> entropy \<Rightarrow> Conn \<Rightarrow> bool" where
  "tls_env cr rnd c \<longleftrightarrow> hash_ok (cr_sha256 cr) \<and> (\<forall>r. e_random rnd = Some r \<longrightarrow> length r = 32)
     \<and> (\<forall>idy. c_identity c = Some idy \<longrightarrow> length (si_certDER idy) \<le> 2 ^ 24 - 20
          \<and> (\<forall>d sig. si_priv idy (e_sign rnd) d = Some sig \<longrightarrow> length sig < 65536))"

lemma readHandshake_safe_fields:
  assumes "\<exists>c c'. wrapS ctx readHandshakeMessage c = (Ok m, c')"
  shows "idx m 0 \<noteq> Panic" "slice_from m handshakeHeaderLen \<noteq> Panic"
proof -
  have "framed_message m" using assms readHandshakeMessage_framed unfolding wrapS_eq_Ok by blast
  then show "idx m 0 \<noteq> Panic" "slice_from m handshakeHeaderLen \<noteq> Panic" by (simp_all add: framed_fields)
qed

lemma safe_receiveClientHello: "safe receiveClientHello"
  unfolding receiveClientHello_def
  by (intro safe_intros readHandshake_safe_fields)
    (auto simp: parseClientHello_never_panics_lemma validateClientHello_def Let_def)

lemma marshal_fits [simp]: "length body < 2 ^ 24 \<Longrightarrow> marshalHandshake t body \<noteq> Panic"
  by (simp add: marshalHandshake_def)

lemma rand_Read_never_panics: "rand_Read d \<noteq> Panic"
  by (simp add: rand_Read_def split: option.split)

lemma keyExchange_never_panics: "keyExchange rnd hello \<noteq> Panic"
  by (auto simp: keyExchange_def rand_Read_def x25519_def Let_def rbind_eqs split: option.splits)

lemma keyExchange_pub: "keyExchange rnd hello = Ok (pub, shared) \<Longrightarrow> length pub = 32"
  by (auto simp: keyExchange_def x25519Base_def Let_def rbind_eq_Ok)

lemma safe_sendServerHello:
  assumes "length (ch_legacySessionID hello) \<le> 32" "length pub = 32"
    and "\<forall>r. e_random rnd = Some r \<longrightarrow> length r = 32"
  shows "safe (sendServerHello rnd hello pub tx)"
proof -
  have draw: "length r = 32" if "wrapS ctx (liftR (rand_Read (e_random rnd))) c = (Ok r, c')" for ctx r c c'
    using that assms(3) by (auto simp: wrapS_eq_Ok liftR_def rand_Read_def split: option.splits)
  have body: "length b < 2 ^ 24" if "marshalServerHello r (ch_legacySessionID hello) pub = Ok b" "length r = 32" for r b
    using that marshalServerHello_layout [of "ch_legacySessionID hello" pub r] assms(1,2) by auto
  have total: "marshalServerHello r (ch_legacySessionID hello) pub \<noteq> Panic" for r
    using marshalServerHello_layout [of "ch_legacySessionID hello" pub r] assms(1,2) by simp
  show ?thesis
    unfolding sendServerHello_def writePlaintextHandshake_def
    by (intro safe_intros) (auto simp: total rand_Read_never_panics liftR_def dest!: draw intro!: marshal_fits body)
qed

lemma safe_deriveHandshakeKeys: "hash_ok (cr_sha256 cr) \<Longrightarrow> safe (deriveHandshakeKeys cr shared tx)"
  unfolding deriveHandshakeKeys_def
  by (intro safe_intros; metis newKeySchedule_total newRecordKeysFromSecret_total res.distinct(3))

lemma safe_sendEncrypted: "length body < 2 ^ 24 \<Longrightarrow> safe (sendEncrypted ctx t body tx)"
  unfolding sendEncrypted_def by (intro safe_intros) simp

lemma safe_sendFlight:
  assumes "hash_ok (cr_sha256 cr)" "length (si_certDER idy) \<le> 2 ^ 24 - 20"
    and "\<forall>d sig. si_priv idy (e_sign rnd) d = Some sig \<longrightarrow> length sig < 65536"
  shows "safe (sendFlight cr rnd idy sched tx)"
proof -
  have cert: "marshalCertificate (si_certDER idy) =
      Ok ([0] @ u24_bytes (length (si_certDER idy) + 5) @ u24_bytes (length (si_certDER idy)) @ si_certDER idy @ [0, 0])"
    using assms(2) by (intro marshalCertificate_layout) simp
  have sig: "length sig < 65536"
    if "wrapS ctx (liftR (signCertificateVerify H (e_sign rnd) idy th)) c = (Ok sig, c')" for ctx H th sig c c'
    using that assms(3) by (auto simp: wrapS_eq_Ok liftR_def signCertificateVerify_def split: option.splits)
  have sign: "signCertificateVerify H (e_sign rnd) idy th \<noteq> Panic" for H th
    by (simp add: signCertificateVerify_def split: option.split)
  have cv: "marshalCertificateVerify s sig = Ok (u16_bytes s @ vec16 sig)" if "length sig < 65536" for s sig
    by (rule marshalCertificateVerify_layout [OF that])
  have fin: "verifyData (cr_sha256 cr) secret th \<noteq> Panic"
    "verifyData (cr_sha256 cr) secret th = Ok v \<Longrightarrow> length v = 32" for secret th v
    using verifyData_total [OF assms(1), of secret th] by (metis res.distinct(3), metis res.inject(1))
  show ?thesis
    unfolding sendFlight_def
    by (intro safe_intros safe_sendEncrypted)
      (use assms(2) in \<open>auto simp: cert cv fin sign marshalEncryptedExtensions_def marshalFinished_def
         liftR_def dest!: sig\<close>)
qed

lemma safe_receiveFinished:
  assumes "hash_ok (cr_sha256 cr)"
  shows "safe (receiveFinished cr sched tx)"
proof -
  have total: "SetServerFinishedTranscript (cr_sha256 cr) th k \<noteq> Panic"
    "verifyData (cr_sha256 cr) secret th \<noteq> Panic" "newRecordKeysFromSecret cr secret \<noteq> Panic" for th k secret
    using SetServerFinishedTranscript_total [OF assms, of th k] verifyData_total [OF assms, of secret th]
      newRecordKeysFromSecret_total [OF assms, of secret] by (metis res.distinct(3))+
  have last: "safe (\<lambda>c. if length (c_hsBuf c) \<noteq> 0 then (Err e, c) else (Ok (), c))" for e
    by (simp add: safe_def)
  show ?thesis
    unfolding receiveFinished_def Let_def
    by (intro safe_intros last readHandshake_safe_fields) (simp_all add: total)
qed

lemma safe_runHandshake:
  assumes "tls_env cr rnd c" "runHandshake cr rnd c = (r, c')"
  shows "r \<noteq> Panic \<and> c_handshakeDone c' = c_handshakeDone c \<and> c_handshakeErr c' = c_handshakeErr c"
proof (cases "c_identity c")
  case (Some idy)
  have env: "hash_ok (cr_sha256 cr)" "\<forall>r. e_random rnd = Some r \<longrightarrow> length r = 32"
      "length (si_certDER idy) \<le> 2 ^ 24 - 20" "\<forall>d sig. si_priv idy (e_sign rnd) d = Some sig \<longrightarrow> length sig < 65536"
    using assms(1) Some by (simp_all add: tls_env_def)
  have sid: "length (ch_legacySessionID hello) \<le> 32"
    if "receiveClientHello c = (Ok (tx, hello), c')" for tx hello c c'
    using that hello_session_id unfolding receiveClientHello_Ok by blast
  have pub: "length pub = 32" if "liftR (keyExchange rnd hello) c = (Ok (pub, shared), c')" for hello pub shared c c'
    using that keyExchange_pub by (auto simp: liftR_def)
  let ?m = "bindS receiveClientHello (\<lambda>(tx, hello).
          bindS (liftR (keyExchange rnd hello)) (\<lambda>(serverPub, shared).
          bindS (sendServerHello rnd hello serverPub tx) (\<lambda>tx.
          bindS (deriveHandshakeKeys cr shared tx) (\<lambda>schedule.
          bindS (sendFlight cr rnd idy schedule tx) (\<lambda>tx.
          receiveFinished cr schedule tx)))))"
  have safe_m: "safe ?m"
    by (intro safe_bindS safe_receiveClientHello)
      (auto intro!: safe_intros safe_sendServerHello safe_deriveHandshakeKeys safe_sendFlight safe_receiveFinished
        simp: keyExchange_never_panics env env(3) [simplified] dest: sid pub)
  have run: "?m c = (r, c')" using assms(2) Some by (simp add: runHandshake_def)
  show ?thesis using safeD [OF safe_m run] by simp
qed (use assms in \<open>auto simp: runHandshake_def\<close>)

subsection \<open>The invariant of a connection\<close>

text \<open>Once the handshake is done there are keys in both directions.\<close>

definition tls_inv :: "Conn \<Rightarrow> bool" where
  "tls_inv c \<longleftrightarrow> (c_handshakeDone c \<longrightarrow> c_readKeys c \<noteq> None \<and> c_writeKeys c \<noteq> None)"

lemma Handshake_cases:
  assumes "Handshake cr rnd c = (r, c')"
  obtains "c_handshakeDone c" "r = Ok ()" "c' = c"
  | e where "\<not> c_handshakeDone c" "c_handshakeErr c = Some e" "r = Err e" "c' = c"
  | c1 where "\<not> c_handshakeDone c" "c_handshakeErr c = None" "runHandshake cr rnd c = (Ok (), c1)"
      "r = Ok ()" "c' = c1\<lparr>c_handshakeDone := True\<rparr>"
  | e c1 where "\<not> c_handshakeDone c" "c_handshakeErr c = None" "runHandshake cr rnd c = (Err e, c1)"
      "r = Err e" "c' = c1\<lparr>c_handshakeErr := Some e\<rparr>"
  | c1 where "\<not> c_handshakeDone c" "runHandshake cr rnd c = (Panic, c1)"
  using assms by (auto simp: Handshake_def split: if_splits option.splits prod.splits res.splits)

lemma Handshake_safe:
  assumes "tls_env cr rnd c" "tls_inv c" "Handshake cr rnd c = (r, c')"
  shows "r \<noteq> Panic \<and> tls_inv c' \<and> (r = Ok () \<longrightarrow> c_handshakeDone c')
    \<and> (\<forall>e. r = Err e \<longrightarrow> \<not> c_handshakeDone c' \<and> c_handshakeErr c' = Some e)"
  using assms(3)
proof (cases rule: Handshake_cases)
  case (3 c1)
  then obtain rk wk c4 where "c1 = c4\<lparr>c_readKeys := Some rk, c_writeKeys := Some wk\<rparr>"
    using runHandshake_Ok by blast
  then show ?thesis using 3 by (simp add: tls_inv_def)
qed (use assms safe_runHandshake [OF assms(1)] in \<open>force simp: tls_inv_def\<close>)+

lemma conn_readRecord_keys: "c_readKeys (snd (conn_readRecord c)) = None \<longleftrightarrow> c_readKeys c = None"
  by (cases rule: tls_readRecord_cases [of "c_in c"])
    (auto simp: conn_readRecord_def Let_def split: option.split res.split)

lemma fillAppData_safe:
  "fst (fillAppData c) \<noteq> Panic \<and> c_handshakeDone (snd (fillAppData c)) = c_handshakeDone c
   \<and> c_handshakeErr (snd (fillAppData c)) = c_handshakeErr c
   \<and> c_writeKeys (snd (fillAppData c)) = c_writeKeys c
   \<and> (c_readKeys (snd (fillAppData c)) = None \<longleftrightarrow> c_readKeys c = None)"
proof (induction c rule: fillAppData.induct)
  case (1 c)
  obtain r c1 where r: "conn_readRecord c = (r, c1)" by (cases "conn_readRecord c")
  then have flags: "r \<noteq> Panic" "c_handshakeDone c1 = c_handshakeDone c" "c_handshakeErr c1 = c_handshakeErr c"
      "c_writeKeys c1 = c_writeKeys c" "c_readKeys c1 = None \<longleftrightarrow> c_readKeys c = None"
    using pull_never_panics [of c] conn_readRecord_flags [of c] conn_readRecord_keys [of c] by auto
  show ?case
  proof (cases "c_inAppData c = []")
    case False
    then show ?thesis by (simp add: fillAppData.simps [of c])
  next
    case True
    show ?thesis
    proof (cases r)
      case (Ok a)
      obtain t p where a: "a = (t, p)" by (cases a)
      have nn: "\<not> c_inAppData c \<noteq> []" using True by simp
      show ?thesis
        using "1.IH"(1) [OF nn r [symmetric] Ok a [symmetric]] "1.IH"(2) [OF nn r [symmetric] Ok a [symmetric]]
          True r Ok a flags
        by (auto simp: fillAppData.simps [of c])
    qed (use r True flags in \<open>auto simp: fillAppData.simps [of c]\<close>)
  qed
qed

lemma writeChunks_safe:
  "c_writeKeys c \<noteq> None \<Longrightarrow> writeChunks p w c = (n, r, c') \<Longrightarrow>
   r \<noteq> Panic \<and> c_handshakeDone c' = c_handshakeDone c \<and> c_handshakeErr c' = c_handshakeErr c
   \<and> c_writeKeys c' \<noteq> None \<and> c_readKeys c' = c_readKeys c \<and> n \<le> w + length p"
proof (induction p w c rule: writeChunks.induct)
  case (1 p w c)
  show ?case
  proof (cases "p = []")
    case True
    then show ?thesis using "1.prems" by (auto simp: writeChunks.simps [of "[]"])
  next
    case False
    let ?chunk = "take maxPlaintextLength p"
    obtain k where k: "c_writeKeys c = Some k" using "1.prems"(1) by auto
    obtain s where s: "rk_Seal contentTypeApplicationData ?chunk k = s" by simp
    obtain r1 c1 where r1: "bindS (conn_Seal contentTypeApplicationData ?chunk) raw_Write c = (r1, c1)"
      by (cases "bindS (conn_Seal contentTypeApplicationData ?chunk) raw_Write c")
    have step: "r1 \<noteq> Panic" "c_handshakeDone c1 = c_handshakeDone c" "c_handshakeErr c1 = c_handshakeErr c"
        "c_writeKeys c1 \<noteq> None" "c_readKeys c1 = c_readKeys c"
      using r1 k rk_Seal_never_panics [of contentTypeApplicationData ?chunk k]
      by (auto simp: bindS_def conn_Seal_def raw_Write_def split: res.splits prod.splits list.splits option.splits)
    show ?thesis
    proof (cases r1)
      case (Ok u)
      then have "writeChunks (drop maxPlaintextLength p) (w + length ?chunk) c1 = (n, r, c')"
        using "1.prems"(2) False r1 by (simp add: writeChunks.simps [of p] Let_def)
      then show ?thesis using "1.IH" [OF False refl r1 [symmetric] Ok] step by auto
    qed (use "1.prems"(2) False r1 step in \<open>auto simp: writeChunks.simps [of p] Let_def\<close>)
  qed
qed

subsection \<open>Sending and receiving application data\<close>

text \<open>The chunks of a write, and what a sequence of records puts at the disposal of the reader.\<close>

function chunks :: "bytes \<Rightarrow> bytes list" where
  "chunks p = (if p = [] then [] else take maxPlaintextLength p # chunks (drop maxPlaintextLength p))"
  by pat_completeness auto
termination
  by (relation "measure length") (auto simp: maxPlaintextLength_def)

declare chunks.simps [simp del]

lemma maxPlaintextLength_pos [simp]: "0 < maxPlaintextLength" "maxPlaintextLength \<noteq> 0"
  by (simp_all add: maxPlaintextLength_def)

lemma concat_chunks: "concat (chunks p) = p"
  by (induction p rule: chunks.induct) (subst chunks.simps, simp)

lemma chunks_bounds: "x \<in> set (chunks p) \<Longrightarrow> x \<noteq> [] \<and> length x \<le> maxPlaintextLength"
  by (induction p rule: chunks.induct) (subst (asm) chunks.simps, auto split: if_splits)

abbreviation app_records :: "bytes list \<Rightarrow> wire_item list" where
  "app_records \<equiv> map (Protected contentTypeApplicationData)"

lemma wire_bytes_append:
  "wire_bytes (a @ b) k = (case wire_bytes a k of (x, k1) \<Rightarrow> (case wire_bytes b k1 of (y, k2) \<Rightarrow> (x @ y, k2)))"
  by (induction a k rule: wire_bytes.induct) (auto split: prod.splits res.splits)

lemma writeChunks_runs:
  assumes "c_faults c = []" "c_writeKeys c = Some k" "aead_correct (rk_aead k)"
  shows "writeChunks p w c = (w + length p, Ok (),
      c\<lparr>c_out := c_out c @ fst (wire_bytes (app_records (chunks p)) k),
        c_writeKeys := Some (snd (wire_bytes (app_records (chunks p)) k))\<rparr>)"
  using assms
proof (induction p arbitrary: w c k rule: chunks.induct)
  case (1 p)
  show ?case
  proof (cases "p = []")
    case True
    have "c\<lparr>c_out := c_out c, c_writeKeys := Some k\<rparr> = c" using "1.prems"(2) by (cases c) simp
    then show ?thesis using True by (simp add: writeChunks.simps [of "[]"] chunks.simps [of "[]"])
  next
    case False
    let ?chunk = "take maxPlaintextLength p" and ?k = "k\<lparr>rk_seq := rk_seq k + 1\<rparr>"
    obtain s where s: "rk_Seal contentTypeApplicationData ?chunk k = Ok (s, ?k)"
      using pull_sealed [OF "1.prems"(3), of contentTypeApplicationData ?chunk] by (auto simp: content_types)
    let ?c = "c\<lparr>c_out := c_out c @ s, c_writeKeys := Some ?k\<rparr>"
    have "bindS (conn_Seal contentTypeApplicationData ?chunk) raw_Write c = (Ok (), ?c)"
      using s "1.prems"(1,2) by (simp add: bindS_def conn_Seal_def raw_Write_def)
    then have "writeChunks p w c = writeChunks (drop maxPlaintextLength p) (w + length ?chunk) ?c"
      using False by (subst writeChunks.simps) (simp add: Let_def)
    also have "\<dots> = (w + length p, Ok (),
        ?c\<lparr>c_out := c_out ?c @ fst (wire_bytes (app_records (chunks (drop maxPlaintextLength p))) ?k),
          c_writeKeys := Some (snd (wire_bytes (app_records (chunks (drop maxPlaintextLength p))) ?k))\<rparr>)"
      using "1.IH" [OF False, of ?c ?k "w + length ?chunk"] "1.prems" by simp
    finally show ?thesis
      using False s by (simp add: chunks.simps [of p] split: prod.split)
  qed
qed

text \<open>Reads until one fails, with the bytes they return.\<close>

fun read_until :: "crypto \<Rightarrow> entropy \<Rightarrow> nat list \<Rightarrow> Conn \<Rightarrow> bytes \<times> unit outcome" where
  "read_until cr rnd [] c = ([], Ok ())"
| "read_until cr rnd (n # ns) c =
     (case tls_Read cr rnd n c of
        (Ok d, c') \<Rightarrow> (case read_until cr rnd ns c' of (ds, r) \<Rightarrow> (d @ ds, r))
      | (Err e, _) \<Rightarrow> ([], Err e)
      | (Panic, _) \<Rightarrow> ([], Panic))"

definition app_bytes :: "(byte \<times> bytes) list \<Rightarrow> bytes" where
  "app_bytes rs = concat (map snd (filter (\<lambda>r. fst r = contentTypeApplicationData) rs))"

definition app_phase :: "(byte \<times> bytes) list \<Rightarrow> bool" where
  "app_phase rs \<longleftrightarrow> (\<forall>r \<in> set rs. fst r = contentTypeApplicationData \<or> fst r = contentTypeHandshake)"

text \<open>
  \<open>fillAppData\<close> reads up to the next non-empty application record, skipping post-handshake messages and
  empty records; at the end of the records it hits what comes after them.
\<close>

lemma fillAppData_runs:
  assumes "app_phase rs" "pulls rs (src c) s'"
  shows "(c_inAppData c = [] \<and> app_bytes rs = [] \<and>
      fillAppData c = fillAppData (put_src s' c)) \<or>
    (\<exists>rs2 s1 d. d \<noteq> [] \<and> pulls rs2 s1 s' \<and> app_phase rs2 \<and> d @ app_bytes rs2 = c_inAppData c @ app_bytes rs
      \<and> fillAppData c = (Ok (), put_src s1 (c\<lparr>c_inAppData := d\<rparr>)))"
  using assms
proof (induction rs arbitrary: c)
  case Nil
  show ?case
  proof (cases "c_inAppData c = []")
    case True
    then show ?thesis using Nil by (simp add: app_bytes_def)
  next
    case False
    have "put_src (src c) (c\<lparr>c_inAppData := c_inAppData c\<rparr>) = c" by (simp add: put_src_def src_def)
    then show ?thesis using False Nil
      by (intro disjI2 exI [of _ "[]"] exI [of _ "src c"] exI [of _ "c_inAppData c"])
        (simp add: fillAppData.simps [of c])
  qed
next
  case (Cons r rs)
  show ?case
  proof (cases "c_inAppData c = []")
    case False
    have "put_src (src c) (c\<lparr>c_inAppData := c_inAppData c\<rparr>) = c" by (simp add: put_src_def src_def)
    then show ?thesis using False Cons.prems
      by (intro disjI2 exI [of _ "r # rs"] exI [of _ "src c"] exI [of _ "c_inAppData c"])
        (simp add: fillAppData.simps [of c])
  next
    case True
    obtain t p where r: "r = (t, p)" by (cases r)
    obtain s1 where s1: "pull (src c) = (Ok (t, p), s1)" "pulls rs s1 s'" using Cons.prems(2) r by auto
    have read: "conn_readRecord c = (Ok (t, p), put_src s1 c)" using s1 by (simp add: conn_readRecord_pull)
    have ph: "app_phase rs" using Cons.prems(1) by (simp add: app_phase_def)
    define c1 where "c1 = (if t = contentTypeApplicationData then put_src s1 (c\<lparr>c_inAppData := p\<rparr>) else put_src s1 c)"
    have step: "fillAppData c = fillAppData c1"
      using Cons.prems(1) read True r
      by (subst fillAppData.simps) (auto simp: c1_def app_phase_def content_types)
    have src1: "pulls rs (src c1) s'" using s1 by (simp add: c1_def)
    have bytes: "c_inAppData c1 @ app_bytes rs = c_inAppData c @ app_bytes (r # rs)"
      using True r by (simp add: c1_def app_bytes_def)
    have same: "put_src s (c1\<lparr>c_inAppData := d\<rparr>) = put_src s (c\<lparr>c_inAppData := d\<rparr>)" for s d
      by (simp add: c1_def put_src_def)
    show ?thesis
      using Cons.IH [OF ph src1]
    proof (elim disjE exE conjE)
      assume l: "c_inAppData c1 = []" "app_bytes rs = []" "fillAppData c1 = fillAppData (put_src s' c1)"
      have "c1\<lparr>c_inAppData := []\<rparr> = c1" using l(1) by (cases c1) simp
      then have "put_src s' c1 = put_src s' c"
        using same [of s' "[]"] True by (cases c) (simp add: put_src_def)
      then show ?thesis using l bytes True step by simp
    next
      fix rs2 s2 d
      assume "d \<noteq> []" "pulls rs2 s2 s'" "app_phase rs2" "d @ app_bytes rs2 = c_inAppData c1 @ app_bytes rs"
        "fillAppData c1 = (Ok (), put_src s2 (c1\<lparr>c_inAppData := d\<rparr>))"
      then show ?thesis using bytes step same by (intro disjI2 exI [of _ rs2] exI [of _ s2] exI [of _ d]) simp
    qed
  qed
qed

lemma conn_readRecord_end: "c_in c = ([], EOF) \<Longrightarrow> conn_readRecord c = (Err (ErrIO EOF), c)"
  by (cases c) (simp add: conn_readRecord_def tls_readRecord_def ReadFull_def recordHeaderLen_def)

lemma read_until_all:
  assumes "c_handshakeDone c" "app_phase rs" "pulls rs (src c) (([], EOF), k)"
    and "list_all (\<lambda>n. 0 < n) ns" "length (c_inAppData c @ app_bytes rs) < length ns"
  shows "read_until cr rnd ns c = (c_inAppData c @ app_bytes rs, Err (ErrIO EOF))"
  using assms
proof (induction ns arbitrary: c rs)
  case (Cons n ns)
  have ens: "ensureHandshake cr rnd c = (Ok (), c)" using Cons.prems(1) by (simp add: ensureHandshake_def)
  show ?case
    using fillAppData_runs [OF Cons.prems(2,3)]
  proof (elim disjE exE conjE)
    assume none: "c_inAppData c = []" "app_bytes rs = []" "fillAppData c = fillAppData (put_src (([], EOF), k) c)"
    let ?e = "put_src (([], EOF), k) c"
    have "fillAppData ?e = (Err (ErrIO EOF), ?e)"
      using none(1) conn_readRecord_end [of ?e] by (simp add: fillAppData.simps [of ?e])
    then show ?thesis using none ens by (simp add: tls_Read_def bindS_def)
  next
    fix rs2 s1 d
    assume d: "d \<noteq> []" "pulls rs2 s1 (([], EOF), k)" "app_phase rs2"
      "d @ app_bytes rs2 = c_inAppData c @ app_bytes rs"
      "fillAppData c = (Ok (), put_src s1 (c\<lparr>c_inAppData := d\<rparr>))"
    let ?c = "(put_src s1 (c\<lparr>c_inAppData := d\<rparr>))\<lparr>c_inAppData := drop n d\<rparr>"
    have read: "tls_Read cr rnd n c = (Ok (take n d), ?c)"
      using ens d(5) by (simp add: tls_Read_def bindS_def)
    have "length (drop n d) < length d" using d(1) Cons.prems(4) by simp
    then have less: "length (c_inAppData ?c @ app_bytes rs2) < length ns"
      using arg_cong [OF d(4), of length] Cons.prems(5) by simp
    have "read_until cr rnd ns ?c = (c_inAppData ?c @ app_bytes rs2, Err (ErrIO EOF))"
      using Cons.IH [OF _ d(3) _ _ less] d(2) Cons.prems(1,4) by simp
    then show ?thesis using read d(4) by (simp flip: d(4))
  qed
qed simp

fun tls_write_all :: "crypto \<Rightarrow> entropy \<Rightarrow> bytes list \<Rightarrow> Conn \<Rightarrow> Conn" where
  "tls_write_all cr rnd [] c = c"
| "tls_write_all cr rnd (p # ps) c = tls_write_all cr rnd ps (snd (snd (tls_Write cr rnd p c)))"

lemma wire_aead: "rk_aead (snd (wire_bytes ws k)) = rk_aead k"
proof (induction ws k rule: wire_bytes.induct)
  case (3 t p ws k)
  then show ?case
    by (cases rule: rk_Seal_cases [of t p k]) (auto split: prod.split)
qed (auto split: prod.split)

lemma write_all_runs:
  assumes "c_handshakeDone c" "c_faults c = []" "c_writeKeys c = Some k" "aead_correct (rk_aead k)"
  shows "c_out (tls_write_all cr rnd ps c) =
    c_out c @ fst (wire_bytes (app_records (concat (map chunks ps))) k)"
  using assms
proof (induction ps arbitrary: c k)
  case (Cons p ps)
  let ?k = "snd (wire_bytes (app_records (chunks p)) k)"
  let ?c = "c\<lparr>c_out := c_out c @ fst (wire_bytes (app_records (chunks p)) k), c_writeKeys := Some ?k\<rparr>"
  have "tls_Write cr rnd p c = (length p, Ok (), ?c)"
    using writeChunks_runs [OF Cons.prems(2-4), of p 0] Cons.prems(1)
    by (simp add: tls_Write_def ensureHandshake_def)
  then show ?case
    using Cons.IH [of ?c ?k] Cons.prems by (simp add: wire_aead wire_bytes_append split: prod.split)
qed simp

subsection \<open>Properties of the handshake and of application data\<close>

text \<open>
  C13: the stream survives encryption. Two connections hold the same application keys, one to write and
  one to read. Whatever is written on the first, in any pieces (empty ones and ones beyond the 16 KiB of
  a record among them), comes out of the second complete and in order, however small the buffers it is
  read with, and then the end of the stream.
\<close>
theorem application_data_roundtrip:
  assumes "c_handshakeDone a" "c_faults a = []" "c_out a = []" "c_writeKeys a = Some k"
    and "c_handshakeDone b" "c_readKeys b = Some k" "c_inAppData b = []"
    and "c_in b = (c_out (tls_write_all cr rnd ps a), EOF)"
    and "aead_correct (rk_aead k)"
    and "list_all (\<lambda>n. 0 < n) ns" "length (concat ps) < length ns"
  shows "read_until cr rnd' ns b = (concat ps, Err (ErrIO EOF))"
proof -
  let ?ws = "app_records (concat (map chunks ps))"
  have out: "c_out (tls_write_all cr rnd ps a) = fst (wire_bytes ?ws k)"
    using write_all_runs [OF assms(1,2,4,9)] assms(3) by simp
  have ok: "list_all item_ok ?ws"
    using chunks_bounds by (fastforce simp: list_all_iff content_types)
  have "pulls (map carried ?ws) (src b) (([], EOF), Some (snd (wire_bytes ?ws k)))"
    using pulls_wire [OF assms(9) ok, of "[]" EOF] assms(6,8) out by (simp add: src_def)
  moreover have "app_bytes (map carried ?ws) = concat ps"
    by (induction ps) (simp_all add: app_bytes_def concat_chunks comp_def filter_map)
  moreover have "app_phase (map carried ?ws)" by (auto simp: app_phase_def)
  ultimately show ?thesis
    using read_until_all [of b "map carried ?ws" "Some (snd (wire_bytes ?ws k))" ns] assms(5,7,10,11) by simp
qed

definition null_crypto :: crypto where
  "null_crypto = \<lparr>cr_sha256 = \<lambda>m. replicate 32 (of_nat (length m)), cr_gcm = \<lambda>_. tag_aead\<rparr>"

definition null_entropy :: entropy where
  "null_entropy = \<lparr>e_priv = Some (replicate 32 7), e_random = Some (replicate 32 1), e_sign = []\<rparr>"

definition tag_conn :: "reader \<Rightarrow> Conn" where
  "tag_conn i = (tls_Server i [] None)\<lparr>c_handshakeDone := True, c_readKeys := Some tag_keys,
     c_writeKeys := Some tag_keys\<rparr>"

theorem application_data_roundtrip_witness:
  "read_until null_crypto null_entropy [2, 1, 5, 1, 1, 1, 1, 1]
     (tag_conn (c_out (tls_write_all null_crypto null_entropy [[1, 2, 3], [], [4, 5, 6]] (tag_conn ([], EOF))), EOF))
   = ([1, 2, 3, 4, 5, 6], Err (ErrIO EOF))"
  using application_data_roundtrip [where a = "tag_conn ([], EOF)" and k = tag_keys
      and cr = null_crypto and rnd = null_entropy and rnd' = null_entropy and ps = "[[1, 2, 3], [], [4, 5, 6]]"
      and b = "tag_conn (c_out (tls_write_all null_crypto null_entropy [[1, 2, 3], [], [4, 5, 6]] (tag_conn ([], EOF))), EOF)"
      and ns = "[2, 1, 5, 1, 1, 1, 1, 1]"] tag_aead_correct
  by (simp add: tag_conn_def tls_Server_def tag_keys_def)

subsection \<open>Outcomes of the handshake\<close>

definition plan_keys :: "crypto \<Rightarrow> hs_plan \<Rightarrow> recordKeys \<Rightarrow> recordKeys \<Rightarrow> recordKeys \<Rightarrow> recordKeys \<Rightarrow> bool" where
  "plan_keys cr plan ck sk rk wk \<longleftrightarrow>
     newRecordKeysFromSecret cr (k_clientHandshakeTrafficSecret (p_schedule plan)) = Ok ck
     \<and> newRecordKeysFromSecret cr (k_serverHandshakeTrafficSecret (p_schedule plan)) = Ok sk
     \<and> newRecordKeysFromSecret cr (k_clientApplicationTrafficSecret (p_schedule plan)) = Ok rk
     \<and> newRecordKeysFromSecret cr (k_serverApplicationTrafficSecret (p_schedule plan)) = Ok wk"

lemma plan_keys_exist:
  assumes "crypto_ok cr"
  obtains ck sk rk wk where "plan_keys cr plan ck sk rk wk" "aead_correct (rk_aead ck)" "aead_correct (rk_aead sk)"
proof -
  have H: "hash_ok (cr_sha256 cr)" using assms by (simp add: crypto_ok_def)
  have k: "\<exists>r. newRecordKeysFromSecret cr s = Ok r \<and> aead_correct (rk_aead r)" for s
    using newRecordKeysFromSecret_total [OF H, of s] assms by (metis crypto_ok_def)
  show ?thesis using k that unfolding plan_keys_def by metis
qed

lemma plan_keys_rfc:
  assumes "crypto_ok cr"
  shows "plan_keys cr plan ck sk rk wk \<longleftrightarrow>
     ck = rfc_record_keys cr (k_clientHandshakeTrafficSecret (p_schedule plan))
     \<and> sk = rfc_record_keys cr (k_serverHandshakeTrafficSecret (p_schedule plan))
     \<and> rk = rfc_record_keys cr (k_clientApplicationTrafficSecret (p_schedule plan))
     \<and> wk = rfc_record_keys cr (k_serverApplicationTrafficSecret (p_schedule plan))"
  using assms by (auto simp: plan_keys_def crypto_ok_def rfc_record_keys_computed)

definition server_out :: "hs_plan \<Rightarrow> recordKeys \<Rightarrow> bytes" where
  "server_out plan sk = record_header contentTypeHandshake (length (p_serverHello plan)) @ p_serverHello plan
     @ fst (wire_bytes (server_flight plan) sk)"

lemma Handshake_refused_key:
  assumes "good_hello ch hello" "first_flight rs ch early" "keyExchange rnd hello = Err x"
  shows "fst (Handshake cr rnd (tls_Server (plain_bytes rs @ rest, e) [] (Some identity))) = Err x"
proof -
  let ?c = "tls_Server (plain_bytes rs @ rest, e) [] (Some identity)"
  have "pulls rs (src ?c) ((rest, e), None)"
    using pulls_plain [of rs rest e] assms(2) by (simp add: first_flight_def tls_Server_def src_def)
  then have "readHandshakeMessage ?c = (Ok ch, put_src ((rest, e), None) (?c\<lparr>c_hsBuf := early\<rparr>))"
    using assms(1,2) by (intro readHandshakeMessage_exact) (auto simp: first_flight_def tls_Server_def good_hello_def)
  then have "receiveClientHello ?c = (Ok (t_update ch newTranscript, hello),
      put_src ((rest, e), None) (?c\<lparr>c_hsBuf := early\<rparr>))"
    unfolding receiveClientHello_Ok using assms(1) by (simp add: good_hello_def)
  moreover have idy: "c_identity ?c = Some identity" by (simp add: tls_Server_def)
  ultimately have "fst (runHandshake cr rnd ?c) = Err x"
    using assms(3) idy by (simp add: runHandshake_def bindS_def liftR_def)
  moreover have "\<not> c_handshakeDone ?c" "c_handshakeErr ?c = None" by (simp_all add: tls_Server_def)
  ultimately show ?thesis by (cases "runHandshake cr rnd ?c") (simp add: Handshake_def)
qed

lemma Handshake_outcome:
  assumes "crypto_ok cr" "server_ok rnd identity" "good_hello ch hello" "first_flight rs ch early"
    and "\<And>plan. hs_reference cr rnd identity ch hello = Ok plan \<Longrightarrow>
      second_flight (answer plan) early (fin plan) \<and> framed_message (fin plan)"
  shows "case keyExchange rnd hello of
      Ok _ \<Rightarrow> \<exists>plan ck sk rk wk r c'. hs_reference cr rnd identity ch hello = Ok plan
        \<and> plan_keys cr plan ck sk rk wk
        \<and> Handshake cr rnd (tls_Server (plain_bytes rs @ fst (wire_bytes (answer plan) ck) @ rest, e) []
             (Some identity)) = (r, c')
        \<and> (r = Ok () \<longleftrightarrow> fin plan = p_clientFinished plan) \<and> (c_handshakeDone c' \<longleftrightarrow> r = Ok ())
        \<and> c_in c' = (rest, e) \<and> c_out c' = server_out plan sk
        \<and> (fin plan = p_clientFinished plan \<longrightarrow>
             c_readKeys c' = Some rk \<and> c_writeKeys c' = Some wk \<and> c_hsBuf c' = [] \<and> c_inAppData c' = [])
        \<and> (fin plan \<noteq> p_clientFinished plan \<longrightarrow>
             r = Err (ErrText (if fin plan ! 0 \<noteq> handshakeTypeFinished then ''expected client Finished''
                               else ''client Finished verify_data mismatch'')))
    | Err x \<Rightarrow> fst (Handshake cr rnd (tls_Server (plain_bytes rs @ rest, e) [] (Some identity))) = Err x
    | Panic \<Rightarrow> False"
  using assms(2)
proof (cases rule: keyExchange_cases [of rnd identity hello])
  case (1 pub shared)
  have hello: "framed_message ch" "ch ! 0 = handshakeTypeClientHello" "parseClientHello (drop 4 ch) = Ok hello"
      "validateClientHello hello = Ok ()"
    using assms(3) by (simp_all add: good_hello_def)
  obtain plan where plan: "hs_reference cr rnd identity ch hello = Ok plan" "plan_fits plan"
    using hs_reference_total [OF assms(1,2) hello_session_id [OF hello(3)] 1] by blast
  obtain ck sk rk wk where keys: "plan_keys cr plan ck sk rk wk" "aead_correct (rk_aead ck)" "aead_correct (rk_aead sk)"
    by (rule plan_keys_exist [OF assms(1)])
  let ?c = "tls_Server (plain_bytes rs @ fst (wire_bytes (answer plan) ck) @ rest, e) [] (Some identity)"
  have k: "newRecordKeysFromSecret cr (k_clientHandshakeTrafficSecret (p_schedule plan)) = Ok ck"
    "newRecordKeysFromSecret cr (k_serverHandshakeTrafficSecret (p_schedule plan)) = Ok sk"
    "newRecordKeysFromSecret cr (k_clientApplicationTrafficSecret (p_schedule plan)) = Ok rk"
    "newRecordKeysFromSecret cr (k_serverApplicationTrafficSecret (p_schedule plan)) = Ok wk"
    using keys(1) by (simp_all add: plan_keys_def)
  have sf: "second_flight (answer plan) early (fin plan)" "framed_message (fin plan)"
    using assms(5) [OF plan(1)] by simp_all
  note run = runHandshake_decides_lemma [OF hello plan k keys(2,3) assms(4) sf, of rest e]
  obtain r c' where h: "Handshake cr rnd ?c = (r, c')" by (cases "Handshake cr rnd ?c")
  have fresh: "\<not> c_handshakeDone ?c" "c_handshakeErr ?c = None" by (simp_all add: tls_Server_def)
  have "(r = Ok () \<longleftrightarrow> fin plan = p_clientFinished plan) \<and> (c_handshakeDone c' \<longleftrightarrow> r = Ok ())
        \<and> c_in c' = (rest, e) \<and> c_out c' = server_out plan sk
        \<and> (fin plan = p_clientFinished plan \<longrightarrow>
             c_readKeys c' = Some rk \<and> c_writeKeys c' = Some wk \<and> c_hsBuf c' = [] \<and> c_inAppData c' = [])
        \<and> (fin plan \<noteq> p_clientFinished plan \<longrightarrow>
             r = Err (ErrText (if fin plan ! 0 \<noteq> handshakeTypeFinished then ''expected client Finished''
                               else ''client Finished verify_data mismatch'')))"
    using h run fresh by (auto simp: Handshake_def tls_Server_def server_out_def split: if_splits)
  then have "hs_reference cr rnd identity ch hello = Ok plan \<and> plan_keys cr plan ck sk rk wk
      \<and> Handshake cr rnd ?c = (r, c')
      \<and> (r = Ok () \<longleftrightarrow> fin plan = p_clientFinished plan) \<and> (c_handshakeDone c' \<longleftrightarrow> r = Ok ())
      \<and> c_in c' = (rest, e) \<and> c_out c' = server_out plan sk
      \<and> (fin plan = p_clientFinished plan \<longrightarrow>
           c_readKeys c' = Some rk \<and> c_writeKeys c' = Some wk \<and> c_hsBuf c' = [] \<and> c_inAppData c' = [])
      \<and> (fin plan \<noteq> p_clientFinished plan \<longrightarrow>
           r = Err (ErrText (if fin plan ! 0 \<noteq> handshakeTypeFinished then ''expected client Finished''
                             else ''client Finished verify_data mismatch'')))"
    using plan(1) keys(1) h by blast
  then show ?thesis unfolding 1(1) res.case by (intro exI)
next
  case 2
  then show ?thesis using Handshake_refused_key [OF assms(3,4)] by simp
qed

lemma reference_clientFinished:
  assumes "crypto_ok cr" "hs_reference cr rnd identity ch hello = Ok plan"
  obtains v where "p_clientFinished plan = [20, 0, 0, 32] @ v" "length v = 32"
proof -
  have H: "hash_ok (cr_sha256 cr)" using assms(1) by (simp add: crypto_ok_def)
  obtain s th v where v: "verifyData (cr_sha256 cr) s th = Ok v"
      "marshalHandshake handshakeTypeFinished v = Ok (p_clientFinished plan)"
    using assms(2) by (auto simp: hs_reference_def Let_def rbind_eq_Ok)
  have "length v = 32" using verifyData_total [OF H, of s th] v(1) by (metis res.inject(1))
  then show ?thesis
    using that [of v] v(2) by (auto simp: marshalHandshake_small handshake_types u24_bytes_def)
qed

lemma finished_flight:
  assumes "p_clientFinished plan = [20, 0, 0, 32] @ v" "length v = 32"
  shows "second_flight [Protected contentTypeHandshake (p_clientFinished plan)] [] (p_clientFinished plan)"
    "second_flight [Bare contentTypeChangeCipherSpec [1], Protected contentTypeHandshake (p_clientFinished plan)] []
       (p_clientFinished plan)"
    "second_flight [Protected contentTypeHandshake v] [20, 0, 0, 32] (p_clientFinished plan)"
    "framed_message (p_clientFinished plan)"
  using assms
  by (simp_all add: second_flight_def handshake_records_def handshake_bytes_def content_types
      maxPlaintextLength_def maxCiphertextLength_def framed_message_def handshakeHeaderLen_def u24_of_def)

text \<open>
  C9: the handshake ends in success for exactly the right client. Let the ClientHello be acceptable and
  arrive in any fragmentation, and let the client answer with the handshake message \<open>fin\<close>, sealed under
  its handshake keys in any records, with ChangeCipherSpec records between them. If X25519 refuses the
  client's share, \<^verbatim>\<open>Handshake\<close> returns that error. Otherwise the server sends, byte for byte, the messages of
  RFC 8446, sealed under the server handshake keys of RFC 8446, and \<^verbatim>\<open>Handshake\<close> succeeds if and only if
  \<open>fin\<close> is the Finished message of RFC 8446: the HMAC, under the finished key expanded from the client's
  handshake secret, of the hash of all messages so far. Then the connection holds the application keys of
  RFC 8446 for both directions, nothing is left over, and what follows on the wire is untouched. Any
  other \<open>fin\<close> is answered with the error that says what was wrong. All secrets, keys, labels, messages and
  the HMAC are those of theory \<open>Rfc8446\<close>, which uses no function of the code's key schedule or encoders.
\<close>
theorem handshake_succeeds_for_exactly_the_right_Finished:
  assumes "crypto_ok cr" "server_ok rnd identity" "e_priv rnd = Some priv"
    and "good_hello ch hello" "first_flight rs ch []" "second_flight ws [] fin" "framed_message fin"
  shows "case x25519 priv (findKeyShare hello 0x1D) of
      Ok dhe \<Rightarrow>
       (let plan = rfc_plan cr rnd identity ch (ch_legacySessionID hello) (x25519Base priv) dhe;
            ck = rfc_record_keys cr (k_clientHandshakeTrafficSecret (p_schedule plan));
            sk = rfc_record_keys cr (k_serverHandshakeTrafficSecret (p_schedule plan));
            rk = rfc_record_keys cr (k_clientApplicationTrafficSecret (p_schedule plan));
            wk = rfc_record_keys cr (k_serverApplicationTrafficSecret (p_schedule plan)) in
        \<exists>r c'. Handshake cr rnd (tls_Server (plain_bytes rs @ fst (wire_bytes ws ck) @ rest, e) []
             (Some identity)) = (r, c')
        \<and> (r = Ok () \<longleftrightarrow> fin = p_clientFinished plan) \<and> (c_handshakeDone c' \<longleftrightarrow> r = Ok ())
        \<and> c_in c' = (rest, e) \<and> c_out c' = server_out plan sk
        \<and> (fin = p_clientFinished plan \<longrightarrow>
             c_readKeys c' = Some rk \<and> c_writeKeys c' = Some wk \<and> c_hsBuf c' = [] \<and> c_inAppData c' = [])
        \<and> (fin \<noteq> p_clientFinished plan \<longrightarrow>
             r = Err (ErrText (if fin ! 0 \<noteq> 20 then ''expected client Finished''
                               else ''client Finished verify_data mismatch''))))
    | Err x \<Rightarrow> fst (Handshake cr rnd (tls_Server (plain_bytes rs @ rest, e) [] (Some identity))) =
        Err (ErrWrap ''x25519 ECDHE'' x)
    | Panic \<Rightarrow> False"
proof -
  have share: "take 32 (findKeyShare hello namedGroupX25519 @ replicate 32 0) = findKeyShare hello 0x1D"
    using assms(4) by (auto simp: good_hello_def validateClientHello_def Let_def namedGroupX25519_def split: if_splits)
  have kx: "keyExchange rnd hello = rbind (rwrap (ErrWrap ''x25519 ECDHE'') (x25519 priv (findKeyShare hello 0x1D)))
      (\<lambda>dhe. Ok (x25519Base priv, dhe))"
    unfolding keyExchange_def Let_def share by (simp add: rand_Read_def assms(3))
  have flight: "second_flight ((\<lambda>_. ws) p) [] ((\<lambda>_. fin) p) \<and> framed_message ((\<lambda>_. fin) p)" for p :: hs_plan
    using assms(6,7) by simp
  note outcome = Handshake_outcome [OF assms(1,2,4,5) flight, of rest e]
  show ?thesis
  proof (cases "x25519 priv (findKeyShare hello 0x1D)")
    case (Ok dhe)
    then have k: "keyExchange rnd hello = Ok (x25519Base priv, dhe)" by (simp add: kx)
    have "length (x25519Base priv) = 32"
      using assms(2) k by (cases rule: keyExchange_cases [of rnd identity hello]) auto
    from hs_reference_is_rfc8446 [OF assms(1,2) hello_session_id k this]
    have ref: "hs_reference cr rnd identity ch hello =
        Ok (rfc_plan cr rnd identity ch (ch_legacySessionID hello) (x25519Base priv) dhe)"
      using assms(4) unfolding good_hello_def by blast
    show ?thesis
      using outcome unfolding Ok k res.case ref plan_keys_rfc [OF assms(1)] Let_def
      by (auto simp: handshake_types)
  next
    case (Err x)
    then show ?thesis using outcome by (simp add: kx)
  next
    case Panic
    then show ?thesis using outcome by (simp add: kx)
  qed
qed

text \<open>A concrete client and server for the witnesses.\<close>

definition demo_exts :: "hello_ext list" where
  "demo_exts = [SupportedVersions [0x0304], SupportedGroups [0x1D], SignatureAlgorithms [0x0403],
     KeyShares [\<lparr>ks_group = 0x1D, ks_keyExchange = replicate 32 9\<rparr>]]"

definition demo_body :: bytes where
  "demo_body = hello_bytes 0x0303 (replicate 32 1) [] [0x1301] (map ext_code demo_exts)"

definition demo_ch :: bytes where
  "demo_ch = handshakeTypeClientHello # u24_bytes (length demo_body) @ demo_body"

definition demo_hello :: clientHello where
  "demo_hello = (hello_base 0x0303 (replicate 32 1) [] [0x1301])\<lparr>ch_supportedVersions := [0x0304],
     ch_supportedGroups := [0x1D], ch_signatureAlgorithms := [0x0403],
     ch_keyShares := [\<lparr>ks_group = 0x1D, ks_keyExchange = replicate 32 9\<rparr>]\<rparr>"

definition demo_identity :: ServerIdentity where
  "demo_identity = \<lparr>si_certDER = [48, 0], si_priv = \<lambda>r d. Some [7, 7]\<rparr>"

lemma demo_parse: "parseClientHello demo_body = Ok demo_hello"
proof -
  have ks: "parseClientKeyShareExtension (vec16 (share_bytes \<lparr>ks_group = 0x1D, ks_keyExchange = replicate 32 9\<rparr>)) =
      Ok [\<lparr>ks_group = 0x1D, ks_keyExchange = replicate 32 9\<rparr>]"
    using parseClientKeyShare_shares [of "[\<lparr>ks_group = 0x1D, ks_keyExchange = replicate 32 9\<rparr>]"]
    by (simp add: share_bytes_def)
  show ?thesis
    unfolding demo_body_def
    by (subst parseClientHello_reads)
      (simp_all add: demo_exts_def hello_fits_def framed_extensions_def share_bytes_def apply_extension_def
        ext_types parseSupportedVersions_vec8 parseU16Vector_2 ks [unfolded share_bytes_def, simplified]
        demo_hello_def hello_base_def)
qed

lemma length_demo_body: "length demo_body \<le> 1000"
  by (simp add: demo_body_def hello_bytes_def demo_exts_def share_bytes_def)

lemma demo_good: "good_hello demo_ch demo_hello"
proof -
  have "marshalHandshake handshakeTypeClientHello demo_body = Ok demo_ch"
    using length_demo_body by (simp add: demo_ch_def marshalHandshake_small)
  moreover have "drop 4 demo_ch = demo_body" by (simp add: demo_ch_def u24_bytes_def)
  moreover have "validateClientHello demo_hello = Ok ()"
    by (simp add: validateClientHello_def demo_hello_def hello_base_def tls13Version_def
        cipherTLSAES128GCMSHA256_def namedGroupX25519_def sigSchemeECDSAP256SHA256_def findKeyShare_def Let_def)
  ultimately show ?thesis
    using framed_marshal demo_parse by (auto simp: good_hello_def demo_ch_def)
qed

lemma demo_env: "crypto_ok null_crypto" "server_ok null_entropy demo_identity"
  by (simp_all add: crypto_ok_def null_crypto_def hash_ok_def hashLen_def tag_aead_correct server_ok_def
      null_entropy_def demo_identity_def)

lemma demo_flight: "length early \<le> 4 \<Longrightarrow> first_flight [(contentTypeHandshake, demo_ch @ early)] demo_ch early"
  using length_demo_body
  by (simp add: first_flight_def handshake_records_def handshake_bytes_def maxCiphertextLength_def demo_ch_def)

theorem handshake_succeeds_for_exactly_the_right_Finished_witness:
  "case x25519 (replicate 32 7) (replicate 32 9) of
      Ok dhe \<Rightarrow>
       (let plan = rfc_plan null_crypto null_entropy demo_identity demo_ch [] (x25519Base (replicate 32 7)) dhe;
            ck = rfc_record_keys null_crypto (k_clientHandshakeTrafficSecret (p_schedule plan));
            start = (\<lambda>fin. tls_Server (plain_bytes [(contentTypeHandshake, demo_ch @ [])] @
              fst (wire_bytes [Protected contentTypeHandshake fin] ck) @ [], EOF) [] (Some demo_identity)) in
        (\<exists>c'. Handshake null_crypto null_entropy (start (p_clientFinished plan)) = (Ok (), c') \<and> c_handshakeDone c'
           \<and> c_readKeys c' = Some (rfc_record_keys null_crypto (k_clientApplicationTrafficSecret (p_schedule plan))))
        \<and> fst (Handshake null_crypto null_entropy (start [20, 0, 0, 0])) =
            Err (ErrText ''client Finished verify_data mismatch''))
    | Err x \<Rightarrow> fst (Handshake null_crypto null_entropy (tls_Server
          (plain_bytes [(contentTypeHandshake, demo_ch @ [])] @ [], EOF) [] (Some demo_identity))) =
        Err (ErrWrap ''x25519 ECDHE'' x)
    | Panic \<Rightarrow> False"
proof -
  have share: "findKeyShare demo_hello 0x1D = replicate 32 9" and sid: "ch_legacySessionID demo_hello = []"
    by (simp_all add: demo_hello_def hello_base_def findKeyShare_def)
  have priv: "e_priv null_entropy = Some (replicate 32 7)" by (simp add: null_entropy_def)
  have H: "hash_ok (cr_sha256 null_crypto)" using demo_env(1) by (simp add: crypto_ok_def)
  have ff: "first_flight [(contentTypeHandshake, demo_ch @ [])] demo_ch []" by (rule demo_flight) simp
  note run = handshake_succeeds_for_exactly_the_right_Finished
    [where e = EOF and rest = "[]", OF demo_env priv demo_good ff, unfolded share sid]
  have bad: "second_flight [Protected contentTypeHandshake [20, 0, 0, 0]] [] [20, 0, 0, 0]"
      "framed_message [20, 0, 0, 0]"
    by (simp_all add: second_flight_def handshake_records_def handshake_bytes_def content_types
        maxPlaintextLength_def maxCiphertextLength_def framed_message_def handshakeHeaderLen_def u24_of_def)
  show ?thesis
  proof (cases "x25519 (replicate 32 7) (replicate 32 9)")
    case (Ok dhe)
    define plan where "plan = rfc_plan null_crypto null_entropy demo_identity demo_ch [] (x25519Base (replicate 32 7)) dhe"
    obtain v where v: "p_clientFinished plan = [20, 0, 0, 32] @ v" "length v = 32"
      using length_rfc_verify_data [OF H]
      by (simp add: plan_def rfc_plan_def Let_def rfc_Finished_def rfc_handshake_def rfc_opaque_def rfc_uint_3
          u24_bytes_def)
    have ne: "[20, 0, 0, 0] \<noteq> p_clientFinished plan" using v(2) unfolding v(1) by auto
    have good: "\<exists>c'. Handshake null_crypto null_entropy (tls_Server (plain_bytes [(contentTypeHandshake, demo_ch @ [])] @
        fst (wire_bytes [Protected contentTypeHandshake (p_clientFinished plan)]
          (rfc_record_keys null_crypto (k_clientHandshakeTrafficSecret (p_schedule plan)))) @ [], EOF) [] (Some demo_identity))
        = (Ok (), c') \<and> c_handshakeDone c'
        \<and> c_readKeys c' = Some (rfc_record_keys null_crypto (k_clientApplicationTrafficSecret (p_schedule plan)))"
      using run [OF finished_flight(1,4) [OF v]] unfolding Ok res.case plan_def [symmetric] Let_def by auto
    have refused: "fst (Handshake null_crypto null_entropy (tls_Server (plain_bytes [(contentTypeHandshake, demo_ch @ [])] @
        fst (wire_bytes [Protected contentTypeHandshake [20, 0, 0, 0]]
          (rfc_record_keys null_crypto (k_clientHandshakeTrafficSecret (p_schedule plan)))) @ [], EOF) [] (Some demo_identity)))
        = Err (ErrText ''client Finished verify_data mismatch'')"
      using run [OF bad] ne unfolding Ok res.case plan_def [symmetric] Let_def by auto
    show ?thesis
      unfolding Ok res.case plan_def [symmetric] Let_def using good refused by (rule conjI)
  next
    case (Err x)
    show ?thesis using run [OF bad] unfolding Err res.case .
  next
    case Panic
    show ?thesis using run [OF bad] unfolding Panic res.case .
  qed
qed

text \<open>
  C39: a handshake message may straddle the change of keys (a defect: RFC 8446, section 5.1, requires the
  record boundary to coincide with the key change). \<^verbatim>\<open>readHandshakeMessage\<close> keeps the bytes beyond the
  ClientHello in \<^verbatim>\<open>hsBuf\<close> and nothing empties or checks it when the handshake keys are installed. So a client
  that puts the four bytes of the Finished header, in the clear, behind its ClientHello, and only the 32 bytes
  of verify data in an encrypted record, completes the handshake: the plaintext bytes and the decrypted bytes
  are joined into one message.
\<close>
theorem finished_split_across_key_change_accepted:
  assumes "crypto_ok cr" "server_ok rnd identity" "good_hello ch hello" "first_flight rs ch [20, 0, 0, 32]"
  shows "case keyExchange rnd hello of
      Ok _ \<Rightarrow> \<exists>plan ck c'. hs_reference cr rnd identity ch hello = Ok plan
        \<and> newRecordKeysFromSecret cr (k_clientHandshakeTrafficSecret (p_schedule plan)) = Ok ck
        \<and> Handshake cr rnd (tls_Server (plain_bytes rs @
             fst (wire_bytes [Protected contentTypeHandshake (drop 4 (p_clientFinished plan))] ck) @ rest, e) []
             (Some identity)) = (Ok (), c')
        \<and> c_handshakeDone c' \<and> c_in c' = (rest, e)
    | Err x \<Rightarrow> x = ErrWrap ''x25519 ECDHE'' ErrZeroSharedSecret
    | Panic \<Rightarrow> False"
  using assms(2)
proof (cases rule: keyExchange_cases [of rnd identity hello])
  case (1 pub shared)
  have flight: "second_flight [Protected contentTypeHandshake (drop 4 (p_clientFinished plan))] [20, 0, 0, 32]
      (p_clientFinished plan) \<and> framed_message (p_clientFinished plan)"
    if "hs_reference cr rnd identity ch hello = Ok plan" for plan
  proof (rule reference_clientFinished [OF assms(1) that])
    fix v assume v: "p_clientFinished plan = [20, 0, 0, 32] @ v" "length v = 32"
    then have "drop 4 (p_clientFinished plan) = v" by simp
    then show ?thesis using conjI [OF finished_flight(3,4) [OF v]] by (simp only:)
  qed
  obtain plan ck sk rk wk r c' where run: "hs_reference cr rnd identity ch hello = Ok plan"
      "plan_keys cr plan ck sk rk wk"
      "Handshake cr rnd (tls_Server (plain_bytes rs @
         fst (wire_bytes [Protected contentTypeHandshake (drop 4 (p_clientFinished plan))] ck) @ rest, e) []
         (Some identity)) = (r, c')"
      "r = Ok () \<longleftrightarrow> p_clientFinished plan = p_clientFinished plan" "c_handshakeDone c' \<longleftrightarrow> r = Ok ()"
      "c_in c' = (rest, e)"
    using Handshake_outcome [where rest = rest and e = e and fin = p_clientFinished
        and answer = "\<lambda>plan. [Protected contentTypeHandshake (drop 4 (p_clientFinished plan))]", OF assms]
    unfolding 1(1) res.case
    by - (drule meta_mp, erule flight, elim exE conjE, rule that, assumption+)
  have ok: "r = Ok ()" using run(4) by (simp only:)
  then show ?thesis unfolding 1(1) res.case
    using run(1-3,5,6) unfolding plan_keys_def ok by (intro exI conjI) (assumption | simp only:)+
next
  case 2
  then show ?thesis by simp
qed

theorem finished_split_across_key_change_accepted_witness:
  "case keyExchange null_entropy demo_hello of
      Ok _ \<Rightarrow> \<exists>plan ck c'. hs_reference null_crypto null_entropy demo_identity demo_ch demo_hello = Ok plan
        \<and> newRecordKeysFromSecret null_crypto (k_clientHandshakeTrafficSecret (p_schedule plan)) = Ok ck
        \<and> Handshake null_crypto null_entropy (tls_Server
             (plain_bytes [(contentTypeHandshake, demo_ch @ [20, 0, 0, 32])] @
             fst (wire_bytes [Protected contentTypeHandshake (drop 4 (p_clientFinished plan))] ck) @ [], EOF) []
             (Some demo_identity)) = (Ok (), c')
        \<and> c_handshakeDone c' \<and> c_in c' = ([], EOF)
    | Err x \<Rightarrow> x = ErrWrap ''x25519 ECDHE'' ErrZeroSharedSecret
    | Panic \<Rightarrow> False"
proof -
  have "length [20, 0, 0, 32 :: byte] \<le> 4" by simp
  from finished_split_across_key_change_accepted [OF demo_env demo_good demo_flight [OF this]]
  show ?thesis .
qed

text \<open>
  C15: no peer can crash a TLS connection, and the connection's invariant holds throughout: whatever bytes
  arrive, in whatever state, and however the socket fails, \<^verbatim>\<open>Handshake\<close>, \<^verbatim>\<open>Read\<close> and \<^verbatim>\<open>Write\<close> return and
  never panic, provided the digests are 32 bytes long and the certificate and its signature fit their length
  fields. Afterwards a connection whose handshake is done still has keys for both directions, and \<^verbatim>\<open>Write\<close>
  never claims more than it was given.
\<close>
theorem tls_never_panics:
  assumes "tls_env cr rnd c" "tls_inv c"
  shows "fst (Handshake cr rnd c) \<noteq> Panic \<and> tls_inv (snd (Handshake cr rnd c))
    \<and> fst (tls_Read cr rnd n c) \<noteq> Panic \<and> tls_inv (snd (tls_Read cr rnd n c))
    \<and> (case tls_Write cr rnd p c of (m, r, c') \<Rightarrow> r \<noteq> Panic \<and> tls_inv c' \<and> m \<le> length p)"
proof -
  obtain r c1 where h: "Handshake cr rnd c = (r, c1)" by (cases "Handshake cr rnd c")
  note hs = Handshake_safe [OF assms h]
  have ens: "ensureHandshake cr rnd c = (r, c1)" using h by (auto simp: ensureHandshake_def Handshake_def)
  have rd: "fst (tls_Read cr rnd n c) \<noteq> Panic \<and> tls_inv (snd (tls_Read cr rnd n c))"
    using hs fillAppData_safe [of c1] ens
    by (auto simp: tls_Read_def bindS_def tls_inv_def split: prod.split res.split)
  have wr: "case tls_Write cr rnd p c of (m, r, c') \<Rightarrow> r \<noteq> Panic \<and> tls_inv c' \<and> m \<le> length p"
  proof (cases r)
    case (Ok u)
    then have keys: "c_writeKeys c1 \<noteq> None" "tls_inv c1" using hs by (simp_all add: tls_inv_def)
    obtain m r2 c2 where w: "writeChunks p 0 c1 = (m, r2, c2)" by (cases "writeChunks p 0 c1")
    show ?thesis
      using writeChunks_safe [OF keys(1) w] keys(2) w ens Ok by (simp add: tls_Write_def tls_inv_def)
  qed (use hs ens in \<open>auto simp: tls_Write_def\<close>)
  show ?thesis using hs h rd wr by simp
qed

theorem tls_never_panics_witness:
  "fst (tls_Read null_crypto null_entropy 5 (tls_Server ([22, 3, 3, 0, 4, 1, 0, 0, 0], EOF) [] (Some demo_identity))) \<noteq> Panic"
  using tls_never_panics [where cr = null_crypto and rnd = null_entropy and n = 5
      and c = "tls_Server ([22, 3, 3, 0, 4, 1, 0, 0, 0], EOF) [] (Some demo_identity)"]
  by (simp add: tls_env_def tls_inv_def tls_Server_def null_crypto_def null_entropy_def demo_identity_def
      hash_ok_def hashLen_def)

text \<open>
  A failed handshake is final. Once \<^verbatim>\<open>Handshake\<close> has returned an error, every later \<^verbatim>\<open>Handshake\<close>, \<^verbatim>\<open>Read\<close>
  and \<^verbatim>\<open>Write\<close> returns the same error at once: no further byte is taken from the socket or sent, and no
  application data is handed out or accepted.
\<close>
theorem failed_handshake_is_final:
  assumes "tls_env cr rnd c" "Handshake cr rnd c = (Err e, c')"
  shows "Handshake cr' rnd' c' = (Err e, c') \<and> tls_Read cr' rnd' n c' = (Err e, c')
    \<and> tls_Write cr' rnd' p c' = (0, Err e, c')"
proof -
  have "\<not> c_handshakeDone c' \<and> c_handshakeErr c' = Some e"
    using assms(2)
  proof (cases rule: Handshake_cases)
    case (4 e' c1)
    then show ?thesis using safe_runHandshake [OF assms(1) 4(3)] by simp
  qed (use safe_runHandshake [OF assms(1)] in auto)
  then show ?thesis
    by (simp add: Handshake_def tls_Read_def tls_Write_def ensureHandshake_def bindS_def)
qed

theorem failed_handshake_is_final_witness:
  "\<exists>c'. Handshake null_crypto null_entropy (tls_Server ([22, 3, 3, 0, 1, 1], EOF) [] None)
       = (Err (ErrText ''server identity not set''), c')
     \<and> tls_Read null_crypto null_entropy 5 c' = (Err (ErrText ''server identity not set''), c')"
proof -
  obtain c' where h: "Handshake null_crypto null_entropy (tls_Server ([22, 3, 3, 0, 1, 1], EOF) [] None)
       = (Err (ErrText ''server identity not set''), c')"
    by (simp add: Handshake_def runHandshake_def tls_Server_def)
  have "tls_env null_crypto null_entropy (tls_Server ([22, 3, 3, 0, 1, 1], EOF) [] None)"
    by (simp add: tls_env_def tls_Server_def null_crypto_def null_entropy_def hash_ok_def hashLen_def)
  from failed_handshake_is_final [OF this h] h show ?thesis by blast
qed

end
