(* ===== verification/Go_Crypto.thy ===== *)
theory Go_Crypto
  imports Tls_Handshake
begin

unbundle bit_operations_syntax

section \<open>The hash function and the cipher the server uses\<close>

text \<open>
  The theorems about TLS hold for any hash function with digests of 32 bytes and any AEAD that opens what it sealed
  (\<open>crypto_ok\<close>). Here are the ones \<^verbatim>\<open>crypto/sha256\<close> and \<^verbatim>\<open>crypto/aes\<close> with \<^verbatim>\<open>cipher.NewGCM\<close> implement, written out from
  FIPS 180-4, FIPS 197 and NIST SP 800-38D, with the proof that they are of this kind. That a key has 16 bytes and a nonce 12
  is checked by the code and proved in \<open>Tls_Types\<close>; the records stay far below the limit of \<open>2 ^ 36\<close> bytes of GCM.
\<close>

subsection \<open>SHA-256\<close>

definition sha_K :: "u32 list" where
  "sha_K =
   [1116352408, 1899447441, 3049323471, 3921009573, 961987163, 1508970993, 2453635748, 2870763221,
    3624381080, 310598401, 607225278, 1426881987, 1925078388, 2162078206, 2614888103, 3248222580,
    3835390401, 4022224774, 264347078, 604807628, 770255983, 1249150122, 1555081692, 1996064986,
    2554220882, 2821834349, 2952996808, 3210313671, 3336571891, 3584528711, 113926993, 338241895,
    666307205, 773529912, 1294757372, 1396182291, 1695183700, 1986661051, 2177026350, 2456956037,
    2730485921, 2820302411, 3259730800, 3345764771, 3516065817, 3600352804, 4094571909, 275423344,
    430227734, 506948616, 659060556, 883997877, 958139571, 1322822218, 1537002063, 1747873779,
    1955562222, 2024104815, 2227730452, 2361852424, 2428436474, 2756734187, 3204031479, 3329325298]"

record sha_state =
  sA :: u32  sB :: u32  sC :: u32  sD :: u32  sE :: u32  sF :: u32  sG :: u32  sH :: u32

definition sha_init :: sha_state where
  "sha_init = \<lparr>sA = 0x6a09e667, sB = 0xbb67ae85, sC = 0x3c6ef372, sD = 0xa54ff53a,
     sE = 0x510e527f, sF = 0x9b05688c, sG = 0x1f83d9ab, sH = 0x5be0cd19\<rparr>"

definition rotr :: "nat \<Rightarrow> u32 \<Rightarrow> u32" where
  "rotr n w = drop_bit n w OR push_bit (32 - n) w"

text \<open>The message schedule: the sixteen words of a block, extended to 64.\<close>

definition sha_next :: "u32 list \<Rightarrow> u32" where
  "sha_next ws = (let n = length ws; x = ws ! (n - 15); y = ws ! (n - 2) in
     ws ! (n - 16) + (rotr 7 x XOR rotr 18 x XOR drop_bit 3 x) + ws ! (n - 7)
       + (rotr 17 y XOR rotr 19 y XOR drop_bit 10 y))"

definition sha_schedule :: "bytes \<Rightarrow> u32 list" where
  "sha_schedule block =
     ((\<lambda>ws. ws @ [sha_next ws]) ^^ 48) (map (\<lambda>i. u32_of (nthz block (4 * i)) (nthz block (4 * i + 1)) (nthz block (4 * i + 2)) (nthz block (4 * i + 3))) [0..<16])"

definition sha_round :: "u32 \<times> u32 \<Rightarrow> sha_state \<Rightarrow> sha_state" where
  "sha_round kw s =
     (let e = sE s; a = sA s;
          t1 = sH s + (rotr 6 e XOR rotr 11 e XOR rotr 25 e) + ((e AND sF s) XOR (NOT e AND sG s)) + fst kw + snd kw;
          t2 = (rotr 2 a XOR rotr 13 a XOR rotr 22 a) + ((a AND sB s) XOR (a AND sC s) XOR (sB s AND sC s)) in
      \<lparr>sA = t1 + t2, sB = a, sC = sB s, sD = sC s, sE = sD s + t1, sF = e, sG = sF s, sH = sG s\<rparr>)"

definition sha_block :: "bytes \<Rightarrow> sha_state \<Rightarrow> sha_state" where
  "sha_block block s =
     (let t = fold sha_round (zip sha_K (sha_schedule block)) s in
      \<lparr>sA = sA s + sA t, sB = sB s + sB t, sC = sC s + sC t, sD = sD s + sD t,
       sE = sE s + sE t, sF = sF s + sF t, sG = sG s + sG t, sH = sH s + sH t\<rparr>)"

definition sha_pad :: "bytes \<Rightarrow> bytes" where
  "sha_pad m = m @ 0x80 # replicate ((119 - length m mod 64) mod 64) 0 @ u64_bytes (of_nat (8 * length m))"

function sha_blocks :: "bytes \<Rightarrow> bytes list" where
  "sha_blocks m = (if length m < 64 then [] else take 64 m # sha_blocks (drop 64 m))"
  by pat_completeness auto
termination by (relation "measure length") auto
declare sha_blocks.simps [simp del]

definition sha256 :: "bytes \<Rightarrow> bytes" where
  "sha256 m = (let s = fold sha_block (sha_blocks (sha_pad m)) sha_init in
     concat (map (u32_bytes) [sA s, sB s, sC s, sD s, sE s, sF s, sG s, sH s]))"

lemma length_sha256 [simp]: "length (sha256 m) = 32"
  by (simp add: sha256_def Let_def)

subsection \<open>AES-128\<close>

text \<open>The field of 256 elements, and the substitution of a byte: its inverse, then an affine map.\<close>

definition xtime :: "byte \<Rightarrow> byte" where
  "xtime b = push_bit 1 b XOR (if bit b 7 then 0x1b else 0)"

definition gf_mul :: "byte \<Rightarrow> byte \<Rightarrow> byte" where
  "gf_mul a b = snd (fold (\<lambda>i (x, acc). (xtime x, if bit b i then acc XOR x else acc)) [0..<8] (a, 0))"

definition gf_inverse :: "byte \<Rightarrow> byte" where
  "gf_inverse b = (gf_mul b ^^ 254) 1"

definition rotl_byte :: "nat \<Rightarrow> byte \<Rightarrow> byte" where
  "rotl_byte n b = push_bit n b OR drop_bit (8 - n) b"

definition sub_byte :: "byte \<Rightarrow> byte" where
  "sub_byte b = (let x = gf_inverse b in
     x XOR rotl_byte 1 x XOR rotl_byte 2 x XOR rotl_byte 3 x XOR rotl_byte 4 x XOR 0x63)"

text \<open>A block, or the state of the cipher, is 16 bytes, column by column.\<close>

definition block_xor :: "bytes \<Rightarrow> bytes \<Rightarrow> bytes" where
  "block_xor a b = map (\<lambda>i. nthz a i XOR nthz b i) [0..<16]"

definition shift_rows :: "bytes \<Rightarrow> bytes" where
  "shift_rows s = map (\<lambda>i. nthz s ((i + 4 * (i mod 4)) mod 16)) [0..<16]"

definition mix_columns :: "bytes \<Rightarrow> bytes" where
  "mix_columns s = map (\<lambda>i. let c = 4 * (i div 4); a = (\<lambda>k. nthz s (c + (i + k) mod 4)) in
     gf_mul 2 (a 0) XOR gf_mul 3 (a 1) XOR a 2 XOR a 3) [0..<16]"

text \<open>The key schedule: each round key from the one before.\<close>

definition next_round_key :: "byte \<Rightarrow> bytes \<Rightarrow> bytes" where
  "next_round_key rcon k =
     (let t = map (\<lambda>i. sub_byte (nthz k (12 + (i + 1) mod 4)) XOR (if i = 0 then rcon else 0)) [0..<4] in
      map (\<lambda>i. nthz t (i mod 4) XOR fold (\<lambda>j x. x XOR nthz k (4 * j + i mod 4)) [0..<Suc (i div 4)] 0) [0..<16])"

fun aes_rounds :: "nat \<Rightarrow> byte \<Rightarrow> bytes \<Rightarrow> bytes \<Rightarrow> bytes" where
  "aes_rounds 0 rcon k s = block_xor (shift_rows (map sub_byte s)) (next_round_key rcon k)"
| "aes_rounds (Suc n) rcon k s =
     (let k' = next_round_key rcon k in
      aes_rounds n (xtime rcon) k' (block_xor (mix_columns (shift_rows (map sub_byte s))) k'))"

definition aes128 :: "bytes \<Rightarrow> bytes \<Rightarrow> bytes" where
  "aes128 key block = aes_rounds 9 1 key (block_xor block key)"

lemma length_aes_rounds [simp]: "length (aes_rounds n rcon k s) = 16"
  by (induction n rcon k s rule: aes_rounds.induct) (simp_all add: block_xor_def Let_def)

lemma length_aes128 [simp]: "length (aes128 key block) = 16"
  by (simp add: aes128_def)

subsection \<open>Counter mode with a tag\<close>

text \<open>
  An AEAD from a key stream, which depends on the nonce, and a tag of the ciphertext. Whatever these two are, what is sealed
  opens, and nothing else does.
\<close>

definition ctr_aead :: "(bytes \<Rightarrow> nat \<Rightarrow> bytes) \<Rightarrow> (bytes \<Rightarrow> bytes \<Rightarrow> bytes \<Rightarrow> bytes) \<Rightarrow> aead" where
  "ctr_aead keystream tag = \<lparr>aead_Overhead = 16,
     aead_Seal = \<lambda>n p d. (let c = map2 (XOR) p (keystream n (length p)) in c @ tag n d c),
     aead_Open = \<lambda>n c d. (let k = length c - 16; body = take k c in
       if length c < 16 \<or> drop k c \<noteq> tag n d body then None else Some (map2 (XOR) body (keystream n k)))\<rparr>"

lemma xor_twice: "length k = length p \<Longrightarrow> map2 (XOR) (map2 (XOR) p k) k = (p :: bytes)"
  by (induction p k rule: list_induct2') (simp_all add: xor.assoc)

locale ctr_mode =
  fixes keystream :: "bytes \<Rightarrow> nat \<Rightarrow> bytes" and tag :: "bytes \<Rightarrow> bytes \<Rightarrow> bytes \<Rightarrow> bytes"
  assumes length_keystream: "length (keystream n k) = k"
    and length_tag: "length (tag n d c) = 16"
begin

lemma length_Seal: "length (aead_Seal (ctr_aead keystream tag) n p d) = length p + 16"
  by (simp add: ctr_aead_def Let_def length_keystream length_tag)

lemma Open_Seal: "aead_Open (ctr_aead keystream tag) n (aead_Seal (ctr_aead keystream tag) n p d) d = Some p"
  by (simp add: ctr_aead_def Let_def length_keystream length_tag xor_twice)

lemma Open_iff_Seal:
  "aead_Open (ctr_aead keystream tag) n c d = Some p \<longleftrightarrow> c = aead_Seal (ctr_aead keystream tag) n p d"
proof
  assume o: "aead_Open (ctr_aead keystream tag) n c d = Some p"
  let ?k = "length c - 16"
  let ?body = "take ?k c"
  have c: "drop ?k c = tag n d ?body" "p = map2 (XOR) ?body (keystream n ?k)"
    using o by (simp_all add: ctr_aead_def Let_def split: if_splits)
  have len: "length ?body = ?k" by simp
  then have p: "length p = ?k" "map2 (XOR) p (keystream n ?k) = ?body"
    unfolding c(2) using xor_twice [of "keystream n ?k" ?body] by (simp_all add: length_keystream)
  have "c = ?body @ tag n d ?body" using c(1) by (metis append_take_drop_id)
  then show "c = aead_Seal (ctr_aead keystream tag) n p d"
    using p by (simp add: ctr_aead_def Let_def)
next
  assume "c = aead_Seal (ctr_aead keystream tag) n p d"
  then show "aead_Open (ctr_aead keystream tag) n c d = Some p" by (simp add: Open_Seal)
qed

lemma correct: "aead_correct (ctr_aead keystream tag)"
  by (simp add: aead_correct_def Open_Seal length_Seal) (simp add: ctr_aead_def aeadOverhead_def)

end

subsection \<open>GCM\<close>

definition word_of_bytes :: "bytes \<Rightarrow> 128 word" where
  "word_of_bytes bs = foldl (\<lambda>w b. push_bit 8 w OR ucast b) 0 bs"

definition bytes_of_word :: "128 word \<Rightarrow> bytes" where
  "bytes_of_word w = map (\<lambda>i. ucast (drop_bit (8 * (15 - i)) w)) [0..<16]"

definition ghash_mul :: "128 word \<Rightarrow> 128 word \<Rightarrow> 128 word" where
  "ghash_mul x y = snd (fold (\<lambda>i (v, z).
       ((if bit v 0 then drop_bit 1 v XOR push_bit 120 0xE1 else drop_bit 1 v),
        (if bit x (127 - i) then z XOR v else z))) [0..<128] (y, 0))"

fun blocks16 :: "nat \<Rightarrow> bytes \<Rightarrow> bytes list" where
  "blocks16 0 bs = []"
| "blocks16 (Suc n) bs = take 16 bs # blocks16 n (drop 16 bs)"

definition zero_padded :: "bytes \<Rightarrow> bytes" where
  "zero_padded bs = bs @ replicate ((16 - length bs mod 16) mod 16) 0"

definition ghash :: "bytes \<Rightarrow> bytes \<Rightarrow> bytes \<Rightarrow> bytes" where
  "ghash h a c =
     (let s = zero_padded a @ zero_padded c @ u64_bytes (of_nat (8 * length a)) @ u64_bytes (of_nat (8 * length c)) in
      bytes_of_word (fold (\<lambda>b y. ghash_mul (y XOR word_of_bytes b) (word_of_bytes h)) (blocks16 (length s div 16) s) 0))"

definition gcm_keystream :: "bytes \<Rightarrow> bytes \<Rightarrow> nat \<Rightarrow> bytes" where
  "gcm_keystream key iv n =
     take n (concat (map (\<lambda>i. aes128 key (iv @ u32_bytes (of_nat (i + 2)))) [0..<Suc (n div 16)]))"

definition gcm_tag :: "bytes \<Rightarrow> bytes \<Rightarrow> bytes \<Rightarrow> bytes \<Rightarrow> bytes" where
  "gcm_tag key iv d c = block_xor (aes128 key (iv @ u32_bytes 1)) (ghash (aes128 key (replicate 16 0)) d c)"

definition gcm :: "bytes \<Rightarrow> aead" where
  "gcm key = ctr_aead (gcm_keystream key) (gcm_tag key)"

lemma length_blocks: "(\<And>i. length (f i) = 16) \<Longrightarrow> length (concat (map f [0..<n])) = 16 * n"
  by (induction n) simp_all

interpretation gcm: ctr_mode "gcm_keystream key" "gcm_tag key" for key
proof
  show "length (gcm_keystream key n k) = k" for n k
  proof -
    have "k div 16 * 16 + k mod 16 = k" "k mod 16 < 16" by simp_all
    then have "k \<le> 16 * Suc (k div 16)" unfolding mult_Suc_right by linarith
    then show ?thesis unfolding gcm_keystream_def by (subst length_take, subst length_blocks) simp_all
  qed
  show "length (gcm_tag key n d c) = 16" for n d c by (simp add: gcm_tag_def block_xor_def)
qed

definition go_crypto :: crypto where
  "go_crypto = \<lparr>cr_sha256 = sha256, cr_gcm = gcm\<rparr>"

lemma go_crypto_ok: "crypto_ok go_crypto"
  by (simp add: crypto_ok_def go_crypto_def hash_ok_def hashLen_def gcm_def gcm.correct)


subsection \<open>Which records are accepted\<close>

lemma strip_zeros_iff:
  assumes "t \<noteq> 0"
  shows "strip_zeros inner = p @ [t] \<longleftrightarrow> (\<exists>k. inner = p @ t # replicate k 0)"
proof
  assume s: "strip_zeros inner = p @ [t]"
  let ?z = "takeWhile (\<lambda>b. b = 0) (rev inner)"
  have "?z = replicate (length ?z) 0" by (rule replicate_eqI [OF refl]) (auto dest: set_takeWhileD)
  moreover have "inner = strip_zeros inner @ rev ?z"
    unfolding strip_zeros_def by (metis rev_append rev_rev_ident takeWhile_dropWhile_id)
  ultimately have "inner = p @ t # replicate (length ?z) 0" unfolding s by (metis rev_replicate append.assoc append_Cons append_Nil)
  then show "\<exists>k. inner = p @ t # replicate k 0" by blast
next
  assume "\<exists>k. inner = p @ t # replicate k 0"
  then show "strip_zeros inner = p @ [t]" using assms by (auto simp: strip_zeros_def dropWhile_append)
qed

lemma strip_zeros_last: "strip_zeros inner \<noteq> [] \<Longrightarrow> last (strip_zeros inner) \<noteq> 0"
  using hd_dropWhile [of "\<lambda>b. b = 0" "rev inner"] by (simp add: strip_zeros_def last_rev)

text \<open>
  C29: a record is accepted exactly if it was sealed for its place in the stream. With the AES-128-GCM of Go, the keys at
  sequence number \<open>n\<close> open a record to the content \<open>p\<close> of type \<open>t\<close> just if its ciphertext is what sealing \<open>p\<close>, the type (not
  zero) and any zero padding gives under the key, the nonce of \<open>n\<close> and the header of the record as it was received. So no record
  is accepted that was changed, shortened, moved to another place, repeated, or given another header; and the number is then
  counted up.
\<close>
theorem Open_accepts_exactly_the_sealed:
  assumes "newRecordKeys (cr_gcm go_crypto) key iv = Ok r"
  shows "rk_Open header c (r\<lparr>rk_seq := n\<rparr>) = Ok (t, p, r') \<longleftrightarrow>
    t \<noteq> 0 \<and> r' = r\<lparr>rk_seq := n + 1\<rparr>
    \<and> (\<exists>k. c = aead_Seal (cr_gcm go_crypto key) (nonceForSeq iv n) (p @ t # replicate k 0) header)"
proof -
  have keys: "rk_aead r = ctr_aead (gcm_keystream key) (gcm_tag key)" "rk_iv r = iv"
    using assms by (auto simp: newRecordKeys_def go_crypto_def gcm_def split: if_splits)
  let ?seal = "aead_Seal (ctr_aead (gcm_keystream key) (gcm_tag key)) (nonceForSeq iv n)"
  have "rk_Open header c (r\<lparr>rk_seq := n\<rparr>) = Ok (t, p, r') \<longleftrightarrow>
      (\<exists>inner. c = ?seal inner header \<and> strip_zeros inner = p @ [t] \<and> r' = r\<lparr>rk_seq := n + 1\<rparr>)"
  proof (cases "aead_Open (rk_aead r) (nonceForSeq iv n) c header")
    case None
    then have "c \<noteq> ?seal inner header" for inner unfolding keys by (auto simp: gcm.Open_Seal)
    then show ?thesis using None by (simp add: rk_Open_def keys(2))
  next
    case (Some inner)
    then have c: "c = ?seal x header \<longleftrightarrow> x = inner" for x
      unfolding keys gcm.Open_iff_Seal [symmetric] by auto
    show ?thesis using Some by (auto simp: rk_Open_def keys(2) c Let_def)
  qed
  also have "\<dots> \<longleftrightarrow> t \<noteq> 0 \<and> r' = r\<lparr>rk_seq := n + 1\<rparr> \<and> (\<exists>k. c = ?seal (p @ t # replicate k 0) header)"
    using strip_zeros_iff [of t _ p] strip_zeros_last by (metis last_snoc snoc_eq_iff_butlast)
  finally show ?thesis by (simp add: go_crypto_def gcm_def)
qed

theorem Open_accepts_exactly_the_sealed_witness:
  "\<exists>r. newRecordKeys (cr_gcm go_crypto) (replicate 16 1) (replicate 12 2) = Ok r \<and>
    rk_Open [23, 3, 3, 0, 21] (aead_Seal (cr_gcm go_crypto (replicate 16 1)) (nonceForSeq (replicate 12 2) 5)
        ([7] @ 23 # replicate 3 0) [23, 3, 3, 0, 21]) (r\<lparr>rk_seq := 5\<rparr>) = Ok (23, [7], r\<lparr>rk_seq := 6\<rparr>)"
proof -
  obtain r where r: "newRecordKeys (cr_gcm go_crypto) (replicate 16 1) (replicate 12 2) = Ok r"
    by (simp add: newRecordKeys_def aeadKeyLen_def aeadIVLen_def)
  show ?thesis
    using r Open_accepts_exactly_the_sealed [OF r, of "[23, 3, 3, 0, 21]" _ 5 23 "[7]" "r\<lparr>rk_seq := 6\<rparr>"] by auto
qed

end
