(* ===== verification/Tls_Transport.thy ===== *)
theory Tls_Transport
  imports Tcp_Conn Tls_Conn
begin

section \<open>TLS records over a TCP connection (tls/record.go on tcp/connection.go)\<close>

text \<open>
  The TLS theories read from a byte stream. Here \<^verbatim>\<open>readRecord\<close> reads from the TCP connection itself:
  \<^verbatim>\<open>io.ReadFull\<close> calls \<^verbatim>\<open>TCPConnection.Read\<close> until its buffer is full, and \<open>None\<close> means that a \<^verbatim>\<open>Read\<close> blocks
  for the next segment. The stream is what the connection has received and not yet handed out.
\<close>

definition unread :: "TCPConnection \<Rightarrow> bytes" where
  "unread c = overflow c @ concat (readCh c)"

function tcp_ReadFull :: "nat \<Rightarrow> bytes \<Rightarrow> TCPConnection \<Rightarrow> ((io_error, bytes) res \<times> TCPConnection) option" where
  "tcp_ReadFull n got c =
     (if n \<le> length got then Some (Ok got, c)
      else (case conn_Read (n - length got) c of
          (ReadBlocks, _) \<Rightarrow> None
        | (ReadEOF, c1) \<Rightarrow> Some (Err (if got = [] then EOF else UnexpectedEOF), c1)
        | (ReadData d, c1) \<Rightarrow> tcp_ReadFull n (got @ d) c1))"
  by pat_completeness auto
termination
  by (relation "measures [\<lambda>(n, got, c). length (readCh c), \<lambda>(n, got, c). n - length got]")
    (auto simp: conn_Read_def Let_def min_def neq_Nil_conv split: if_splits list.splits)

declare tcp_ReadFull.simps [simp del]

definition tcp_readRecord :: "TCPConnection \<Rightarrow> ((bytes \<times> bytes) outcome \<times> TCPConnection) option" where
  "tcp_readRecord c = (case tcp_ReadFull recordHeaderLen [] c of
       None \<Rightarrow> None
     | Some (Err e, c1) \<Rightarrow> Some (Err (ErrIO e), c1)
     | Some (Panic, c1) \<Rightarrow> Some (Panic, c1)
     | Some (Ok header, c1) \<Rightarrow>
         let n = unat (u16_of (header ! 3) (header ! 4)) in
         if maxCiphertextLength < n then Some (Err (ErrRecordTooLarge n), c1)
         else (case tcp_ReadFull n [] c1 of
             None \<Rightarrow> None
           | Some (Err e, c2) \<Rightarrow> Some (Err (ErrIO e), c2)
           | Some (Panic, c2) \<Rightarrow> Some (Panic, c2)
           | Some (Ok fragment, c2) \<Rightarrow> Some (Ok (header, fragment), c2)))"

subsection \<open>Reading in full\<close>

lemma conn_Read_cases:
  assumes "0 < n"
  obtains d c1 where "conn_Read n c = (ReadData d, c1)" "unread c = d @ unread c1" "length d \<le> n"
      "readChClosed c1 = readChClosed c"
  | "conn_Read n c = (ReadEOF, c)" "unread c = []" "readChClosed c"
  | "conn_Read n c = (ReadBlocks, c)" "unread c = []" "\<not> readChClosed c"
proof (cases "0 < length (overflow c)")
  case True
  then show ?thesis
    using that(1) [of "take n (overflow c)" "c\<lparr>overflow := drop n (overflow c)\<rparr>"]
    by (simp add: conn_Read_def unread_def)
next
  case over: False
  show ?thesis
  proof (cases "readCh c")
    case Nil
    then show ?thesis using over that(2,3) by (cases "readChClosed c") (simp_all add: conn_Read_def unread_def)
  next
    case (Cons x xs)
    let ?k = "min n (length x)"
    let ?c = "if ?k < length x then c\<lparr>readCh := xs, overflow := drop ?k x\<rparr> else c\<lparr>readCh := xs\<rparr>"
    have "conn_Read n c = (ReadData (take ?k x), ?c)" using over Cons by (simp add: conn_Read_def Let_def)
    then show ?thesis
      using over Cons by (intro that(1) [of "take ?k x" ?c]) (auto simp: unread_def)
  qed
qed

lemma tcp_ReadFull_spec:
  assumes "length got \<le> n"
  shows "case tcp_ReadFull n got c of
      Some (Ok b, c') \<Rightarrow> length b = n \<and> got @ unread c = b @ unread c' \<and> readChClosed c' = readChClosed c
    | Some (Err e, c') \<Rightarrow> readChClosed c \<and> readChClosed c' \<and> length (got @ unread c) < n \<and> unread c' = []
        \<and> e = (if got @ unread c = [] then EOF else UnexpectedEOF)
    | Some (Panic, c') \<Rightarrow> False
    | None \<Rightarrow> \<not> readChClosed c \<and> length (got @ unread c) < n"
  using assms
proof (induction n got c rule: tcp_ReadFull.induct)
  case (1 n got c)
  show ?case
  proof (cases "n \<le> length got")
    case True
    then have "tcp_ReadFull n got c = Some (Ok got, c)" by (simp add: tcp_ReadFull.simps [of n got])
    then show ?thesis using "1.prems" True by simp
  next
    case False
    then have pos: "0 < n - length got" by simp
    show ?thesis
    proof (cases rule: conn_Read_cases [OF pos, of c])
      case (1 d c1)
      have step: "tcp_ReadFull n got c = tcp_ReadFull n (got @ d) c1"
        using False 1(1) by (simp add: tcp_ReadFull.simps [of n got])
      have "length (got @ d) \<le> n" using 1(3) False by simp
      note ih = "1.IH" [OF False 1(1) [symmetric] refl this]
      have bytes: "got @ unread c = (got @ d) @ unread c1" using 1(2) by simp
      show ?thesis unfolding step bytes using ih unfolding 1(4) .
    qed (use False in \<open>simp_all add: tcp_ReadFull.simps [of n got]\<close>)
  qed
qed

lemma tcp_ReadFull_reader:
  "case tcp_ReadFull n [] c of
      Some (Ok b, c') \<Rightarrow> readChClosed c' = readChClosed c \<and> ReadFull n (unread c @ later, e) = Ok (b, unread c' @ later, e)
    | Some (Err x, c') \<Rightarrow> readChClosed c \<and> readChClosed c' \<and> unread c' = [] \<and> ReadFull n (unread c, EOF) = Err x
    | Some (Panic, c') \<Rightarrow> False
    | None \<Rightarrow> \<not> readChClosed c \<and> length (unread c) < n"
  using tcp_ReadFull_spec [of "[]" n c]
  by (auto simp: ReadFull_def split: option.splits prod.splits res.splits)

text \<open>
  C19: the TLS record layer runs on TCP as it does on a stream. Whatever chunks the segments of the peer left in
  the channel of a connection, \<^verbatim>\<open>readRecord\<close> on it either blocks, and then only while the channel is open and
  holds less than the record, or returns exactly what \<^verbatim>\<open>readRecord\<close> on the byte stream returns, and leaves the
  rest of that stream. While the channel is open, that stream is what has been received followed by anything
  that may still come; once it is closed, it is what has been received and then the end.
\<close>
theorem records_over_tcp_are_records_of_the_stream:
  "case tcp_readRecord c of
     Some (r, c') \<Rightarrow> readChClosed c' = readChClosed c
       \<and> tls_readRecord (if readChClosed c then (unread c, EOF) else (unread c @ later, e)) =
           (r, if readChClosed c then (unread c', EOF) else (unread c' @ later, e))
   | None \<Rightarrow> \<not> readChClosed c \<and> length (unread c) < recordHeaderLen + maxCiphertextLength
       \<and> (\<exists>x. fst (tls_readRecord (unread c, EOF)) = Err (ErrIO x))"
proof (cases "tcp_ReadFull recordHeaderLen [] c")
  case None
  then show ?thesis
    using tcp_ReadFull_reader [where n = recordHeaderLen and c = c]
    by (simp add: tcp_readRecord_def tls_readRecord_def ReadFull_def record_limits)
next
  case (Some rc)
  obtain r1 c1 where rc: "rc = (r1, c1)" by (cases rc)
  note first = tcp_ReadFull_reader [where n = recordHeaderLen and c = c, unfolded Some option.case rc prod.case]
  show ?thesis
  proof (cases r1)
    case (Err x)
    then show ?thesis using first Some rc by (simp add: tcp_readRecord_def tls_readRecord_def)
  next
    case Panic
    then show ?thesis using first by simp
  next
    case (Ok header)
    let ?n = "unat (u16_of (header ! 3) (header ! 4))"
    have read: "readChClosed c1 = readChClosed c"
        "\<And>later e. ReadFull recordHeaderLen (unread c @ later, e) = Ok (header, unread c1 @ later, e)"
      using first Ok by auto
    have eof: "ReadFull recordHeaderLen (unread c, EOF) = Ok (header, unread c1, EOF)"
      using read(2) [of "[]" EOF] by simp
    have len: "length (unread c) = recordHeaderLen + length (unread c1)"
      using eof by (auto simp: ReadFull_def split: if_splits dest!: arg_cong [of _ _ length])
    show ?thesis
    proof (cases "maxCiphertextLength < ?n")
      case True
      then show ?thesis using Some rc Ok read eof by (simp add: tcp_readRecord_def tls_readRecord_def Let_def)
    next
      case False
      note unf = tcp_readRecord_def tls_readRecord_def Let_def
      have body: "tcp_readRecord c = (case tcp_ReadFull ?n [] c1 of
             None \<Rightarrow> None
           | Some (Err e, c2) \<Rightarrow> Some (Err (ErrIO e), c2)
           | Some (Panic, c2) \<Rightarrow> Some (Panic, c2)
           | Some (Ok fragment, c2) \<Rightarrow> Some (Ok (header, fragment), c2))"
        using Some rc Ok False by (simp add: tcp_readRecord_def Let_def)
      show ?thesis
      proof (cases "tcp_ReadFull ?n [] c1")
        case None
        then have "\<not> readChClosed c" "length (unread c1) < ?n" using tcp_ReadFull_reader [where n = ?n and c = c1] read(1) by simp_all
        then show ?thesis using None body len False eof by (simp add: tls_readRecord_def Let_def ReadFull_def)
      next
        case (Some rc2)
        obtain r2 c2 where rc2: "rc2 = (r2, c2)" by (cases rc2)
        note second = tcp_ReadFull_reader [where n = ?n and c = c1, unfolded Some option.case rc2 prod.case]
        have b: "tcp_readRecord c = (case r2 of Ok fragment \<Rightarrow> Some (Ok (header, fragment), c2)
            | Err e \<Rightarrow> Some (Err (ErrIO e), c2) | Panic \<Rightarrow> Some (Panic, c2))"
          unfolding body Some rc2 by simp
        show ?thesis
        proof (cases r2)
          case (Ok fragment)
          then have "readChClosed c2 = readChClosed c1"
            "\<And>later e. ReadFull ?n (unread c1 @ later, e) = Ok (fragment, unread c2 @ later, e)"
            using second by auto
          moreover from this(2) [of "[]" EOF] have "ReadFull ?n (unread c1, EOF) = Ok (fragment, unread c2, EOF)" by simp
          ultimately show ?thesis using b Ok read eof False by (simp add: tls_readRecord_def Let_def)
        qed (use b second read eof False in \<open>simp_all add: tls_readRecord_def Let_def\<close>)
      qed
    qed
  qed
qed

end
