(* ===== verification/Https_Server.thy ===== *)
theory Https_Server
  imports Orders Tls_Handshake Tls_Transport Tcp_Stack
begin

section \<open>HTTP over TLS: the goroutine of main.go\<close>

text \<open>
  What \<^verbatim>\<open>main\<close> does with an accepted connection: the TLS handshake, then \<^verbatim>\<open>http.Serve\<close> on the TLS connection,
  and \<^verbatim>\<open>Close\<close>, which is deferred, in every case. \<^verbatim>\<open>Serve\<close> reads through a \<^verbatim>\<open>bufio.Reader\<close>; the sizes \<open>ns\<close> of
  the reads it makes are an argument. Reading ends with an error; what \<^verbatim>\<open>Serve\<close> leaves unread has no influence,
  since the connection serves one request.
\<close>

definition io_of :: "tls_error \<Rightarrow> io_error" where
  "io_of e = (case e of ErrIO x \<Rightarrow> x | _ \<Rightarrow> OtherIO 0)"

fun tls_stream :: "crypto \<Rightarrow> entropy \<Rightarrow> nat list \<Rightarrow> Conn \<Rightarrow> bytes \<times> unit outcome \<times> Conn" where
  "tls_stream cr rnd [] c = ([], Ok (), c)"
| "tls_stream cr rnd (n # ns) c =
     (case tls_Read cr rnd n c of
        (Ok d, c1) \<Rightarrow> (case tls_stream cr rnd ns c1 of (ds, r, c2) \<Rightarrow> (d @ ds, r, c2))
      | (Err e, c1) \<Rightarrow> ([], Err e, c1)
      | (Panic, c1) \<Rightarrow> ([], Panic, c1))"

definition stream_reader :: "bytes \<Rightarrow> unit outcome \<Rightarrow> reader" where
  "stream_reader data r = (data, case r of Err e \<Rightarrow> io_of e | _ \<Rightarrow> OtherIO 0)"

text \<open>\<^verbatim>\<open>defer c.Close()\<close>\<close>

definition raw_close :: "Conn \<Rightarrow> Conn" where
  "raw_close c = c\<lparr>c_rawClosed := True\<rparr>"

definition serve_conn ::
  "crypto \<Rightarrow> entropy \<Rightarrow> nat list \<Rightarrow> bytes \<Rightarrow> (bytes \<times> 's handler) list \<Rightarrow> 's ServeMux \<Rightarrow> Conn \<Rightarrow> 's \<Rightarrow>
   (unit, 's) res \<times> Conn" where
  "serve_conn cr rnd ns now order mux c s =
     (case Handshake cr rnd c of
        (Err _, c1) \<Rightarrow> (Ok s, raw_close c1)
      | (Panic, c1) \<Rightarrow> (Panic, c1)
      | (Ok _, c1) \<Rightarrow> (case tls_stream cr rnd ns c1 of (data, r, c2) \<Rightarrow>
          if r = Panic then (Panic, c2)
          else (case Serve now order mux (stream_reader data r) s of
              Ok (out, s') \<Rightarrow>
                if out = [] then (Ok s', raw_close c2)
                else (case tls_Write cr rnd out c2 of
                    (_, Panic, c3) \<Rightarrow> (Panic, c3)
                  | (_, _, c3) \<Rightarrow> (Ok s', raw_close c3))
            | _ \<Rightarrow> (Panic, c2))))"

text \<open>Reading touches nothing but the source and the buffer of decrypted data.\<close>

lemma fillAppData_frame: "\<exists>s d. snd (fillAppData c) = put_src s (c\<lparr>c_inAppData := d\<rparr>)"
proof (induction c rule: fillAppData.induct)
  case (1 c)
  have self: "c = put_src (src c) (c\<lparr>c_inAppData := c_inAppData c\<rparr>)" by (simp add: put_src_def src_def)
  obtain r c1 where r: "conn_readRecord c = (r, c1)" by (cases "conn_readRecord c")
  then have c1: "c1 = put_src (snd (pull (src c))) c" using conn_readRecord_pull [of c] by simp
  define s where "s = snd (pull (src c))"
  show ?case
  proof (cases "c_inAppData c = []")
    case False
    then have "snd (fillAppData c) = c" by (simp add: fillAppData.simps [of c])
    then show ?thesis using self by metis
  next
    case True
    then have keep: "c1 = put_src s (c\<lparr>c_inAppData := []\<rparr>)" using c1 unfolding s_def [symmetric] by (cases c) simp
    show ?thesis
    proof (cases r)
      case (Ok a)
      obtain t p where a: "a = (t, p)" by (cases a)
      have nn: "\<not> c_inAppData c \<noteq> []" using True by simp
      note ih = "1.IH"(1) [OF nn r [symmetric] Ok a [symmetric]] "1.IH"(2) [OF nn r [symmetric] Ok a [symmetric]]
      have f: "snd (fillAppData c) = (if t = contentTypeApplicationData then snd (fillAppData (c1\<lparr>c_inAppData := p\<rparr>))
          else if t = contentTypeAlert then c1 else if t = contentTypeHandshake then snd (fillAppData c1) else c1)"
        using True r Ok a by (subst fillAppData.simps) simp
      show ?thesis
      proof (cases "t = contentTypeApplicationData \<or> t = contentTypeHandshake")
        case True
        then show ?thesis using f ih c1 [folded s_def] by (auto simp: content_types simp del: split_paired_Ex)
      next
        case False
        then show ?thesis using f keep by (auto simp del: split_paired_Ex)
      qed
    qed (use True r keep in \<open>auto simp: fillAppData.simps [of c] simp del: split_paired_Ex\<close>)
  qed
qed

lemma tls_stream_frame:
  assumes "c_handshakeDone c" "tls_stream cr rnd ns c = (ds, r, c')"
  shows "\<exists>s d. c' = put_src s (c\<lparr>c_inAppData := d\<rparr>)"
  using assms
proof (induction ns arbitrary: c ds)
  case Nil
  then show ?case by (intro exI [of _ "src c"] exI [of _ "c_inAppData c"]) (simp add: put_src_def src_def)
next
  case (Cons n ns)
  obtain s d where f: "snd (fillAppData c) = put_src s (c\<lparr>c_inAppData := d\<rparr>)" using fillAppData_frame by blast
  obtain r1 c1 where rd: "tls_Read cr rnd n c = (r1, c1)" by (cases "tls_Read cr rnd n c")
  obtain x where x: "fillAppData c = (x, put_src s (c\<lparr>c_inAppData := d\<rparr>))" using f by (cases "fillAppData c") simp
  have "\<exists>d1. c1 = put_src s (c\<lparr>c_inAppData := d1\<rparr>)"
    using rd Cons.prems(1) x by (cases x) (auto simp: tls_Read_def ensureHandshake_def bindS_def)
  then obtain d1 where c1: "c1 = put_src s (c\<lparr>c_inAppData := d1\<rparr>)" ..
  show ?case
  proof (cases r1)
    case (Ok a)
    obtain ds2 where "tls_stream cr rnd ns c1 = (ds2, r, c')"
      using Cons.prems(2) rd Ok by (auto split: prod.splits)
    then obtain s2 d2 where "c' = put_src s2 (c1\<lparr>c_inAppData := d2\<rparr>)"
      using Cons.IH [of c1] Cons.prems(1) c1 by auto
    then have "c' = put_src s2 (c\<lparr>c_inAppData := d2\<rparr>)" unfolding c1 by (simp add: put_src_def)
    then show ?thesis by blast
  qed (use Cons.prems(2) rd c1 in \<open>auto simp del: split_paired_Ex\<close>)
qed

lemma tls_stream_reads: "read_until cr rnd ns c = (fst (tls_stream cr rnd ns c), fst (snd (tls_stream cr rnd ns c)))"
  by (induction ns arbitrary: c) (auto split: prod.splits res.splits)

lemma plan_keys_correct:
  assumes "crypto_ok cr" "plan_keys cr plan ck sk rk wk"
  shows "aead_correct (rk_aead ck)" "aead_correct (rk_aead sk)" "aead_correct (rk_aead rk)" "aead_correct (rk_aead wk)"
proof -
  have H: "hash_ok (cr_sha256 cr)" using assms(1) by (simp add: crypto_ok_def)
  have k: "aead_correct (rk_aead r)" if "newRecordKeysFromSecret cr s = Ok r" for r s
    using newRecordKeysFromSecret_total [OF H, of s] assms(1) that by (metis crypto_ok_def res.inject(1))
  show "aead_correct (rk_aead ck)" "aead_correct (rk_aead sk)" "aead_correct (rk_aead rk)" "aead_correct (rk_aead wk)"
    using assms(2) k by (auto simp: plan_keys_def)
qed

text \<open>What the client sends as application data comes through whole.\<close>

lemma tls_stream_request:
  assumes "c_handshakeDone c" "c_readKeys c = Some rk" "c_inAppData c = []" "aead_correct (rk_aead rk)"
    and "c_in c = (fst (wire_bytes (app_records (concat (map chunks ps))) rk), EOF)"
    and "list_all (\<lambda>n. 0 < n) ns" "length (concat ps) < length ns"
  shows "\<exists>s d. tls_stream cr rnd ns c = (concat ps, Err (ErrIO EOF), put_src s (c\<lparr>c_inAppData := d\<rparr>))"
proof -
  let ?ws = "app_records (concat (map chunks ps))"
  have "list_all item_ok ?ws" using chunks_bounds by (fastforce simp: list_all_iff content_types)
  then have "pulls (map carried ?ws) (src c) (([], EOF), Some (snd (wire_bytes ?ws rk)))"
    using pulls_wire [OF assms(4), of ?ws "[]" EOF] assms(2,5) by (simp add: src_def)
  moreover have "app_bytes (map carried ?ws) = concat ps"
    by (induction ps) (simp_all add: app_bytes_def concat_chunks comp_def filter_map)
  moreover have "app_phase (map carried ?ws)" by (auto simp: app_phase_def)
  ultimately have "read_until cr rnd ns c = (concat ps, Err (ErrIO EOF))"
    using read_until_all [of c "map carried ?ws" "Some (snd (wire_bytes ?ws rk))" ns] assms(1,3,6,7) by simp
  moreover obtain ds r c' where st: "tls_stream cr rnd ns c = (ds, r, c')" by (cases "tls_stream cr rnd ns c")
  ultimately have "ds = concat ps" "r = Err (ErrIO EOF)" by (simp_all add: tls_stream_reads)
  then show ?thesis using tls_stream_frame [OF assms(1) st] st by blast
qed

lemma tls_Write_runs:
  assumes "c_handshakeDone c" "c_faults c = []" "c_writeKeys c = Some k" "aead_correct (rk_aead k)"
  shows "tls_Write cr rnd p c = (length p, Ok (), c\<lparr>c_out := c_out c @ fst (wire_bytes (app_records (chunks p)) k),
      c_writeKeys := Some (snd (wire_bytes (app_records (chunks p)) k))\<rparr>)"
  using writeChunks_runs [OF assms(2-4), of p 0] assms(1) by (simp add: tls_Write_def ensureHandshake_def)

text \<open>The input of a client that shakes hands and then sends \<open>ps\<close>, and the connection after its handshake.\<close>

definition client_bytes :: "(byte \<times> bytes) list \<Rightarrow> hs_plan \<Rightarrow> recordKeys \<Rightarrow> recordKeys \<Rightarrow> bytes list \<Rightarrow> bytes" where
  "client_bytes rs plan ck rk ps = plain_bytes rs @ fst (wire_bytes [Protected contentTypeHandshake (p_clientFinished plan)] ck) @
     fst (wire_bytes (app_records (concat (map chunks ps))) rk)"

lemma client_handshake:
  assumes "crypto_ok cr" "server_ok rnd identity" "good_hello ch hello" "first_flight rs ch []"
    "hs_reference cr rnd identity ch hello = Ok plan" "plan_keys cr plan ck sk rk wk"
  shows "\<exists>c1. Handshake cr rnd (tls_Server (client_bytes rs plan ck rk ps, EOF) [] (Some identity)) = (Ok (), c1)
    \<and> c_handshakeDone c1 \<and> c_readKeys c1 = Some rk \<and> c_inAppData c1 = [] \<and> c_faults c1 = [] \<and> c_writeKeys c1 = Some wk
    \<and> c_out c1 = server_out plan sk \<and> c_in c1 = (fst (wire_bytes (app_records (concat (map chunks ps))) rk), EOF)"
proof -
  have hello: "framed_message ch" "ch ! 0 = handshakeTypeClientHello" "parseClientHello (drop 4 ch) = Ok hello"
      "validateClientHello hello = Ok ()"
    using assms(3) by (simp_all add: good_hello_def)
  have fits: "plan_fits plan"
    using assms(2)
  proof (cases rule: keyExchange_cases [of rnd identity hello])
    case (1 pub shared)
    then show ?thesis using hs_reference_total [OF assms(1,2) hello_session_id [OF hello(3)] 1, of ch] assms(5) by auto
  qed (use assms(5) in \<open>simp add: hs_reference_def\<close>)
  note aead = plan_keys_correct [OF assms(1,6)]
  define req where "req = fst (wire_bytes (app_records (concat (map chunks ps))) rk)"
  define c where "c = tls_Server (client_bytes rs plan ck rk ps, EOF) [] (Some identity)"
  obtain v where v: "p_clientFinished plan = [20, 0, 0, 32] @ v" "length v = 32"
    by (rule reference_clientFinished [OF assms(1,5)])
  have k: "newRecordKeysFromSecret cr (k_clientHandshakeTrafficSecret (p_schedule plan)) = Ok ck"
    "newRecordKeysFromSecret cr (k_serverHandshakeTrafficSecret (p_schedule plan)) = Ok sk"
    "newRecordKeysFromSecret cr (k_clientApplicationTrafficSecret (p_schedule plan)) = Ok rk"
    "newRecordKeysFromSecret cr (k_serverApplicationTrafficSecret (p_schedule plan)) = Ok wk"
    using assms(6) by (simp_all add: plan_keys_def)
  define c1 where "c1 = (tls_Server (req, EOF) [] (Some identity))\<lparr>c_out := server_out plan sk,
      c_readKeys := Some rk, c_writeKeys := Some wk, c_handshakeDone := True\<rparr>"
  have "runHandshake cr rnd c = (Ok (), (tls_Server (req, EOF) [] (Some identity))\<lparr>c_out := server_out plan sk,
      c_readKeys := Some rk, c_writeKeys := Some wk\<rparr>)"
    unfolding c_def client_bytes_def req_def [symmetric] server_out_def
    by (subst runHandshake_decides_lemma [OF hello assms(5) fits k aead(1,2) assms(4) finished_flight(1,4) [OF v]]) simp
  then have "Handshake cr rnd c = (Ok (), c1)" by (simp add: Handshake_def c_def c1_def tls_Server_def)
  then show ?thesis
    unfolding c_def req_def [symmetric] by (intro exI [of _ c1]) (simp add: c1_def tls_Server_def)
qed

lemma client_served:
  fixes s :: 's
  assumes tls: "crypto_ok cr" "server_ok rnd identity" "good_hello ch hello" "first_flight rs ch []"
    and plan: "hs_reference cr rnd identity ch hello = Ok plan" "plan_keys cr plan ck sk rk wk"
    and http: "request_ok m p hs body" "concat ps = render_request m p hs body @ rest"
      "mux_match order mux p = Some h"
      "h \<lparr>Method = m, Path = p, req_Version = str ''HTTP/1.1'', Headers = lower_names hs, Body = body\<rparr>
         \<lparr>StatusCode = 200, w_Headers = [], w_Body = []\<rparr> s = Ok (resp, s')"
    and sizes: "list_all (\<lambda>n. 0 < n) ns" "length (concat ps) < length ns"
  shows "\<exists>c'. serve_conn cr rnd ns now order mux (tls_Server (client_bytes rs plan ck rk ps, EOF) [] (Some identity)) s
      = (Ok s', c')
    \<and> c_out c' = server_out plan sk @ fst (wire_bytes (app_records (chunks (snd (WriteResponse now resp)))) wk)
    \<and> c_rawClosed c'"
proof -
  note aead = plan_keys_correct [OF tls(1) plan(2)]
  obtain c1 where hs: "Handshake cr rnd (tls_Server (client_bytes rs plan ck rk ps, EOF) [] (Some identity)) = (Ok (), c1)"
      and fields: "c_handshakeDone c1" "c_readKeys c1 = Some rk" "c_inAppData c1 = []" "c_faults c1 = []"
      "c_writeKeys c1 = Some wk" "c_out c1 = server_out plan sk"
      "c_in c1 = (fst (wire_bytes (app_records (concat (map chunks ps))) rk), EOF)"
    using client_handshake [OF tls plan] by blast
  obtain s2 d where st: "tls_stream cr rnd ns c1 = (concat ps, Err (ErrIO EOF), put_src s2 (c1\<lparr>c_inAppData := d\<rparr>))"
    using tls_stream_request [OF fields(1-3) aead(3) fields(7) sizes] by blast
  define out where "out = snd (WriteResponse now resp)"
  have serve: "Serve now order mux (stream_reader (concat ps) (Err (ErrIO EOF))) s = Ok (out, s')"
    using ReadRequest_render [OF http(1), of rest EOF] http(2-4)
    by (simp add: Serve_def mux_Handle_def Let_def stream_reader_def io_of_def out_def)
  have nonempty: "out \<noteq> []" by (simp add: out_def WriteResponse_def Let_def str_def)
  obtain c3 where wr: "tls_Write cr rnd out (put_src s2 (c1\<lparr>c_inAppData := d\<rparr>)) = (length out, Ok (), c3)"
      "c_out c3 = server_out plan sk @ fst (wire_bytes (app_records (chunks out)) wk)"
    using tls_Write_runs [of "put_src s2 (c1\<lparr>c_inAppData := d\<rparr>)" wk cr rnd out] fields aead(4) by simp
  have "serve_conn cr rnd ns now order mux (tls_Server (client_bytes rs plan ck rk ps, EOF) [] (Some identity)) s
      = (Ok s', raw_close c3)"
    by (simp add: serve_conn_def hs st serve nonempty wr(1) del: put_src_simps)
  then show ?thesis using wr(2) by (simp add: out_def raw_close_def)
qed



subsection \<open>Starting the server\<close>

text \<open>
  \<^verbatim>\<open>NewServerIdentity\<close>: the template of the self-signed certificate and the calls to \<^verbatim>\<open>crypto/ecdsa\<close>,
  \<^verbatim>\<open>crypto/rand\<close> and \<^verbatim>\<open>crypto/x509\<close>, which are parameters. Times and durations are in nanoseconds.
\<close>

record cert_template =
  ct_SerialNumber :: int
  ct_CommonName :: bytes
  ct_NotBefore :: int
  ct_NotAfter :: int
  ct_KeyUsage :: int
  ct_ExtKeyUsage :: "int list"
  ct_DNSNames :: "bytes list"
  ct_IPAddresses :: "bytes list"
  ct_BasicConstraintsValid :: bool
  ct_IsCA :: bool

record 'k x509 =
  x_GenerateKey :: "tls_error + 'k"
  x_randInt :: "int \<Rightarrow> tls_error + int"
  x_Now :: int
  x_CreateCertificate :: "cert_template \<Rightarrow> cert_template \<Rightarrow> 'k \<Rightarrow> 'k \<Rightarrow> tls_error + bytes"
  x_SignASN1 :: "'k \<Rightarrow> bytes \<Rightarrow> bytes \<Rightarrow> bytes option"

definition certValidity :: int where "certValidity = 10 * 365 * 24 * 3600 * 1000000000"
definition certClockSkew :: int where "certClockSkew = 60 * 1000000000"

text \<open>The constants of \<^verbatim>\<open>crypto/x509\<close>, and the two loopback addresses as \<^verbatim>\<open>net.IP\<close> keeps them.\<close>

definition KeyUsageDigitalSignature :: int where "KeyUsageDigitalSignature = 1"
definition ExtKeyUsageServerAuth :: int where "ExtKeyUsageServerAuth = 1"
definition ip4_loopback :: bytes where "ip4_loopback = replicate 10 0 @ [0xFF, 0xFF, 127, 0, 0, 1]"
definition ip6_loopback :: bytes where "ip6_loopback = replicate 15 0 @ [1]"

definition NewServerIdentity :: "'k x509 \<Rightarrow> ServerIdentity outcome" where
  "NewServerIdentity x = (case x_GenerateKey x of
       Inl e \<Rightarrow> Err e
     | Inr priv \<Rightarrow> (case x_randInt x (2 ^ 128) of
           Inl e \<Rightarrow> Err e
         | Inr serial \<Rightarrow>
             let template = \<lparr>ct_SerialNumber = serial, ct_CommonName = str ''rawhttp'',
                   ct_NotBefore = x_Now x - certClockSkew, ct_NotAfter = x_Now x + certValidity,
                   ct_KeyUsage = KeyUsageDigitalSignature, ct_ExtKeyUsage = [ExtKeyUsageServerAuth],
                   ct_DNSNames = [str ''localhost''], ct_IPAddresses = [ip4_loopback, ip6_loopback],
                   ct_BasicConstraintsValid = True, ct_IsCA = False\<rparr> in
             (case x_CreateCertificate x template template priv priv of
                Inl e \<Rightarrow> Err e
              | Inr der \<Rightarrow> Ok \<lparr>si_certDER = der, si_priv = x_SignASN1 x priv\<rparr>)))"

text \<open>
  The start of \<^verbatim>\<open>main\<close> up to the accept loop, after the raw socket is open: the identity, the order store in
  memory, a stack that listens on port 443, and the routes. A failure panics.
\<close>

definition main_setup ::
  "'k x509 \<Rightarrow> 't library \<Rightarrow> 'db sql \<Rightarrow>
   (unit, ServerIdentity \<times> 'db \<times> nat \<times> Stack \<times> ('db, 't) app ServeMux) res" where
  "main_setup x lib sq =
     (case NewServerIdentity x of
        Ok identity \<Rightarrow> (case NewStore sq (str '':memory:'') of
            Ok db \<Rightarrow> (case stack_Listen 443 NewStack of
                (listener, stack) \<Rightarrow> Ok (identity, db, listener, stack, main_mux (orders_Register NewServeMux lib sq)))
          | _ \<Rightarrow> Panic)
      | _ \<Rightarrow> Panic)"

end
