(* ===== verification/Tls_Types.thy ===== *)
theory Tls_Types
  imports Tls_Handshake
begin

section \<open>The types of the key material\<close>

text \<open>
  Go's \<^verbatim>\<open>cipher.AEAD\<close> panics when it is called with a nonce of the wrong length, and \<^verbatim>\<open>aes.NewCipher\<close> takes 16-byte keys
  only; the types of \<^verbatim>\<open>record.go\<close> (\<^verbatim>\<open>[]byte\<close>) do not say so. Here: the key material that a connection holds always
  has its sizes, whatever the peer sends and however the socket fails.
\<close>

definition keys_typed :: "crypto \<Rightarrow> recordKeys \<Rightarrow> bool" where
  "keys_typed cr k \<longleftrightarrow> (\<exists>key. length key = aeadKeyLen \<and> rk_aead k = cr_gcm cr key) \<and> length (rk_iv k) = aeadIVLen"

definition conn_typed :: "crypto \<Rightarrow> Conn \<Rightarrow> bool" where
  "conn_typed cr c \<longleftrightarrow> (\<forall>k. c_readKeys c = Some k \<or> c_writeKeys c = Some k \<longrightarrow> keys_typed cr k)"

definition typed :: "crypto \<Rightarrow> (Conn, 'a) action \<Rightarrow> bool" where
  "typed cr m \<longleftrightarrow> (\<forall>c. conn_typed cr c \<longrightarrow> conn_typed cr (snd (m c)))"

named_theorems typed_intros \<open>actions that keep the key material typed\<close>

lemma typedD: "typed cr m \<Longrightarrow> m c = (r, c1) \<Longrightarrow> conn_typed cr c \<Longrightarrow> conn_typed cr c1"
  unfolding typed_def by (metis snd_conv)

lemma conn_typed_simps [simp]:
  "conn_typed cr (c\<lparr>c_in := i\<rparr>) = conn_typed cr c" "conn_typed cr (c\<lparr>c_out := out\<rparr>) = conn_typed cr c"
  "conn_typed cr (c\<lparr>c_faults := f\<rparr>) = conn_typed cr c" "conn_typed cr (c\<lparr>c_hsBuf := b\<rparr>) = conn_typed cr c"
  "conn_typed cr (c\<lparr>c_inAppData := b\<rparr>) = conn_typed cr c" "conn_typed cr (c\<lparr>c_handshakeDone := d\<rparr>) = conn_typed cr c"
  "conn_typed cr (c\<lparr>c_handshakeErr := e\<rparr>) = conn_typed cr c" "conn_typed cr (c\<lparr>c_rawClosed := d\<rparr>) = conn_typed cr c"
  "conn_typed cr (c\<lparr>c_in := i, c_faults := f\<rparr>) = conn_typed cr c"
  by (simp_all add: conn_typed_def)

lemma keys_typed_seq [simp]: "keys_typed cr (k\<lparr>rk_seq := n\<rparr>) = keys_typed cr k"
  by (simp add: keys_typed_def)

lemma typed_bindS [typed_intros]: "typed cr m \<Longrightarrow> (\<And>a. typed cr (f a)) \<Longrightarrow> typed cr (bindS m f)"
  unfolding typed_def by (auto intro: bindS_preserves [where P = "conn_typed cr"])

text \<open>After an outcome of which something is known.\<close>

lemma typed_bind_lift:
  "(\<And>a. r = Ok a \<Longrightarrow> typed cr (f a)) \<Longrightarrow> typed cr (bindS (liftR r) f)"
  by (cases r) (simp_all add: typed_def bindS_def liftR_def)

lemma typed_if [typed_intros]: "(b \<Longrightarrow> typed cr m) \<Longrightarrow> (\<not> b \<Longrightarrow> typed cr n) \<Longrightarrow> typed cr (if b then m else n)"
  by simp

lemma typed_case_prod [typed_intros]: "(\<And>a b. typed cr (f a b)) \<Longrightarrow> typed cr (case x of (a, b) \<Rightarrow> f a b)"
  by (simp split: prod.split)

lemma typed_wrapS [typed_intros]: "typed cr m \<Longrightarrow> typed cr (wrapS ctx m)"
  by (simp add: typed_def wrapS_def case_prod_beta)

lemma typed_pure [typed_intros]: "typed cr (liftR r)" "typed cr (ret a)" "typed cr (fail e)"
  by (simp_all add: typed_def liftR_def ret_def fail_def)

lemma typed_setKeys: "keys_typed cr r \<Longrightarrow> keys_typed cr w \<Longrightarrow> typed cr (setKeys r w)"
  by (auto simp: typed_def setKeys_def conn_typed_def)

lemma typed_raw_Write [typed_intros]: "typed cr (raw_Write out)"
  by (auto simp: typed_def raw_Write_def split: list.split option.split)

lemma rk_Seal_typed: "rk_Seal t p k = Ok (out, k') \<Longrightarrow> keys_typed cr k' = keys_typed cr k"
  by (auto simp: rk_Seal_def Let_def split: if_splits)

lemma rk_Open_typed: "rk_Open header fragment k = Ok (t, p, k') \<Longrightarrow> keys_typed cr k' = keys_typed cr k"
  by (auto simp: rk_Open_def Let_def rbind_eqs split: if_splits option.splits)

lemma typed_conn_Seal [typed_intros]: "typed cr (conn_Seal t p)"
  using rk_Seal_typed by (fastforce simp: typed_def conn_Seal_def conn_typed_def split: option.split res.split)

lemma typed_writeEncryptedHandshake [typed_intros]: "typed cr (writeEncryptedHandshake msg)"
proof -
  have "typed cr (bindS (conn_Seal contentTypeHandshake msg) (\<lambda>sealed. raw_Write sealed))" by (intro typed_intros)
  then show ?thesis by (simp add: typed_def writeEncryptedHandshake_def)
qed

lemma typed_conn_readRecord [typed_intros]: "typed cr conn_readRecord"
  using rk_Open_typed
  by (fastforce simp: typed_def conn_readRecord_def conn_typed_def Let_def split: prod.split option.split res.split)

lemma typed_readHandshakeMessage [typed_intros]: "typed cr readHandshakeMessage"
proof -
  have "conn_typed cr c \<Longrightarrow> conn_typed cr (snd (readHandshakeMessage c))" for c
  proof (induction c rule: readHandshakeMessage.induct)
    case (1 c)
    obtain r c1 where r: "conn_readRecord c = (r, c1)" by (cases "conn_readRecord c")
    then have c1: "conn_typed cr c1" using typedD [OF typed_conn_readRecord r "1.prems"] by simp
    show ?case
    proof (cases "takeBufferedHandshake (c_hsBuf c)")
      case None
      show ?thesis
      proof (cases r)
        case (Ok a)
        obtain t p where a: "a = (t, p)" by (cases a)
        show ?thesis
          using "1.IH" [OF None r [symmetric] Ok a [symmetric]] None r Ok a c1
          by (auto simp: readHandshakeMessage.simps [of c])
      qed (use None r c1 in \<open>auto simp: readHandshakeMessage.simps [of c]\<close>)
    qed (use "1.prems" in \<open>auto simp: readHandshakeMessage.simps [of c]\<close>)
  qed
  then show ?thesis by (simp add: typed_def)
qed

lemma newRecordKeys_typed: "newRecordKeysFromSecret cr s = Ok k \<Longrightarrow> keys_typed cr k"
  by (auto simp: newRecordKeysFromSecret_def newRecordKeys_def keys_typed_def rbind_eq_Ok split: if_splits)

lemma typed_tls_writeRecord [typed_intros]: "typed cr (tls_writeRecord t f)"
  unfolding tls_writeRecord_def by (intro typed_intros)

lemma typed_deriveHandshakeKeys [typed_intros]: "typed cr (deriveHandshakeKeys cr shared tx)"
  unfolding deriveHandshakeKeys_def
  by (intro typed_bind_lift typed_bindS typed_setKeys newRecordKeys_typed typed_intros)

lemma typed_receiveFinished [typed_intros]: "typed cr (receiveFinished cr schedule tx)"
proof -
  have last: "typed cr (\<lambda>c. if length (c_hsBuf c) \<noteq> 0 then (Err e, c) else (Ok (), c))" for e
    by (simp add: typed_def)
  show ?thesis
    unfolding receiveFinished_def Let_def
    by (intro typed_wrapS typed_if typed_bind_lift typed_bindS typed_setKeys newRecordKeys_typed last typed_intros)
qed

lemma typed_runHandshake [typed_intros]: "typed cr (runHandshake cr rnd)"
proof -
  have run: "typed cr (bindS receiveClientHello (\<lambda>(tx, hello).
          bindS (liftR (keyExchange rnd hello)) (\<lambda>(serverPub, shared).
          bindS (sendServerHello rnd hello serverPub tx) (\<lambda>tx.
          bindS (deriveHandshakeKeys cr shared tx) (\<lambda>schedule.
          bindS (sendFlight cr rnd idy schedule tx) (\<lambda>tx.
          receiveFinished cr schedule tx))))))" for idy
    unfolding receiveClientHello_def sendServerHello_def sendFlight_def sendEncrypted_def writePlaintextHandshake_def
    by (intro typed_intros)
  then show ?thesis
    unfolding typed_def runHandshake_def by (auto split: option.split)
qed

lemma typed_ensureHandshake [typed_intros]: "typed cr (ensureHandshake cr rnd)" "typed cr (Handshake cr rnd)"
proof -
  show h: "typed cr (Handshake cr rnd)"
    using typed_runHandshake [of cr rnd] by (auto simp: typed_def Handshake_def split: option.split prod.split res.split)
  show "typed cr (ensureHandshake cr rnd)" using h by (simp add: typed_def ensureHandshake_def)
qed

lemma typed_fillAppData [typed_intros]: "typed cr fillAppData"
proof -
  have "conn_typed cr c \<Longrightarrow> conn_typed cr (snd (fillAppData c))" for c
  proof (induction c rule: fillAppData.induct)
    case (1 c)
    obtain r c1 where r: "conn_readRecord c = (r, c1)" by (cases "conn_readRecord c")
    then have c1: "conn_typed cr c1" using typedD [OF typed_conn_readRecord r "1.prems"] by simp
    show ?case
    proof (cases "c_inAppData c = []")
      case True
      have nn: "\<not> c_inAppData c \<noteq> []" using True by simp
      show ?thesis
      proof (cases r)
        case (Ok a)
        obtain t p where a: "a = (t, p)" by (cases a)
        show ?thesis
          using "1.IH" [OF nn r [symmetric] Ok a [symmetric]] True r Ok a c1
          by (auto simp: fillAppData.simps [of c])
      qed (use True r c1 in \<open>auto simp: fillAppData.simps [of c]\<close>)
    qed (use "1.prems" in \<open>auto simp: fillAppData.simps [of c]\<close>)
  qed
  then show ?thesis by (simp add: typed_def)
qed

lemma typed_tls_Read [typed_intros]: "typed cr (tls_Read cr rnd n)"
proof -
  have "typed cr (\<lambda>c. (Ok (take n (c_inAppData c)), c\<lparr>c_inAppData := drop n (c_inAppData c)\<rparr>))" by (simp add: typed_def)
  then show ?thesis unfolding tls_Read_def by (intro typed_intros)
qed

lemma writeChunks_typed: "conn_typed cr c \<Longrightarrow> writeChunks p w c = (n, r, c1) \<Longrightarrow> conn_typed cr c1"
proof (induction p w c rule: writeChunks.induct)
  case (1 p w c)
  let ?m = "bindS (conn_Seal contentTypeApplicationData (take maxPlaintextLength p)) raw_Write"
  obtain r2 c2 where m: "?m c = (r2, c2)" by (cases "?m c")
  have "typed cr ?m" by (intro typed_intros)
  then have c2: "conn_typed cr c2" using m "1.prems"(1) typedD by blast
  show ?case
  proof (cases "p = []")
    case False
    show ?thesis
    proof (cases r2)
      case (Ok a)
      then have "writeChunks (drop maxPlaintextLength p) (w + length (take maxPlaintextLength p)) c2 = (n, r, c1)"
        using "1.prems"(2) False m by (simp add: writeChunks.simps [of p] Let_def)
      then show ?thesis using "1.IH" [OF False refl m [symmetric] Ok c2] by blast
    qed (use "1.prems"(2) False m c2 in \<open>auto simp: writeChunks.simps [of p] Let_def\<close>)
  qed (use "1.prems" in \<open>simp add: writeChunks.simps [of "[]"]\<close>)
qed

text \<open>
  C27: the key material is well-typed. Whatever was read so far, whatever the peer sends, whichever writes fail and
  whatever the hash computes: \<^verbatim>\<open>Handshake\<close>, \<^verbatim>\<open>Read\<close>, \<^verbatim>\<open>Write\<close> and \<^verbatim>\<open>Close\<close> leave a connection whose record keys were made
  by AES-GCM from a key of exactly 16 bytes and have an IV of exactly 12; so every nonce that \<^verbatim>\<open>Seal\<close> and \<^verbatim>\<open>Open\<close> pass
  on, for whichever sequence number, has the 12 bytes that Go's AEAD insists on.
\<close>
theorem key_material_is_typed:
  assumes "conn_typed cr c"
  shows "conn_typed cr (snd (Handshake cr rnd c)) \<and> conn_typed cr (snd (tls_Read cr rnd n c))
    \<and> (case tls_Write cr rnd p c of (m, r, c') \<Rightarrow> conn_typed cr c') \<and> conn_typed cr (snd (tls_Close c))
    \<and> (\<forall>k sq. c_readKeys c = Some k \<or> c_writeKeys c = Some k \<longrightarrow> length (nonceForSeq (rk_iv k) sq) = 12)"
proof (intro conjI allI impI)
  show "conn_typed cr (snd (Handshake cr rnd c))" "conn_typed cr (snd (tls_Read cr rnd n c))"
    using assms typed_ensureHandshake(2) [of cr rnd] typed_tls_Read [of cr rnd n] by (simp_all add: typed_def)
  show "conn_typed cr (snd (tls_Close c))" using assms by (simp add: tls_Close_def)
  obtain r c1 where h: "ensureHandshake cr rnd c = (r, c1)" by (cases "ensureHandshake cr rnd c")
  have c1: "conn_typed cr c1" by (rule typedD [OF typed_ensureHandshake(1) h assms])
  show "case tls_Write cr rnd p c of (m, r, c') \<Rightarrow> conn_typed cr c'"
    using h c1 writeChunks_typed [OF c1, of p 0] by (cases r) (auto simp: tls_Write_def split: prod.split)
next
  fix k sq assume "c_readKeys c = Some k \<or> c_writeKeys c = Some k"
  then have "length (rk_iv k) = 12" using assms by (auto simp: conn_typed_def keys_typed_def aeadIVLen_def)
  then show "length (nonceForSeq (rk_iv k) sq) = 12" by (simp add: nonceForSeq_def)
qed

theorem key_material_is_typed_witness:
  "conn_typed null_crypto (snd (tls_Read null_crypto null_entropy 5
     (tls_Server ([22, 3, 3, 0, 4, 1, 0, 0, 0], EOF) [] (Some demo_identity))))"
proof -
  have "conn_typed null_crypto (tls_Server ([22, 3, 3, 0, 4, 1, 0, 0, 0], EOF) [] (Some demo_identity))"
    by (simp add: conn_typed_def tls_Server_def)
  from key_material_is_typed [OF this] show ?thesis by simp
qed

end
