(* ===== verification/Tls_Resume.thy ===== *)
theory Tls_Resume
  imports Tls_Handshake
begin

section \<open>Input that arrives in pieces\<close>

text \<open>
  A connection whose transport has, for the moment, nothing more to deliver: its input ends with \<open>Blocked\<close>,
  which stands for a \<^verbatim>\<open>Read\<close> of the TCP connection that waits for the next segment. An action that needs more
  ends with that error; any other end it reaches, it reaches on every continuation of the input.
\<close>

definition Blocked :: io_error where "Blocked = OtherIO 1"

fun is_blocked :: "tls_error \<Rightarrow> bool" where
  "is_blocked (ErrIO x) \<longleftrightarrow> x = Blocked"
| "is_blocked (ErrWrap ctx e) \<longleftrightarrow> is_blocked e"
| "is_blocked _ \<longleftrightarrow> False"

fun blocked_res :: "'a outcome \<Rightarrow> bool" where
  "blocked_res (Err e) \<longleftrightarrow> is_blocked e"
| "blocked_res _ \<longleftrightarrow> False"

text \<open>The errors that the code makes itself, of the messages and the keys, are none of the transport.\<close>

definition own :: "'a outcome \<Rightarrow> bool" where
  "own r \<longleftrightarrow> \<not> blocked_res r"

named_theorems own_intros \<open>results that are no error of the transport\<close>

lemma own_rbind [own_intros]: "own m \<Longrightarrow> (\<And>a. own (f a)) \<Longrightarrow> own (rbind m f)"
  by (cases m) (simp_all add: own_def)

lemma own_rwrap [own_intros]: "own r \<Longrightarrow> own (rwrap (ErrWrap ctx) r)"
  by (cases r) (simp_all add: own_def)

lemma own_if [own_intros]: "(b \<Longrightarrow> own r) \<Longrightarrow> (\<not> b \<Longrightarrow> own r') \<Longrightarrow> own (if b then r else r')"
  by simp

lemma own_case_prod [own_intros]: "(\<And>a b. own (f a b)) \<Longrightarrow> own (case x of (a, b) \<Rightarrow> f a b)"
  by (simp split: prod.split)

lemma own_case_option [own_intros]: "own r \<Longrightarrow> (\<And>a. own (f a)) \<Longrightarrow> own (case x of None \<Rightarrow> r | Some a \<Rightarrow> f a)"
  by (simp split: option.split)

lemma own_values [own_intros, simp]:
  "own (Ok a)" "own Panic" "own (Err ErrMessageTruncated)" "own (Err (ErrText s))" "own (Err (ErrTrailingBytes n))"
  "own (Err (ErrWrap ctx (ErrTrailingBytes n)))" "own (Err (ErrDuplicateExtension t))" "own (Err (ErrExternal n))"
  "own (Err (ErrBadLengthPrefix n n'))" "own (Err ErrZeroSharedSecret)" "own (Err (ErrInvalidKeyLength n))"
  "own (Err (ErrInvalidIVLength n))" "own (Err (ErrRecordTooLarge n))" "own (Err (ErrPeerAlert p))" "own (Err (ErrRecordType b))"
  by (simp_all add: own_def)

lemma own_slices [own_intros]: "own (idx xs i)" "own (slice_at xs i j)" "own (slice_from xs i)" "own (be_u16 xs)"
  by (auto simp: own_def idx_def slice_at_def slice_from_def be_u16_def)

lemma own_reads [own_intros]: "own (readU8 c)" "own (readU16 c)" "own (readBytes n c)" "own (readVector k c)"
proof -
  show r: "own (readU8 c)" "own (readU16 c)" "own (readBytes n c)" for c n
    unfolding readU8_def readU16_def readBytes_def by (intro own_intros)+
  show "own (readVector k c)" unfolding readVector_def by (intro own_intros r)
qed

lemma own_loops [own_intros]: "own (serverName_loop lc)" "own (keyShare_loop lc out)"
proof -
  show "own (serverName_loop lc)"
  proof (induction lc rule: serverName_loop.induct)
    case (1 lc)
    show ?case
    proof (cases "readU8 lc")
      case (Ok a)
      obtain t lc1 where a: "a = (t, lc1)" by (cases a)
      show ?thesis
      proof (cases "readVector 2 lc1")
        case (Ok b)
        obtain h lc2 where b: "b = (h, lc2)" by (cases b)
        have "own (serverName_loop lc2)" if "0 < remaining lc" "t \<noteq> sniHostName"
          using "1.IH" that Ok \<open>readU8 lc = Ok a\<close> a b by blast
        then show ?thesis using Ok \<open>readU8 lc = Ok a\<close> a b by (simp add: serverName_loop.simps [of lc])
      qed (use own_reads(4) [of 2 lc1] Ok a in \<open>auto simp: serverName_loop.simps [of lc] own_def\<close>)
    qed (use own_reads(1) [of lc] in \<open>auto simp: serverName_loop.simps [of lc] own_def\<close>)
  qed
  show "own (keyShare_loop lc out)"
  proof (induction lc out rule: keyShare_loop.induct)
    case (1 lc out)
    show ?case
    proof (cases "readU16 lc")
      case (Ok a)
      obtain t lc1 where a: "a = (t, lc1)" by (cases a)
      have "own (readVector 2 lc1)" by (intro own_intros)
      then show ?thesis
        using "1.IH" Ok a by (cases "readVector 2 lc1") (auto simp: keyShare_loop.simps [of lc] own_def)
    qed (use own_reads(2) [of lc] in \<open>auto simp: keyShare_loop.simps [of lc] own_def\<close>)
  qed
qed

lemma own_extension [own_intros]: "own (apply_extension t d out)"
  unfolding apply_extension_def parseServerNameExtension_def parseSupportedVersionsExtension_def parseU16Vector_def
    parseClientKeyShareExtension_def
  by (intro own_intros)

lemma own_extensions_loop [own_intros]: "own (extensions_loop c seen out)"
proof (induction c seen out rule: extensions_loop.induct)
  case (1 c seen out)
  have u: "own (rwrap (ErrWrap ''extension type'') (readU16 c))" by (intro own_intros)
  show ?case
  proof (cases "rwrap (ErrWrap ''extension type'') (readU16 c)")
    case (Ok a)
    obtain t c1 where a: "a = (t, c1)" by (cases a)
    have v: "own (rwrap (ErrWrap ''extension data'') (readVector 2 c1))" by (intro own_intros)
    show ?thesis
    proof (cases "rwrap (ErrWrap ''extension data'') (readVector 2 c1)")
      case (Ok b)
      obtain d c2 where b: "b = (d, c2)" by (cases b)
      have "own (apply_extension t d out)" by (intro own_intros)
      then show ?thesis
        using "1.IH" \<open>rwrap _ (readU16 c) = Ok a\<close> a Ok b
        by (cases "apply_extension t d out") (auto simp: extensions_loop.simps [of c] own_def)
    qed (use v \<open>rwrap _ (readU16 c) = Ok a\<close> a in \<open>auto simp: extensions_loop.simps [of c] own_def\<close>)
  qed (use u in \<open>auto simp: extensions_loop.simps [of c] own_def\<close>)
qed

lemma own_parseClientHello [own_intros]: "own (parseClientHello body)"
  unfolding parseClientHello_def parseClientHelloExtensions_def by (intro own_intros)

lemma own_validateClientHello [own_intros]: "own (validateClientHello h)"
  unfolding validateClientHello_def Let_def by (intro own_intros)

lemma own_marshal [own_intros]:
  "own (marshalServerHello r sid pub)" "own (marshalHandshake t body)" "own (marshalCertificate der)"
  "own (marshalCertificateVerify sch sig)" "own (record_bytes t body)"
  unfolding record_bytes_def Let_def marshalServerHello_def marshalHandshake_def marshalCertificate_def marshalCertificateVerify_def
    appendU8Vector_def appendU16Vector_def appendU24Vector_def appendServerSupportedVersionsExtension_def
    appendServerKeyShareExtension_def appendExtension_def
  by (intro own_intros)+

lemma own_keys [own_intros]:
  "own (rand_Read d)" "own (keyExchange rnd hello)" "own (newKeySchedule H s th)" "own (SetServerFinishedTranscript H th k)"
  "own (verifyData H s th)" "own (newRecordKeysFromSecret cr s)" "own (signCertificateVerify H r i th)"
proof -
  show r: "own (rand_Read d)" for d unfolding rand_Read_def by (intro own_intros)
  have e: "own (hkdfExpandLabel H secret label ctx len)" for H secret label ctx len
    unfolding hkdfExpandLabel_def by (intro own_intros)
  show "own (keyExchange rnd hello)" unfolding keyExchange_def x25519_def Let_def by (intro own_intros r)
  show "own (newKeySchedule H s th)" "own (SetServerFinishedTranscript H th k)"
    "own (verifyData H s th)" "own (newRecordKeysFromSecret cr s)" "own (signCertificateVerify H r i th)"
    unfolding newKeySchedule_def SetServerFinishedTranscript_def verifyData_def newRecordKeysFromSecret_def
      signCertificateVerify_def Let_def deriveSecret_def finishedKey_def trafficKeyAndIV_def newRecordKeys_def
    by (intro own_intros e)+
qed

definition feed :: "bytes \<Rightarrow> io_error \<Rightarrow> Conn \<Rightarrow> Conn" where
  "feed d e c = c\<lparr>c_in := (fst (c_in c) @ d, e)\<rparr>"

definition resumes_at :: "(Conn, 'a) action \<Rightarrow> Conn \<Rightarrow> bool" where
  "resumes_at m c \<longleftrightarrow> (case m c of (r, c1) \<Rightarrow>
     if blocked_res r then \<exists>x. fst (m (feed [] EOF c)) = Err x \<and> \<not> is_blocked x
     else c_faults c1 = [] \<and> snd (c_in c1) = Blocked \<and> (\<forall>d e. m (feed d e c) = (r, feed d e c1)))"

definition resumes :: "(Conn, 'a) action \<Rightarrow> bool" where
  "resumes m \<longleftrightarrow> (\<forall>c. c_faults c = [] \<longrightarrow> snd (c_in c) = Blocked \<longrightarrow> resumes_at m c)"

named_theorems resume_intros \<open>actions that resume\<close>

lemma feed_simps [simp]:
  "c_in (feed d e c) = (fst (c_in c) @ d, e)" "c_faults (feed d e c) = c_faults c"
  "c_hsBuf (feed d e c) = c_hsBuf c" "c_readKeys (feed d e c) = c_readKeys c"
  "c_writeKeys (feed d e c) = c_writeKeys c" "c_identity (feed d e c) = c_identity c"
  "c_inAppData (feed d e c) = c_inAppData c" "c_out (feed d e c) = c_out c"
  "c_handshakeDone (feed d e c) = c_handshakeDone c" "c_handshakeErr (feed d e c) = c_handshakeErr c"
  "feed d e (c\<lparr>c_hsBuf := b\<rparr>) = (feed d e c)\<lparr>c_hsBuf := b\<rparr>"
  "feed d e (c\<lparr>c_inAppData := b\<rparr>) = (feed d e c)\<lparr>c_inAppData := b\<rparr>"
  "feed d e (c\<lparr>c_readKeys := k\<rparr>) = (feed d e c)\<lparr>c_readKeys := k\<rparr>"
  "feed d e (c\<lparr>c_writeKeys := k\<rparr>) = (feed d e c)\<lparr>c_writeKeys := k\<rparr>"
  "feed d e (c\<lparr>c_out := out\<rparr>) = (feed d e c)\<lparr>c_out := out\<rparr>"
  "feed d e (c\<lparr>c_handshakeDone := b'\<rparr>) = (feed d e c)\<lparr>c_handshakeDone := b'\<rparr>"
  "feed d' e' (feed d e c) = feed (d @ d') e' c"
  by (simp_all add: feed_def)

lemma resumes_atI:
  assumes "m c = (r, c1)" "blocked_res r \<Longrightarrow> \<exists>x. fst (m (feed [] EOF c)) = Err x \<and> \<not> is_blocked x"
    "\<not> blocked_res r \<Longrightarrow> c_faults c1 = [] \<and> snd (c_in c1) = Blocked \<and> (\<forall>d e. m (feed d e c) = (r, feed d e c1))"
  shows "resumes_at m c"
  using assms by (simp add: resumes_at_def)

lemma resumes_at_run:
  assumes "resumes_at m c" "m c = (r, c1)" "\<not> blocked_res r"
  shows "c_faults c1 = []" "snd (c_in c1) = Blocked" "m (feed d e c) = (r, feed d e c1)"
  using assms by (simp_all add: resumes_at_def)

lemma resumes_at_blocked:
  "resumes_at m c \<Longrightarrow> m c = (r, c1) \<Longrightarrow> blocked_res r \<Longrightarrow> \<exists>x. fst (m (feed [] EOF c)) = Err x \<and> \<not> is_blocked x"
  by (simp add: resumes_at_def)

lemma resumes_at_cong:
  "m c = m' c \<Longrightarrow> (\<And>d e. m (feed d e c) = m' (feed d e c)) \<Longrightarrow> resumes_at m c = resumes_at m' c"
  by (simp add: resumes_at_def)

lemma resumesD: "resumes m \<Longrightarrow> c_faults c = [] \<Longrightarrow> snd (c_in c) = Blocked \<Longrightarrow> resumes_at m c"
  by (simp add: resumes_def)

lemma resumes_at_bindS:
  assumes "resumes_at m c" "\<And>a c1. m c = (Ok a, c1) \<Longrightarrow> resumes_at (f a) c1"
  shows "resumes_at (bindS m f) c"
proof -
  obtain r c1 where m: "m c = (r, c1)" by (cases "m c")
  show ?thesis
  proof (cases "blocked_res r")
    case True
    then obtain e x where "r = Err e" "fst (m (feed [] EOF c)) = Err x" "\<not> is_blocked x"
      using resumes_at_blocked [OF assms(1) m] by (cases r) auto
    then show ?thesis using m True by (intro resumes_atI) (auto simp: bindS_def split: prod.split)
  next
    case False
    note run = resumes_at_run [OF assms(1) m False]
    show ?thesis
    proof (cases r)
      case (Ok a)
      obtain r2 c2 where f: "f a c1 = (r2, c2)" by (cases "f a c1")
      have "resumes_at (f a) c1" using assms(2) m Ok by simp
      note f_run = resumes_at_run [OF this f] resumes_at_blocked [OF this f]
      show ?thesis
        using m Ok f f_run run(3) by (intro resumes_atI [of _ _ r2 c2]) (simp_all add: bindS_def)
    next
      case (Err e)
      then show ?thesis using m run False by (intro resumes_atI [of _ _ "Err e" c1]) (simp_all add: bindS_def)
    next
      case Panic
      then show ?thesis using m run by (intro resumes_atI [of _ _ Panic c1]) (simp_all add: bindS_def)
    qed
  qed
qed

lemma resumes_bindS [resume_intros]: "resumes m \<Longrightarrow> (\<And>a. resumes (f a)) \<Longrightarrow> resumes (bindS m f)"
  unfolding resumes_def
proof (intro allI impI resumes_at_bindS)
  fix c a c1
  assume "\<forall>c. c_faults c = [] \<longrightarrow> snd (c_in c) = Blocked \<longrightarrow> resumes_at m c" "c_faults c = []" "snd (c_in c) = Blocked"
    "\<And>a. \<forall>c. c_faults c = [] \<longrightarrow> snd (c_in c) = Blocked \<longrightarrow> resumes_at (f a) c" "m c = (Ok a, c1)"
  moreover from this have "c_faults c1 = []" "snd (c_in c1) = Blocked"
    using resumes_at_run [of m c "Ok a" c1] by simp_all
  ultimately show "resumes_at (f a) c1" by simp
qed simp

lemma resumes_if [resume_intros]: "(b \<Longrightarrow> resumes m) \<Longrightarrow> (\<not> b \<Longrightarrow> resumes n) \<Longrightarrow> resumes (if b then m else n)"
  by simp

text \<open>An action that leaves the input alone and makes no error of the transport resumes.\<close>

lemma resumes_local:
  assumes "\<And>(c :: Conn) d e. m (feed d e c) = (fst (m c), feed d e (snd (m c)))"
    and "\<And>c. c_faults c = [] \<Longrightarrow> c_faults (snd (m c)) = [] \<and> own (fst (m c))" "\<And>c. c_in (snd (m c)) = c_in c"
  shows "resumes m"
  unfolding resumes_def
proof (intro allI impI)
  fix c :: Conn assume c: "c_faults c = []" "snd (c_in c) = Blocked"
  obtain r c1 where m: "m c = (r, c1)" by (cases "m c")
  then have "\<not> blocked_res r" using assms(2) [of c] c(1) by (simp add: own_def)
  then show "resumes_at m c"
    using m assms(1) [of _ _ c] assms(2,3) [of c] c by (intro resumes_atI [of m c r c1]) auto
qed

lemma resumes_liftR [resume_intros]: "own r \<Longrightarrow> resumes (liftR r)"
  by (rule resumes_local) (simp_all add: liftR_def)

lemma resumes_ret [resume_intros]: "resumes (ret a)"
  by (rule resumes_local) (simp_all add: ret_def)

lemma resumes_fail [resume_intros]: "own (Err e :: 'a outcome) \<Longrightarrow> resumes (fail e :: (Conn, 'a) action)"
  by (rule resumes_local) (simp_all add: fail_def)

lemma resumes_setKeys [resume_intros]: "resumes (setKeys r w)"
  by (rule resumes_local) (simp_all add: setKeys_def)

lemma resumes_raw_Write [resume_intros]: "resumes (raw_Write out)"
  by (rule resumes_local) (auto simp: raw_Write_def feed_def split: list.split option.split)

lemma resumes_conn_Seal [resume_intros]: "resumes (conn_Seal t p)"
proof -
  have "\<not> is_blocked e" if "rk_Seal t p k = Err e" for k e
    using that by (auto simp: rk_Seal_def Let_def split: if_splits)
  then show ?thesis
    by (intro resumes_local)
      (auto simp: conn_Seal_def feed_def own_def split: option.split res.split prod.split)
qed

lemma resumes_tls_writeRecord [resume_intros]: "resumes (tls_writeRecord t f)"
  unfolding tls_writeRecord_def by (intro resume_intros own_intros)

lemma resumes_writeEncryptedHandshake [resume_intros]: "resumes (writeEncryptedHandshake m)"
proof -
  have "resumes_at (writeEncryptedHandshake m) c" if "c_faults c = []" "snd (c_in c) = Blocked" for c
  proof (cases "c_writeKeys c")
    case None
    then show ?thesis using that by (simp add: resumes_at_def writeEncryptedHandshake_def)
  next
    case (Some k)
    have "resumes_at (bindS (conn_Seal contentTypeHandshake m) (\<lambda>sealed. raw_Write sealed)) c"
      by (rule resumesD [OF _ that]) (intro resume_intros)
    then show ?thesis
      by (subst resumes_at_cong [where m' = "bindS (conn_Seal contentTypeHandshake m) (\<lambda>sealed. raw_Write sealed)"])
        (simp_all add: Some writeEncryptedHandshake_def)
  qed
  then show ?thesis by (simp add: resumes_def)
qed

lemma resumes_wrapS [resume_intros]:
  assumes "resumes m"
  shows "resumes (wrapS ctx m)"
proof -
  have b: "blocked_res (rwrap (ErrWrap ctx) r) \<longleftrightarrow> blocked_res r" for r :: "'a outcome"
    by (cases r) simp_all
  have "resumes_at (wrapS ctx m) c" if "c_faults c = []" "snd (c_in c) = Blocked" for c
  proof -
    obtain r c1 where m: "m c = (r, c1)" by (cases "m c")
    note run = resumes_at_run [OF resumesD [OF assms that] m] resumes_at_blocked [OF resumesD [OF assms that] m]
    show ?thesis
    proof (rule resumes_atI)
      show "wrapS ctx m c = (rwrap (ErrWrap ctx) r, c1)" by (simp add: wrapS_def m)
      show "\<exists>x. fst (wrapS ctx m (feed [] EOF c)) = Err x \<and> \<not> is_blocked x" if "blocked_res (rwrap (ErrWrap ctx) r)"
        using run(4) that b by (auto simp: wrapS_def split: prod.split res.split)
      show "c_faults c1 = [] \<and> snd (c_in c1) = Blocked \<and>
          (\<forall>d e. wrapS ctx m (feed d e c) = (rwrap (ErrWrap ctx) r, feed d e c1))"
        if "\<not> blocked_res (rwrap (ErrWrap ctx) r)"
        using run(1-3) that b by (simp add: wrapS_def)
    qed
  qed
  then show ?thesis by (simp add: resumes_def)
qed

subsection \<open>Reading records and messages\<close>

lemma ReadFull_Blocked:
  "case ReadFull n (B, Blocked) of
     Ok (b, r) \<Rightarrow> snd r = Blocked \<and> (\<forall>d e. ReadFull n (B @ d, e) = Ok (b, fst r @ d, e))
   | Err x \<Rightarrow> x = Blocked \<and> (\<exists>y. ReadFull n (B, EOF) = Err y \<and> y \<noteq> Blocked)
   | Panic \<Rightarrow> False"
  by (auto simp: ReadFull_def Blocked_def)

lemma tls_readRecord_Blocked:
  "case tls_readRecord (B, Blocked) of
     (r, s) \<Rightarrow> if blocked_res r then \<exists>x. fst (tls_readRecord (B, EOF)) = Err x \<and> \<not> is_blocked x
       else snd s = Blocked \<and> (\<forall>d e. tls_readRecord (B @ d, e) = (r, fst s @ d, e))"
proof (cases "ReadFull recordHeaderLen (B, Blocked)")
  case (Ok hr)
  obtain h R where hr: "hr = (h, R, Blocked)" using Ok ReadFull_Blocked [of recordHeaderLen B] by (cases hr) auto
  then have first: "\<And>d e. ReadFull recordHeaderLen (B @ d, e) = Ok (h, R @ d, e)"
    using Ok ReadFull_Blocked [of recordHeaderLen B] by simp
  note first0 = first [of "[]", simplified]
  let ?n = "unat (u16_of (h ! 3) (h ! 4))"
  show ?thesis
  proof (cases "maxCiphertextLength < ?n")
    case False
    show ?thesis
    proof (cases "ReadFull ?n (R, Blocked)")
      case (Ok fr)
      then obtain f R2 where "fr = (f, R2, Blocked)" "\<And>d e. ReadFull ?n (R @ d, e) = Ok (f, R2 @ d, e)"
        using ReadFull_Blocked [of ?n R] by (cases fr) auto
      then show ?thesis using first first0 False by (simp add: tls_readRecord_def Let_def Ok)
    next
      case (Err x)
      then obtain y where "x = Blocked" "ReadFull ?n (R, EOF) = Err y" "y \<noteq> Blocked" using ReadFull_Blocked [of ?n R] by auto
      then show ?thesis using first0 False Err by (simp add: tls_readRecord_def Let_def)
    qed (use ReadFull_Blocked [of ?n R] in simp)
  qed (use first first0 in \<open>simp add: tls_readRecord_def Let_def\<close>)
next
  case (Err x)
  then show ?thesis using ReadFull_Blocked [of recordHeaderLen B] by (auto simp: tls_readRecord_def)
qed (use ReadFull_Blocked [of recordHeaderLen B] in simp)

lemma rk_Open_not_blocked: "rk_Open header fragment k = Err e \<Longrightarrow> \<not> is_blocked e"
  by (auto simp: rk_Open_def Let_def go_simps split: if_splits option.splits res.splits)

lemma resumes_conn_readRecord [resume_intros]: "resumes conn_readRecord"
  unfolding resumes_def
proof (intro allI impI)
  fix c :: Conn assume c: "c_faults c = []" "snd (c_in c) = Blocked"
  obtain r s where r: "tls_readRecord (c_in c) = (r, s)" by (cases "tls_readRecord (c_in c)")
  have B: "c_in c = (fst (c_in c), Blocked)" using c(2) by (cases "c_in c") simp
  have rec: "if blocked_res r then \<exists>x. fst (tls_readRecord (fst (c_in c), EOF)) = Err x \<and> \<not> is_blocked x
       else snd s = Blocked \<and> (\<forall>d e. tls_readRecord (fst (c_in c) @ d, e) = (r, fst s @ d, e))"
    using tls_readRecord_Blocked [of "fst (c_in c)"] r B by simp
  show "resumes_at conn_readRecord c"
  proof (cases r)
    case (Ok hf)
    obtain h f where hf: "hf = (h, f)" by (cases hf)
    have run: "snd s = Blocked" "\<And>d e. tls_readRecord (fst (c_in c) @ d, e) = (Ok (h, f), fst s @ d, e)"
      using rec Ok hf by simp_all
    note run(2) [of "[]", simplified]
    with run show ?thesis
      using c r Ok hf
      by (auto simp: resumes_at_def conn_readRecord_def feed_def Let_def dest: rk_Open_not_blocked split: option.split res.split)
  next
    case (Err x)
    show ?thesis
    proof (cases "is_blocked x")
      case True
      then obtain y where "fst (tls_readRecord (fst (c_in c), EOF)) = Err y" "\<not> is_blocked y" using rec Err by auto
      then show ?thesis using True r Err
        by (auto simp: resumes_at_def conn_readRecord_def feed_def split: prod.split res.split)
    next
      case False
      then show ?thesis using rec c r Err by (auto simp: resumes_at_def conn_readRecord_def feed_def)
    qed
  next
    case Panic
    then show ?thesis using rec c r by (auto simp: resumes_at_def conn_readRecord_def feed_def)
  qed
qed

lemma resumes_readHandshakeMessage [resume_intros]: "resumes readHandshakeMessage"
proof -
  have "c_faults c = [] \<Longrightarrow> snd (c_in c) = Blocked \<Longrightarrow> resumes_at readHandshakeMessage c" for c
  proof (induction c rule: readHandshakeMessage.induct)
    case (1 c)
    show ?case
    proof (cases "takeBufferedHandshake (c_hsBuf c)")
      case (Some a)
      then show ?thesis using "1.prems"
        by (auto simp: resumes_at_def readHandshakeMessage.simps [of c] readHandshakeMessage.simps [of "feed _ _ c"]
            split: prod.split)
    next
      case None
      let ?f = "\<lambda>(t, plaintext). if t = contentTypeChangeCipherSpec then readHandshakeMessage
              else if t = contentTypeHandshake then
                (\<lambda>c1. readHandshakeMessage (c1\<lparr>c_hsBuf := c_hsBuf c1 @ plaintext\<rparr>))
              else if t = contentTypeAlert then fail (ErrPeerAlert plaintext)
              else fail (ErrRecordType t)"
      have eq: "readHandshakeMessage c' = bindS conn_readRecord ?f c'" if "c_hsBuf c' = c_hsBuf c" for c'
        using None that
        by (simp add: readHandshakeMessage.simps [of c'] bindS_def fail_def split: prod.split res.split)
      have "resumes_at (bindS conn_readRecord ?f) c"
      proof (rule resumes_at_bindS)
        show rc: "resumes_at conn_readRecord c" by (rule resumesD [OF resumes_conn_readRecord "1.prems"])
        fix a c1 assume r: "conn_readRecord c = (Ok a, c1)"
        obtain t p where a: "a = (t, p)" by (cases a)
        have c1: "c_faults c1 = []" "snd (c_in c1) = Blocked" using resumes_at_run [OF rc r] by simp_all
        note ih = "1.IH" [OF None r [symmetric] refl a [symmetric]]
        have ccs: "resumes_at readHandshakeMessage c1" if "t = contentTypeChangeCipherSpec"
          using ih(1) that c1 by simp
        have hs: "resumes_at (\<lambda>c1. readHandshakeMessage (c1\<lparr>c_hsBuf := c_hsBuf c1 @ p\<rparr>)) c1"
          if "t \<noteq> contentTypeChangeCipherSpec" "t = contentTypeHandshake"
          using ih(2) that c1 by (auto simp: resumes_at_def split: prod.splits if_splits)
        have "resumes_at (fail e :: (Conn, bytes) action) c1" if "own (Err e :: bytes outcome)" for e
          using resumesD [OF resumes_fail c1] that .
        then show "resumes_at (?f a) c1" using ccs hs a by simp
      qed
      then show ?thesis by (subst resumes_at_cong [where m' = "bindS conn_readRecord ?f"]) (simp_all add: eq)
    qed
  qed
  then show ?thesis by (simp add: resumes_def)
qed

subsection \<open>The parts of the handshake\<close>

text \<open>
  \<^verbatim>\<open>runHandshake\<close> in two parts: up to the server's flight, which waits for the ClientHello, and from there on,
  which waits for the client's Finished.
\<close>

definition hello_part :: "crypto \<Rightarrow> entropy \<Rightarrow> ServerIdentity \<Rightarrow> (Conn, keySchedule \<times> transcript) action" where
  "hello_part cr rnd identity =
     bindS receiveClientHello (\<lambda>(tx, hello).
     bindS (liftR (keyExchange rnd hello)) (\<lambda>(serverPub, shared).
     bindS (sendServerHello rnd hello serverPub tx) (\<lambda>tx.
     bindS (deriveHandshakeKeys cr shared tx) (\<lambda>schedule.
     bindS (sendFlight cr rnd identity schedule tx) (\<lambda>tx.
     ret (schedule, tx))))))"

lemma bindS_assoc: "bindS (bindS m f) g s = bindS m (\<lambda>a. bindS (f a) g) s"
  by (simp add: bindS_def split: prod.split res.split)

lemma runHandshake_parts:
  "c_identity c = Some identity \<Longrightarrow>
   runHandshake cr rnd c = bindS (hello_part cr rnd identity) (\<lambda>(schedule, tx). receiveFinished cr schedule tx) c"
  by (auto simp: runHandshake_def hello_part_def bindS_def ret_def split: prod.split res.split)

lemma resumes_case_prod [resume_intros]: "(\<And>a b. resumes (f a b)) \<Longrightarrow> resumes (case x of (a, b) \<Rightarrow> f a b)"
  by (simp split: prod.split)

lemma resumes_hello_part: "resumes (hello_part cr rnd identity)"
  unfolding hello_part_def receiveClientHello_def sendServerHello_def deriveHandshakeKeys_def sendFlight_def
    sendEncrypted_def writePlaintextHandshake_def
  by (intro resume_intros own_intros)

lemma resumes_receiveFinished: "resumes (receiveFinished cr schedule tx)"
proof -
  have last: "resumes (\<lambda>c. if length (c_hsBuf c) \<noteq> 0 then (Err (ErrText s), c) else (Ok (), c))" for s
    by (rule resumes_local) simp_all
  show ?thesis
    unfolding receiveFinished_def Let_def by (intro resume_intros own_intros last)
qed

lemma resumes_fillAppData: "resumes fillAppData"
proof -
  have "c_faults c = [] \<Longrightarrow> snd (c_in c) = Blocked \<Longrightarrow> resumes_at fillAppData c" for c
  proof (induction c rule: fillAppData.induct)
    case (1 c)
    show ?case
    proof (cases "c_inAppData c = []")
      case False
      then show ?thesis using "1.prems" by (simp add: resumes_at_def fillAppData.simps [of c] fillAppData.simps [of "feed _ _ c"])
    next
      case True
      let ?f = "\<lambda>(t, plaintext). if t = contentTypeApplicationData then
                (\<lambda>c1. fillAppData (c1\<lparr>c_inAppData := plaintext\<rparr>))
              else if t = contentTypeAlert then fail (ErrPeerAlert plaintext)
              else if t = contentTypeHandshake then fillAppData
              else fail (ErrRecordType t)"
      have eq: "fillAppData c' = bindS conn_readRecord ?f c'" if "c_inAppData c' = c_inAppData c" for c'
        using True that by (simp add: fillAppData.simps [of c'] bindS_def fail_def split: prod.split res.split)
      have nn: "\<not> c_inAppData c \<noteq> []" using True by simp
      have "resumes_at (bindS conn_readRecord ?f) c"
      proof (rule resumes_at_bindS)
        show rc: "resumes_at conn_readRecord c" by (rule resumesD [OF resumes_conn_readRecord "1.prems"])
        fix a c1 assume r: "conn_readRecord c = (Ok a, c1)"
        obtain t p where a: "a = (t, p)" by (cases a)
        have c1: "c_faults c1 = []" "snd (c_in c1) = Blocked" using resumes_at_run [OF rc r] by simp_all
        note ih = "1.IH" [OF nn r [symmetric] refl a [symmetric]]
        have app: "resumes_at (\<lambda>c1. fillAppData (c1\<lparr>c_inAppData := p\<rparr>)) c1" if "t = contentTypeApplicationData"
          using ih(1) that c1 by (auto simp: resumes_at_def split: prod.splits if_splits)
        have hs: "resumes_at fillAppData c1"
          if "t \<noteq> contentTypeApplicationData" "t \<noteq> contentTypeAlert" "t = contentTypeHandshake"
          using ih(2) that c1 by simp
        have "resumes_at (fail e :: (Conn, unit) action) c1" if "own (Err e :: unit outcome)" for e
          using resumesD [OF resumes_fail c1] that .
        then show "resumes_at (?f a) c1" using app hs a by simp
      qed
      then show ?thesis by (subst resumes_at_cong [where m' = "bindS conn_readRecord ?f"]) (simp_all add: eq)
    qed
  qed
  then show ?thesis by (simp add: resumes_def)
qed

lemma fillAppData_blocked:
  "fillAppData c = (Err e, c1) \<Longrightarrow> is_blocked e \<Longrightarrow> e = ErrIO Blocked"
proof (induction c rule: fillAppData.induct)
  case (1 c)
  have nn: "c_inAppData c = []" using "1.prems" by (simp add: fillAppData.simps [of c] split: if_splits)
  obtain r c2 where r: "conn_readRecord c = (r, c2)" by (cases "conn_readRecord c")
  show ?case
  proof (cases r)
    case (Ok a)
    obtain t p where a: "a = (t, p)" by (cases a)
    have nn': "\<not> c_inAppData c \<noteq> []" using nn by simp
    show ?thesis
      using "1.IH" [OF nn' r [symmetric] Ok a [symmetric]] "1.prems" nn r Ok a
      by (auto simp: fillAppData.simps [of c] split: if_splits)
  next
    case (Err x)
    then have "x = e" using "1.prems" nn r by (simp add: fillAppData.simps [of c])
    moreover have "is_blocked x \<Longrightarrow> x = ErrIO Blocked"
      using r Err rk_Open_not_blocked
      by (cases rule: tls_readRecord_cases [of "c_in c"])
        (auto simp: conn_readRecord_def Let_def tls_readRecord_def split: option.splits if_splits res.splits)
    ultimately show ?thesis using "1.prems"(2) by simp
  qed (use "1.prems" nn r in \<open>simp add: fillAppData.simps [of c]\<close>)
qed

subsection \<open>Reading until the input ends\<close>

text \<open>
  \<^verbatim>\<open>Read\<close> of a connection whose handshake is done, called again and again with a buffer of \<open>n\<close> bytes, as the
  \<^verbatim>\<open>bufio.Reader\<close> of \<^verbatim>\<open>ReadRequest\<close> does.
\<close>

definition app_Read :: "nat \<Rightarrow> (Conn, bytes) action" where
  "app_Read n = bindS fillAppData (\<lambda>_ c.
     (Ok (take n (c_inAppData c)), c\<lparr>c_inAppData := drop n (c_inAppData c)\<rparr>))"

lemma tls_Read_done: "c_handshakeDone c \<Longrightarrow> tls_Read cr rnd n c = app_Read n c"
  by (simp add: tls_Read_def app_Read_def ensureHandshake_def bindS_def)

lemma fillAppData_Ok:
  "fillAppData c = (Ok (), c1) \<Longrightarrow> c_inAppData c1 \<noteq> []
     \<and> (c1 = c \<or> length (fst (c_in c1)) < length (fst (c_in c)))"
proof (induction c rule: fillAppData.induct)
  case (1 c)
  show ?case
  proof (cases "c_inAppData c = []")
    case True
    obtain r c2 where r: "conn_readRecord c = (r, c2)" by (cases "conn_readRecord c")
    have nn: "\<not> c_inAppData c \<noteq> []" using True by simp
    obtain a where a: "r = Ok a" using "1.prems" True r by (cases r) (simp_all add: fillAppData.simps [of c])
    obtain t p where tp: "a = (t, p)" by (cases a)
    have "length (fst (c_in c2)) < length (fst (c_in c))" using conn_readRecord_Ok(1) r a by blast
    then show ?thesis
      using "1.IH" [OF nn r [symmetric] a tp [symmetric]] "1.prems" True r a tp
      by (auto simp: fillAppData.simps [of c] split: if_splits)
  qed (use "1.prems" in \<open>simp add: fillAppData.simps [of c]\<close>)
qed

lemma app_Read_progress:
  assumes "app_Read n c = (Ok d, c1)" "0 < n"
  shows "length (fst (c_in c1)) < length (fst (c_in c))
    \<or> c_in c1 = c_in c \<and> length (c_inAppData c1) < length (c_inAppData c)"
proof -
  obtain c2 where "fillAppData c = (Ok (), c2)" "c1 = c2\<lparr>c_inAppData := drop n (c_inAppData c2)\<rparr>"
    using assms(1) by (auto simp: app_Read_def bindS_eq_Ok)
  then show ?thesis using fillAppData_Ok [of c c2] assms(2) by auto
qed

function tls_drain :: "nat \<Rightarrow> Conn \<Rightarrow> bytes \<times> unit outcome \<times> Conn" where
  "tls_drain n c = (if n = 0 then ([], Ok (), c) else
     (case app_Read n c of
        (Ok d, c1) \<Rightarrow> (case tls_drain n c1 of (ds, r, c2) \<Rightarrow> (d @ ds, r, c2))
      | (Err e, c1) \<Rightarrow> ([], Err e, c1)
      | (Panic, c1) \<Rightarrow> ([], Panic, c1)))"
  by pat_completeness auto
termination
  by (relation "measures [\<lambda>(n, c). length (fst (c_in c)), \<lambda>(n, c). length (c_inAppData c)]")
    (auto dest: app_Read_progress [OF sym])

declare tls_drain.simps [simp del]

lemma resumes_app_Read: "resumes (app_Read n)"
proof -
  have "resumes (\<lambda>c. (Ok (take n (c_inAppData c)), c\<lparr>c_inAppData := drop n (c_inAppData c)\<rparr>))"
    by (rule resumes_local) simp_all
  then show ?thesis unfolding app_Read_def by (intro resume_intros resumes_fillAppData)
qed

lemma app_Read_blocked: "app_Read n c = (Err e, c1) \<Longrightarrow> is_blocked e \<Longrightarrow> e = ErrIO Blocked"
  using fillAppData_blocked [of c e c1] by (auto simp: app_Read_def bindS_def split: prod.splits res.splits)

lemma tls_drain_end: "0 < n \<Longrightarrow> tls_drain n c = (ds, r, c1) \<Longrightarrow> r \<noteq> Ok ()"
proof (induction n c arbitrary: ds rule: tls_drain.induct)
  case (1 n c)
  obtain r1 c2 where r1: "app_Read n c = (r1, c2)" by (cases "app_Read n c")
  show ?case
  proof (cases r1)
    case (Ok d)
    then obtain ds2 where "tls_drain n c2 = (ds2, r, c1)"
      using "1.prems" r1 by (auto simp: tls_drain.simps [of n c] split: prod.splits)
    then show ?thesis using "1.IH" [OF _ r1 [symmetric] Ok] "1.prems"(1) by blast
  qed (use "1.prems" r1 in \<open>auto simp: tls_drain.simps [of n c]\<close>)
qed

text \<open>
  What was read stays read, whatever arrives later, and an end other than the wait for more input is the end of
  every continuation.
\<close>

lemma tls_drain_resumes:
  assumes "0 < n" "c_faults c = []" "snd (c_in c) = Blocked" "tls_drain n c = (ds, r, c1)"
  shows "if blocked_res r
    then r = Err (ErrIO Blocked) \<and> (\<forall>d e. \<exists>x. fst (tls_drain n (feed d e c)) = ds @ x)
      \<and> (\<exists>x c2. tls_drain n (feed [] EOF c) = (ds, Err x, c2))
    else \<forall>d e. tls_drain n (feed d e c) = (ds, r, feed d e c1)"
  using assms
proof (induction n c arbitrary: ds rule: tls_drain.induct)
  case (1 n c)
  obtain r1 c2 where r1: "app_Read n c = (r1, c2)" by (cases "app_Read n c")
  note at = resumesD [OF resumes_app_Read "1.prems"(2,3)]
  show ?case
  proof (cases "blocked_res r1")
    case True
    then obtain e where e: "r1 = Err e" "e = ErrIO Blocked" using r1 app_Read_blocked by (cases r1) auto
    obtain x c3 where "app_Read n (feed [] EOF c) = (Err x, c3)"
      using resumes_at_blocked [OF at r1 True] by (cases "app_Read n (feed [] EOF c)") auto
    then show ?thesis using "1.prems"(1,4) r1 e True by (auto simp: tls_drain.simps [of n])
  next
    case False
    note run = resumes_at_run [OF at r1 False]
    show ?thesis
    proof (cases r1)
      case (Ok d)
      then obtain ds2 where ds2: "tls_drain n c2 = (ds2, r, c1)" "ds = d @ ds2"
        using "1.prems"(1,4) r1 by (auto simp: tls_drain.simps [of n c] split: prod.splits)
      have "n \<noteq> 0" using "1.prems"(1) by simp
      note ih = "1.IH" [OF this r1 [symmetric] Ok "1.prems"(1) run(1,2) ds2(1)]
      have step: "tls_drain n (feed d' e c) = (case tls_drain n (feed d' e c2) of (ds, r, c3) \<Rightarrow> (d @ ds, r, c3))" for d' e
        using "1.prems"(1) run(3) Ok by (simp add: tls_drain.simps [of n "feed d' e c"])
      have first: "fst (tls_drain n (feed d' e c)) = d @ fst (tls_drain n (feed d' e c2))" for d' e
        by (simp add: step split: prod.split)
      show ?thesis
      proof (cases "blocked_res r")
        case True
        then show ?thesis using ih ds2(2) step [of "[]" EOF] by (auto simp: first)
      qed (use ih ds2(2) in \<open>simp add: step\<close>)
    qed (use "1.prems"(1,4) r1 False run in \<open>auto simp: tls_drain.simps [of n]\<close>)
  qed
qed

text \<open>Once the input has ended nothing waits.\<close>

lemma resumes_EOF:
  assumes "resumes m" "c_faults c = []" "snd (c_in c) = EOF" "m c = (r, c1)"
  shows "\<not> blocked_res r" "r = Ok a \<Longrightarrow> c_faults c1 = [] \<and> snd (c_in c1) = EOF"
proof -
  let ?c = "feed [] Blocked c"
  have c: "feed [] EOF ?c = c" using assms(3) by (cases c) (auto simp: feed_def)
  obtain r' c' where m: "m ?c = (r', c')" by (cases "m ?c")
  have at: "resumes_at m ?c" using assms(2) by (intro resumesD [OF assms(1)]) simp_all
  have "\<not> blocked_res r \<and> (r = Ok a \<longrightarrow> c_faults c1 = [] \<and> snd (c_in c1) = EOF)"
  proof (cases "blocked_res r'")
    case True
    then show ?thesis using resumes_at_blocked [OF at m] assms(4) c by auto
  next
    case False
    note run = resumes_at_run [OF at m False]
    have "m c = (r', feed [] EOF c')" using run(3) [of "[]" EOF] c by simp
    then show ?thesis using run(1) False assms(4) by simp
  qed
  then show "\<not> blocked_res r" "r = Ok a \<Longrightarrow> c_faults c1 = [] \<and> snd (c_in c1) = EOF" by simp_all
qed

lemma tls_drain_EOF:
  "c_faults c = [] \<Longrightarrow> snd (c_in c) = EOF \<Longrightarrow> tls_drain n c = (ds, r, c1) \<Longrightarrow> \<not> blocked_res r"
proof (induction n c arbitrary: ds rule: tls_drain.induct)
  case (1 n c)
  obtain r1 c2 where r1: "app_Read n c = (r1, c2)" by (cases "app_Read n c")
  note eof = resumes_EOF [OF resumes_app_Read "1.prems"(1,2) r1]
  show ?case
  proof (cases r1)
    case (Ok d)
    show ?thesis
    proof (cases "n = 0")
      case False
      then obtain ds2 where "tls_drain n c2 = (ds2, r, c1)"
        using "1.prems"(3) r1 Ok by (auto simp: tls_drain.simps [of n c] split: prod.splits)
      then show ?thesis using "1.IH" [OF False r1 [symmetric] Ok] eof(2) [OF Ok] by blast
    qed (use "1.prems"(3) in \<open>auto simp: tls_drain.simps [of 0 c]\<close>)
  qed (use "1.prems"(3) r1 eof(1) in \<open>auto simp: tls_drain.simps [of n c] split: if_splits\<close>)
qed

end
