(* ===== verification/Http_Resume.thy ===== *)
theory Http_Resume
  imports Tls_Resume Http_Server
begin

section \<open>Requests that arrive in pieces (http/parse.go)\<close>

text \<open>
  The parser of requests on input that has, for the moment, nothing more to deliver: it waits exactly as long as
  what has arrived can be continued in a way that matters; any other result is the result on every continuation.
\<close>

definition waits_at :: "(reader \<Rightarrow> (http_error, 'a \<times> reader) res) \<Rightarrow> bytes \<Rightarrow> bool" where
  "waits_at p B \<longleftrightarrow>
     p (B, Blocked) = Err (IOError Blocked) \<and> (\<forall>e. \<exists>y. p (B, e) = Err (IOError y))
   \<or> (\<exists>x. (\<forall>y. x \<noteq> IOError y) \<and> (\<forall>d e. p (B @ d, e) = Err x))
   \<or> (\<forall>d e. p (B @ d, e) = Panic)
   \<or> (\<exists>a R. \<forall>d e. p (B @ d, e) = Ok (a, R @ d, e))"

definition waits :: "(reader \<Rightarrow> (http_error, 'a \<times> reader) res) \<Rightarrow> bool" where
  "waits p \<longleftrightarrow> (\<forall>B. waits_at p B)"

named_theorems wait_intros \<open>parsers that wait for their input\<close>

lemma waits_cases [consumes 1, case_names Waits Refuses Panics Returns]:
  assumes "waits p"
  obtains "p (B, Blocked) = Err (IOError Blocked)" "\<And>e. \<exists>y. p (B, e) = Err (IOError y)"
  | x where "\<forall>y. x \<noteq> IOError y" "\<And>d e. p (B @ d, e) = Err x"
  | "\<And>d e. p (B @ d, e) = Panic"
  | a R where "\<And>d e. p (B @ d, e) = Ok (a, R @ d, e)"
  using assms unfolding waits_def waits_at_def by blast

lemma waits_ret [wait_intros]: "waits (\<lambda>r. Ok (a, r))"
  by (simp add: waits_def waits_at_def)

lemma waits_refuse [wait_intros]: "(\<And>y. x \<noteq> IOError y) \<Longrightarrow> waits (\<lambda>r. Err x)"
  by (simp add: waits_def waits_at_def)

lemma waits_Panic [wait_intros]: "waits (\<lambda>r. Panic)"
  by (simp add: waits_def waits_at_def)

lemma waits_if [wait_intros]: "(b \<Longrightarrow> waits p) \<Longrightarrow> (\<not> b \<Longrightarrow> waits q) \<Longrightarrow> waits (\<lambda>r. if b then p r else q r)"
  by (cases b) simp_all

lemma waits_option [wait_intros]:
  "(x = None \<Longrightarrow> waits p) \<Longrightarrow> (\<And>a. x = Some a \<Longrightarrow> waits (q a))
     \<Longrightarrow> waits (\<lambda>r. case x of None \<Rightarrow> p r | Some a \<Rightarrow> q a r)"
  by (cases x) simp_all

lemma waits_rbind [wait_intros]:
  assumes "waits p" "\<And>a. waits (f a)"
  shows "waits (\<lambda>r. rbind (p r) (\<lambda>(a, r1). f a r1))"
  unfolding waits_def
proof
  fix B
  show "waits_at (\<lambda>r. rbind (p r) (\<lambda>(a, r1). f a r1)) B"
    using assms(1)
  proof (cases rule: waits_cases [where B = B])
    case Waits
    then show ?thesis by (simp add: waits_at_def) (metis rbind.simps(2))
  next
    case (Returns a R)
    have "waits_at (f a) R" using assms(2) by (simp add: waits_def)
    then show ?thesis using Returns Returns [of "[]"] by (simp add: waits_at_def)
  qed (auto simp: waits_at_def)
qed

lemma readLine_loop_waits:
  "readLine_loop mx buf B Blocked = Err (IOError Blocked) \<and> (\<forall>e. \<exists>y. readLine_loop mx buf B e = Err (IOError y))
   \<or> (\<exists>x. (\<forall>y. x \<noteq> IOError y) \<and> (\<forall>d e. readLine_loop mx buf (B @ d) e = Err x))
   \<or> (\<exists>b R. \<forall>d e. readLine_loop mx buf (B @ d) e = Ok (b, R @ d))"
proof (induction B arbitrary: buf)
  case Nil
  have "readLine_loop mx buf d e = Err ErrMalformed" if "mx \<le> length buf" for d e
    using that by (cases d) simp_all
  then show ?case by (auto simp: Blocked_def)
next
  case (Cons a B)
  show ?case
  proof (cases "mx \<le> length buf \<or> a = LF")
    case False
    then have "readLine_loop mx buf (a # B) e = readLine_loop mx (buf @ [a]) B e"
      "readLine_loop mx buf ((a # B) @ d) e = readLine_loop mx (buf @ [a]) (B @ d) e" for d e
      by simp_all
    then show ?thesis using Cons.IH [of "buf @ [a]"] by (simp only:)
  qed auto
qed

lemma waits_readLine [wait_intros]: "waits (readLine mx)"
  unfolding waits_def
proof
  fix B
  show "waits_at (readLine mx) B"
    using readLine_loop_waits [of mx "[]" B]
  proof (elim disjE exE conjE)
    assume "readLine_loop mx [] B Blocked = Err (IOError Blocked)"
      "\<forall>e. \<exists>y. readLine_loop mx [] B e = Err (IOError y)"
    then show ?thesis by (simp add: waits_at_def readLine_def) (metis rbind.simps(2))
  qed (auto simp: waits_at_def readLine_def)
qed

lemma waits_read_body [wait_intros]: "waits (read_body n)"
  by (auto simp: waits_def waits_at_def read_body_def ReadFull_def Blocked_def)

lemma waits_read_headers [wait_intros]: "waits (read_headers k hs)"
proof (induction k arbitrary: hs)
  case 0
  have "waits (\<lambda>r. Err ErrTooManyHeaders)" by (rule waits_refuse) simp
  then show ?case by (simp add: waits_def waits_at_def)
next
  case (Suc k)
  have "waits (\<lambda>r. rbind (readLine maxHeaderLine r) (\<lambda>(line, r1).
     if line = [] then Ok (hs, r1)
     else if hd line = SP \<or> hd line = HT then Err ErrMalformed
     else (case parseHeader line of
         Err _ \<Rightarrow> Err ErrMalformed
       | Panic \<Rightarrow> Panic
       | Ok (name, v) \<Rightarrow> read_headers k (add_header (to_lower name) v hs) r1)))"
    (is "waits ?p")
  proof (rule waits_rbind [OF waits_readLine])
    fix line
    show "waits (\<lambda>r1. if line = [] then Ok (hs, r1)
     else if hd line = SP \<or> hd line = HT then Err ErrMalformed
     else (case parseHeader line of
         Err _ \<Rightarrow> Err ErrMalformed
       | Panic \<Rightarrow> Panic
       | Ok (name, v) \<Rightarrow> read_headers k (add_header (to_lower name) v hs) r1))"
      by (cases "line = []"; cases "hd line = SP \<or> hd line = HT"; cases "parseHeader line")
        (auto intro!: wait_intros Suc.IH)
  qed
  then show ?case by simp
qed

lemma waits_ReadRequest: "waits ReadRequest"
  unfolding ReadRequest_def [abs_def]
proof (intro waits_rbind waits_readLine)
  fix line
  have body: "waits (\<lambda>r. let req = \<lparr>Method = mt, Path = path, req_Version = version, Headers = hs, Body = []\<rparr> in
           if map_of hs (str ''host'') = None then Err ErrMalformed
           else (case map_of hs (str ''content-length'') of
               Some cl \<Rightarrow> (case Atoi (trim_space cl) of
                   None \<Rightarrow> Err ErrMalformed
                 | Some n \<Rightarrow>
                     if n < 0 then Err ErrMalformed
                     else if int maxBodySize < n then Err ErrPayloadTooLarge
                     else rbind (read_body (nat n) r) (\<lambda>(body, r3). Ok (req\<lparr>Body := body\<rparr>, r3)))
             | None \<Rightarrow> if methodRequiresLength mt then Err ErrLengthRequired else Ok (req, r)))"
    for mt path version hs
    unfolding Let_def by (intro wait_intros) simp_all
  show "waits (\<lambda>r1. case parseRequestLine line of
       Err _ \<Rightarrow> Err ErrMalformed
     | Panic \<Rightarrow> Panic
     | Ok (method, path, version) \<Rightarrow>
         if version \<noteq> str ''HTTP/1.1'' then Err ErrVersionNotSupported
         else
           rbind (read_headers maxHeaders [] r1) (\<lambda>(hs, r2).
           let req = \<lparr>Method = method, Path = path, req_Version = version, Headers = hs, Body = []\<rparr> in
           if map_of hs (str ''host'') = None then Err ErrMalformed
           else (case map_of hs (str ''content-length'') of
               Some cl \<Rightarrow> (case Atoi (trim_space cl) of
                   None \<Rightarrow> Err ErrMalformed
                 | Some n \<Rightarrow>
                     if n < 0 then Err ErrMalformed
                     else if int maxBodySize < n then Err ErrPayloadTooLarge
                     else rbind (read_body (nat n) r2) (\<lambda>(body, r3). Ok (req\<lparr>Body := body\<rparr>, r3)))
             | None \<Rightarrow> if methodRequiresLength method then Err ErrLengthRequired else Ok (req, r2))))"
    by (cases "parseRequestLine line") (auto intro!: wait_intros body)
qed

end
