(* ===== verification/Server_System.thy ===== *)
theory Server_System
  imports Https_Server Http_Resume "HOL-Library.Sublist"
begin

section \<open>The server: the TCP stack and the goroutines of main.go, interleaved\<close>

text \<open>
  The whole program as a state and its steps. Below is the TCP stack with its frames and timers; above, one
  goroutine for each accepted connection, which reads from its TCP connection as bytes arrive, waits when it has
  too few, writes what it has to send in any number of \<^verbatim>\<open>Write\<close> calls, and runs its handler on the state that all
  goroutines share. A goroutine is in one of the places where it can wait: for the ClientHello, for the client's
  Finished, or for the rest of the request; then it has answered, and at last it has closed its connection.
\<close>

datatype phase =
    AwaitHello
  | AwaitFinished keySchedule transcript
  | AwaitRequest
  | Answered
  | Closed

text \<open>
  The input of \<open>g_conn\<close> is what was read from TCP and not consumed. \<open>g_got\<close> records all that was read, and \<open>g_end\<close>
  whether the end was reached: \<open>Blocked\<close> or \<open>EOF\<close>. Of its output bytes, \<open>g_sent\<close> have been written to TCP.
\<close>

record goroutine =
  g_tcp :: nat
  g_rnd :: entropy
  g_phase :: phase
  g_conn :: Conn
  g_sent :: nat
  g_got :: bytes
  g_end :: io_error

record ('db, 't) config =
  cf_crypto :: crypto
  cf_identity :: ServerIdentity
  cf_lib :: "'t library"
  cf_sql :: "'db sql"
  cf_listener :: nat

text \<open>
  What one answer depends on besides the connection and the shared state: the formatted date, the order in
  which the router iterates over its routes, and the instant the clock shows.
\<close>

type_synonym ('db, 't) moment = "bytes \<times> (bytes \<times> ('db, 't) app handler) list \<times> 't"

record ('db, 't) system =
  sys_stack :: Stack
  sys_app :: "('db, 't) app"
  sys_go :: "goroutine list"
  sys_log :: "(nat \<times> ('db, 't) moment) list"

datatype ('db, 't) sys_event =
    Net event
  | Accept entropy
  | Fetch nat nat
  | Advance nat "('db, 't) moment"
  | Flush nat nat
  | Finish nat

abbreviation cf_mux :: "('db, 't) config \<Rightarrow> ('db, 't) app ServeMux" where
  "cf_mux cf \<equiv> server_mux (cf_lib cf) (cf_sql cf)"

subsection \<open>A goroutine\<close>

definition spawn :: "('db, 't) config \<Rightarrow> nat \<Rightarrow> entropy \<Rightarrow> goroutine" where
  "spawn cf i rnd = \<lparr>g_tcp = i, g_rnd = rnd, g_phase = AwaitHello,
     g_conn = tls_Server ([], Blocked) [] (Some (cf_identity cf)), g_sent = 0, g_got = [], g_end = Blocked\<rparr>"

definition awaits :: "goroutine \<Rightarrow> bool" where
  "awaits g \<longleftrightarrow> g_phase g \<notin> {Answered, Closed} \<and> g_sent g = length (c_out (g_conn g))"

text \<open>\<^verbatim>\<open>http.Serve\<close> on the data that the TLS connection delivered.\<close>

definition bufio_size :: nat where "bufio_size = 4096"

definition answer ::
  "crypto \<Rightarrow> entropy \<Rightarrow> bytes \<Rightarrow> (bytes \<times> 's handler) list \<Rightarrow> 's ServeMux \<Rightarrow> bytes \<times> unit outcome \<times> Conn \<Rightarrow> 's \<Rightarrow>
   (unit, 's \<times> Conn) res" where
  "answer cr rnd now order mux drained s = (case drained of (data, r, c) \<Rightarrow>
     if r = Panic then Panic
     else (case Serve now order mux (stream_reader data r) s of
         Ok (out, s') \<Rightarrow>
           if out = [] then Ok (s', c)
           else (case tls_Write cr rnd out c of
               (_, Panic, _) \<Rightarrow> Panic
             | (_, _, c1) \<Rightarrow> Ok (s', c1))
       | _ \<Rightarrow> Panic))"

text \<open>
  A goroutine runs to its next wait. With too little input it stays where it is, to try again when more has
  arrived; an error of the handshake ends it.
\<close>

definition request_blocked :: "bytes \<times> unit outcome \<times> Conn \<Rightarrow> bool" where
  "request_blocked drained \<longleftrightarrow> (case drained of (data, r, c) \<Rightarrow>
     r = Err (ErrIO Blocked) \<and> ReadRequest (data, Blocked) = Err (IOError Blocked))"

definition advance ::
  "('db, 't) config \<Rightarrow> ('db, 't) moment \<Rightarrow> goroutine \<Rightarrow> ('db, 't) app \<Rightarrow>
   (unit, ('db, 't) app \<times> goroutine) res" where
  "advance cf m g s = (case m of (now, order, t) \<Rightarrow>
     case g_phase g of
       AwaitHello \<Rightarrow>
         (case hello_part (cf_crypto cf) (g_rnd g) (cf_identity cf) (g_conn g) of
            (Ok (schedule, tx), c) \<Rightarrow> Ok (s, g\<lparr>g_phase := AwaitFinished schedule tx, g_conn := c\<rparr>)
          | (Err e, c) \<Rightarrow> Ok (s, if is_blocked e then g else g\<lparr>g_phase := Answered, g_conn := c\<rparr>)
          | (Panic, _) \<Rightarrow> Panic)
     | AwaitFinished schedule tx \<Rightarrow>
         (case receiveFinished (cf_crypto cf) schedule tx (g_conn g) of
            (Ok _, c) \<Rightarrow> Ok (s, g\<lparr>g_phase := AwaitRequest, g_conn := c\<lparr>c_handshakeDone := True\<rparr>\<rparr>)
          | (Err e, c) \<Rightarrow> Ok (s, if is_blocked e then g else g\<lparr>g_phase := Answered, g_conn := c\<rparr>)
          | (Panic, _) \<Rightarrow> Panic)
     | AwaitRequest \<Rightarrow>
         (let drained = tls_drain bufio_size (g_conn g) in
          if request_blocked drained then Ok (s, g)
          else (case answer (cf_crypto cf) (g_rnd g) now order (cf_mux cf) drained (s\<lparr>app_clock := t\<rparr>) of
              Ok (s', c) \<Rightarrow> Ok (s', g\<lparr>g_phase := Answered, g_conn := c\<rparr>)
            | _ \<Rightarrow> Panic))
     | _ \<Rightarrow> Ok (s, g))"

subsection \<open>The steps of the server\<close>

text \<open>
  The events of the stack that no goroutine causes, and the operation that each step of the server performs on
  the stack. A step that is not possible changes nothing.
\<close>

fun net_event :: "event \<Rightarrow> bool" where
  "net_event (Recv _ _ _) \<longleftrightarrow> True"
| "net_event Resume \<longleftrightarrow> True"
| "net_event (Wake _) \<longleftrightarrow> True"
| "net_event (OnConn _ opn) \<longleftrightarrow> opn = OpTimer"
| "net_event _ \<longleftrightarrow> False"

definition go_at :: "('db, 't) system \<Rightarrow> nat \<Rightarrow> goroutine option" where
  "go_at S j = (if j < length (sys_go S) then Some (sys_go S ! j) else None)"

definition put_go :: "nat \<Rightarrow> goroutine \<Rightarrow> ('db, 't) system \<Rightarrow> ('db, 't) system" where
  "put_go j g S = S\<lparr>sys_go := (sys_go S)[j := g]\<rparr>"

fun tcp_event :: "('db, 't) config \<Rightarrow> ('db, 't) sys_event \<Rightarrow> ('db, 't) system \<Rightarrow> event option" where
  "tcp_event cf (Net e) S = (if net_event e then Some e else None)"
| "tcp_event cf (Accept rnd) S = Some (DoAccept (cf_listener cf))"
| "tcp_event cf (Fetch j n) S = (case go_at S j of
       Some g \<Rightarrow> if awaits g \<and> g_end g = Blocked then Some (OnConn (g_tcp g) (OpRead n)) else None
     | None \<Rightarrow> None)"
| "tcp_event cf (Advance j m) S = None"
| "tcp_event cf (Flush j k) S = (case go_at S j of
       Some g \<Rightarrow> if g_sent g < length (c_out (g_conn g))
         then Some (OnConn (g_tcp g) (OpWrite (take k (drop (g_sent g) (c_out (g_conn g)))))) else None
     | None \<Rightarrow> None)"
| "tcp_event cf (Finish j) S = (case go_at S j of
       Some g \<Rightarrow> if g_phase g = Answered \<and> g_sent g = length (c_out (g_conn g))
         then Some (OnConn (g_tcp g) OpClose) else None
     | None \<Rightarrow> None)"

text \<open>What \<^verbatim>\<open>Read\<close> returned, taken up by the goroutine.\<close>

definition take_read :: "read_result \<Rightarrow> goroutine \<Rightarrow> goroutine" where
  "take_read r g = (case r of
       ReadData d \<Rightarrow> g\<lparr>g_conn := feed d Blocked (g_conn g), g_got := g_got g @ d\<rparr>
     | ReadEOF \<Rightarrow> g\<lparr>g_conn := feed [] EOF (g_conn g), g_end := EOF\<rparr>
     | ReadBlocks \<Rightarrow> g)"

fun go_step :: "('db, 't) config \<Rightarrow> ('db, 't) sys_event \<Rightarrow> ('db, 't) system \<Rightarrow> (unit, ('db, 't) system) res" where
  "go_step cf (Net e) S = Ok S"
| "go_step cf (Accept rnd) S = (case stack_Accept (cf_listener cf) (sys_stack S) of
       None \<Rightarrow> Ok S
     | Some (i, _) \<Rightarrow> Ok (S\<lparr>sys_go := sys_go S @ [spawn cf i rnd]\<rparr>))"
| "go_step cf (Fetch j n) S = (case go_at S j of
       Some g \<Rightarrow>
         if awaits g \<and> g_end g = Blocked then
           (case conn_at (sys_stack S) (g_tcp g) of
              None \<Rightarrow> Ok S
            | Some c \<Rightarrow> Ok (put_go j (take_read (fst (conn_Read n c)) g) S))
         else Ok S
     | None \<Rightarrow> Ok S)"
| "go_step cf (Advance j m) S = (case go_at S j of
       Some g \<Rightarrow>
         if awaits g then
           rbind (advance cf m g (sys_app S)) (\<lambda>(s, g').
           Ok ((put_go j g' S)\<lparr>sys_app := s, sys_log :=
             (if g_phase g = AwaitRequest \<and> g_phase g' = Answered then sys_log S @ [(j, m)] else sys_log S)\<rparr>))
         else Ok S
     | None \<Rightarrow> Ok S)"
| "go_step cf (Flush j k) S = (case go_at S j of
       Some g \<Rightarrow> Ok (put_go j (g\<lparr>g_sent := min (g_sent g + k) (length (c_out (g_conn g)))\<rparr>) S)
     | None \<Rightarrow> Ok S)"
| "go_step cf (Finish j) S = (case go_at S j of
       Some g \<Rightarrow>
         if g_phase g = Answered \<and> g_sent g = length (c_out (g_conn g)) then Ok (put_go j (g\<lparr>g_phase := Closed\<rparr>) S)
         else Ok S
     | None \<Rightarrow> Ok S)"

definition sys_exec ::
  "('db, 't) config \<Rightarrow> ('db, 't) sys_event \<Rightarrow> ('db, 't) system \<Rightarrow> (unit, ('db, 't) system \<times> emission list) res" where
  "sys_exec cf ev S =
     rbind (case tcp_event cf ev S of None \<Rightarrow> Ok (sys_stack S, []) | Some e \<Rightarrow> exec e (sys_stack S)) (\<lambda>(st, out).
     rbind (go_step cf ev S) (\<lambda>S'. Ok (S'\<lparr>sys_stack := st\<rparr>, out)))"

fun sys_run ::
  "('db, 't) config \<Rightarrow> ('db, 't) sys_event list \<Rightarrow> ('db, 't) system \<Rightarrow>
   (unit, ('db, 't) system \<times> emission list) res" where
  "sys_run cf [] S = Ok (S, [])"
| "sys_run cf (ev # evs) S =
     rbind (sys_exec cf ev S) (\<lambda>(S1, o1). rbind (sys_run cf evs S1) (\<lambda>(S2, o2). Ok (S2, o1 @ o2)))"

text \<open>The operations on the stack that a run performs.\<close>

fun tcp_trace :: "('db, 't) config \<Rightarrow> ('db, 't) sys_event list \<Rightarrow> ('db, 't) system \<Rightarrow> event list" where
  "tcp_trace cf [] S = []"
| "tcp_trace cf (ev # evs) S = (case tcp_event cf ev S of None \<Rightarrow> [] | Some e \<Rightarrow> [e]) @
     (case sys_exec cf ev S of Ok (S1, out) \<Rightarrow> tcp_trace cf evs S1 | _ \<Rightarrow> [])"

text \<open>The server as \<^verbatim>\<open>main\<close> starts it.\<close>

definition sys_start :: "Stack \<Rightarrow> ('db, 't) app \<Rightarrow> ('db, 't) system" where
  "sys_start stack s = \<lparr>sys_stack = stack, sys_app = s, sys_go = [], sys_log = []\<rparr>"

text \<open>\<^verbatim>\<open>main\<close> up to its accept loop; the clock shows \<open>t\<close>.\<close>

definition boot ::
  "crypto \<Rightarrow> 'k x509 \<Rightarrow> 't library \<Rightarrow> 'db sql \<Rightarrow> 't \<Rightarrow> (unit, ('db, 't) config \<times> ('db, 't) system) res" where
  "boot cr x lib sq t = rbind (main_setup x lib sq) (\<lambda>(identity, db, listener, stack, mux).
     Ok (\<lparr>cf_crypto = cr, cf_identity = identity, cf_lib = lib, cf_sql = sq, cf_listener = listener\<rparr>,
       sys_start stack \<lparr>app_db = db, app_clock = t\<rparr>))"

subsection \<open>Sequential service\<close>

text \<open>The connection of a goroutine as one that has its whole input from the start.\<close>

definition conn_on :: "('db, 't) config \<Rightarrow> bytes \<Rightarrow> io_error \<Rightarrow> Conn" where
  "conn_on cf B e = tls_Server (B, e) [] (Some (cf_identity cf))"

definition continues :: "goroutine \<Rightarrow> bytes \<Rightarrow> io_error \<Rightarrow> bool" where
  "continues g d e \<longleftrightarrow> g_end g = Blocked \<or> d = [] \<and> e = g_end g"

text \<open>
  What the goroutine did is what \<open>serve_conn\<close> does on every continuation of its input, with buffers enough to read
  it to its end.
\<close>

definition served ::
  "('db, 't) config \<Rightarrow> goroutine \<Rightarrow> ('db, 't) moment \<Rightarrow> ('db, 't) app \<Rightarrow> ('db, 't) app \<Rightarrow> bool" where
  "served cf g m s s' \<longleftrightarrow> (\<forall>d e. continues g d e \<longrightarrow> (\<exists>k0. \<forall>k \<ge> k0. \<exists>c'.
     (case m of (now, order, t) \<Rightarrow>
        serve_conn (cf_crypto cf) (g_rnd g) (replicate k bufio_size) now order (cf_mux cf)
          (conn_on cf (g_got g @ d) e) (s\<lparr>app_clock := t\<rparr>)) = (Ok s', c')
     \<and> c_out c' = c_out (g_conn g)))"

definition refused :: "('db, 't) config \<Rightarrow> goroutine \<Rightarrow> bool" where
  "refused cf g \<longleftrightarrow> (\<exists>x. \<forall>d e. continues g d e \<longrightarrow> (\<exists>c'.
     Handshake (cf_crypto cf) (g_rnd g) (conn_on cf (g_got g @ d) e) = (Err x, c')
     \<and> c_out c' = c_out (g_conn g)))"

definition hs_parts :: "crypto \<Rightarrow> entropy \<Rightarrow> ServerIdentity \<Rightarrow> (Conn, unit) action" where
  "hs_parts cr rnd identity = bindS (hello_part cr rnd identity) (\<lambda>(schedule, tx). receiveFinished cr schedule tx)"

lemma resumes_hs_parts: "resumes (hs_parts cr rnd identity)"
  unfolding hs_parts_def by (intro resume_intros resumes_hello_part resumes_receiveFinished)

lemma conn_on_simps [simp]:
  "c_faults (conn_on cf B e) = []" "c_in (conn_on cf B e) = (B, e)" "c_out (conn_on cf B e) = []"
  "c_identity (conn_on cf B e) = Some (cf_identity cf)" "feed d e' (conn_on cf B e) = conn_on cf (B @ d) e'"
  "c_handshakeDone (conn_on cf B e) = False" "c_handshakeErr (conn_on cf B e) = None"
  by (simp_all add: conn_on_def tls_Server_def feed_def)

lemma Handshake_conn_on:
  "Handshake cr rnd (conn_on cf B e) = (case hs_parts cr rnd (cf_identity cf) (conn_on cf B e) of
     (Ok _, c) \<Rightarrow> (Ok (), c\<lparr>c_handshakeDone := True\<rparr>)
   | (Err x, c) \<Rightarrow> (Err x, c\<lparr>c_handshakeErr := Some x\<rparr>)
   | (Panic, c) \<Rightarrow> (Panic, c))"
  by (simp add: Handshake_def runHandshake_parts hs_parts_def)

text \<open>An action that came to its end does the same on every continuation.\<close>

lemma resumes_continues:
  assumes "resumes m" "m (conn_on cf (g_got g) (g_end g)) = (r, c)" "\<not> blocked_res r" "continues g d e"
  obtains c' where "m (conn_on cf (g_got g @ d) e) = (r, c')" "c' = c \<or> c' = feed d e c"
proof (cases "g_end g = Blocked")
  case True
  then have "resumes_at m (conn_on cf (g_got g) (g_end g))" using resumesD [OF assms(1)] by simp
  from resumes_at_run(3) [OF this assms(2,3), of d e] that show ?thesis by simp
next
  case False
  then show ?thesis using assms(2,4) that by (auto simp: continues_def)
qed

subsection \<open>Reading and writing, apart\<close>

lemma app_Read_frame: "app_Read n c = (r, c1) \<Longrightarrow> \<exists>s d. c1 = put_src s (c\<lparr>c_inAppData := d\<rparr>)"
proof -
  assume run: "app_Read n c = (r, c1)"
  obtain s d where f: "snd (fillAppData c) = put_src s (c\<lparr>c_inAppData := d\<rparr>)" using fillAppData_frame by blast
  obtain x where x: "fillAppData c = (x, put_src s (c\<lparr>c_inAppData := d\<rparr>))" using f by (cases "fillAppData c") simp
  have "\<exists>d1. c1 = put_src s (c\<lparr>c_inAppData := d1\<rparr>)"
    using run x by (cases x) (auto simp: app_Read_def bindS_def)
  then show ?thesis by blast
qed

lemma tls_drain_frame: "tls_drain n c = (ds, r, c') \<Longrightarrow> \<exists>s d. c' = put_src s (c\<lparr>c_inAppData := d\<rparr>)"
proof (induction n c arbitrary: ds rule: tls_drain.induct)
  case (1 n c)
  have self: "c = put_src (src c) (c\<lparr>c_inAppData := c_inAppData c\<rparr>)" by (simp add: put_src_def src_def)
  show ?case
  proof (cases "n = 0")
    case True
    then have "c' = c" using "1.prems" by (simp add: tls_drain.simps [of 0 c])
    then show ?thesis using self by metis
  next
    case False
    obtain r1 c1 where r1: "app_Read n c = (r1, c1)" by (cases "app_Read n c")
    then obtain s d where c1: "c1 = put_src s (c\<lparr>c_inAppData := d\<rparr>)" using app_Read_frame by blast
    show ?thesis
    proof (cases r1)
      case (Ok x)
      then obtain ds2 where "tls_drain n c1 = (ds2, r, c')"
        using "1.prems" False r1 by (auto simp: tls_drain.simps [of n c] split: prod.splits)
      then obtain s2 d2 where "c' = put_src s2 (c1\<lparr>c_inAppData := d2\<rparr>)"
        using "1.IH" [OF False r1 [symmetric] Ok] by blast
      then have "c' = put_src s2 (c\<lparr>c_inAppData := d2\<rparr>)" unfolding c1 by (simp add: put_src_def)
      then show ?thesis by blast
    qed (use "1.prems" False r1 c1 in \<open>auto simp: tls_drain.simps [of n c] simp del: split_paired_Ex put_src_simps\<close>)
  qed
qed

lemma tls_drain_safe: "fst (snd (tls_drain n c)) \<noteq> Panic"
proof (induction n c rule: tls_drain.induct)
  case (1 n c)
  obtain r1 c1 where r1: "app_Read n c = (r1, c1)" by (cases "app_Read n c")
  have "r1 \<noteq> Panic"
    using r1 fillAppData_safe [of c] by (auto simp: app_Read_def bindS_def split: prod.splits res.splits)
  then show ?case
    using "1.IH" [OF _ r1 [symmetric]] r1
    by (cases r1) (auto simp: tls_drain.simps [of n c] split: prod.split)
qed

text \<open>Enough reads of one size drain the connection.\<close>

lemma tls_stream_drain:
  assumes "0 < n" "c_handshakeDone c"
  shows "\<exists>k0. \<forall>k \<ge> k0. tls_stream cr rnd (replicate k n) c = tls_drain n c"
  using assms
proof (induction n c rule: tls_drain.induct)
  case (1 n c)
  note nz = "1.prems"(1)
  obtain r1 c1 where r1: "app_Read n c = (r1, c1)" by (cases "app_Read n c")
  have rd: "tls_Read cr rnd n c = (r1, c1)" using r1 tls_Read_done "1.prems"(2) by metis
  show ?case
  proof (cases r1)
    case (Ok d)
    obtain s2 d2 where "c1 = put_src s2 (c\<lparr>c_inAppData := d2\<rparr>)" using app_Read_frame [OF r1] by blast
    then have "c_handshakeDone c1" using "1.prems"(2) by (simp add: put_src_def)
    moreover have "n \<noteq> 0" using nz by simp
    ultimately obtain k0 where k0: "\<forall>k \<ge> k0. tls_stream cr rnd (replicate k n) c1 = tls_drain n c1"
      using "1.IH" [OF _ r1 [symmetric] Ok nz] by blast
    show ?thesis
    proof (intro exI [of _ "Suc k0"] allI impI)
      fix k assume "Suc k0 \<le> k"
      then obtain k' where "k = Suc k'" "k0 \<le> k'" by (cases k) auto
      then show "tls_stream cr rnd (replicate k n) c = tls_drain n c"
        using k0 rd r1 Ok nz by (simp add: tls_drain.simps [of n c])
    qed
  next
    case (Err e)
    show ?thesis
    proof (intro exI [of _ 1] allI impI)
      fix k :: nat assume "1 \<le> k"
      then obtain k' where "k = Suc k'" by (cases k) auto
      then show "tls_stream cr rnd (replicate k n) c = tls_drain n c"
        using rd r1 Err nz by (simp add: tls_drain.simps [of n c])
    qed
  next
    case Panic
    then show ?thesis using r1 fillAppData_safe [of c]
      by (auto simp: app_Read_def bindS_def split: prod.splits res.splits)
  qed
qed

text \<open>What is written does not depend on what is still to be read.\<close>

lemma writeChunks_frame:
  "writeChunks p w c = (n, r, c1) \<Longrightarrow>
   writeChunks p w (put_src s (c\<lparr>c_inAppData := d\<rparr>)) = (n, r, put_src s (c1\<lparr>c_inAppData := d\<rparr>))"
proof (induction p w c rule: writeChunks.induct)
  case (1 p w c)
  let ?u = "\<lambda>c. put_src s (c\<lparr>c_inAppData := d\<rparr>)"
  show ?case
  proof (cases "p = []")
    case False
    let ?m = "bindS (conn_Seal contentTypeApplicationData (take maxPlaintextLength p)) raw_Write"
    obtain r2 c2 where m: "?m c = (r2, c2)" by (cases "?m c")
    have "conn_Seal t q (?u c) = (fst (conn_Seal t q c), ?u (snd (conn_Seal t q c)))"
      "raw_Write b (?u c) = (fst (raw_Write b c), ?u (snd (raw_Write b c)))" for t q b c
      by (auto simp: conn_Seal_def raw_Write_def put_src_def split: option.split res.split prod.split list.split)
    then have u: "?m (?u c) = (r2, ?u c2)"
      using m by (auto simp: bindS_def simp del: put_src_simps split: prod.splits res.splits)
    show ?thesis
    proof (cases r2)
      case (Ok a)
      then have "writeChunks (drop maxPlaintextLength p) (w + length (take maxPlaintextLength p)) c2 = (n, r, c1)"
        using "1.prems" False m by (simp add: writeChunks.simps [of p] Let_def)
      from "1.IH" [OF False refl m [symmetric] Ok this] show ?thesis
        using False u Ok by (simp add: writeChunks.simps [of p] Let_def del: put_src_simps)
    qed (use "1.prems" False m u in \<open>auto simp: writeChunks.simps [of p] Let_def simp del: put_src_simps\<close>)
  qed (use "1.prems" in \<open>simp add: writeChunks.simps [of "[]"] del: put_src_simps\<close>)
qed

lemma tls_Write_frame:
  assumes "c_handshakeDone c" "tls_Write cr rnd p c = (n, r, c1)"
  shows "tls_Write cr rnd p (put_src s (c\<lparr>c_inAppData := d\<rparr>)) = (n, r, put_src s (c1\<lparr>c_inAppData := d\<rparr>))"
  using assms writeChunks_frame [of p 0 c n r c1 s d]
  by (simp add: tls_Write_def ensureHandshake_def)

subsection \<open>Output only grows\<close>

definition appends :: "(Conn, 'a) action \<Rightarrow> bool" where
  "appends m \<longleftrightarrow> (\<forall>c. prefix (c_out c) (c_out (snd (m c))))"

named_theorems append_intros \<open>actions that only append to the output\<close>

lemma appends_bindS [append_intros]: "appends m \<Longrightarrow> (\<And>a. appends (f a)) \<Longrightarrow> appends (bindS m f)"
  unfolding appends_def
proof
  fix c assume "\<forall>c. prefix (c_out c) (c_out (snd (m c)))" "\<And>a. \<forall>c. prefix (c_out c) (c_out (snd (f a c)))"
  then show "prefix (c_out c) (c_out (snd (bindS m f c)))"
    by (intro bindS_preserves [where P = "\<lambda>c'. prefix (c_out c) (c_out c')"]) (auto intro: prefix_order.trans)
qed

lemma appends_if [append_intros]: "(b \<Longrightarrow> appends m) \<Longrightarrow> (\<not> b \<Longrightarrow> appends n) \<Longrightarrow> appends (if b then m else n)"
  by simp

lemma appends_case_prod [append_intros]: "(\<And>a b. appends (f a b)) \<Longrightarrow> appends (case x of (a, b) \<Rightarrow> f a b)"
  by (simp split: prod.split)

lemma appends_wrapS [append_intros]: "appends m \<Longrightarrow> appends (wrapS ctx m)"
  by (simp add: appends_def wrapS_def case_prod_beta)

lemma appends_pure [append_intros]:
  "appends (liftR r)" "appends (ret a)" "appends (fail e)" "appends (setKeys k k')" "appends (conn_Seal t p)"
  by (auto simp: appends_def liftR_def ret_def fail_def setKeys_def conn_Seal_def
      split: option.split res.split)

lemma appends_raw_Write [append_intros]: "appends (raw_Write out)"
  by (auto simp: appends_def raw_Write_def split: list.split option.split)

lemma appends_tls_writeRecord [append_intros]: "appends (tls_writeRecord t f)"
  unfolding tls_writeRecord_def by (intro append_intros)

lemma appends_writeEncryptedHandshake [append_intros]: "appends (writeEncryptedHandshake m)"
proof -
  have "appends (bindS (conn_Seal contentTypeHandshake m) (\<lambda>sealed. raw_Write sealed))"
    by (intro append_intros)
  then show ?thesis by (simp add: appends_def writeEncryptedHandshake_def)
qed

lemma appends_readHandshakeMessage [append_intros]: "appends readHandshakeMessage"
proof -
  have "c_out (snd (readHandshakeMessage c)) = c_out c" for c
  proof (induction c rule: readHandshakeMessage.induct)
    case (1 c)
    obtain r c1 where r: "conn_readRecord c = (r, c1)" by (cases "conn_readRecord c")
    then have out: "c_out c1 = c_out c" using conn_readRecord_pull [of c] by auto
    show ?case
    proof (cases "takeBufferedHandshake (c_hsBuf c)")
      case None
      show ?thesis
      proof (cases r)
        case (Ok a)
        obtain t p where a: "a = (t, p)" by (cases a)
        show ?thesis
          using "1.IH" [OF None r [symmetric] Ok a [symmetric]] None r Ok a out
          by (auto simp: readHandshakeMessage.simps [of c])
      qed (use None r out in \<open>auto simp: readHandshakeMessage.simps [of c]\<close>)
    qed (auto simp: readHandshakeMessage.simps [of c])
  qed
  then show ?thesis by (simp add: appends_def)
qed

lemma appends_hello_part: "appends (hello_part cr rnd identity)"
  unfolding hello_part_def receiveClientHello_def sendServerHello_def deriveHandshakeKeys_def sendFlight_def
    sendEncrypted_def writePlaintextHandshake_def
  by (intro append_intros)

lemma appends_receiveFinished: "appends (receiveFinished cr schedule tx)"
proof -
  have last: "appends (\<lambda>c. if length (c_hsBuf c) \<noteq> 0 then (Err e, c) else (Ok (), c))" for e
    by (simp add: appends_def)
  show ?thesis
    unfolding receiveFinished_def Let_def by (intro append_intros last)
qed

lemma writeChunks_appends: "prefix (c_out c) (c_out (snd (snd (writeChunks p w c))))"
proof (induction p w c rule: writeChunks.induct)
  case (1 p w c)
  let ?m = "bindS (conn_Seal contentTypeApplicationData (take maxPlaintextLength p)) raw_Write"
  obtain r c1 where m: "?m c = (r, c1)" by (cases "?m c")
  have "appends ?m" by (intro append_intros)
  then have "prefix (c_out c) (c_out c1)" using m unfolding appends_def by (metis snd_conv)
  then show ?case
    using "1.IH" [OF _ refl m [symmetric]] m
    by (cases "p = []"; cases r)
      (auto simp: writeChunks.simps [of p] writeChunks.simps [of "[]"] Let_def intro: prefix_order.trans)
qed

lemma answer_appends:
  assumes "c_handshakeDone c" "answer cr rnd now order mux (tls_drain n c) s = Ok (s', c2)"
  shows "prefix (c_out c) (c_out c2)"
proof -
  obtain data r c1 where dr: "tls_drain n c = (data, r, c1)" by (cases "tls_drain n c")
  obtain s1 d1 where c1: "c1 = put_src s1 (c\<lparr>c_inAppData := d1\<rparr>)" using tls_drain_frame [OF dr] by blast
  then have c: "c_out c1 = c_out c" "c_handshakeDone c1" using assms(1) by simp_all
  have "c2 = c1 \<or> (\<exists>out w r2. tls_Write cr rnd out c1 = (w, r2, c2))"
    using assms(2) dr by (auto simp: answer_def split: if_splits res.splits prod.splits)
  then show ?thesis
    using c writeChunks_appends [of c1] by (auto simp: tls_Write_def ensureHandshake_def) (metis snd_conv)
qed

subsection \<open>Answers\<close>

lemma Serve_continues:
  assumes "ReadRequest (B, Blocked) \<noteq> Err (IOError Blocked)"
  shows "Serve now order mux (B @ d, e) s = Serve now order mux (B, Blocked) s"
  using waits_ReadRequest
proof (cases rule: waits_cases [where B = B])
  case (Refuses x)
  then show ?thesis using Refuses(2) [of "[]" Blocked] by (simp add: Serve_def)
next
  case (Returns a R)
  then show ?thesis using Returns [of "[]" Blocked] by (simp add: Serve_def)
next
  case Panics
  then show ?thesis using Panics [of "[]" Blocked] by (simp add: Serve_def)
qed (use assms in simp)

lemma serve_conn_answer:
  assumes "Handshake cr rnd c = (Ok (), c1)" "c_handshakeDone c1" "0 < n"
    and "answer cr rnd now order mux (tls_drain n c1) s = Ok (s', c2)"
  shows "\<exists>k0. \<forall>k \<ge> k0. serve_conn cr rnd (replicate k n) now order mux c s = (Ok s', raw_close c2)"
proof -
  obtain k0 where k0: "\<forall>k \<ge> k0. tls_stream cr rnd (replicate k n) c1 = tls_drain n c1"
    using tls_stream_drain [OF assms(3,2)] by blast
  obtain data r c3 where dr: "tls_drain n c1 = (data, r, c3)" by (cases "tls_drain n c1")
  have "serve_conn cr rnd (replicate k n) now order mux c s = (Ok s', raw_close c2)" if "k0 \<le> k" for k
    using that k0 assms(1,4) dr
    by (auto simp: serve_conn_def answer_def split: if_splits res.splits prod.splits)
  then show ?thesis by blast
qed

text \<open>An answer that was given would have been given, the same, had more input been there already.\<close>

lemma answer_resumes:
  assumes "c_handshakeDone c" "c_faults c = []" "snd (c_in c) = Blocked" "0 < n"
    and "\<not> request_blocked (tls_drain n c)" "answer cr rnd now order mux (tls_drain n c) s = Ok (s', c2)"
  shows "\<exists>c2'. answer cr rnd now order mux (tls_drain n (feed d e c)) s = Ok (s', c2') \<and> c_out c2' = c_out c2"
proof -
  obtain data r c1 where dr: "tls_drain n c = (data, r, c1)" by (cases "tls_drain n c")
  obtain data' r' c1' where dr': "tls_drain n (feed d e c) = (data', r', c1')" by (cases "tls_drain n (feed d e c)")
  have safe: "r \<noteq> Panic" "r' \<noteq> Panic"
    using tls_drain_safe [of n c] tls_drain_safe [of n "feed d e c"] dr dr' by simp_all
  obtain s1 d1 where c1: "c1 = put_src s1 (c\<lparr>c_inAppData := d1\<rparr>)" using tls_drain_frame [OF dr] by blast
  obtain s2 d2 where c1': "c1' = put_src s2 (feed d e c\<lparr>c_inAppData := d2\<rparr>)" using tls_drain_frame [OF dr'] by blast
  have same: "c1' = put_src s2 (c1\<lparr>c_inAppData := d2\<rparr>)"
    unfolding c1 c1' by (simp add: put_src_def feed_def)
  have flag: "c_handshakeDone c1" using assms(1) by (simp add: c1)
  note ends = tls_drain_resumes [OF assms(4,2,3) dr]
  have serve: "Serve now order mux (stream_reader data' r') s = Serve now order mux (stream_reader data r) s"
  proof (cases "blocked_res r")
    case True
    then have r: "r = Err (ErrIO Blocked)" and "\<exists>x. fst (tls_drain n (feed d e c)) = data @ x"
      using ends by auto
    then obtain x where "data' = data @ x" using dr' by auto
    moreover have "ReadRequest (data, Blocked) \<noteq> Err (IOError Blocked)"
      using assms(5) dr r by (simp add: request_blocked_def)
    ultimately show ?thesis
      using r Serve_continues [of data now order mux] by (simp add: stream_reader_def io_of_def)
  qed (use ends dr' in auto)
  obtain out where out: "Serve now order mux (stream_reader data r) s = Ok (out, s')"
    using assms(6) dr safe by (auto simp: answer_def split: res.splits if_splits prod.splits)
  show ?thesis
  proof (cases "out = []")
    case True
    then have "c2 = c1" "answer cr rnd now order mux (tls_drain n (feed d e c)) s = Ok (s', c1')"
      using assms(6) dr dr' safe out serve by (simp_all add: answer_def)
    then show ?thesis by (simp add: same)
  next
    case False
    obtain w r2 c3 where w: "tls_Write cr rnd out c1 = (w, r2, c3)" by (cases "tls_Write cr rnd out c1")
    then have "c2 = c3" "r2 \<noteq> Panic"
      using assms(6) dr safe out False by (auto simp: answer_def split: res.splits)
    moreover have "tls_Write cr rnd out c1' = (w, r2, put_src s2 (c3\<lparr>c_inAppData := d2\<rparr>))"
      unfolding same by (rule tls_Write_frame [OF flag w])
    ultimately show ?thesis
      using dr' safe out serve False by (cases r2) (auto simp: answer_def)
  qed
qed

text \<open>The routes of the server answer every request without a panic.\<close>

lemma handleCreate_returns: "\<exists>w' s'. handleCreate lib sq req w s = Ok (w', s')"
proof (cases "json_Unmarshal (Body req)")
  case (Inr inp)
  obtain r db where r: "store_Create lib sq (app_clock s) \<lparr>ID = 0, Customer = in_Customer inp, Item = in_Item inp,
      Quantity = in_Quantity inp, PriceCents = in_PriceCents inp, CreatedAt = lib_ZeroTime lib\<rparr> (app_db s) = (r, db)"
    by fastforce
  then have "r \<noteq> Panic" by (auto simp: store_Create_def Let_def split: sum.splits prod.splits)
  then show ?thesis using Inr r by (cases r) (simp_all add: handleCreate_def)
qed (simp add: handleCreate_def)

lemma scanOrder_returns: "scanOrder lib x \<noteq> Panic"
  by (auto simp: scanOrder_def split: sum.split sql_error.split prod.split)

lemma handleList_returns: "\<exists>w' s'. handleList lib sq req w s = Ok (w', s')"
proof -
  have "list_loop lib rs err out \<noteq> Panic" for rs err out
    by (induction rs arbitrary: out) (auto simp: rbind_eq_Panic scanOrder_returns split: option.split)
  then have "store_List lib sq (app_db s) \<noteq> Panic"
    by (simp add: store_List_def split: sum.split prod.split)
  then show ?thesis by (cases "store_List lib sq (app_db s)") (simp_all add: handleList_def Let_def)
qed

lemma handleGet_returns: "\<exists>w' s'. handleGet lib sq req w s = Ok (w', s')"
proof (cases "Atoi (trim_prefix (Path req) (str ''/orders/''))")
  case (Some i)
  have "store_Get lib sq i (app_db s) \<noteq> Panic" by (simp add: store_Get_def scanOrder_returns)
  then show ?thesis using Some
    by (cases "store_Get lib sq i (app_db s)") (auto simp: handleGet_def split: order_error.split)
qed (simp add: handleGet_def)

lemma handlers_return:
  "\<exists>w' s'. orders_handler lib sq req w s = Ok (w', s')" "\<exists>w' s'. order_handler lib sq req w s = Ok (w', s')"
  "\<exists>w' s'. healthz_handler req w s = Ok (w', s')" "\<exists>w' s'. main_handler req w s = Ok (w', s')"
  "has_prefix (Path req) (str ''/echo/'') \<Longrightarrow> \<exists>w' s'. echo_handler req w s = Ok (w', s')"
proof -
  assume "has_prefix (Path req) (str ''/echo/'')"
  then have "take (length (str ''/echo/'')) (Path req) = str ''/echo/''" by (simp add: has_prefix_def)
  from arg_cong [OF this, of length] have "length (str ''/echo/'') \<le> length (Path req)" by simp
  then show "\<exists>w' s'. echo_handler req w s = Ok (w', s')" by (simp add: echo_handler_def slice_from_def)
qed (simp_all add: orders_handler_def order_handler_def handleCreate_returns handleList_returns handleGet_returns
    healthz_handler_def main_handler_def)

lemma server_answers:
  assumes "route_order order (server_mux lib sq)"
  shows "\<exists>out s'. Serve now order (server_mux lib sq) r s = Ok (out, s')"
proof (cases "ReadRequest r")
  case (Ok a)
  obtain req r' where a: "a = (req, r')" by (cases a)
  have "\<exists>w s'. mux_Handle order (server_mux lib sq) req s = Ok (w, s')"
  proof (cases "mux_match order (server_mux lib sq) (Path req)")
    case (Some h)
    have "\<exists>w s'. h req w0 s = Ok (w, s')" for w0
      using server_match_cases [OF assms Some] handlers_return(1,2) [of lib sq req w0 s]
        handlers_return(3-5) [of req w0 s] by auto
    then show ?thesis using Some by (simp add: mux_Handle_def Let_def)
  qed (simp add: mux_Handle_def Let_def)
  then show ?thesis using Ok a by (auto simp: Serve_def)
next
  case (Err e)
  then show ?thesis by (simp add: Serve_def)
qed (use ReadRequest_sound [of r] in simp)

subsection \<open>The invariant of a goroutine\<close>

definition finished :: "('db, 't) config \<Rightarrow> goroutine \<Rightarrow> bool" where
  "finished cf g \<longleftrightarrow> refused cf g \<or> (\<exists>m s s'. route_order (fst (snd m)) (cf_mux cf) \<and> served cf g m s s')"

definition go_inv :: "('db, 't) config \<Rightarrow> goroutine \<Rightarrow> bool" where
  "go_inv cf g \<longleftrightarrow>
     (let start = conn_on cf (g_got g) (g_end g); cr = cf_crypto cf; rnd = g_rnd g in
      g_end g \<in> {Blocked, EOF} \<and> g_sent g \<le> length (c_out (g_conn g))
      \<and> tls_env cr rnd start
      \<and> (case g_phase g of
           AwaitHello \<Rightarrow> g_conn g = start
         | AwaitFinished schedule tx \<Rightarrow> hello_part cr rnd (cf_identity cf) start = (Ok (schedule, tx), g_conn g)
         | AwaitRequest \<Rightarrow> Handshake cr rnd start = (Ok (), g_conn g)
         | Answered \<Rightarrow> finished cf g
         | Closed \<Rightarrow> g_sent g = length (c_out (g_conn g)) \<and> finished cf g))"

definition same_input :: "goroutine \<Rightarrow> goroutine \<Rightarrow> bool" where
  "same_input g g' \<longleftrightarrow> g_tcp g' = g_tcp g \<and> g_rnd g' = g_rnd g \<and> g_sent g' = g_sent g
     \<and> g_got g' = g_got g \<and> g_end g' = g_end g"

lemma same_input_update [simp]:
  "same_input g g" "same_input g (g\<lparr>g_phase := ph, g_conn := c\<rparr>)"
  by (simp_all add: same_input_def)

lemma go_inv_start:
  assumes "go_inv cf g"
  shows "g_end g = Blocked \<or> g_end g = EOF" "g_sent g \<le> length (c_out (g_conn g))"
    "tls_env (cf_crypto cf) (g_rnd g) (conn_on cf (g_got g) (g_end g))"
  using assms by (auto simp: go_inv_def Let_def)

lemma hs_parts_safe:
  assumes "tls_env cr rnd (conn_on cf B e)"
  shows "fst (hs_parts cr rnd (cf_identity cf) (conn_on cf B e)) \<noteq> Panic"
proof -
  obtain r c where h: "Handshake cr rnd (conn_on cf B e) = (r, c)" by (cases "Handshake cr rnd (conn_on cf B e)")
  have "tls_inv (conn_on cf B e)" by (simp add: tls_inv_def)
  then have "r \<noteq> Panic" using Handshake_safe [OF assms _ h] by blast
  then show ?thesis using h by (auto simp: Handshake_conn_on split: prod.splits res.splits)
qed

lemma refusedI:
  assumes "hs_parts (cf_crypto cf) (g_rnd g) (cf_identity cf) (conn_on cf (g_got g) (g_end g)) = (Err x, c)"
    "\<not> is_blocked x" "c_out (g_conn g) = c_out c"
  shows "refused cf g"
  unfolding refused_def
proof (intro exI [of _ x] allI impI)
  fix d e assume "continues g d e"
  then obtain c' where "hs_parts (cf_crypto cf) (g_rnd g) (cf_identity cf) (conn_on cf (g_got g @ d) e) = (Err x, c')"
      "c' = c \<or> c' = feed d e c"
    using resumes_continues [OF resumes_hs_parts assms(1)] assms(2) by auto
  then show "\<exists>c'. Handshake (cf_crypto cf) (g_rnd g) (conn_on cf (g_got g @ d) e) = (Err x, c')
      \<and> c_out c' = c_out (g_conn g)"
    using assms(3) by (auto simp: Handshake_conn_on)
qed

lemma servedI:
  assumes "Handshake (cf_crypto cf) (g_rnd g) (conn_on cf (g_got g) (g_end g)) = (Ok (), c)"
    "\<not> request_blocked (tls_drain bufio_size c)"
    "answer (cf_crypto cf) (g_rnd g) now order (cf_mux cf) (tls_drain bufio_size c) (s\<lparr>app_clock := t\<rparr>) = Ok (s', c2)"
    "c_out (g_conn g) = c_out c2"
  shows "served cf g (now, order, t) s s'"
  unfolding served_def prod.case
proof (intro allI impI)
  fix d e assume cont: "continues g d e"
  obtain c0 where c0: "hs_parts (cf_crypto cf) (g_rnd g) (cf_identity cf) (conn_on cf (g_got g) (g_end g)) = (Ok (), c0)"
      "c = c0\<lparr>c_handshakeDone := True\<rparr>"
    using assms(1) by (auto simp: Handshake_conn_on split: prod.splits res.splits)
  have pos: "0 < bufio_size" by (simp add: bufio_size_def)
  have "\<exists>c1 c2'. Handshake (cf_crypto cf) (g_rnd g) (conn_on cf (g_got g @ d) e) = (Ok (), c1) \<and> c_handshakeDone c1
      \<and> answer (cf_crypto cf) (g_rnd g) now order (cf_mux cf) (tls_drain bufio_size c1) (s\<lparr>app_clock := t\<rparr>) = Ok (s', c2')
      \<and> c_out c2' = c_out c2"
  proof (cases "g_end g = Blocked")
    case True
    have at: "resumes_at (hs_parts (cf_crypto cf) (g_rnd g) (cf_identity cf)) (conn_on cf (g_got g) (g_end g))"
      by (rule resumesD [OF resumes_hs_parts]) (simp_all add: True)
    note run = resumes_at_run [OF at c0(1)]
    have "Handshake (cf_crypto cf) (g_rnd g) (conn_on cf (g_got g @ d) e) = (Ok (), feed d e c)"
      using run(3) [of d e] by (simp add: Handshake_conn_on c0(2))
    moreover have "c_handshakeDone c" "c_faults c = []" "snd (c_in c) = Blocked" using run(1,2) c0(2) by simp_all
    moreover note answer_resumes [OF this pos assms(2,3), of d e]
    ultimately show ?thesis by auto
  next
    case False
    then have "d = []" "e = g_end g" using cont by (simp_all add: continues_def)
    then show ?thesis using assms(1,3) c0(2) by auto
  qed
  then obtain c1 c2' where c1: "Handshake (cf_crypto cf) (g_rnd g) (conn_on cf (g_got g @ d) e) = (Ok (), c1)"
      "c_handshakeDone c1"
      "answer (cf_crypto cf) (g_rnd g) now order (cf_mux cf) (tls_drain bufio_size c1) (s\<lparr>app_clock := t\<rparr>) = Ok (s', c2')"
      "c_out c2' = c_out c2" by blast
  have "c_out (raw_close c2') = c_out (g_conn g)" using c1(4) assms(4) by (simp add: raw_close_def)
  then show "\<exists>k0. \<forall>k \<ge> k0. \<exists>c'. serve_conn (cf_crypto cf) (g_rnd g) (replicate k bufio_size) now order (cf_mux cf)
      (conn_on cf (g_got g @ d) e) (s\<lparr>app_clock := t\<rparr>) = (Ok s', c') \<and> c_out c' = c_out (g_conn g)"
    using serve_conn_answer [OF c1(1,2) pos c1(3)] by blast
qed

text \<open>The answer of a connection whose handshake is done does not panic.\<close>

lemma answer_returns:
  assumes "c_handshakeDone c" "c_writeKeys c \<noteq> None" "route_order order (server_mux lib sq)"
  shows "\<exists>s' c2. answer cr rnd now order (server_mux lib sq) (tls_drain n c) s = Ok (s', c2)"
proof -
  obtain data r c1 where dr: "tls_drain n c = (data, r, c1)" by (cases "tls_drain n c")
  obtain s1 d1 where c1: "c1 = put_src s1 (c\<lparr>c_inAppData := d1\<rparr>)" using tls_drain_frame [OF dr] by blast
  obtain out s' where out: "Serve now order (server_mux lib sq) (stream_reader data r) s = Ok (out, s')"
    using server_answers [OF assms(3)] by blast
  obtain w r2 c2 where w: "tls_Write cr rnd out c1 = (w, r2, c2)" by (cases "tls_Write cr rnd out c1")
  have "r2 \<noteq> Panic"
    using w writeChunks_safe [of c1 out 0 w r2 c2] assms(1,2) by (simp add: c1 tls_Write_def ensureHandshake_def)
  moreover have "r \<noteq> Panic" using tls_drain_safe [of n c] dr by simp
  ultimately show ?thesis using dr out w by (cases r2) (simp_all add: answer_def)
qed

text \<open>
  What a run of a goroutine to its next wait does: it keeps the invariant and the input, only adds to the output,
  and if it came to its end, it answered a request or its handshake failed and nothing else happened.
\<close>

definition advanced ::
  "('db, 't) config \<Rightarrow> ('db, 't) moment \<Rightarrow> goroutine \<Rightarrow> ('db, 't) app \<Rightarrow> ('db, 't) app \<times> goroutine \<Rightarrow> bool" where
  "advanced cf m g s r \<longleftrightarrow> (case r of (s', g') \<Rightarrow>
     go_inv cf g' \<and> same_input g g' \<and> prefix (c_out (g_conn g)) (c_out (g_conn g')) \<and> g_phase g' \<noteq> Closed
     \<and> (if g_phase g' = Answered \<and> g_phase g = AwaitRequest then served cf g' m s s'
        else s' = s \<and> (g_phase g' = Answered \<longrightarrow> refused cf g')))"

lemma advanced_stays:
  assumes "go_inv cf g" "awaits g"
  shows "advanced cf m g s (s, g)"
  using assms by (auto simp: advanced_def awaits_def)

lemma go_inv_room:
  assumes "go_inv cf g" "prefix (c_out (g_conn g)) out"
  shows "g_sent g \<le> length out"
  using go_inv_start(2) [OF assms(1)] prefix_length_le [OF assms(2)] by simp

lemma advanced_refused:
  assumes "go_inv cf g" "prefix (c_out (g_conn g)) (c_out c)" "\<not> is_blocked x" "g_phase g \<noteq> AwaitRequest"
    "hs_parts (cf_crypto cf) (g_rnd g) (cf_identity cf) (conn_on cf (g_got g) (g_end g)) = (Err x, c)"
  shows "advanced cf m g s (s, g\<lparr>g_phase := Answered, g_conn := c\<rparr>)"
proof -
  let ?g = "g\<lparr>g_phase := Answered, g_conn := c\<rparr>"
  have "refused cf ?g" using assms(3,5) by (intro refusedI [of cf ?g x c]) simp_all
  moreover from this have "go_inv cf ?g"
    using go_inv_start [OF assms(1)] go_inv_room [OF assms(1,2)] by (simp add: go_inv_def Let_def finished_def)
  ultimately show ?thesis using assms(2,4) by (simp add: advanced_def)
qed

lemma advance_hello:
  assumes inv: "go_inv cf g" and wait: "awaits g" and ph: "g_phase g = AwaitHello"
  shows "\<exists>r. advance cf m g s = Ok r \<and> advanced cf m g s r"
proof -
  let ?run = "hello_part (cf_crypto cf) (g_rnd g) (cf_identity cf)"
  have conn: "g_conn g = conn_on cf (g_got g) (g_end g)" using inv ph by (simp add: go_inv_def Let_def)
  obtain r c where r: "?run (g_conn g) = (r, c)" by (cases "?run (g_conn g)")
  have grow: "prefix (c_out (g_conn g)) (c_out c)"
    using appends_hello_part r unfolding appends_def by (metis snd_conv)
  show ?thesis
  proof (cases r)
    case (Ok st)
    obtain schedule tx where st: "st = (schedule, tx)" by (cases st)
    let ?g = "g\<lparr>g_phase := AwaitFinished schedule tx, g_conn := c\<rparr>"
    have "go_inv cf ?g"
      using r Ok st conn go_inv_start [OF inv] go_inv_room [OF inv grow] by (simp add: go_inv_def Let_def)
    then show ?thesis using r Ok st ph grow by (auto simp: advance_def advanced_def split: prod.split)
  next
    case (Err x)
    have "hs_parts (cf_crypto cf) (g_rnd g) (cf_identity cf) (conn_on cf (g_got g) (g_end g)) = (Err x, c)"
      using r Err conn by (simp add: hs_parts_def bindS_def)
    then show ?thesis
      using advanced_refused [OF inv grow] advanced_stays [OF inv wait] r Err ph
      by (cases "is_blocked x") (auto simp: advance_def split: prod.split)
  next
    case Panic
    then show ?thesis
      using hs_parts_safe [OF go_inv_start(3) [OF inv]] r conn by (simp add: hs_parts_def bindS_def)
  qed
qed

lemma advance_finished:
  assumes inv: "go_inv cf g" and wait: "awaits g" and ph: "g_phase g = AwaitFinished schedule tx"
  shows "\<exists>r. advance cf m g s = Ok r \<and> advanced cf m g s r"
proof -
  let ?run = "receiveFinished (cf_crypto cf) schedule tx"
  obtain r c where r: "?run (g_conn g) = (r, c)" by (cases "?run (g_conn g)")
  have hs: "hs_parts (cf_crypto cf) (g_rnd g) (cf_identity cf) (conn_on cf (g_got g) (g_end g)) = (r, c)"
    using inv ph r by (simp add: go_inv_def Let_def hs_parts_def bindS_def)
  have grow: "prefix (c_out (g_conn g)) (c_out c)"
    using appends_receiveFinished r unfolding appends_def by (metis snd_conv)
  show ?thesis
  proof (cases r)
    case (Ok u)
    let ?g = "g\<lparr>g_phase := AwaitRequest, g_conn := c\<lparr>c_handshakeDone := True\<rparr>\<rparr>"
    have "go_inv cf ?g"
      using hs Ok go_inv_start [OF inv] go_inv_room [OF inv grow] by (simp add: go_inv_def Let_def Handshake_conn_on)
    then show ?thesis using r Ok ph grow by (auto simp: advance_def advanced_def split: prod.split)
  next
    case (Err x)
    then show ?thesis
      using advanced_refused [OF inv grow _ _ hs [unfolded Err]] advanced_stays [OF inv wait] r ph
      by (cases "is_blocked x") (auto simp: advance_def split: prod.split)
  qed (use hs_parts_safe [OF go_inv_start(3) [OF inv]] hs in simp)
qed

lemma advance_request:
  assumes inv: "go_inv cf g" and wait: "awaits g" and ph: "g_phase g = AwaitRequest"
    and order: "route_order (fst (snd m)) (cf_mux cf)"
  shows "\<exists>r. advance cf m g s = Ok r \<and> advanced cf m g s r"
proof -
  obtain now order t where m: "m = (now, order, t)" by (cases m)
  let ?start = "conn_on cf (g_got g) (g_end g)" and ?d = "tls_drain bufio_size (g_conn g)"
  note base = go_inv_start [OF inv]
  have hs: "Handshake (cf_crypto cf) (g_rnd g) ?start = (Ok (), g_conn g)"
    using inv ph by (simp add: go_inv_def Let_def)
  have "tls_inv ?start" by (simp add: tls_inv_def)
  then have up: "c_handshakeDone (g_conn g)" "c_writeKeys (g_conn g) \<noteq> None"
    using Handshake_safe [OF base(3) _ hs] by (simp_all add: tls_inv_def)
  show ?thesis
  proof (cases "request_blocked ?d")
    case True
    then show ?thesis using advanced_stays [OF inv wait] ph m by (simp add: advance_def Let_def)
  next
    case False
    obtain s' c2 where a: "answer (cf_crypto cf) (g_rnd g) now order (cf_mux cf) ?d (s\<lparr>app_clock := t\<rparr>) = Ok (s', c2)"
      using answer_returns [OF up, of order] order m by fastforce
    let ?g = "g\<lparr>g_phase := Answered, g_conn := c2\<rparr>"
    have grow: "prefix (c_out (g_conn g)) (c_out c2)" by (rule answer_appends [OF up(1) a])
    have "served cf ?g m s s'"
      unfolding m using hs False a by (intro servedI [of cf ?g "g_conn g"]) simp_all
    moreover from this have "go_inv cf ?g"
      using base go_inv_room [OF inv grow] order by (auto simp: go_inv_def Let_def finished_def simp del: split_paired_Ex)
    ultimately show ?thesis using a False ph grow m by (simp add: advance_def advanced_def Let_def)
  qed
qed

lemma advance_keeps:
  assumes "go_inv cf g" "awaits g" "route_order (fst (snd m)) (cf_mux cf)"
  shows "\<exists>r. advance cf m g s = Ok r \<and> advanced cf m g s r"
  using assms advance_hello [of cf g m s] advance_finished [of cf g _ _ m s] advance_request [of cf g m s]
  by (cases "g_phase g") (auto simp: awaits_def)

subsection \<open>Every step keeps the invariants\<close>

lemma go_inv_feed:
  assumes "go_inv cf g" "g_end g = Blocked" "awaits g" "e = Blocked \<or> e = EOF"
  shows "go_inv cf (g\<lparr>g_conn := feed d e (g_conn g), g_got := g_got g @ d, g_end := e\<rparr>)"
proof -
  let ?start = "conn_on cf (g_got g) Blocked"
  have at: "resumes m \<Longrightarrow> resumes_at m ?start" for m :: "(Conn, 'a) action"
    by (rule resumesD) simp_all
  have env: "tls_env (cf_crypto cf) (g_rnd g) (conn_on cf (g_got g @ d) e)"
    using go_inv_start(3) [OF assms(1)] by (simp add: tls_env_def)
  show ?thesis
  proof (cases "g_phase g")
    case (AwaitFinished schedule tx)
    then have "hello_part (cf_crypto cf) (g_rnd g) (cf_identity cf) ?start = (Ok (schedule, tx), g_conn g)"
      using assms(1,2) by (simp add: go_inv_def Let_def)
    from resumes_at_run(3) [OF resumesD [OF resumes_hello_part] this, of d e] show ?thesis
      using AwaitFinished assms env by (simp add: go_inv_def Let_def)
  next
    case AwaitRequest
    then have h: "Handshake (cf_crypto cf) (g_rnd g) ?start = (Ok (), g_conn g)"
      using assms(1,2) by (simp add: go_inv_def Let_def)
    then obtain c0 where c0: "hs_parts (cf_crypto cf) (g_rnd g) (cf_identity cf) ?start = (Ok (), c0)"
        "g_conn g = c0\<lparr>c_handshakeDone := True\<rparr>"
      by (auto simp: Handshake_conn_on split: prod.splits res.splits)
    have "hs_parts (cf_crypto cf) (g_rnd g) (cf_identity cf) (conn_on cf (g_got g @ d) e) = (Ok (), feed d e c0)"
      using resumes_at_run(3) [OF resumesD [OF resumes_hs_parts] c0(1), of d e] by simp
    then show ?thesis using AwaitRequest assms env c0(2) by (simp add: go_inv_def Let_def Handshake_conn_on)
  qed (use assms env in \<open>simp_all add: go_inv_def Let_def awaits_def\<close>)
qed

lemma go_inv_take_read:
  assumes "go_inv cf g" "g_end g = Blocked" "awaits g"
  shows "go_inv cf (take_read r g)"
proof (cases r)
  case (ReadData d)
  have "take_read r g = g\<lparr>g_conn := feed d Blocked (g_conn g), g_got := g_got g @ d, g_end := Blocked\<rparr>"
    using ReadData assms(2) by (cases g) (simp add: take_read_def)
  then show ?thesis using go_inv_feed [OF assms, of Blocked d] by simp
next
  case ReadEOF
  have "take_read r g = g\<lparr>g_conn := feed [] EOF (g_conn g), g_got := g_got g @ [], g_end := EOF\<rparr>"
    using ReadEOF by (cases g) (simp add: take_read_def)
  then show ?thesis using go_inv_feed [OF assms, of EOF "[]"] by simp
qed (use assms in \<open>simp add: take_read_def\<close>)

lemma served_cong:
  assumes "g_rnd g' = g_rnd g" "g_got g' = g_got g" "g_end g' = g_end g" "c_out (g_conn g') = c_out (g_conn g)"
  shows "served cf g' = served cf g" "refused cf g' = refused cf g"
  by (intro ext) (simp_all add: served_def refused_def continues_def assms)

lemma finished_cong:
  assumes "g_rnd g' = g_rnd g" "g_got g' = g_got g" "g_end g' = g_end g" "c_out (g_conn g') = c_out (g_conn g)"
  shows "finished cf g' = finished cf g"
  by (simp add: finished_def served_cong [OF assms])

lemma go_inv_sent:
  assumes "go_inv cf g"
  shows "go_inv cf (g\<lparr>g_sent := min (g_sent g + k) (length (c_out (g_conn g)))\<rparr>)" (is "go_inv cf ?g")
proof -
  have "finished cf ?g = finished cf g" by (rule finished_cong; simp)
  then show ?thesis using assms by (auto simp: go_inv_def Let_def split: phase.split)
qed

lemma go_inv_close:
  assumes "go_inv cf g" "g_phase g = Answered" "g_sent g = length (c_out (g_conn g))"
  shows "go_inv cf (g\<lparr>g_phase := Closed\<rparr>)" (is "go_inv cf ?g")
proof -
  have "finished cf ?g = finished cf g" by (rule finished_cong; simp)
  then show ?thesis using assms by (simp add: go_inv_def Let_def)
qed

definition sys_inv :: "('db, 't) config \<Rightarrow> ('db, 't) system \<Rightarrow> bool" where
  "sys_inv cf S \<longleftrightarrow> stack_inv (sys_stack S) \<and> (\<forall>g \<in> set (sys_go S). go_inv cf g)"

text \<open>
  The draws of a new goroutine fit their fields, as do the certificate and the signatures; a route order is an
  order of the routes.
\<close>

fun event_ok :: "('db, 't) config \<Rightarrow> ('db, 't) sys_event \<Rightarrow> bool" where
  "event_ok cf (Accept rnd) \<longleftrightarrow> tls_env (cf_crypto cf) rnd (conn_on cf [] Blocked)"
| "event_ok cf (Advance j m) \<longleftrightarrow> route_order (fst (snd m)) (cf_mux cf)"
| "event_ok cf _ \<longleftrightarrow> True"

lemma go_at_inv: "sys_inv cf S \<Longrightarrow> go_at S j = Some g \<Longrightarrow> go_inv cf g"
  by (auto simp: sys_inv_def go_at_def split: if_splits)

lemma put_go_simps [simp]:
  "sys_go (put_go j g S) = (sys_go S)[j := g]" "sys_stack (put_go j g S) = sys_stack S"
  "sys_app (put_go j g S) = sys_app S" "sys_log (put_go j g S) = sys_log S"
  by (simp_all add: put_go_def)

lemma go_step_keeps:
  assumes "sys_inv cf S" "event_ok cf ev"
  shows "\<exists>S'. go_step cf ev S = Ok S' \<and> (\<forall>g \<in> set (sys_go S'). go_inv cf g)"
proof -
  have all: "\<forall>g \<in> set (sys_go S). go_inv cf g" using assms(1) by (simp add: sys_inv_def)
  then have upd: "\<forall>g \<in> set ((sys_go S)[j := g']). go_inv cf g" if "go_inv cf g'" for j g'
    using that set_update_subset_insert [of "sys_go S" j g'] by blast
  show ?thesis
  proof (cases ev)
    case (Accept rnd)
    have "go_inv cf (spawn cf i rnd)" for i
      using assms(2) Accept by (simp add: go_inv_def spawn_def conn_on_def tls_Server_def)
    then show ?thesis using all Accept by (auto split: option.split)
  next
    case (Fetch j n)
    show ?thesis
      using all Fetch go_at_inv [OF assms(1)] upd [OF go_inv_take_read] by (simp split: option.split) blast
  next
    case (Advance j m)
    show ?thesis
    proof (cases "go_at S j")
      case (Some g)
      show ?thesis
      proof (cases "awaits g")
        case True
        obtain s' g' where "advance cf m g (sys_app S) = Ok (s', g')" "go_inv cf g'"
          using advance_keeps [OF go_at_inv [OF assms(1) Some] True, of m "sys_app S"] assms(2) Advance
          by (auto simp: advanced_def)
        then show ?thesis using Advance Some True upd by simp
      qed (use all Advance Some in simp)
    qed (use all Advance in simp)
  next
    case (Flush j k)
    then show ?thesis using all go_at_inv [OF assms(1)] upd [OF go_inv_sent] by (simp split: option.split) blast
  next
    case (Finish j)
    then show ?thesis using all go_at_inv [OF assms(1)] upd [OF go_inv_close] by (simp split: option.split) blast
  qed (use all in simp)
qed

lemma sys_exec_keeps:
  assumes "sys_inv cf S" "event_ok cf ev"
  shows "\<exists>S' out. sys_exec cf ev S = Ok (S', out) \<and> sys_inv cf S'"
proof -
  obtain st out where st: "(case tcp_event cf ev S of None \<Rightarrow> Ok (sys_stack S, []) | Some e \<Rightarrow> exec e (sys_stack S)) = Ok (st, out)"
      "stack_inv st"
  proof (cases "tcp_event cf ev S")
    case (Some e)
    then show ?thesis using exec_keeps [of "sys_stack S" e] assms(1) that by (auto simp: sys_inv_def)
  qed (use assms(1) that in \<open>simp add: sys_inv_def\<close>)
  obtain S' where "go_step cf ev S = Ok S'" "\<forall>g \<in> set (sys_go S'). go_inv cf g"
    using go_step_keeps [OF assms] by blast
  then show ?thesis using st by (simp add: sys_exec_def sys_inv_def)
qed

lemma sys_run_keeps:
  "sys_inv cf S \<Longrightarrow> list_all (event_ok cf) evs \<Longrightarrow> \<exists>S' out. sys_run cf evs S = Ok (S', out) \<and> sys_inv cf S'"
proof (induction evs arbitrary: S)
  case (Cons ev evs)
  obtain S1 o1 where 1: "sys_exec cf ev S = Ok (S1, o1)" "sys_inv cf S1"
    using sys_exec_keeps [OF Cons.prems(1), of ev] Cons.prems(2) by auto
  then show ?case using Cons.IH [OF 1(2)] Cons.prems(2) by auto
qed simp

text \<open>The stack under a run goes through the operations of its trace.\<close>

lemma sys_run_trace:
  "sys_run cf evs S = Ok (S', out) \<Longrightarrow> run_events (tcp_trace cf evs S) (sys_stack S) = Ok (sys_stack S', out)"
proof (induction evs arbitrary: S out)
  case (Cons ev evs)
  obtain S1 o1 o2 where 1: "sys_exec cf ev S = Ok (S1, o1)" "sys_run cf evs S1 = Ok (S', o2)" "out = o1 @ o2"
    using Cons.prems by (auto simp: rbind_eq_Ok)
  note rest = Cons.IH [OF 1(2)]
  show ?case
    using 1 rest by (cases "tcp_event cf ev S") (auto simp: sys_exec_def rbind_eq_Ok)
qed simp

end
