(* ===== verification/Tcp_Transmit.thy ===== *)
theory Tcp_Transmit
  imports Tcp_Behaviour
begin

unbundle bit_operations_syntax

section \<open>What the stack sends for a connection\<close>

text \<open>
  The counterpart of the receive side: whatever happens, the data segments that leave the stack for a connection
  are slices of the byte stream that the application has written to it, each at its sequence number. A frame is
  the connection's when the operation that sends it is: a frame of its four-tuple that is handled, an
  application call or timer on it, or the blocked receive loop that goes on with it.
\<close>

fun acts_on :: "event \<Rightarrow> Stack \<Rightarrow> nat option" where
  "acts_on (Recv draw data src) s = (if blocked s \<noteq> None then None else
     (case parse_layers data of Ok (f, p, seg) \<Rightarrow> connections s (segment_key p seg) | _ \<Rightarrow> None))"
| "acts_on Resume s = map_option pending_conn (blocked s)"
| "acts_on (OnConn j opn) s = Some j"
| "acts_on _ s = None"

fun writes_of :: "nat \<Rightarrow> event \<Rightarrow> bytes" where
  "writes_of i (OnConn j (OpWrite d)) = (if j = i then d else [])"
| "writes_of i _ = []"

definition written :: "nat \<Rightarrow> event list \<Rightarrow> bytes" where
  "written i es = concat (map (writes_of i) es)"

text \<open>Until the connection is torn down, by a reset or after both sides have closed.\<close>

definition torn_down :: "nat \<Rightarrow> Stack \<Rightarrow> bool" where
  "torn_down i s \<longleftrightarrow> (case conn_at s i of None \<Rightarrow> True | Some c \<Rightarrow> State c = CLOSED)"

fun sent_frames :: "nat \<Rightarrow> event list \<Rightarrow> Stack \<Rightarrow> emission list" where
  "sent_frames i [] s = []"
| "sent_frames i (e # es) s = (if torn_down i s then [] else case exec e s of
     Ok (s1, out) \<Rightarrow> (if acts_on e s = Some i then out else []) @ sent_frames i es s1 | _ \<Rightarrow> [])"

fun stays_up :: "nat \<Rightarrow> event list \<Rightarrow> Stack \<Rightarrow> bool" where
  "stays_up i [] s \<longleftrightarrow> \<not> torn_down i s"
| "stays_up i (e # es) s \<longleftrightarrow> \<not> torn_down i s \<and> (case exec e s of Ok (s1, out) \<Rightarrow> stays_up i es s1 | _ \<Rightarrow> False)"

text \<open>
  Where the bytes stand in the sequence space: \<open>fins\<close> tells of each FIN that was sent how many stream bytes had
  gone out before it. Each FIN takes one number, so byte \<open>n\<close> of the stream stands behind \<open>n\<close> bytes and the
  FINs at or before it. Without a FIN this is its place in the stream.
\<close>

definition closes :: "nat \<Rightarrow> event list \<Rightarrow> nat" where
  "closes i es = length (filter (\<lambda>e. e = OnConn i OpClose) es)"

definition place :: "nat list \<Rightarrow> nat \<Rightarrow> nat" where
  "place fins n = n + length (filter (\<lambda>f. f \<le> n) fins)"

text \<open>The queue from stream position \<open>n\<close> on: each segment at the number of its first byte, no FIN inside it.\<close>

fun placed :: "u32 \<Rightarrow> nat list \<Rightarrow> nat \<Rightarrow> sentSegment list \<Rightarrow> bool" where
  "placed base fins n [] \<longleftrightarrow> True"
| "placed base fins n (s # q) \<longleftrightarrow> ss_seqNum s = base + of_nat (place fins n)
     \<and> (\<forall>f \<in> set fins. f \<le> n \<or> n + length (ss_data s) \<le> f) \<and> placed base fins (n + length (ss_data s)) q"

text \<open>
  A frame for the peer of the four-tuple \<open>k\<close> that carries bytes of the stream \<open>W\<close> which starts at number
  \<open>base\<close>, from the first \<open>sent\<close> bytes, at their place; a FIN carries none and has its own place.
\<close>

definition reply_key :: "IPv4Packet \<Rightarrow> TCPSegment \<Rightarrow> ConnectionKey" where
  "reply_key p seg = \<lparr>key_SrcIP = ip_DstIP p, key_SrcPort = DestPort seg, key_DstIP = ip_SrcIP p,
     key_DstPort = SourcePort seg\<rparr>"

definition slice_at :: "u32 \<Rightarrow> nat list \<Rightarrow> bytes \<Rightarrow> nat \<Rightarrow> u32 \<Rightarrow> bytes \<Rightarrow> bool" where
  "slice_at base fins W sent sq d \<longleftrightarrow> (\<exists>n. n + length d \<le> sent \<and> d = take (length d) (drop n W)
     \<and> sq = base + of_nat (place fins n) \<and> (\<forall>f \<in> set fins. f \<le> n \<or> n + length d \<le> f))"

definition carries :: "ConnectionKey \<Rightarrow> u32 \<Rightarrow> nat list \<Rightarrow> bytes \<Rightarrow> nat \<Rightarrow> emission \<Rightarrow> bool" where
  "carries k base fins W sent x \<longleftrightarrow> (\<exists>f p seg. parse_layers (snd x) = Ok (f, p, seg) \<and> reply_key p seg = k
     \<and> (if Flags seg AND FIN \<noteq> 0
        then tcp_Payload seg = [] \<and> (\<exists>j < length fins. SeqNum seg = base + of_nat (fins ! j + j))
        else tcp_Payload seg = [] \<or> slice_at base fins W sent (SeqNum seg) (tcp_Payload seg)))"

text \<open>
  The send invariant of a connection that has sent the first \<open>m\<close> bytes of \<open>W\<close>: the retransmission queue and the
  buffer together are what of the stream is not acknowledged yet, the queue stands at its places, and SND.NXT
  counts the bytes and the FINs.
\<close>

definition tx_ok :: "u32 \<Rightarrow> nat list \<Rightarrow> bytes \<Rightarrow> nat \<Rightarrow> TCPConnection \<Rightarrow> bool" where
  "tx_ok base fins W m c \<longleftrightarrow> State c = CLOSED \<or> (\<exists>n. n + length (queue_bytes (sendQueue c)) = m \<and> m \<le> length W
     \<and> queue_bytes (sendQueue c) @ sendUnsent c = drop n W \<and> placed base fins n (sendQueue c)
     \<and> SendSeqNum c = base + of_nat (m + length fins) \<and> (\<forall>f \<in> set fins. f \<le> m)
     \<and> (\<forall>s \<in> set (sendQueue c). ss_flags s AND FIN = 0))"

lemma carries_out:
  assumes "conn_key c = k" "options_aligned opts" "length d \<le> 65435"
    "if flags AND FIN \<noteq> 0 then d = [] \<and> (\<exists>j < length fins. sq = base + of_nat (fins ! j + j))
     else d = [] \<or> slice_at base fins W m sq d"
  shows "carries k base fins W m (src, out_bytes c flags d sq opts frame)"
proof -
  obtain f p seg where "parse_layers (out_bytes c flags d sq opts frame) = Ok (f, p, seg)"
      "ip_SrcIP p = LocalIP c" "ip_DstIP p = RemoteIP c"
      "seg = (out_segment c flags d sq opts)\<lparr>tcp_Checksum := out_checksum c flags d sq opts\<rparr>"
    using parse_layers_out_bytes [OF assms(2,3), of c flags sq frame "[]"] by auto
  then show ?thesis
    using assms(1,4) unfolding carries_def
    by (intro exI [of _ f] exI [of _ p] exI [of _ seg])
      (simp add: reply_key_def conn_key_def out_segment_def split: if_splits)
qed

lemma flags_no_FIN [simp]: "ACK AND FIN = (0 :: byte)" "(ACK OR PSH) AND FIN = (0 :: byte)" "(FIN OR ACK) AND FIN \<noteq> (0 :: byte)"
  by (simp_all add: flag_defs)

lemma carries_bare [simp]: "conn_key c = k \<Longrightarrow> carries k base fins W m (src, out_bytes c ACK [] sq [] frame)"
  by (rule carries_out) (simp_all add: options_aligned_def)

lemma carries_mono:
  assumes "carries k base fins W m x" "m \<le> m'" "\<forall>d \<in> set ds. m \<le> d"
  shows "carries k base (fins @ ds) (W @ W') m' x"
proof -
  have slice: "slice_at base (fins @ ds) (W @ W') m' sq d" if sl: "slice_at base fins W m sq d" "d \<noteq> []" for sq d
  proof -
    obtain n where n: "n + length d \<le> m" "d = take (length d) (drop n W)" "sq = base + of_nat (place fins n)"
        "\<forall>f \<in> set fins. f \<le> n \<or> n + length d \<le> f"
      using sl(1) unfolding slice_at_def by blast
    have "n < m" using n(1) sl(2) by (cases d) auto
    then have "\<not> d \<le> n" if "d \<in> set ds" for d using assms(3) that by fastforce
    then have "filter (\<lambda>f. f \<le> n) ds = []" by (simp add: filter_empty_conv)
    then have "place (fins @ ds) n = place fins n" by (simp add: place_def)
    moreover have "\<forall>f \<in> set ds. n + length d \<le> f" using n(1) assms(3) by fastforce
    moreover have "d = take (length d) (drop n (W @ W'))"
      using n(2) by (metis append_take_drop_id drop_append take_append length_take min.absorb_iff2 min.commute
          diff_is_0_eq take_0 append_Nil2 length_append take_all_iff linorder_linear)
    ultimately show ?thesis using n assms(2) unfolding slice_at_def by (intro exI [of _ n]) auto
  qed
  obtain f p seg where x: "parse_layers (snd x) = Ok (f, p, seg)" "reply_key p seg = k"
      "if Flags seg AND FIN \<noteq> 0
        then tcp_Payload seg = [] \<and> (\<exists>j < length fins. SeqNum seg = base + of_nat (fins ! j + j))
        else tcp_Payload seg = [] \<or> slice_at base fins W m (SeqNum seg) (tcp_Payload seg)"
    using assms(1) unfolding carries_def by blast
  have "\<exists>j < length (fins @ ds). SeqNum seg = base + of_nat ((fins @ ds) ! j + j)"
    if "\<exists>j < length fins. SeqNum seg = base + of_nat (fins ! j + j)"
    using that by (metis nth_append trans_less_add1 length_append)
  then show ?thesis
    using x slice unfolding carries_def by (intro exI [of _ f] exI [of _ p] exI [of _ seg]) (auto split: if_splits)
qed

lemma carries_later: "carries k base fins W m x \<Longrightarrow> m \<le> m' \<Longrightarrow> carries k base fins W m' x"
  using carries_mono [of k base fins W m x m' "[]" "[]"] by simp

lemma placed_slices:
  assumes "placed base fins n q" "queue_bytes q @ u = drop n W" "s \<in> set q"
  shows "slice_at base fins W (n + length (queue_bytes q)) (ss_seqNum s) (ss_data s)"
  using assms
proof (induction q arbitrary: n)
  case (Cons h q)
  let ?k = "length (ss_data h)"
  have d: "ss_data h @ queue_bytes q @ u = drop n W" using Cons.prems(2) by simp
  show ?case
  proof (cases "s = h")
    case True
    have "ss_data h = take ?k (drop n W)" using d by (metis append_eq_conv_conj)
    then show ?thesis using True Cons.prems(1) unfolding slice_at_def by (intro exI [of _ n]) simp
  next
    case False
    have "queue_bytes q @ u = drop (n + ?k) W"
      using arg_cong [OF d, of "drop ?k"] by (simp add: add.commute)
    then show ?thesis using Cons.IH [of "n + ?k"] Cons.prems False by (simp add: add.assoc)
  qed
qed simp

lemma placed_append: "placed base fins n (p @ q) \<longleftrightarrow> placed base fins n p \<and> placed base fins (n + length (queue_bytes p)) q"
  by (induction p arbitrary: n) (auto simp: add.assoc)

text \<open>Behind the last FIN the places are consecutive.\<close>

lemma place_after: "\<forall>f \<in> set fins. f \<le> n \<Longrightarrow> place fins n = n + length fins"
  by (simp add: place_def filter_id_conv)

lemma placed_chain:
  "\<forall>f \<in> set fins. f \<le> n \<Longrightarrow> seg_chain (base + of_nat (n + length fins)) q b \<Longrightarrow> placed base fins n q"
proof (induction q arbitrary: n)
  case (Cons h q)
  let ?k = "length (ss_data h)"
  have "base + of_nat (n + length fins) + of_nat ?k = base + of_nat (n + ?k + length fins)"
    by (simp add: ac_simps)
  then have "seg_chain (base + of_nat (n + ?k + length fins)) q b" using Cons.prems(2) by (metis seg_chain.simps(2))
  moreover have "\<forall>f \<in> set fins. f \<le> n + ?k" using Cons.prems(1) by (simp add: trans_le_add1)
  ultimately have "placed base fins (n + ?k) q" using Cons.IH by blast
  moreover have "ss_seqNum h = base + of_nat (place fins n)"
    using Cons.prems by (simp add: place_after)
  ultimately show ?case using Cons.prems(1) by simp
qed simp

lemma placed_fin:
  assumes "placed base fins n q" "n + length (queue_bytes q) \<le> m" "\<forall>s \<in> set q. 0 < length (ss_data s)"
  shows "placed base (fins @ [m]) n q"
  using assms
proof (induction q arbitrary: n)
  case (Cons h q)
  have "0 < length (ss_data h)" "n + length (ss_data h) + length (queue_bytes q) \<le> m" using Cons.prems(2,3) by simp_all
  then have "n < m" "n + length (ss_data h) \<le> m" by linarith+
  then show ?case
    using Cons.IH [of "n + length (ss_data h)"] Cons.prems(1,3) \<open>n + length (ss_data h) + length (queue_bytes q) \<le> m\<close>
    by (simp add: place_def)
qed simp

text \<open>A segment of the queue that is sent carries a slice.\<close>

lemma carries_queued:
  assumes "tx_ok base fins W m c" "State c \<noteq> CLOSED" "queue_ok c" "s \<in> set (sendQueue c)" "conn_key d = conn_key c"
  shows "carries (conn_key c) base fins W m (seg_emission d s)"
proof -
  have len: "length (ss_data s) \<le> 1460" using assms(3,4) by (auto simp: queue_ok_def list_all_iff)
  obtain n where "n + length (queue_bytes (sendQueue c)) = m" "placed base fins n (sendQueue c)"
      "queue_bytes (sendQueue c) @ sendUnsent c = drop n W" "ss_flags s AND FIN = 0"
    using assms(1,2,4) by (auto simp: tx_ok_def)
  with placed_slices [OF this(2,3) assms(4)] len assms(5) show ?thesis
    unfolding seg_emission_def by (intro carries_out) (simp_all add: options_aligned_def)
qed

lemma tx_ok_cong:
  "sendQueue c' = sendQueue c \<Longrightarrow> sendUnsent c' = sendUnsent c \<Longrightarrow> SendSeqNum c' = SendSeqNum c
     \<Longrightarrow> State c \<noteq> CLOSED \<Longrightarrow> tx_ok base fins W m c \<Longrightarrow> tx_ok base fins W m c'"
  by (auto simp: tx_ok_def)

lemma tx_ok_CLOSED [simp]: "State c = CLOSED \<Longrightarrow> tx_ok base fins W m c"
  by (simp add: tx_ok_def)

subsection \<open>The operations of a connection\<close>

lemma pump_segs_flags: "s \<in> set (pump_segs (pump_mss c) c) \<Longrightarrow> ss_flags s AND FIN = 0"
proof -
  have "s \<in> set (segs_of mss sq kept xs) \<Longrightarrow> ss_flags s AND FIN = 0" for mss sq kept xs
  proof (induction mss sq kept xs rule: segs_of.induct)
    case (1 mss sq kept xs)
    then show ?case
      by (cases "mss = 0 \<or> xs = []") (auto simp: segs_of.simps [of mss sq kept xs])
  qed
  then show "s \<in> set (pump_segs (pump_mss c) c) \<Longrightarrow> ss_flags s AND FIN = 0" by (simp add: pump_segs_def)
qed

lemma tx_pump:
  assumes "tx_ok base fins W m c" "State c \<noteq> CLOSED" "queue_ok c" "pumpSendLocked c = Ok (c', out)"
  shows "\<exists>m' \<ge> m. m' \<le> length W \<and> tx_ok base fins W m' c' \<and> (\<forall>x \<in> set out. carries (conn_key c) base fins W m' x)"
proof -
  obtain n where n: "n + length (queue_bytes (sendQueue c)) = m" "m \<le> length W" "placed base fins n (sendQueue c)"
      "queue_bytes (sendQueue c) @ sendUnsent c = drop n W" "SendSeqNum c = base + of_nat (m + length fins)"
      "\<forall>f \<in> set fins. f \<le> m" "\<forall>s \<in> set (sendQueue c). ss_flags s AND FIN = 0"
    using assms(1,2) by (auto simp: tx_ok_def)
  let ?p = "after_pump c" and ?segs = "pump_segs (pump_mss c) c" and ?k = "pump_amount c"
  have p: "sendQueue ?p = sendQueue c @ ?segs" by (simp add: after_pump_def)
  have bytes: "queue_bytes ?segs @ sendUnsent ?p = sendUnsent c" "length (queue_bytes ?segs) = ?k"
    by (simp_all add: pump_segs_bytes after_pump_def) (simp add: pump_amount_def)
  have "placed base fins m ?segs"
    using placed_chain [OF n(6), of base ?segs] pump_segs_chain [of c] n(5) by simp
  then have "placed base fins n (sendQueue ?p)" unfolding p placed_append using n(1,3) by simp
  moreover have "queue_bytes (sendQueue ?p) @ sendUnsent ?p = drop n W" using n(4) bytes(1) by (simp add: p)
  moreover have len: "m + ?k \<le> length W"
  proof -
    have "length (sendUnsent c) = length W - m"
      using arg_cong [OF n(4), of length] n(1,2) by simp
    then show ?thesis using n(2) by (simp add: pump_amount_def)
  qed
  moreover have "SendSeqNum ?p = base + of_nat (m + ?k + length fins)"
    using n(5) by (simp add: after_pump_def ac_simps)
  moreover have "\<forall>f \<in> set fins. f \<le> m + ?k" using n(6) by (simp add: trans_le_add1)
  moreover have "\<forall>s \<in> set (sendQueue ?p). ss_flags s AND FIN = 0" using n(7) pump_segs_flags by (auto simp: p)
  ultimately have tx: "tx_ok base fins W (m + ?k) ?p"
    using n(1) bytes(2) unfolding tx_ok_def by (intro disjI2 exI [of _ n]) (simp add: p)
  have r: "c' = (if 0 < ?k then startRTOIfIdleLocked ?p else ?p)" "out = map (seg_emission c) ?segs"
    using assms(4) by (simp_all add: pumpSendLocked_spec)
  have st: "State ?p = State c" "conn_key ?p = conn_key c" by (simp_all add: after_pump_def conn_key_def)
  have inv: "queue_ok c'" using queue_ok_pump [OF assms(3)] by (simp add: r(1) queue_ok_def startRTOIfIdleLocked_def Let_def)
  have tx': "tx_ok base fins W (m + ?k) c'"
    using tx st assms(2) unfolding r(1) by (auto intro: tx_ok_cong)
  have q: "sendQueue c' = sendQueue c @ ?segs" by (simp add: r(1) p)
  have c': "State c' \<noteq> CLOSED" "conn_key c' = conn_key c"
    using pump_frame(1,3) [OF assms(4)] assms(2) by simp_all
  have "\<forall>x \<in> set out. carries (conn_key c) base fins W (m + ?k) x"
    using carries_queued [OF tx' c'(1) inv, of _ c] c'(2) by (auto simp: r(2) q)
  then show ?thesis using tx' len by (intro exI [of _ "m + ?k"]) simp
qed

lemma drop_acked_suffix: "\<exists>p. q = p @ drop_acked ack q"
proof (induction q)
  case (Cons h q)
  then obtain p where "q = p @ drop_acked ack q" ..
  then show ?case
    by (cases "seqLE (ss_seqNum h + of_nat (length (ss_data h))) ack") (auto intro: exI [of _ "h # p"])
qed simp

lemma tx_acked:
  assumes "tx_ok base fins W m c" "State c \<noteq> CLOSED"
  shows "tx_ok base fins W m (acked_conn seg c)"
proof -
  obtain n where n: "n + length (queue_bytes (sendQueue c)) = m" "m \<le> length W" "placed base fins n (sendQueue c)"
      "queue_bytes (sendQueue c) @ sendUnsent c = drop n W" "SendSeqNum c = base + of_nat (m + length fins)"
      "\<forall>f \<in> set fins. f \<le> m" "\<forall>s \<in> set (sendQueue c). ss_flags s AND FIN = 0"
    using assms by (auto simp: tx_ok_def)
  obtain p where p: "sendQueue c = p @ drop_acked (AckNum seg) (sendQueue c)" using drop_acked_suffix by blast
  let ?q = "drop_acked (AckNum seg) (sendQueue c)" and ?k = "length (queue_bytes p)"
  have placed: "placed base fins (n + ?k) ?q" using n(3) p placed_append by metis
  have "queue_bytes p @ queue_bytes ?q @ sendUnsent c = drop n W" using n(4) p by (metis append_assoc queue_bytes_append)
  from arg_cong [OF this, of "drop ?k"] have "queue_bytes ?q @ sendUnsent c = drop (n + ?k) W" by (simp add: add.commute)
  moreover have "n + ?k + length (queue_bytes ?q) = m"
    using n(1) p by (metis add.assoc length_append queue_bytes_append)
  moreover have "\<forall>s \<in> set ?q. ss_flags s AND FIN = 0" using n(7) p by (metis UnCI set_append)
  moreover have "sendQueue (acked_conn seg c) = ?q" "sendUnsent (acked_conn seg c) = sendUnsent c"
    "SendSeqNum (acked_conn seg c) = SendSeqNum c"
    by (simp_all add: acked_conn_def Let_def update_window_def)
  ultimately show ?thesis using placed n(2,5,6) unfolding tx_ok_def by (intro disjI2 exI [of _ "n + ?k"]) simp
qed

lemma tx_processAck:
  assumes "tx_ok base fins W m c" "State c \<noteq> CLOSED" "conn_inv c" "m \<le> length W"
    "processAck seg frame src c = Ok (goon, c', out)"
  shows "\<exists>m' \<ge> m. m' \<le> length W \<and> tx_ok base fins W m' c' \<and> (\<forall>x \<in> set out. carries (conn_key c) base fins W m' x)"
proof (cases "Flags seg AND ACK \<noteq> 0 \<and> \<not> seqGT (AckNum seg) (SendSeqNum c) \<and> seqGT (AckNum seg) (SendUnacked c)")
  case True
  let ?a = "acked_conn seg c"
  have run: "pumpSendLocked ?a = Ok (c', out)"
    using assms(5) True by (auto simp: processAck_new rbind_eqs)
  have key: "conn_key ?a = conn_key c" "State ?a = State c"
    by (simp_all add: acked_conn_def Let_def conn_key_def restartRTOLocked_def stopRTOLocked_def update_window_def)
  have "sendQueue ?a = drop_acked (AckNum seg) (sendQueue c)" "MSS ?a = MSS c"
    by (simp_all add: acked_conn_def Let_def restartRTOLocked_def stopRTOLocked_def update_window_def)
  then have "queue_ok ?a"
    using assms(3) set_drop_acked [of "AckNum seg" "sendQueue c"] by (auto simp: inv_defs list_all_iff)
  from tx_pump [OF tx_acked [OF assms(1,2)] _ this run] key assms(2) show ?thesis by simp
next
  case False
  then show ?thesis using assms(1,4,5) by (intro exI [of _ m]) (auto simp: processAck_def split: if_splits)
qed

subsection \<open>The stack\<close>

text \<open>
  Connection \<open>i\<close> of the four-tuple \<open>k\<close> keeps the send invariant; and the result of an operation on it that was
  open: the invariant still holds and all it sent carries slices.
\<close>

definition tx_at :: "ConnectionKey \<Rightarrow> u32 \<Rightarrow> nat list \<Rightarrow> bytes \<Rightarrow> nat \<Rightarrow> nat \<Rightarrow> Stack \<Rightarrow> bool" where
  "tx_at k base fins W m i s \<longleftrightarrow> (\<exists>c. conn_at s i = Some c \<and> conn_key c = k \<and> tx_ok base fins W m c)"

definition tx_open :: "ConnectionKey \<Rightarrow> u32 \<Rightarrow> nat list \<Rightarrow> bytes \<Rightarrow> nat \<Rightarrow> TCPConnection \<Rightarrow> bool" where
  "tx_open k base fins W m c \<longleftrightarrow> conn_key c = k \<and> tx_ok base fins W m c \<and> State c \<noteq> CLOSED"

lemma tx_at_simps [simp]:
  "tx_at k base fins W m i (put_conn i c s) \<longleftrightarrow> conn_key c = k \<and> tx_ok base fins W m c"
  "tx_at k base fins W m i (put_listener l L s) = tx_at k base fins W m i s"
  "tx_at k base fins W m i (drop_key k' s) = tx_at k base fins W m i s"
  "tx_at k base fins W m i (s\<lparr>blocked := b\<rparr>) = tx_at k base fins W m i s"
  "tx_at k base fins W m i (start_time_wait i c s) \<longleftrightarrow> conn_key c = k \<and> tx_ok base fins W m (c\<lparr>State := TIME_WAIT\<rparr>)"
  by (simp_all add: tx_at_def start_time_wait_def Let_def)

lemma tx_open_update [simp]:
  "tx_open k base fins W m c \<Longrightarrow> tx_ok base fins W m (c\<lparr>State := st\<rparr>)"
  "tx_open k base fins W m (c\<lparr>RecvSeqNum := x\<rparr>) = tx_open k base fins W m c"
  "tx_open k base fins W m (c\<lparr>RecvBuffer := b\<rparr>) = tx_open k base fins W m c"
  "tx_open k base fins W m (c\<lparr>readCh := ch\<rparr>) = tx_open k base fins W m c"
  "tx_open k base fins W m (c\<lparr>SendUnacked := x\<rparr>) = tx_open k base fins W m c"
  "tx_open k base fins W m (c\<lparr>SendWindow := w\<rparr>) = tx_open k base fins W m c"
  "tx_open k base fins W m (c\<lparr>readChClosed := r\<rparr>) = tx_open k base fins W m c"
  "st \<noteq> CLOSED \<Longrightarrow> tx_open k base fins W m c \<Longrightarrow> tx_open k base fins W m (c\<lparr>State := st\<rparr>)"
  by (auto simp: tx_open_def tx_ok_def conn_key_def)

lemma tx_openD:
  "tx_open k base fins W m c \<Longrightarrow> conn_key c = k" "tx_open k base fins W m c \<Longrightarrow> tx_ok base fins W m c"
  "tx_open k base fins W m c \<Longrightarrow> State c \<noteq> CLOSED"
  by (simp_all add: tx_open_def)

lemma tx_fin:
  assumes "established_fin i seg frame src s out = Ok (s', out')" "conn_at s i = Some c" "tx_open k base fins W m c"
    "\<forall>x \<in> set out. carries k base fins W m x"
  shows "tx_at k base fins W m i s' \<and> (\<forall>x \<in> set out'. carries k base fins W m x)"
proof (cases "Flags seg AND FIN = 0")
  case True
  then show ?thesis using assms by (auto simp: established_fin_def tx_at_def tx_open_def)
next
  case False
  let ?c = "c\<lparr>RecvSeqNum := RecvSeqNum c + 1, State := CLOSE_WAIT\<rparr>"
  have "tx_open k base fins W m ?c" using assms(3) by simp
  from tx_openD [OF this] have "conn_key ?c = k" "tx_ok base fins W m (?c\<lparr>readChClosed := True\<rparr>)"
    by (auto simp: tx_ok_def)
  then show ?thesis
    using assms False by (auto simp: established_fin_def Let_def closeReadChLocked_eq)
qed

lemma tx_data:
  assumes "established_data i seg frame src s out = Ok (s', out')" "conn_at s i = Some c" "tx_open k base fins W m c"
    "\<forall>x \<in> set out. carries k base fins W m x"
  shows "tx_at k base fins W m i s' \<and> (\<forall>x \<in> set out'. carries k base fins W m x)"
proof (cases "tcp_Payload seg = [] \<or> SeqNum seg \<noteq> RecvSeqNum c")
  case True
  then show ?thesis using established_data_skip [OF assms(2)] assms tx_fin by simp
next
  case False
  let ?c1 = "c\<lparr>RecvBuffer := RecvBuffer c @ tcp_Payload seg,
      RecvSeqNum := RecvSeqNum c + of_nat (length (tcp_Payload seg))\<rparr>"
  have o1: "tx_open k base fins W m ?c1" using assms(3) by simp
  let ?o = "out @ [(src, out_bytes ?c1 ACK [] (SendSeqNum ?c1) [] frame)]"
  have sent: "\<forall>x \<in> set ?o. carries k base fins W m x" using assms(4) tx_openD(1) [OF o1] by auto
  let ?c2 = "?c1\<lparr>RecvBuffer := []\<rparr>"
  have o2: "tx_open k base fins W m ?c2" "tx_open k base fins W m (?c2\<lparr>readCh := ch\<rparr>)" for ch using assms(3) by simp_all
  note run = assms(1) [unfolded established_data_def assms(2) option.case]
  show ?thesis
  proof (cases "readChClosed c \<or> length (readCh c) < read_cap")
    case True
    then have "established_fin i seg frame src
        (put_conn i (?c2\<lparr>readCh := readCh c @ [RecvBuffer ?c1]\<rparr>) s) ?o = Ok (s', out')"
      using run False by (auto simp: Let_def push_read_def split: if_splits)
    from tx_fin [OF this _ o2(2) sent] show ?thesis by simp
  next
    case full: False
    then have "s' = (put_conn i ?c2 s)\<lparr>blocked := Some (PushData i (RecvBuffer ?c1) seg frame src)\<rparr>" "out' = ?o"
      using run False by (auto simp: Let_def push_read_def split: if_splits)
    then show ?thesis using tx_openD [OF o2(1)] sent by simp
  qed
qed

text \<open>The result of an operation: more of the stream may have been sent, and all frames carry slices.\<close>

definition tx_res :: "ConnectionKey \<Rightarrow> u32 \<Rightarrow> nat list \<Rightarrow> bytes \<Rightarrow> nat \<Rightarrow> nat \<Rightarrow> Stack \<Rightarrow> emission list \<Rightarrow> bool" where
  "tx_res k base fins W m i s out \<longleftrightarrow> (\<exists>m' \<ge> m. m' \<le> length W \<and> tx_at k base fins W m' i s
     \<and> (\<forall>x \<in> set out. carries k base fins W m' x))"

lemma tx_resI:
  "m \<le> length W \<Longrightarrow> tx_at k base fins W m i s \<Longrightarrow> (\<forall>x \<in> set out. carries k base fins W m x) \<Longrightarrow> tx_res k base fins W m i s out"
  unfolding tx_res_def by blast

lemma tx_res_later: "tx_res k base fins W m' i s out \<Longrightarrow> m \<le> m' \<Longrightarrow> tx_res k base fins W m i s out"
  unfolding tx_res_def using order_trans by blast

lemma tx_open_sent: "tx_open k base fins W m c \<Longrightarrow> m \<le> length W"
  by (auto simp: tx_open_def tx_ok_def)

lemma tx_open_ack:
  assumes "tx_open k base fins W m c" "conn_inv c" "processAck seg frame src c = Ok (goon, c1, o1)"
  obtains m1 where "m \<le> m1" "m1 \<le> length W" "tx_open k base fins W m1 c1" "\<forall>x \<in> set o1. carries k base fins W m1 x"
proof -
  have k: "conn_key c1 = conn_key c" "State c1 = State c" using processAck_keeps [OF assms(2), of seg frame src] assms(3) by auto
  from tx_processAck [OF tx_openD(2,3) [OF assms(1)] assms(2) tx_open_sent [OF assms(1)] assms(3)]
  obtain m1 where m1: "m \<le> m1" "m1 \<le> length W" "tx_ok base fins W m1 c1" "\<forall>x \<in> set o1. carries (conn_key c) base fins W m1 x"
    by blast
  then show ?thesis using that [OF m1(1,2)] k tx_openD(1,3) [OF assms(1)] by (simp add: tx_open_def)
qed

lemma tx_ESTABLISHED:
  assumes "segment_ESTABLISHED i seg frame src s = Ok (s', out)" "conn_at s i = Some c" "tx_open k base fins W m c"
    "conn_inv c"
  shows "tx_res k base fins W m i s' out"
proof -
  obtain goon c1 o1 where a: "processAck seg frame src c = Ok (goon, c1, o1)" "conn_key c1 = conn_key c" "State c1 = State c"
    using processAck_keeps [OF assms(4)] by blast
  obtain m1 where m1: "m \<le> m1" "m1 \<le> length W" and t: "tx_open k base fins W m1 c1" "\<forall>x \<in> set o1. carries k base fins W m1 x"
    using tx_open_ack [OF assms(3,4) a(1)] by blast
  have "tx_res k base fins W m1 i s' out"
  proof (cases goon)
    case True
    then have "established_data i seg frame src (put_conn i c1 s) o1 = Ok (s', out)"
      using assms(1,2) a(1) by (simp add: segment_ESTABLISHED_def)
    from tx_data [OF this _ t] m1(2) show ?thesis by (intro tx_resI) simp_all
  next
    case False
    then have "tx_at k base fins W m1 i s'" "out = o1"
      using assms(1,2) a(1) t tx_openD by (auto simp: segment_ESTABLISHED_def)
    then show ?thesis using m1(2) t(2) by (intro tx_resI) simp_all
  qed
  then show ?thesis using m1(1) by (rule tx_res_later)
qed

lemma segment_SYN_RECEIVED_cases:
  assumes "segment_SYN_RECEIVED i seg frame src s = Ok (s', out)" "conn_at s i = Some c"
    "c1 = c\<lparr>State := ESTABLISHED, SendUnacked := AckNum seg, SendWindow := Window seg\<rparr>"
  obtains "s' = s" "out = []"
    | "segment_ESTABLISHED i seg frame src (put_conn i c1 s) = Ok (s', out)"
    | l L where "listener_at s l = Some L" "length (lst_accept L) < accept_cap"
        "segment_ESTABLISHED i seg frame src
           (put_listener l (L\<lparr>lst_accept := lst_accept L @ [i]\<rparr>) (put_conn i c1 s)) = Ok (s', out)"
    | l where "s' = (put_conn i c1 s)\<lparr>blocked := Some (PushConn l i seg frame src)\<rparr>" "out = []"
proof (cases "Flags seg AND ACK = 0")
  case True
  then show ?thesis using assms(1,2) that(1) by (simp add: segment_SYN_RECEIVED_def)
next
  case ack: False
  let ?s1 = "put_conn i c1 s"
  note run = assms(1) [unfolded segment_SYN_RECEIVED_def assms(2) option.case Let_def, folded assms(3)]
  show ?thesis
  proof (cases "listeners ?s1 (LocalPort c1)")
    case None
    then show ?thesis using run ack that(2) by simp
  next
    case (Some l)
    then show ?thesis using run ack that(3,4) by (auto split: option.splits if_splits)
  qed
qed

lemma tx_handleSegment:
  assumes "handleSegment i seg frame src s = Ok (s', out)" "conn_at s i = Some c" "tx_open k base fins W m c"
    "conn_inv c"
  shows "tx_res k base fins W m i s' out"
proof -
  have stay: "tx_at k base fins W m i s" using assms(2,3) by (auto simp: tx_at_def tx_open_def)
  have key: "conn_key c = k" by (rule tx_openD(1) [OF assms(3)])
  note m = tx_open_sent [OF assms(3)]
  show ?thesis
  proof (cases "Flags seg AND RST = 0")
    case False
    then have "tx_at k base fins W m i s' \<and> (\<forall>x \<in> set out. carries k base fins W m x)"
      using assms(1,2) stay key
      by (auto simp: handleSegment_def abortConnection_def Let_def closeReadChLocked_eq stopRTOLocked_def conn_key_def
          split: if_splits)
    then show ?thesis using m by (intro tx_resI) simp_all
  next
    case rst: True
    note hs = assms(1) [unfolded handleSegment_def assms(2) option.case rst]
    show ?thesis
    proof (cases "State c")
      case SYN_RECEIVED
      define c1 where "c1 = c\<lparr>State := ESTABLISHED, SendUnacked := AckNum seg, SendWindow := Window seg\<rparr>"
      have c1: "conn_inv c1" "tx_open k base fins W m c1"
        using assms(3,4) SYN_RECEIVED by (simp_all add: c1_def inv_defs)
      have "segment_SYN_RECEIVED i seg frame src s = Ok (s', out)" using hs SYN_RECEIVED by simp
      then show ?thesis
        using assms(2) c1_def
      proof (cases rule: segment_SYN_RECEIVED_cases)
        case 2
        from tx_ESTABLISHED [OF 2 _ c1(2,1)] show ?thesis by simp
      next
        case (3 l L)
        from tx_ESTABLISHED [OF 3(3) _ c1(2,1)] show ?thesis by simp
      qed (use stay m tx_openD [OF c1(2)] in \<open>auto intro!: tx_resI\<close>)
    next
      case ESTABLISHED
      then show ?thesis using hs tx_ESTABLISHED [OF _ assms(2-4)] by simp
    next
      case FIN_WAIT_1
      obtain goon c1 o1 where a: "processAck seg frame src c = Ok (goon, c1, o1)" "conn_key c1 = conn_key c"
          "State c1 = State c"
        using processAck_keeps [OF assms(4)] by blast
      obtain m1 where m1: "m \<le> m1" "m1 \<le> length W" and t: "tx_open k base fins W m1 c1" "\<forall>x \<in> set o1. carries k base fins W m1 x"
        using tx_open_ack [OF assms(3,4) a(1)] by blast
      have ok: "tx_ok base fins W m1 (c1\<lparr>State := st\<rparr>)" "tx_ok base fins W m1 (c1\<lparr>RecvSeqNum := x, State := st\<rparr>)" for st x
        using tx_open_update(1) [of k base fins W m1 "c1\<lparr>RecvSeqNum := x\<rparr>" st] tx_open_update(1) [OF t(1)] t(1) by simp_all
      have k1: "conn_key c1 = k" "conn_key (c1\<lparr>RecvSeqNum := x\<rparr>) = k" for x
        using tx_openD(1) [OF t(1)] by (simp_all add: conn_key_def)
      have "tx_at k base fins W m1 i s' \<and> (\<forall>x \<in> set out. carries k base fins W m1 x)"
        using hs FIN_WAIT_1 assms(2) a(1) t ok k1 tx_openD(2) [OF t(1)]
        by (auto simp: segment_FIN_WAIT_1_def Let_def split: if_splits)
      then show ?thesis using m1 tx_resI [of m1] tx_res_later by blast
    next
      case FIN_WAIT_2
      have "tx_ok base fins W m (c\<lparr>RecvSeqNum := x, State := st\<rparr>)" "conn_key (c\<lparr>RecvSeqNum := x\<rparr>) = k" for x st
        using tx_open_update(1) [of k base fins W m "c\<lparr>RecvSeqNum := x\<rparr>" st] assms(3) key by (simp_all add: conn_key_def)
      then have "tx_at k base fins W m i s' \<and> (\<forall>x \<in> set out. carries k base fins W m x)"
        using hs FIN_WAIT_2 assms(2) stay by (auto simp: segment_FIN_WAIT_2_def Let_def split: if_splits)
      then show ?thesis using m by (intro tx_resI) simp_all
    next
      case LAST_ACK
      then have "tx_at k base fins W m i s' \<and> (\<forall>x \<in> set out. carries k base fins W m x)"
        using hs assms(2) stay key
        by (auto simp: segment_LAST_ACK_def removeConnection_def Let_def stopRTOLocked_def conn_key_def split: if_splits)
      then show ?thesis using m by (intro tx_resI) simp_all
    next
      case CLOSING
      then show ?thesis using assms(4) by (simp add: inv_defs)
    qed (use hs stay m in \<open>auto intro!: tx_resI\<close>)
  qed
qed

lemma tx_only:
  assumes "only_conn j k' s s'" "j \<noteq> i" "tx_at k base fins W m i s"
  shows "tx_at k base fins W m i s'"
  using assms by (auto simp: only_conn_def tx_at_def)

lemma tx_resume:
  assumes "recv_resume s = Ok (s', out)" "stack_inv s" "conn_at s i = Some c" "tx_open k base fins W m c"
  shows "tx_res k base fins W m i s' (if map_option pending_conn (blocked s) = Some i then out else [])"
proof (cases "blocked s")
  case None
  then have "tx_at k base fins W m i s'" using assms(1,3) tx_openD [OF assms(4)] by (auto simp: recv_resume_def tx_at_def)
  then show ?thesis using None tx_open_sent [OF assms(4)] by (intro tx_resI) simp_all
next
  case (Some q)
  have stay: "tx_at k base fins W m i s" using assms(3) tx_openD [OF assms(4)] by (auto simp: tx_at_def)
  have ci: "conn_inv c" using stack_inv_conn [OF assms(2,3)] .
  note m = tx_open_sent [OF assms(4)]
  show ?thesis
  proof (cases q)
    case (PushConn l j seg frame src)
    obtain L d where L: "listener_at s l = Some L" and d: "conn_at s j = Some d"
      using assms(2) Some PushConn by (auto simp: stack_inv_def blocked_ok_def open_conn_def)
    let ?s = "(put_listener l (L\<lparr>lst_accept := lst_accept L @ [j]\<rparr>) s)\<lparr>blocked := None\<rparr>"
    show ?thesis
    proof (cases "length (lst_accept L) < accept_cap")
      case True
      have run: "segment_ESTABLISHED j seg frame src ?s = Ok (s', out)"
        using assms(1) Some PushConn L True by (simp add: recv_resume_def)
      show ?thesis
      proof (cases "j = i")
        case True
        then show ?thesis using tx_ESTABLISHED [OF run _ _ ci, of k base fins W m] assms(3,4) Some PushConn by simp
      next
        case False
        have "only_conn j (conn_key d) ?s s'" using segment_ESTABLISHED_only [OF run] by simp
        then have "tx_at k base fins W m i s'" using tx_only [of j _ ?s s' i] stay False by simp
        then show ?thesis using m False Some PushConn by (intro tx_resI) simp_all
      qed
    qed (use assms(1) Some PushConn L stay m in \<open>auto simp: recv_resume_def intro!: tx_resI\<close>)
  next
    case (PushData j data seg frame src)
    obtain d where d: "conn_at s j = Some d" "\<not> readChClosed d"
      using assms(2) Some PushData by (auto simp: stack_inv_def blocked_ok_def open_conn_def)
    let ?s = "(put_conn j (d\<lparr>readCh := readCh d @ [data]\<rparr>) s)\<lparr>blocked := None\<rparr>"
    show ?thesis
    proof (cases "length (readCh d) < read_cap")
      case True
      have run: "established_fin j seg frame src ?s [] = Ok (s', out)"
        using assms(1) Some PushData d True by (simp add: recv_resume_def push_read_def)
      show ?thesis
      proof (cases "j = i")
        case True
        then have "tx_at k base fins W m i s' \<and> (\<forall>x \<in> set out. carries k base fins W m x)"
          using tx_fin [OF run, of "d\<lparr>readCh := readCh d @ [data]\<rparr>" k base fins W m] assms(3,4) d by simp
        then show ?thesis using m by (intro tx_resI) simp_all
      next
        case False
        then have "tx_at k base fins W m i ?s" using stay by (simp add: tx_at_def put_conn_def)
        moreover have "only_conn j k ?s s'" using established_fin_only [OF run] by simp
        ultimately have "tx_at k base fins W m i s'" using tx_only [of j _ ?s s' i] False by simp
        then show ?thesis using m False Some PushData by (intro tx_resI) simp_all
      qed
    qed (use assms(1) Some PushData d stay m in \<open>auto simp: recv_resume_def push_read_def intro!: tx_resI\<close>)
  qed
qed

text \<open>What an event adds to the stream, and the place of the FIN that it sends.\<close>

definition fins_of :: "nat \<Rightarrow> event \<Rightarrow> nat \<Rightarrow> nat list" where
  "fins_of i e m = (if e = OnConn i OpClose then [m] else [])"

lemma tx_close:
  assumes "conn_Close c = Ok (c', out)" "tx_open k base fins W m c" "queue_ok c"
  shows "tx_ok base (fins @ [m]) W m c' \<and> (\<forall>x \<in> set out. carries k base (fins @ [m]) W m x)"
proof -
  obtain n where n: "n + length (queue_bytes (sendQueue c)) = m" "m \<le> length W" "placed base fins n (sendQueue c)"
      "queue_bytes (sendQueue c) @ sendUnsent c = drop n W" "SendSeqNum c = base + of_nat (m + length fins)"
      "\<forall>f \<in> set fins. f \<le> m" "\<forall>s \<in> set (sendQueue c). ss_flags s AND FIN = 0"
    using assms(2) by (auto simp: tx_open_def tx_ok_def)
  have c': "sendQueue c' = sendQueue c" "sendUnsent c' = sendUnsent c" "SendSeqNum c' = SendSeqNum c + 1"
    and out: "out = [(sockaddr_of c, out_bytes c (FIN OR ACK) [] (SendSeqNum c) [] (conn_frame c))]"
    using assms(1) by (auto simp: conn_Close_spec)
  have "placed base (fins @ [m]) n (sendQueue c)"
    using placed_fin [OF n(3)] n(1) assms(3) by (auto simp: queue_ok_def list_all_iff)
  then have "tx_ok base (fins @ [m]) W m c'"
    using n unfolding tx_ok_def c' by (intro disjI2 exI [of _ n]) simp
  moreover have "carries k base (fins @ [m]) W m (sockaddr_of c, out_bytes c (FIN OR ACK) [] (SendSeqNum c) [] (conn_frame c))"
    using n(5) tx_openD(1) [OF assms(2)]
    by (intro carries_out) (auto simp: options_aligned_def intro!: exI [of _ "length fins"])
  ultimately show ?thesis by (simp add: out)
qed

lemma tx_app:
  assumes "app_run opn c = Ok (c', out)" "tx_open k base fins W m c" "conn_inv c"
  shows "conn_key c' = k \<and> (\<exists>m' \<ge> m. m' \<le> length (W @ writes_of i (OnConn i opn))
    \<and> tx_ok base (fins @ fins_of i (OnConn i opn) m) (W @ writes_of i (OnConn i opn)) m' c'
    \<and> (\<forall>x \<in> set out. carries k base (fins @ fins_of i (OnConn i opn) m) (W @ writes_of i (OnConn i opn)) m' x))"
proof (cases opn)
  case (OpRead n)
  then have "c' = snd (conn_Read n c)" "out = []" using assms(1) by (simp_all add: op_Read_def)
  moreover have "sendQueue (snd (conn_Read n c)) = sendQueue c" "sendUnsent (snd (conn_Read n c)) = sendUnsent c"
    "SendSeqNum (snd (conn_Read n c)) = SendSeqNum c"
    by (simp_all add: conn_Read_def Let_def split: list.split)
  ultimately show ?thesis
    using OpRead assms(2) conn_Read_frame(1) [of n c] tx_ok_cong [of c' c base fins W m] tx_open_sent [OF assms(2)]
    by (auto simp: tx_open_def fins_of_def)
next
  case (OpWrite d)
  let ?c = "c\<lparr>sendUnsent := sendUnsent c @ d\<rparr>"
  obtain n where n: "n + length (queue_bytes (sendQueue c)) = m" "m \<le> length W" "placed base fins n (sendQueue c)"
      "queue_bytes (sendQueue c) @ sendUnsent c = drop n W" "SendSeqNum c = base + of_nat (m + length fins)"
      "\<forall>f \<in> set fins. f \<le> m" "\<forall>s \<in> set (sendQueue c). ss_flags s AND FIN = 0"
    using assms(2) by (auto simp: tx_open_def tx_ok_def)
  have "n \<le> length W" using n(1,2) by simp
  then have "queue_bytes (sendQueue c) @ sendUnsent c @ d = drop n (W @ d)"
    using n(4) by (metis append_assoc drop_append diff_is_0_eq drop0)
  then have "tx_ok base fins (W @ d) m ?c"
    using n unfolding tx_ok_def by (intro disjI2 exI [of _ n]) simp
  moreover have "State ?c \<noteq> CLOSED" "queue_ok ?c"
    using tx_openD(3) [OF assms(2)] assms(3) by (simp_all add: inv_defs)
  moreover have "pumpSendLocked ?c = Ok (c', out)" using assms(1) OpWrite by (simp add: op_Write_eq)
  moreover have "conn_key ?c = k" using tx_openD(1) [OF assms(2)] by (simp add: conn_key_def)
  ultimately show ?thesis
    using tx_pump [of base fins "W @ d" m ?c c' out] pump_frame(1) [of ?c c' out] OpWrite by (simp add: fins_of_def)
next
  case OpTimer
  show ?thesis
  proof (cases "sendQueue c")
    case (Cons h q)
    obtain r where r: "c' = c\<lparr>rto := r, rtoTimer := Some r\<rparr>" "out = [seg_emission c h]"
      using assms(1) OpTimer Cons by (auto simp: onRTO_spec Let_def split: if_splits)
    have "carries (conn_key c) base fins W m (seg_emission c h)"
      using assms(2,3) Cons by (intro carries_queued) (auto simp: tx_open_def inv_defs)
    then show ?thesis
      using r assms(2) OpTimer tx_ok_cong [of c' c base fins W m] tx_open_sent [OF assms(2)]
      by (auto simp: tx_open_def conn_key_def fins_of_def)
  next
    case Nil
    then show ?thesis using assms OpTimer tx_open_sent [OF assms(2)] by (auto simp: onRTO_spec tx_open_def fins_of_def)
  qed
next
  case OpClose
  then have "conn_Close c = Ok (c', out)" using assms(1) by simp
  from tx_close [OF this assms(2)] conn_Close_frame(1) [OF this] assms(2,3) OpClose tx_open_sent [OF assms(2)]
  show ?thesis by (auto simp: fins_of_def inv_defs tx_open_def)
qed

lemma tx_step:
  assumes "exec e s = Ok (s', out)" "stack_inv s" "conn_at s i = Some c" "tx_open k base fins W m c"
  shows "tx_res k base (fins @ fins_of i e m) (W @ writes_of i e) m i s' (if acts_on e s = Some i then out else [])"
proof -
  have stay: "tx_at k base fins W m i s" using assms(3) tx_openD [OF assms(4)] by (auto simp: tx_at_def)
  have ci: "conn_inv c" using stack_inv_conn [OF assms(2,3)] .
  note m = tx_open_sent [OF assms(4)]
  have quiet: ?thesis if "tx_at k base fins W m i s'" "writes_of i e = []" "fins_of i e m = []"
      "acts_on e s \<noteq> Some i \<or> out = []"
    using that m by (intro tx_resI) auto
  show ?thesis
  proof (cases e)
    case (Recv draw data src)
    have ev: "writes_of i e = []" "fins_of i e m = []" by (simp_all add: Recv fins_of_def)
    show ?thesis
    proof (cases "blocked s = None")
      case True
      then have "handleRaw (generateISN draw) data src s = Ok (s', out)" using assms(1) Recv by simp
      then show ?thesis
      proof (cases rule: handleRaw_cases)
        case (2 f p t)
        show ?thesis
        proof (cases "connections s (segment_key p t)")
          case None
          have "next_conn s \<noteq> i" using stack_inv_fresh [OF assms(2)] assms(3) by auto
          moreover obtain m where "handleSYN (generateISN draw) p t f (segment_key p t) src s =
              (let c = new_conn (generateISN draw) m p t f src in
                Ok (SYN_stack s (segment_key p t) (c\<lparr>SendSeqNum := generateISN draw + 1\<rparr>),
                  [(src, out_bytes c (SYN OR ACK) [] (generateISN draw) (buildMSSOption ourMSS) f)]))"
            using handleSYN_spec by blast
          ultimately have "conn_at s' i = Some c"
            using 2(2) None assms(3) by (auto simp: dispatch_def Let_def SYN_stack_def split: if_splits)
          then show ?thesis
            using Recv None 2(1) tx_openD [OF assms(4)] ev by (intro quiet) (simp_all add: tx_at_def)
        next
          case (Some j)
          then obtain d where d: "conn_at s j = Some d" "conn_key d = segment_key p t"
            using stack_inv_table [OF assms(2)] by blast
          have hs: "handleSegment j t f src s = Ok (s', out)"
            using 2(2) Some by (simp add: dispatch_def Let_def)
          show ?thesis
          proof (cases "j = i")
            case True
            then have "tx_res k base fins W m i s' out" using tx_handleSegment [OF _ assms(3,4) ci] hs by simp
            moreover have "acts_on e s = Some i" using Recv Some 2(1) True \<open>blocked s = None\<close> by simp
            ultimately show ?thesis using ev by simp
          next
            case False
            have "tx_at k base fins W m i s'" by (rule tx_only [OF handleSegment_only [OF hs d] False stay])
            then show ?thesis using Recv Some 2(1) False ev by (intro quiet) simp_all
          qed
        qed
      next
        case 1
        then show ?thesis using stay Recv ev by (intro quiet) simp_all
      qed
    next
      case False
      then show ?thesis using assms(1) stay Recv ev by (intro quiet) auto
    qed
  next
    case Resume
    then show ?thesis using tx_resume [OF _ assms(2-4)] assms(1) by (simp add: fins_of_def)
  next
    case (DoListen p)
    then show ?thesis using assms(1) stay by (intro quiet) (auto simp: stack_Listen_def Let_def tx_at_def fins_of_def)
  next
    case (DoAccept l)
    then show ?thesis using assms(1) stay
      by (intro quiet) (auto simp: stack_Accept_def fins_of_def split: option.splits list.splits)
  next
    case (OnConn j opn)
    show ?thesis
    proof (cases "j = i")
      case True
      obtain c1 where c1: "app_run opn c = Ok (c1, out)" "s' = put_conn i c1 s"
        using assms(1,3) OnConn True by (auto simp: rbind_eqs)
      from tx_app [OF c1(1) assms(4) ci, of i] OnConn True c1(2) show ?thesis
        unfolding tx_res_def by simp
    next
      case False
      then have "writes_of i e = []" "fins_of i e m = []" using OnConn by (cases opn; simp add: fins_of_def)+
      moreover have "tx_at k base fins W m i s'"
        using assms(1) stay OnConn False
        by (cases "conn_at s j") (auto simp: rbind_eqs tx_at_def put_conn_def)
      ultimately show ?thesis using OnConn False by (intro quiet) simp_all
    qed
  next
    case (Wake n)
    have "tx_at k base fins W m i s'"
    proof (cases "n < length (sleepers s)")
      case True
      let ?s = "s\<lparr>sleepers := take n (sleepers s) @ drop (Suc n) (sleepers s)\<rparr>"
      let ?j = "sleepers s ! n"
      obtain d where d: "conn_at ?s ?j = Some d"
        and run: "removeConnection ?j (put_conn ?j (d\<lparr>State := CLOSED\<rparr>) ?s) = Ok (s', out)"
        using assms(1) Wake True by (auto simp: timeWaitCleanup_def Let_def split: option.splits)
      have "conn_key (stopRTOLocked x) = conn_key x" for x
        by (simp add: stopRTOLocked_def Let_def conn_key_def)
      then show ?thesis
        using run d stay tx_openD(1) [OF assms(4)] assms(3)
        by (cases "?j = i") (auto simp: removeConnection_def Let_def tx_at_def put_conn_def conn_key_def)
    qed (use assms(1) Wake stay in simp)
    then show ?thesis using Wake by (intro quiet) (simp_all add: fins_of_def)
  qed
qed

subsection \<open>Runs\<close>

lemma tx_at_split:
  assumes "tx_at k base fins W m i s"
  obtains c where "conn_at s i = Some c" "conn_key c = k" "tx_ok base fins W m c" "tx_open k base fins W m c \<or> torn_down i s"
  using assms by (auto simp: tx_at_def torn_down_def tx_open_def)

lemma tx_run:
  assumes "stack_inv s" "tx_at k base fins W m i s" "m \<le> length W" "run_events es s = Ok (s', out)"
  shows "\<exists>ds m'. m \<le> m' \<and> m' \<le> length (W @ written i es) \<and> sorted ds \<and> (\<forall>d \<in> set ds. m \<le> d \<and> d \<le> m')
    \<and> length ds \<le> closes i es
    \<and> (\<forall>x \<in> set (sent_frames i es s). carries k base (fins @ ds) (W @ written i es) m' x)
    \<and> (stays_up i es s \<longrightarrow> length ds = closes i es \<and> tx_at k base (fins @ ds) (W @ written i es) m' i s' \<and> \<not> torn_down i s')"
  using assms
proof (induction es arbitrary: s W m fins out)
  case Nil
  then show ?case by (intro exI [of _ "[]"] exI [of _ m]) (simp add: written_def closes_def)
next
  case (Cons e es)
  show ?case
  proof (cases "torn_down i s")
    case False
    then obtain c where c: "conn_at s i = Some c" "tx_open k base fins W m c" using Cons.prems(2) by (elim tx_at_split) auto
    obtain s1 o1 where x: "exec e s = Ok (s1, o1)" "stack_inv s1" using exec_keeps [OF Cons.prems(1)] by blast
    obtain o2 where r: "run_events es s1 = Ok (s', o2)" using Cons.prems(4) x(1) by (auto simp: rbind_eqs)
    have w: "W @ written i (e # es) = (W @ writes_of i e) @ written i es" by (simp add: written_def)
    let ?d = "fins_of i e m" and ?o = "if acts_on e s = Some i then o1 else []"
    obtain m1 where m1: "m \<le> m1" "m1 \<le> length (W @ writes_of i e)" "tx_at k base (fins @ ?d) (W @ writes_of i e) m1 i s1"
        "\<forall>x \<in> set ?o. carries k base (fins @ ?d) (W @ writes_of i e) m1 x"
      using tx_step [OF x(1) Cons.prems(1) c] unfolding tx_res_def by blast
    obtain ds m' where ih: "m1 \<le> m'" "m' \<le> length ((W @ writes_of i e) @ written i es)" "sorted ds"
        "\<forall>d \<in> set ds. m1 \<le> d \<and> d \<le> m'" "length ds \<le> closes i es"
        "\<forall>x \<in> set (sent_frames i es s1). carries k base ((fins @ ?d) @ ds) ((W @ writes_of i e) @ written i es) m' x"
        "stays_up i es s1 \<longrightarrow> length ds = closes i es
           \<and> tx_at k base ((fins @ ?d) @ ds) ((W @ writes_of i e) @ written i es) m' i s' \<and> \<not> torn_down i s'"
      using Cons.IH [OF x(2) m1(3,2) r] by blast
    have d: "sorted (?d @ ds)" "\<forall>d \<in> set (?d @ ds). m \<le> d \<and> d \<le> m'"
      using ih(1,3,4) m1(1) by (fastforce simp: fins_of_def sorted_append)+
    have n: "length ?d + closes i es = closes i (e # es)" by (simp add: fins_of_def closes_def)
    have "\<forall>x \<in> set ?o. carries k base ((fins @ ?d) @ ds) ((W @ writes_of i e) @ written i es) m' x"
      using m1(4) ih(1,4) carries_mono [of k base "fins @ ?d" "W @ writes_of i e" m1 _ m' ds "written i es"] by blast
    then show ?thesis
      unfolding w using ih d n m1(1) False x(1)
      by (intro exI [of _ "?d @ ds"] exI [of _ m']) auto
  next
    case True
    then show ?thesis using Cons.prems(3) by (intro exI [of _ "[]"] exI [of _ m]) (simp add: written_def)
  qed
qed

text \<open>
  C10: what is sent is what was written, each byte at its place. From a connection with nothing in its send
  buffers, and until it is torn down, whatever frames, timers, full channels and calls on other connections
  interleave with the application's writes and closes: every frame the stack sends for the connection is addressed
  to its peer; it is a bare acknowledgement, a FIN at the place of one of the \<^verbatim>\<open>Close\<close> calls, or it carries a
  slice of the written bytes, retransmissions included, at the number of the slice's first byte, which is its
  position in the stream plus the FINs that went out before it. Without \<^verbatim>\<open>Close\<close> that is the position itself;
  bytes that were still waiting when \<^verbatim>\<open>Close\<close> was called go out one number later, behind its FIN. And what is
  written is, in order, what was released from the retransmission queue, what is in it, and what waits in the
  buffer, with the queue at its places and SND.NXT behind the bytes and FINs sent.
\<close>
theorem frames_carry_written_stream:
  assumes "stack_inv s" "conn_at s i = Some c" "sendQueue c = []" "sendUnsent c = []" "run_events es s = Ok (s', out)"
  shows "\<exists>fins sent. sorted fins \<and> (\<forall>f \<in> set fins. f \<le> sent) \<and> sent \<le> length (written i es) \<and> length fins \<le> closes i es
    \<and> (\<forall>x \<in> set (sent_frames i es s). carries (conn_key c) (SendSeqNum c) fins (written i es) sent x)
    \<and> (stays_up i es s \<longrightarrow> length fins = closes i es \<and> (\<exists>c' released. conn_at s' i = Some c'
         \<and> written i es = released @ queue_bytes (sendQueue c') @ sendUnsent c'
         \<and> sent = length released + length (queue_bytes (sendQueue c'))
         \<and> placed (SendSeqNum c) fins (length released) (sendQueue c')
         \<and> SendSeqNum c' = SendSeqNum c + of_nat (sent + length fins)))"
proof -
  have "tx_at (conn_key c) (SendSeqNum c) [] [] 0 i s" using assms(2-4) by (simp add: tx_at_def tx_ok_def)
  from tx_run [OF assms(1) this _ assms(5)] obtain ds m where run: "m \<le> length (written i es)" "sorted ds" "\<forall>d \<in> set ds. d \<le> m"
      "length ds \<le> closes i es"
      "\<forall>x \<in> set (sent_frames i es s). carries (conn_key c) (SendSeqNum c) ds (written i es) m x"
      "stays_up i es s \<Longrightarrow> length ds = closes i es \<and> tx_at (conn_key c) (SendSeqNum c) ds (written i es) m i s' \<and> \<not> torn_down i s'"
    by auto
  have "\<exists>c' released. conn_at s' i = Some c'
         \<and> written i es = released @ queue_bytes (sendQueue c') @ sendUnsent c'
         \<and> m = length released + length (queue_bytes (sendQueue c'))
         \<and> placed (SendSeqNum c) ds (length released) (sendQueue c')
         \<and> SendSeqNum c' = SendSeqNum c + of_nat (m + length ds)"
    if up: "stays_up i es s"
  proof -
    obtain c' n where c': "conn_at s' i = Some c'" "n + length (queue_bytes (sendQueue c')) = m" "m \<le> length (written i es)"
        "queue_bytes (sendQueue c') @ sendUnsent c' = drop n (written i es)"
        "placed (SendSeqNum c) ds n (sendQueue c')" "SendSeqNum c' = SendSeqNum c + of_nat (m + length ds)"
      using run(6) [OF up] by (auto simp: tx_at_def tx_ok_def torn_down_def)
    then have "length (take n (written i es)) = n" by simp
    then show ?thesis
      using c' by (intro exI [of _ c'] exI [of _ "take n (written i es)"]) (simp del: length_take)
  qed
  then show ?thesis using run by (intro exI [of _ ds] exI [of _ m]) blast
qed

text \<open>Three bytes are written, retransmitted, the connection is closed, and one more byte is written behind the FIN.\<close>

theorem frames_carry_written_stream_witness:
  "let es = [OnConn 0 (OpWrite [1, 2, 3]), OnConn 0 OpTimer, OnConn 0 OpClose, OnConn 0 (OpWrite [4])] in
   \<exists>fins sent. length fins = 1 \<and> sent \<le> 4 \<and> length (sent_frames 0 es sample_stack) = 4
     \<and> (\<forall>x \<in> set (sent_frames 0 es sample_stack). carries (conn_key sample_open) 1001 fins [1, 2, 3, 4] sent x)"
proof -
  let ?es = "[OnConn 0 (OpWrite [1, 2, 3]), OnConn 0 OpTimer, OnConn 0 OpClose, OnConn 0 (OpWrite [4])]"
  have w: "written 0 ?es = [1, 2, 3, 4]" "closes 0 ?es = 1" by (simp_all add: written_def closes_def)
  have o: "sendQueue sample_open = []" "sendUnsent sample_open = []" "SendSeqNum sample_open = 1001" "State sample_open = ESTABLISHED"
    "SendUnacked sample_open = 1001" "unat (SendWindow sample_open) = 500" "unat (MSS sample_open) = 536" "rto sample_open = 0"
    "rtoTimer sample_open = None"
    by (simp_all add: sample_open_def new_conn_def sample_seg_def)
  obtain s' out where run: "run_events ?es sample_stack = Ok (s', out)"
    using run_events_keeps [OF sample_stack_inv(1)] by blast
  have up: "length (sent_frames 0 ?es sample_stack) = 4" "stays_up 0 ?es sample_stack"
    using sample_stack_inv(2) o
    by (simp_all add: torn_down_def op_Write_eq pumpSendLocked_spec after_pump_def pump_amount_def window_room_def in_flight_def
        pump_segs_def pump_mss_def segs_of.simps startRTOIfIdleLocked_def Let_def onRTO_spec conn_Close_spec initialRTO_def)
  obtain fins sent where "sent \<le> length (written 0 ?es)" "length fins = closes 0 ?es"
      "\<forall>x \<in> set (sent_frames 0 ?es sample_stack). carries (conn_key sample_open) (SendSeqNum sample_open) fins (written 0 ?es) sent x"
    using frames_carry_written_stream [OF sample_stack_inv o(1,2) run] up(2) by blast
  then show ?thesis
    using up(1) unfolding w o(3) Let_def by (intro exI [of _ fins] exI [of _ sent]) (simp del: sent_frames.simps)
qed

subsection \<open>After the peer has closed its side\<close>

text \<open>
  What a connection \<open>c\<close> in CLOSE-WAIT has become, when \<open>w\<close> was written meanwhile: torn down, or still in
  CLOSE-WAIT with SND.UNA and the window of then, the queue of then, and behind it no more of the buffer than
  that window had room for.
\<close>

definition stuck :: "TCPConnection \<Rightarrow> bytes \<Rightarrow> TCPConnection \<Rightarrow> bool" where
  "stuck c w c' \<longleftrightarrow> readChClosed c' \<and> (State c' = CLOSED \<or> State c' = CLOSE_WAIT
     \<and> SendUnacked c' = SendUnacked c \<and> SendWindow c' = SendWindow c
     \<and> (\<exists>segs. sendQueue c' = sendQueue c @ segs \<and> seg_chain (SendSeqNum c) segs (SendSeqNum c')
          \<and> queue_bytes segs @ sendUnsent c' = sendUnsent c @ w
          \<and> in_flight c' = in_flight c + length (queue_bytes segs) \<and> length (queue_bytes segs) \<le> window_room c))"

lemma stuck_start: "State c = CLOSE_WAIT \<Longrightarrow> readChClosed c \<Longrightarrow> stuck c [] c"
  by (auto simp: stuck_def)

lemma stuck_cong:
  "stuck c w c' \<Longrightarrow> readChClosed c'' = readChClosed c' \<Longrightarrow> State c'' = State c' \<Longrightarrow> SendUnacked c'' = SendUnacked c'
     \<Longrightarrow> SendWindow c'' = SendWindow c' \<Longrightarrow> sendQueue c'' = sendQueue c' \<Longrightarrow> sendUnsent c'' = sendUnsent c'
     \<Longrightarrow> SendSeqNum c'' = SendSeqNum c' \<Longrightarrow> stuck c w c''"
  by (simp add: stuck_def in_flight_def)

lemma stuck_write:
  assumes "stuck c w c'" "op_Write d c' = Ok (c'', out)"
  shows "stuck c (w @ d) c''"
proof -
  let ?b = "c'\<lparr>sendUnsent := sendUnsent c' @ d\<rparr>"
  have run: "pumpSendLocked ?b = Ok (c'', out)" using assms(2) by (simp add: op_Write_eq)
  note frame = pump_frame [OF run]
  show ?thesis
  proof (cases "State c' = CLOSED")
    case True
    then show ?thesis using frame(2,3) assms(1) by (simp add: stuck_def)
  next
    case False
    then obtain segs where s: "sendQueue c' = sendQueue c @ segs" "seg_chain (SendSeqNum c) segs (SendSeqNum c')"
        "queue_bytes segs @ sendUnsent c' = sendUnsent c @ w" "in_flight c' = in_flight c + length (queue_bytes segs)"
        "length (queue_bytes segs) \<le> window_room c" "SendWindow c' = SendWindow c"
      using assms(1) by (auto simp: stuck_def)
    let ?new = "pump_segs (pump_mss ?b) ?b"
    have c'': "sendQueue c'' = sendQueue c' @ ?new" "sendUnsent c'' = drop (pump_amount ?b) (sendUnsent c' @ d)"
      "SendSeqNum c'' = SendSeqNum (after_pump ?b)" "in_flight c'' = in_flight c' + pump_amount ?b"
      using run in_flight_after_pump [of ?b] by (auto simp: pumpSendLocked_spec after_pump_def in_flight_def)
    have new: "queue_bytes ?new = take (pump_amount ?b) (sendUnsent c' @ d)" "length (queue_bytes ?new) = pump_amount ?b"
      by (simp_all add: pump_segs_bytes) (simp add: pump_amount_def)
    have "pump_amount ?b \<le> window_room c - length (queue_bytes segs)"
      using s(4,6) by (simp add: pump_amount_def window_room_def in_flight_def)
    then have "length (queue_bytes (segs @ ?new)) \<le> window_room c" using s(5) new(2) by simp
    moreover have "seg_chain (SendSeqNum c) (segs @ ?new) (SendSeqNum c'')"
      using seg_chain_append [OF s(2)] pump_segs_chain [of ?b] by (simp add: c''(3) after_pump_def)
    moreover have "queue_bytes (segs @ ?new) @ sendUnsent c'' = sendUnsent c @ w @ d"
    proof -
      have "queue_bytes ?new @ sendUnsent c'' = sendUnsent c' @ d" unfolding new(1) c''(2) by (rule append_take_drop_id)
      then have "queue_bytes (segs @ ?new) @ sendUnsent c'' = (queue_bytes segs @ sendUnsent c') @ d" by simp
      then show ?thesis unfolding s(3) by simp
    qed
    moreover have "in_flight c'' = in_flight c + length (queue_bytes (segs @ ?new))" using s(4) c''(4) new(2) by simp
    ultimately show ?thesis
      using assms(1) False frame(2,3,7,8) s(1) c''(1)
      unfolding stuck_def by (auto intro!: exI [of _ "segs @ ?new"])
  qed
qed

lemma stuck_app:
  assumes "stuck c w c'" "app_run opn c' = Ok (c'', out)" "opn \<noteq> OpClose"
  shows "stuck c (w @ writes_of i (OnConn i opn)) c''"
proof (cases opn)
  case (OpRead n)
  have "c'' = snd (conn_Read n c')" using assms(2) OpRead by (simp add: op_Read_def)
  then show ?thesis using OpRead assms(1)
    by (auto simp: conn_Read_def Let_def intro: stuck_cong split: list.splits if_splits)
next
  case (OpWrite d)
  then show ?thesis using stuck_write [OF assms(1)] assms(2) by simp
next
  case OpTimer
  then show ?thesis using assms(1,2)
    by (auto simp: onRTO_spec Let_def intro: stuck_cong split: list.splits if_splits)
qed (use assms(3) in simp)

definition stuck_at :: "TCPConnection \<Rightarrow> bytes \<Rightarrow> nat \<Rightarrow> Stack \<Rightarrow> bool" where
  "stuck_at c w i s \<longleftrightarrow> (\<exists>c'. conn_at s i = Some c' \<and> stuck c w c')"

lemma stuck_segment:
  assumes "handleSegment i seg frame src s = Ok (s', out)" "stuck_at c w i s"
  shows "stuck_at c w i s'"
  using assms
  by (auto simp: handleSegment_def stuck_at_def stuck_def abortConnection_def Let_def closeReadChLocked_eq split: if_splits)

lemma stuck_step:
  assumes "exec e s = Ok (s', out)" "stack_inv s" "stuck_at c w i s" "e \<noteq> OnConn i OpClose"
  shows "stuck_at c (w @ writes_of i e) i s'"
proof -
  obtain d where d: "conn_at s i = Some d" "stuck c w d" using assms(3) by (auto simp: stuck_at_def)
  have other: "stuck_at c w i t'" if "only_conn j k t t'" "j \<noteq> i" "stuck_at c w i t" for j k t t'
    using that by (auto simp: only_conn_def stuck_at_def)
  show ?thesis
  proof (cases e)
    case (Recv draw data src)
    show ?thesis
    proof (cases "blocked s = None")
      case True
      then have "handleRaw (generateISN draw) data src s = Ok (s', out)" using assms(1) Recv by simp
      then show ?thesis
      proof (cases rule: handleRaw_cases)
        case (2 f p t)
        show ?thesis
        proof (cases "connections s (segment_key p t)")
          case None
          have "next_conn s \<noteq> i" using stack_inv_fresh [OF assms(2)] d(1) by auto
          moreover obtain m where "handleSYN (generateISN draw) p t f (segment_key p t) src s =
              (let c = new_conn (generateISN draw) m p t f src in
                Ok (SYN_stack s (segment_key p t) (c\<lparr>SendSeqNum := generateISN draw + 1\<rparr>),
                  [(src, out_bytes c (SYN OR ACK) [] (generateISN draw) (buildMSSOption ourMSS) f)]))"
            using handleSYN_spec by blast
          ultimately have "conn_at s' i = Some d"
            using 2(2) None d(1) by (auto simp: dispatch_def Let_def SYN_stack_def split: if_splits)
          then show ?thesis using Recv d(2) by (simp add: stuck_at_def)
        next
          case (Some j)
          then obtain x where x: "conn_at s j = Some x" "conn_key x = segment_key p t"
            using stack_inv_table [OF assms(2)] by blast
          have hs: "handleSegment j t f src s = Ok (s', out)"
            using 2(2) Some by (simp add: dispatch_def Let_def)
          show ?thesis
            using stuck_segment [OF hs [unfolded]] other [OF handleSegment_only [OF hs x]] assms(3) Recv hs
            by (cases "j = i") (auto intro: stuck_segment)
        qed
      next
        case 1
        then show ?thesis using assms(3) Recv by simp
      qed
    qed (use assms(1,3) Recv in auto)
  next
    case Resume
    have closed: "pending_conn q \<noteq> i" if "blocked s = Some q" for q
      using assms(2) that d by (auto simp: stack_inv_def blocked_ok_def open_conn_def stuck_def split: pending.splits)
    have "stuck_at c w i s'"
    proof (cases "blocked s")
      case (Some q)
      show ?thesis
      proof (cases q)
        case (PushConn l j seg frame src)
        obtain L x where L: "listener_at s l = Some L" and x: "conn_at s j = Some x"
          using assms(2) Some PushConn by (auto simp: stack_inv_def blocked_ok_def open_conn_def)
        let ?s = "(put_listener l (L\<lparr>lst_accept := lst_accept L @ [j]\<rparr>) s)\<lparr>blocked := None\<rparr>"
        show ?thesis
        proof (cases "length (lst_accept L) < accept_cap")
          case True
          have run: "segment_ESTABLISHED j seg frame src ?s = Ok (s', out)"
            using assms(1) Resume Some PushConn L True by (simp add: recv_resume_def)
          have "only_conn j (conn_key x) ?s s'" using segment_ESTABLISHED_only [OF run] by simp
          then show ?thesis
            using other [of j _ ?s s'] closed [OF Some] PushConn assms(3) by (simp add: stuck_at_def)
        qed (use assms(1,3) Resume Some PushConn L in \<open>auto simp: recv_resume_def\<close>)
      next
        case (PushData j data seg frame src)
        obtain x where x: "conn_at s j = Some x" "\<not> readChClosed x"
          using assms(2) Some PushData by (auto simp: stack_inv_def blocked_ok_def open_conn_def)
        let ?s = "(put_conn j (x\<lparr>readCh := readCh x @ [data]\<rparr>) s)\<lparr>blocked := None\<rparr>"
        show ?thesis
        proof (cases "length (readCh x) < read_cap")
          case True
          have run: "established_fin j seg frame src ?s [] = Ok (s', out)"
            using assms(1) Resume Some PushData x True by (simp add: recv_resume_def push_read_def)
          have "only_conn j (conn_key x) ?s s'" using established_fin_only [OF run] by simp
          then show ?thesis
            using other [of j _ ?s s'] closed [OF Some] PushData assms(3) by (simp add: stuck_at_def put_conn_def)
        qed (use assms(1,3) Resume Some PushData x in \<open>auto simp: recv_resume_def push_read_def\<close>)
      qed
    qed (use assms(1,3) Resume in \<open>simp add: recv_resume_def\<close>)
    then show ?thesis using Resume by simp
  next
    case (DoListen p)
    then show ?thesis using assms(1,3) by (auto simp: stack_Listen_def Let_def stuck_at_def)
  next
    case (DoAccept l)
    then show ?thesis using assms(1,3) by (auto simp: stack_Accept_def stuck_at_def split: option.splits list.splits)
  next
    case (OnConn j opn)
    show ?thesis
    proof (cases "j = i")
      case True
      obtain c1 where c1: "app_run opn d = Ok (c1, out)" "s' = put_conn i c1 s"
        using assms(1) d(1) OnConn True by (auto simp: rbind_eqs)
      from stuck_app [OF d(2) c1(1), of i] assms(4) OnConn True c1(2) show ?thesis by (simp add: stuck_at_def)
    next
      case False
      then have "writes_of i e = []" using OnConn by (cases opn) simp_all
      then show ?thesis
        using assms(1,3) OnConn False by (cases "conn_at s j") (auto simp: rbind_eqs stuck_at_def put_conn_def)
    qed
  next
    case (Wake n)
    then show ?thesis
      using assms(1) d
      by (auto simp: timeWaitCleanup_def removeConnection_def Let_def stuck_at_def stuck_def stopRTOLocked_def
          split: if_splits option.splits)
  qed
qed

lemma stuck_run:
  assumes "stack_inv s" "stuck_at c w i s" "OnConn i OpClose \<notin> set es" "run_events es s = Ok (s', out)"
  shows "stuck_at c (w @ written i es) i s'"
  using assms
proof (induction es arbitrary: s w out)
  case (Cons e es)
  obtain s1 o1 where x: "exec e s = Ok (s1, o1)" "stack_inv s1" using exec_keeps [OF Cons.prems(1)] by blast
  obtain o2 where r: "run_events es s1 = Ok (s', o2)" using Cons.prems(4) x(1) by (auto simp: rbind_eqs)
  have "stuck_at c (w @ writes_of i e) i s1" using stuck_step [OF x(1) Cons.prems(1,2)] Cons.prems(3) by auto
  from Cons.IH [OF x(2) this _ r] Cons.prems(3) show ?case by (simp add: written_def)
qed (simp add: written_def)

text \<open>
  C37: once the peer has closed its side (CLOSE-WAIT, with the read channel closed as its FIN leaves it), the
  connection can no longer finish sending (a defect: RFC 9293, section 3.10.7.4, requires acknowledgements to be
  processed in CLOSE-WAIT). Whatever segments and acknowledgements arrive, whatever timers fire and whatever the
  application writes, until it calls \<^verbatim>\<open>Close\<close>: SND.UNA and the send window never move, no segment ever leaves the
  retransmission queue, and all that is ever sent of the buffer is what this window had room for. The rest, the
  bytes that waited then and all that is written later, is never sent. Only a tear-down of the connection ends this.
\<close>
theorem close_wait_stalls_output:
  assumes "stack_inv s" "conn_at s i = Some c" "State c = CLOSE_WAIT" "readChClosed c"
    "OnConn i OpClose \<notin> set es" "run_events es s = Ok (s', out)"
  shows "\<exists>c'. conn_at s' i = Some c' \<and> (State c' = CLOSED \<or> State c' = CLOSE_WAIT
    \<and> SendUnacked c' = SendUnacked c \<and> SendWindow c' = SendWindow c
    \<and> (\<exists>segs. sendQueue c' = sendQueue c @ segs \<and> seg_chain (SendSeqNum c) segs (SendSeqNum c')
         \<and> queue_bytes segs @ sendUnsent c' = sendUnsent c @ written i es
         \<and> length (queue_bytes segs) \<le> unat (SendWindow c) - unat (SendSeqNum c - SendUnacked c)))"
proof -
  have "stuck_at c [] i s" using stuck_start [OF assms(3,4)] assms(2) by (simp add: stuck_at_def)
  from stuck_run [OF assms(1) this assms(5,6)] show ?thesis
    by (auto simp: stuck_at_def stuck_def window_room_def in_flight_def)
qed

text \<open>
  Three bytes fill the window, two wait, and the peer has closed. Its acknowledgement of the three bytes, with a new
  window, arrives; the application writes one byte more and the timer expires.
\<close>

definition stalled_conn :: TCPConnection where
  "stalled_conn = closing_conn\<lparr>State := CLOSE_WAIT, readChClosed := True\<rparr>"

definition stalled_stack :: Stack where
  "stalled_stack = put_conn 0 stalled_conn sample_stack"

lemma stalled_stack_inv: "stack_inv stalled_stack"
  unfolding stalled_stack_def
  by (rule stack_inv_put [OF sample_stack_inv])
    (simp_all add: stalled_conn_def closing_conn_def sample_open_def new_conn_def inv_defs initialRTO_def maxRTO_def
      sample_stack_def SYN_stack_def NewStack_def conn_key_def)

lemma stalled_stack_recv:
  "exec (Recv None (out_bytes (sample_peer\<lparr>RecvSeqNum := 1004\<rparr>) ACK [] 101 [] sample_frame) 7) stalled_stack
     = Ok (stalled_stack, [])"
proof -
  let ?data = "out_bytes (sample_peer\<lparr>RecvSeqNum := 1004\<rparr>) ACK [] 101 [] sample_frame"
  have table: "connections stalled_stack k = None \<or> connections stalled_stack k = Some 0"
    "listeners stalled_stack p = None" "blocked stalled_stack = None" for k p
    by (simp_all add: stalled_stack_def put_conn_def sample_stack_def SYN_stack_def NewStack_def)
  have flags: "Flags t = ACK" if "parse_layers ?data = Ok (f, p, t)" for f p t
    using parse_layers_out_bytes [of "[]" "[]" "sample_peer\<lparr>RecvSeqNum := 1004\<rparr>" ACK 101 sample_frame "[]"] that
    by (auto simp: out_segment_def)
  have seg: "handleSegment 0 t f 7 stalled_stack = Ok (stalled_stack, [])" if "Flags t = ACK" for t f
    using that by (simp add: handleSegment_def stalled_stack_def stalled_conn_def flag_defs)
  obtain s' out where h: "handleRaw (generateISN None) ?data 7 stalled_stack = Ok (s', out)"
    using handleRaw_keeps [OF stalled_stack_inv table(3)] by blast
  from h have "s' = stalled_stack \<and> out = []"
  proof (cases rule: handleRaw_cases)
    case (2 f p t)
    then show ?thesis
      using table(1) [of "segment_key p t"] table(2) [of "DestPort t"] seg [OF flags [OF 2(1)]]
      by (elim disjE) (simp_all add: dispatch_def)
  qed simp
  with h table(3) show ?thesis by simp
qed

theorem close_wait_stalls_output_witness:
  "\<exists>s' out c'. run_events [Recv None (out_bytes (sample_peer\<lparr>RecvSeqNum := 1004\<rparr>) ACK [] 101 [] sample_frame) 7,
      OnConn 0 (OpWrite [6]), OnConn 0 OpTimer] stalled_stack = Ok (s', out)
    \<and> conn_at s' 0 = Some c' \<and> State c' = CLOSE_WAIT \<and> SendUnacked c' = 1001 \<and> SendWindow c' = 3
    \<and> sendQueue c' = [\<lparr>ss_seqNum = 1001, ss_data = [1, 2, 3], ss_flags = ACK\<rparr>] \<and> sendUnsent c' = [4, 5, 6]"
proof -
  let ?es = "[Recv None (out_bytes (sample_peer\<lparr>RecvSeqNum := 1004\<rparr>) ACK [] 101 [] sample_frame) 7,
      OnConn 0 (OpWrite [6]), OnConn 0 OpTimer]"
  note inv = stalled_stack_inv
  have c: "conn_at stalled_stack 0 = Some stalled_conn" "State stalled_conn = CLOSE_WAIT" "readChClosed stalled_conn"
    by (simp_all add: stalled_stack_def stalled_conn_def)
  obtain s' out where run: "run_events ?es stalled_stack = Ok (s', out)" using run_events_keeps [OF inv] by blast
  have w: "op_Write [6] stalled_conn = Ok (stalled_conn\<lparr>sendUnsent := [4, 5, 6]\<rparr>, [])"
    by (simp add: op_Write_eq pumpSendLocked_spec pump_amount_def after_pump_def pump_segs_def window_room_def
        in_flight_def startRTOIfIdleLocked_def stalled_conn_def closing_conn_def sample_open_def new_conn_def)
  obtain c2 o2 where t: "onRTO (stalled_conn\<lparr>sendUnsent := [4, 5, 6]\<rparr>) = Ok (c2, o2)" "State c2 = CLOSE_WAIT"
      "sendQueue c2 = sendQueue stalled_conn"
    by (auto simp: onRTO_spec Let_def stalled_conn_def closing_conn_def sample_open_def new_conn_def)
  have "conn_at s' 0 = Some c2"
    using run w t(1) by (auto simp: stalled_stack_recv rbind_eqs c(1) simp del: exec.simps(1))
  moreover obtain c' where c': "conn_at s' 0 = Some c'" "State c' = CLOSED \<or> State c' = CLOSE_WAIT
    \<and> SendUnacked c' = SendUnacked stalled_conn \<and> SendWindow c' = SendWindow stalled_conn
    \<and> (\<exists>segs. sendQueue c' = sendQueue stalled_conn @ segs \<and> seg_chain (SendSeqNum stalled_conn) segs (SendSeqNum c')
         \<and> queue_bytes segs @ sendUnsent c' = sendUnsent stalled_conn @ written 0 ?es
         \<and> length (queue_bytes segs) \<le> unat (SendWindow stalled_conn) - unat (SendSeqNum stalled_conn - SendUnacked stalled_conn))"
    using close_wait_stalls_output [OF inv c _ run] by auto
  ultimately have "c' = c2" "State c2 = CLOSE_WAIT" using t(2) by simp_all
  with c' run t(3) show ?thesis
    by (auto simp: written_def stalled_conn_def closing_conn_def sample_open_def new_conn_def)
qed

end
