(* ===== verification/Tcp_Accept.thy ===== *)
theory Tcp_Accept
  imports Tcp_Transmit
begin

unbundle bit_operations_syntax

section \<open>Every connection is accepted once\<close>

text \<open>
  A connection is offered to the application when it is in the accept queue of a listener or the receive loop
  is blocked on putting it there. \<open>A\<close> is the list of connections that \<^verbatim>\<open>Accept\<close> has returned: none of them is
  offered again, no connection is offered twice, and none of them can become established once more.
\<close>

definition offered :: "nat \<Rightarrow> Stack \<Rightarrow> bool" where
  "offered i s \<longleftrightarrow> (\<exists>l L. listener_at s l = Some L \<and> i \<in> set (lst_accept L))
     \<or> (\<exists>l seg frame src. blocked s = Some (PushConn l i seg frame src))"

definition past_handshake :: "nat \<Rightarrow> Stack \<Rightarrow> bool" where
  "past_handshake i s \<longleftrightarrow> (\<exists>c. conn_at s i = Some c \<and> State c \<noteq> SYN_RECEIVED)"

definition queues_ok :: "Stack \<Rightarrow> bool" where
  "queues_ok s \<longleftrightarrow> (\<forall>l L. listener_at s l = Some L \<longrightarrow> distinct (lst_accept L)
     \<and> (\<forall>l' L'. listener_at s l' = Some L' \<longrightarrow> l' \<noteq> l \<longrightarrow> set (lst_accept L) \<inter> set (lst_accept L') = {})
     \<and> (\<forall>l' i seg frame src. blocked s = Some (PushConn l' i seg frame src) \<longrightarrow> i \<notin> set (lst_accept L)))"

definition accept_ok :: "nat list \<Rightarrow> Stack \<Rightarrow> bool" where
  "accept_ok A s \<longleftrightarrow> queues_ok s \<and> distinct A \<and> (\<forall>i. offered i s \<longrightarrow> i \<notin> set A \<and> past_handshake i s)
     \<and> (\<forall>i \<in> set A. past_handshake i s)"

fun accepts_of :: "event \<Rightarrow> Stack \<Rightarrow> nat list" where
  "accepts_of (DoAccept l) s = (case stack_Accept l s of None \<Rightarrow> [] | Some (i, _) \<Rightarrow> [i])"
| "accepts_of e s = []"

fun accepted :: "event list \<Rightarrow> Stack \<Rightarrow> nat list" where
  "accepted [] s = []"
| "accepted (e # es) s = accepts_of e s @ (case exec e s of Ok (s1, out) \<Rightarrow> accepted es s1 | _ \<Rightarrow> [])"

subsection \<open>Steps that offer nothing\<close>

definition quiet :: "Stack \<Rightarrow> Stack \<Rightarrow> bool" where
  "quiet s s' \<longleftrightarrow> listener_at s' = listener_at s
     \<and> (\<forall>l i seg frame src. blocked s' = Some (PushConn l i seg frame src) \<longrightarrow> blocked s = blocked s')
     \<and> (\<forall>i. past_handshake i s \<longrightarrow> past_handshake i s')"

lemma quiet_accept: "accept_ok A s \<Longrightarrow> quiet s s' \<Longrightarrow> accept_ok A s'"
  unfolding accept_ok_def queues_ok_def offered_def quiet_def by metis

lemma quiet_refl [simp]: "quiet s s"
  by (simp add: quiet_def)

lemma quiet_trans: "quiet s s1 \<Longrightarrow> quiet s1 s2 \<Longrightarrow> quiet s s2"
  unfolding quiet_def by metis

lemma past_handshake_simps [simp]:
  "past_handshake j (put_conn i c s) \<longleftrightarrow> (if j = i then State c \<noteq> SYN_RECEIVED else past_handshake j s)"
  "past_handshake j (put_listener l L s) = past_handshake j s"
  "past_handshake j (drop_key k s) = past_handshake j s"
  "past_handshake j (s\<lparr>blocked := b\<rparr>) = past_handshake j s"
  "past_handshake j (s\<lparr>sleepers := q\<rparr>) = past_handshake j s"
  "past_handshake j (start_time_wait i c s) \<longleftrightarrow> j = i \<or> past_handshake j s"
  by (simp_all add: past_handshake_def start_time_wait_def Let_def)

lemma quiet_put:
  "quiet s s1 \<Longrightarrow> State c \<noteq> SYN_RECEIVED \<or> \<not> past_handshake i s1 \<Longrightarrow> quiet s (put_conn i c s1)"
  by (auto simp: quiet_def)

lemma quiet_simps [simp]:
  "quiet s (drop_key k s1) = quiet s s1"
  "quiet s s1 \<Longrightarrow> quiet s (s1\<lparr>blocked := Some (PushData i d seg frame src)\<rparr>)"
  "quiet s s1 \<Longrightarrow> quiet s (s1\<lparr>blocked := None\<rparr>)"
  "quiet s s1 \<Longrightarrow> quiet s (s1\<lparr>sleepers := q\<rparr>)"
  "quiet s s1 \<Longrightarrow> quiet s (start_time_wait i c s1)"
proof -
  show "quiet s s1 \<Longrightarrow> quiet s (start_time_wait i c s1)"
    by (simp add: quiet_def) (simp add: start_time_wait_def Let_def)
qed (auto simp: quiet_def)

lemma quiet_fin:
  "established_fin i seg frame src s out = Ok (s', out') \<Longrightarrow> quiet s s'"
  by (auto simp: established_fin_def Let_def closeReadChLocked_eq intro!: quiet_put split: option.splits if_splits)

lemma quiet_data:
  assumes "established_data i seg frame src s out = Ok (s', out')" "conn_at s i = Some c" "State c \<noteq> SYN_RECEIVED"
  shows "quiet s s'"
proof (cases "tcp_Payload seg = [] \<or> SeqNum seg \<noteq> RecvSeqNum c")
  case True
  then show ?thesis using established_data_skip [OF assms(2)] assms(1) quiet_fin by simp
next
  case False
  have q: "quiet s (put_conn i (c\<lparr>RecvSeqNum := x, RecvBuffer := b, readCh := ch\<rparr>) s)"
    "quiet s (put_conn i (c\<lparr>RecvSeqNum := x, RecvBuffer := b\<rparr>) s)" for x b ch
    using assms(3) by (intro quiet_put; simp)+
  show ?thesis
    using assms(1) False quiet_trans [OF q(1) quiet_fin]
    by (auto simp: established_data_def assms(2) Let_def push_read_def q(2) split: if_splits)
qed

lemma quiet_ESTABLISHED:
  assumes "segment_ESTABLISHED i seg frame src s = Ok (s', out)" "conn_at s i = Some c" "State c \<noteq> SYN_RECEIVED"
    "conn_inv c"
  shows "quiet s s'"
proof -
  obtain goon c1 o1 where a: "processAck seg frame src c = Ok (goon, c1, o1)" "State c1 = State c"
    using processAck_keeps [OF assms(4)] by blast
  have q: "quiet s (put_conn i c1 s)" using a(2) assms(3) by (intro quiet_put) simp_all
  show ?thesis
    using assms a q quiet_trans [OF q quiet_data]
    by (cases goon) (auto simp: segment_ESTABLISHED_def)
qed

lemma quiet_handleSegment:
  assumes "handleSegment i seg frame src s = Ok (s', out)" "conn_at s i = Some c" "State c \<noteq> SYN_RECEIVED"
    "conn_inv c"
  shows "quiet s s'"
proof (cases "Flags seg AND RST = 0")
  case False
  then show ?thesis
    using assms(1,2)
    by (auto simp: handleSegment_def abortConnection_def Let_def closeReadChLocked_eq intro!: quiet_put split: if_splits)
next
  case rst: True
  note hs = assms(1) [unfolded handleSegment_def assms(2) option.case rst]
  show ?thesis
  proof (cases "State c")
    case ESTABLISHED
    then show ?thesis using hs quiet_ESTABLISHED [OF _ assms(2-4)] by simp
  next
    case FIN_WAIT_1
    obtain goon c1 o1 where a: "processAck seg frame src c = Ok (goon, c1, o1)" "State c1 = State c"
      using processAck_keeps [OF assms(4)] by blast
    then show ?thesis
      using hs FIN_WAIT_1 assms(2)
      by (auto simp: segment_FIN_WAIT_1_def Let_def intro!: quiet_put split: if_splits)
  next
    case FIN_WAIT_2
    then show ?thesis
      using hs assms(2) by (auto simp: segment_FIN_WAIT_2_def Let_def split: if_splits)
  next
    case LAST_ACK
    then show ?thesis
      using hs assms(2)
      by (auto simp: segment_LAST_ACK_def removeConnection_def Let_def intro!: quiet_put split: if_splits)
  next
    case CLOSING
    then show ?thesis using assms(4) by (simp add: inv_defs)
  qed (use hs assms(3) in simp_all)
qed

subsection \<open>Steps that offer a connection\<close>

lemma accept_push:
  assumes "accept_ok A s" "blocked s = None" "past_handshake i s" "\<not> offered i s" "i \<notin> set A" "listener_at s l = Some L"
  shows "accept_ok A (put_listener l (L\<lparr>lst_accept := lst_accept L @ [i]\<rparr>) s)" (is "accept_ok A ?s")
proof -
  have new: "\<forall>l L. listener_at s l = Some L \<longrightarrow> i \<notin> set (lst_accept L)" using assms(4) by (auto simp: offered_def)
  have q: "queues_ok ?s"
    using assms(1,2,6) new by (auto simp: accept_ok_def queues_ok_def)
  have "offered j ?s \<Longrightarrow> j = i \<or> offered j s" for j
    using assms(2,6) by (auto simp: offered_def split: if_splits)
  then show ?thesis using q assms(1,3,5) by (auto simp: accept_ok_def)
qed

lemma accept_block:
  assumes "accept_ok A s" "blocked s = None" "past_handshake i s" "\<not> offered i s" "i \<notin> set A"
  shows "accept_ok A (s\<lparr>blocked := Some (PushConn l i seg frame src)\<rparr>)" (is "accept_ok A ?s")
proof -
  have "queues_ok ?s" using assms(1,4) by (auto simp: accept_ok_def queues_ok_def offered_def)
  moreover have "offered j ?s \<Longrightarrow> j = i \<or> offered j s" for j by (auto simp: offered_def)
  ultimately show ?thesis using assms(1,3,5) by (auto simp: accept_ok_def)
qed

lemma accept_unblock:
  assumes "accept_ok A s" "blocked s = Some (PushConn l i seg frame src)"
  shows "accept_ok A (s\<lparr>blocked := None\<rparr>)" "\<not> offered i (s\<lparr>blocked := None\<rparr>)" "i \<notin> set A" "past_handshake i s"
  using assms quiet_accept [OF assms(1), of "s\<lparr>blocked := None\<rparr>"]
  by (auto simp: accept_ok_def offered_def queues_ok_def)

lemma accept_handleSegment:
  assumes "accept_ok A s" "handleSegment i seg frame src s = Ok (s', out)" "conn_at s i = Some c" "conn_inv c"
    "blocked s = None"
  shows "accept_ok A s'"
proof (cases "State c = SYN_RECEIVED \<and> Flags seg AND RST = 0")
  case True
  define c1 where "c1 = c\<lparr>State := ESTABLISHED, SendUnacked := AckNum seg, SendWindow := Window seg\<rparr>"
  let ?s1 = "put_conn i c1 s"
  have fresh: "\<not> past_handshake i s" using assms(3) True by (simp add: past_handshake_def)
  have "offered i ?s1 = offered i s" by (simp add: offered_def)
  then have free: "\<not> offered i ?s1" "i \<notin> set A" using assms(1) fresh by (auto simp: accept_ok_def)
  have s1: "accept_ok A ?s1" "past_handshake i ?s1" "blocked ?s1 = None"
    using quiet_accept [OF assms(1)] fresh assms(5) by (simp_all add: quiet_put c1_def)
  have c1: "conn_inv c1" "State c1 \<noteq> SYN_RECEIVED" using assms(4) True by (simp_all add: c1_def inv_defs)
  have "segment_SYN_RECEIVED i seg frame src s = Ok (s', out)"
    using assms(2,3) True by (simp add: handleSegment_def)
  then show ?thesis
    using assms(3) c1_def
  proof (cases rule: segment_SYN_RECEIVED_cases)
    case 2
    then show ?thesis using quiet_accept [OF s1(1) quiet_ESTABLISHED [OF 2 _ c1(2,1)]] by simp
  next
    case (3 l L)
    let ?s2 = "put_listener l (L\<lparr>lst_accept := lst_accept L @ [i]\<rparr>) ?s1"
    have "accept_ok A ?s2" using 3(1) by (intro accept_push s1 free) simp
    then show ?thesis using quiet_accept [OF _ quiet_ESTABLISHED [OF 3(3) _ c1(2,1)]] by simp
  next
    case (4 l)
    then show ?thesis using accept_block [OF s1(1,3,2) free] by simp
  qed (use assms(1) in simp)
next
  case False
  then show ?thesis
  proof (cases "State c = SYN_RECEIVED")
    case True
    then have "quiet s s'"
      using assms(2,3) False
      by (auto simp: handleSegment_def abortConnection_def Let_def closeReadChLocked_eq intro!: quiet_put split: if_splits)
    then show ?thesis by (rule quiet_accept [OF assms(1)])
  qed (use quiet_accept [OF assms(1) quiet_handleSegment [OF assms(2,3) _ assms(4)]] in simp)
qed

lemma accept_resume:
  assumes "accept_ok A s" "recv_resume s = Ok (s', out)" "stack_inv s"
  shows "accept_ok A s'"
proof (cases "blocked s")
  case (Some q)
  show ?thesis
  proof (cases q)
    case (PushConn l i seg frame src)
    obtain L c where L: "listener_at s l = Some L" and c: "conn_at s i = Some c"
      using assms(3) Some PushConn by (auto simp: stack_inv_def blocked_ok_def open_conn_def)
    note un = accept_unblock [OF assms(1) Some [unfolded PushConn]]
    let ?s = "put_listener l (L\<lparr>lst_accept := lst_accept L @ [i]\<rparr>) (s\<lparr>blocked := None\<rparr>)"
    show ?thesis
    proof (cases "length (lst_accept L) < accept_cap")
      case True
      have "accept_ok A ?s" using L un by (intro accept_push) simp_all
      moreover have "?s = (put_listener l (L\<lparr>lst_accept := lst_accept L @ [i]\<rparr>) s)\<lparr>blocked := None\<rparr>"
        by (simp add: put_listener_def)
      moreover have "segment_ESTABLISHED i seg frame src
          ((put_listener l (L\<lparr>lst_accept := lst_accept L @ [i]\<rparr>) s)\<lparr>blocked := None\<rparr>) = Ok (s', out)"
        using assms(2) Some PushConn L True by (simp add: recv_resume_def)
      moreover have "State c \<noteq> SYN_RECEIVED" "conn_inv c"
        using un(4) c stack_inv_conn [OF assms(3) c] by (auto simp: past_handshake_def)
      ultimately show ?thesis
        using quiet_accept quiet_ESTABLISHED [of i seg frame src ?s s' out c] c by simp
    qed (use assms(1,2) Some PushConn L in \<open>simp add: recv_resume_def\<close>)
  next
    case (PushData i data seg frame src)
    obtain c where c: "conn_at s i = Some c" "\<not> readChClosed c"
      using assms(3) Some PushData by (auto simp: stack_inv_def blocked_ok_def open_conn_def)
    let ?s = "(put_conn i (c\<lparr>readCh := readCh c @ [data]\<rparr>) s)\<lparr>blocked := None\<rparr>"
    have "quiet s ?s" using c(1) by (intro quiet_simps quiet_put) (auto simp: past_handshake_def)
    moreover have "quiet s s'" if "established_fin i seg frame src ?s [] = Ok (s', out)"
      using quiet_trans [OF \<open>quiet s ?s\<close> quiet_fin [OF that]] .
    ultimately show ?thesis
      using assms(1,2) Some PushData c quiet_accept [OF assms(1)]
      by (auto simp: recv_resume_def push_read_def split: if_splits)
  qed
qed (use assms in \<open>simp add: recv_resume_def\<close>)

lemma queues_ok_sub:
  assumes "queues_ok s" "listener_at s l = Some L" "distinct xs" "set xs \<subseteq> set (lst_accept L)"
  shows "queues_ok (put_listener l (L\<lparr>lst_accept := xs\<rparr>) s)" (is "queues_ok ?s")
  unfolding queues_ok_def
proof (intro allI impI)
  fix m M assume M: "listener_at ?s m = Some M"
  have old: "\<exists>N. listener_at s n = Some N \<and> set (lst_accept M) \<subseteq> set (lst_accept N) \<and> distinct (lst_accept M)"
    if "listener_at ?s n = Some M" for n M
    using that assms by (cases "n = l") (auto simp: queues_ok_def)
  obtain N where N: "listener_at s m = Some N" "set (lst_accept M) \<subseteq> set (lst_accept N)" "distinct (lst_accept M)"
    using old [OF M] by blast
  note qN = assms(1) [unfolded queues_ok_def, rule_format, OF N(1)]
  have "set (lst_accept M) \<inter> set (lst_accept M') = {}" if M': "listener_at ?s m' = Some M'" "m' \<noteq> m" for m' M'
  proof -
    obtain N' where "listener_at s m' = Some N'" "set (lst_accept M') \<subseteq> set (lst_accept N')"
      using old [OF M'(1)] by blast
    then show ?thesis using qN M'(2) N(2) by blast
  qed
  moreover have "i \<notin> set (lst_accept M)" if "blocked ?s = Some (PushConn l' i seg frame src)" for l' i seg frame src
    using qN that N(2) by auto
  ultimately show "distinct (lst_accept M)
      \<and> (\<forall>l' L'. listener_at ?s l' = Some L' \<longrightarrow> l' \<noteq> m \<longrightarrow> set (lst_accept M) \<inter> set (lst_accept L') = {})
      \<and> (\<forall>l' i seg frame src. blocked ?s = Some (PushConn l' i seg frame src) \<longrightarrow> i \<notin> set (lst_accept M))"
    using N(3) by blast
qed

lemma accept_step:
  assumes "accept_ok A s" "stack_inv s" "exec e s = Ok (s', out)"
  shows "accept_ok (A @ accepts_of e s) s'"
proof (cases e)
  case (Recv draw data src)
  show ?thesis
  proof (cases "blocked s = None")
    case True
    then have "handleRaw (generateISN draw) data src s = Ok (s', out)" using assms(3) Recv by simp
    then show ?thesis
    proof (cases rule: handleRaw_cases)
      case (2 f p t)
      show ?thesis
      proof (cases "connections s (segment_key p t)")
        case None
        have fresh: "conn_at s (next_conn s) = None" by (rule stack_inv_fresh [OF assms(2)])
        obtain m where "handleSYN (generateISN draw) p t f (segment_key p t) src s =
            (let c = new_conn (generateISN draw) m p t f src in
              Ok (SYN_stack s (segment_key p t) (c\<lparr>SendSeqNum := generateISN draw + 1\<rparr>),
                [(src, out_bytes c (SYN OR ACK) [] (generateISN draw) (buildMSSOption ourMSS) f)]))"
          using handleSYN_spec by blast
        then have "quiet s s'"
          using 2(2) None fresh
          by (auto simp: dispatch_def Let_def SYN_stack_def quiet_def past_handshake_def split: if_splits)
        then show ?thesis using quiet_accept [OF assms(1)] Recv by simp
      next
        case (Some j)
        then obtain d where d: "conn_at s j = Some d"
          using stack_inv_table [OF assms(2)] by blast
        have "handleSegment j t f src s = Ok (s', out)"
          using 2(2) Some by (simp add: dispatch_def Let_def)
        from accept_handleSegment [OF assms(1) this d stack_inv_conn [OF assms(2) d] True] Recv
        show ?thesis by simp
      qed
    qed (use assms(1) Recv in simp)
  qed (use assms(1,3) Recv in auto)
next
  case Resume
  then show ?thesis using accept_resume [OF assms(1) _ assms(2)] assms(3) by simp
next
  case (DoListen p)
  have "listener_at s (next_listener s) = None"
    using assms(2) by (cases "listener_at s (next_listener s)") (auto simp: stack_inv_def listeners_ok_def)
  moreover have s': "listener_at s' = (listener_at s)(next_listener s \<mapsto> \<lparr>lst_port = p, lst_accept = []\<rparr>)"
      "conn_at s' = conn_at s" "blocked s' = blocked s"
    using assms(3) DoListen by (auto simp: stack_Listen_def Let_def)
  ultimately have "queues_ok s'" "\<And>i. offered i s' \<Longrightarrow> offered i s" "\<And>i. past_handshake i s' = past_handshake i s"
    using assms(1) by (auto simp: accept_ok_def queues_ok_def offered_def past_handshake_def split: if_splits)
  then show ?thesis using assms(1) DoListen by (auto simp: accept_ok_def)
next
  case (DoAccept l)
  show ?thesis
  proof (cases "stack_Accept l s")
    case None
    then show ?thesis using assms(1,3) DoAccept by simp
  next
    case (Some is1)
    then obtain L i rest where L: "listener_at s l = Some L" "lst_accept L = i # rest"
        "stack_Accept l s = Some (i, put_listener l (L\<lparr>lst_accept := rest\<rparr>) s)"
      by (auto simp: stack_Accept_def split: option.splits list.splits)
    let ?s = "put_listener l (L\<lparr>lst_accept := rest\<rparr>) s"
    have s': "s' = ?s" using assms(3) DoAccept L(3) by simp
    have q: "queues_ok s" using assms(1) by (simp add: accept_ok_def)
    note ql = q [unfolded queues_ok_def, rule_format, OF L(1)]
    have "offered j s" if "j \<in> set rest" for j
      unfolding offered_def using L(1,2) that by (intro disjI1 exI [of _ l] exI [of _ L]) simp
    then have sub: "offered j s" if "offered j ?s" for j
      using that by (auto simp: offered_def split: if_splits)
    have out: "\<not> offered i ?s" "offered i s"
      using ql L(1,2) by (fastforce simp: offered_def split: if_splits)+
    have "queues_ok ?s" using ql L(2) by (intro queues_ok_sub [OF q L(1)]) auto
    then show ?thesis
      using assms(1) sub out s' DoAccept L(3) by (auto simp: accept_ok_def)
  qed
next
  case (OnConn i opn)
  have "quiet s s'"
  proof (cases "conn_at s i")
    case (Some c)
    then obtain c1 where c1: "app_run opn c = Ok (c1, out)" "s' = put_conn i c1 s"
      using assms(3) OnConn by (auto simp: rbind_eqs)
    have "State c \<noteq> SYN_RECEIVED \<longrightarrow> State c1 \<noteq> SYN_RECEIVED"
      using app_run_path [OF c1(1)] by (cases "State c") (auto simp: tcp_path_def)
    then show ?thesis unfolding c1(2) using Some by (intro quiet_put) (auto simp: past_handshake_def)
  qed (use assms(3) OnConn in simp)
  then show ?thesis using quiet_accept [OF assms(1)] OnConn by simp
next
  case (Wake n)
  have "quiet s s'"
    using assms(3) Wake
    by (auto simp: timeWaitCleanup_def removeConnection_def Let_def intro!: quiet_put split: if_splits option.splits)
  then show ?thesis using quiet_accept [OF assms(1)] Wake by simp
qed

lemma accept_run:
  "accept_ok A s \<Longrightarrow> stack_inv s \<Longrightarrow> run_events es s = Ok (s', out) \<Longrightarrow> accept_ok (A @ accepted es s) s'"
proof (induction es arbitrary: A s out)
  case (Cons e es)
  obtain s1 o1 where x: "exec e s = Ok (s1, o1)" "stack_inv s1" using exec_keeps [OF Cons.prems(2)] by blast
  obtain o2 where r: "run_events es s1 = Ok (s', o2)" using Cons.prems(3) x(1) by (auto simp: rbind_eqs)
  show ?case
    using Cons.IH [OF accept_step [OF Cons.prems(1,2) x(1)] x(2) r] x(1) by simp
qed simp

text \<open>
  C11: a connection is accepted at most once. In every run of the stack from its start, the connections that
  \<^verbatim>\<open>Accept\<close> returns are different, on whichever listener; none of them waits in an accept queue again; and each
  has completed its handshake.
\<close>
theorem accepted_at_most_once:
  assumes "run_events es NewStack = Ok (s', out)"
  shows "distinct (accepted es NewStack)
    \<and> (\<forall>i \<in> set (accepted es NewStack). \<not> offered i s' \<and> past_handshake i s')"
proof -
  have "accept_ok [] NewStack" by (simp add: accept_ok_def queues_ok_def offered_def NewStack_def)
  from accept_run [OF this stack_inv_NewStack assms] show ?thesis by (auto simp: accept_ok_def)
qed

theorem accepted_at_most_once_witness:
  "let es = [DoListen 80, Recv (Some 1000) (out_bytes sample_peer SYN [] 99 [] sample_frame) 7,
      Recv None (out_bytes sample_peer ACK [] 100 [] sample_frame) 7, DoAccept 0, DoAccept 0] in
    distinct (accepted es NewStack)"
proof -
  let ?es = "[DoListen 80, Recv (Some 1000) (out_bytes sample_peer SYN [] 99 [] sample_frame) 7,
      Recv None (out_bytes sample_peer ACK [] 100 [] sample_frame) 7, DoAccept 0, DoAccept 0]"
  obtain s' out where "run_events ?es NewStack = Ok (s', out)"
    using run_events_keeps [OF stack_inv_NewStack] by blast
  from accepted_at_most_once [OF this] show ?thesis by (simp only: Let_def)
qed

end
