(* ===== verification/Server_Behaviour.thy ===== *)
theory Server_Behaviour
  imports Server_System Tcp_Accept
begin

section \<open>What the server does under any interleaving\<close>

text \<open>
  Properties of every run of the server: it never panics, the requests are served as if one after the other, each
  goroutine reads and writes one TCP connection of its own, and what leaves the server in frames is what the
  sequential service makes of what came in, in frames.
\<close>

subsection \<open>The requests are served one after the other\<close>

text \<open>
  \<open>serially\<close>: the goroutines of the log, in its order, take the shared state from \<open>s\<close> to \<open>s'\<close>, each as a
  sequential \<open>serve_conn\<close> with its whole input.
\<close>

fun serially ::
  "('db, 't) config \<Rightarrow> goroutine list \<Rightarrow> (nat \<times> ('db, 't) moment) list \<Rightarrow> ('db, 't) app \<Rightarrow> ('db, 't) app \<Rightarrow> bool" where
  "serially cf gs [] s s' \<longleftrightarrow> s' = s"
| "serially cf gs ((j, m) # log) s s' \<longleftrightarrow> (\<exists>s1. served cf (gs ! j) m s s1 \<and> serially cf gs log s1 s')"

abbreviation settled :: "goroutine \<Rightarrow> bool" where
  "settled g \<equiv> g_phase g = Answered \<or> g_phase g = Closed"

text \<open>
  Goroutines are only added; one keeps its connection and its draws, and once settled also what it read and sent.
  A closed one stays closed.
\<close>

definition later :: "goroutine \<Rightarrow> goroutine \<Rightarrow> bool" where
  "later g g' \<longleftrightarrow> g_tcp g' = g_tcp g \<and> g_rnd g' = g_rnd g \<and> (g_phase g = Closed \<longrightarrow> g_phase g' = Closed)
     \<and> (settled g \<longrightarrow> settled g' \<and> g_got g' = g_got g \<and> g_end g' = g_end g \<and> c_out (g_conn g') = c_out (g_conn g))"

definition grows :: "goroutine list \<Rightarrow> goroutine list \<Rightarrow> bool" where
  "grows gs gs' \<longleftrightarrow> length gs \<le> length gs' \<and> (\<forall>j < length gs. later (gs ! j) (gs' ! j))"

lemma later_refl [simp]: "later g g"
  by (simp add: later_def)

lemma grows_refl [simp]: "grows gs gs"
  by (simp add: grows_def)

lemma later_trans: "later g g1 \<Longrightarrow> later g1 g2 \<Longrightarrow> later g g2"
  by (auto simp: later_def)

lemma grows_trans: "grows gs gs1 \<Longrightarrow> grows gs1 gs2 \<Longrightarrow> grows gs gs2"
  unfolding grows_def by (meson later_trans le_trans order_less_le_trans)

lemma grows_update: "(j < length gs \<Longrightarrow> later (gs ! j) g) \<Longrightarrow> grows gs (gs[j := g])"
  by (cases "j < length gs") (auto simp: grows_def nth_list_update list_update_beyond)

lemma grows_keys: "grows gs gs' \<Longrightarrow> prefix (map g_tcp gs) (map g_tcp gs')"
  unfolding grows_def later_def prefix_def
  by (intro exI [of _ "drop (length gs) (map g_tcp gs')"] nth_equalityI) (simp_all add: nth_append)

lemma go_at_Some: "go_at S j = Some g \<longleftrightarrow> j < length (sys_go S) \<and> sys_go S ! j = g"
  by (auto simp: go_at_def)

lemma advance_later:
  assumes "advanced cf m g s (s', g')" "awaits g"
  shows "later g g'"
  using assms by (auto simp: advanced_def same_input_def later_def awaits_def)

lemma take_read_later: "awaits g \<Longrightarrow> later g (take_read r g)"
  by (cases r) (auto simp: take_read_def later_def awaits_def)

lemma go_step_advance:
  assumes "sys_inv cf S" "event_ok cf (Advance j m)" "go_step cf (Advance j m) S = Ok S'"
  shows "S' = S \<or> (\<exists>g s' g'. go_at S j = Some g \<and> awaits g \<and> advanced cf m g (sys_app S) (s', g')
    \<and> S' = (put_go j g' S)\<lparr>sys_app := s', sys_log :=
        (if g_phase g = AwaitRequest \<and> g_phase g' = Answered then sys_log S @ [(j, m)] else sys_log S)\<rparr>)"
proof (cases "go_at S j")
  case (Some g)
  show ?thesis
  proof (cases "awaits g")
    case True
    obtain s' g' where "advance cf m g (sys_app S) = Ok (s', g')" "advanced cf m g (sys_app S) (s', g')"
      using advance_keeps [OF go_at_inv [OF assms(1) Some] True, of m "sys_app S"] assms(2) by auto
    then have "advanced cf m g (sys_app S) (s', g') \<and> S' = (put_go j g' S)\<lparr>sys_app := s', sys_log :=
        (if g_phase g = AwaitRequest \<and> g_phase g' = Answered then sys_log S @ [(j, m)] else sys_log S)\<rparr>"
      using assms(3) Some True by simp
    then show ?thesis using Some True by blast
  qed (use assms(3) Some in simp)
qed (use assms(3) in simp)

lemma go_step_grows:
  assumes "sys_inv cf S" "event_ok cf ev" "go_step cf ev S = Ok S'"
  shows "grows (sys_go S) (sys_go S')"
proof (cases ev)
  case (Accept rnd)
  then show ?thesis using assms(3) by (auto simp: grows_def nth_append split: option.splits)
next
  case (Fetch j n)
  then show ?thesis
    using assms(3) by (auto simp: go_at_Some intro!: grows_update take_read_later split: option.splits if_splits)
next
  case (Advance j m)
  consider "S' = S" | g s' g' where "go_at S j = Some g" "awaits g" "advanced cf m g (sys_app S) (s', g')"
      "sys_go S' = (sys_go S)[j := g']"
    using go_step_advance [OF assms(1), of j m S'] assms(2,3) Advance by fastforce
  then show ?thesis
  proof cases
    case (2 g s' g')
    have "later (sys_go S ! j) g'" using advance_later [OF 2(3,2)] 2(1) by (simp add: go_at_Some)
    then show ?thesis unfolding 2(4) by (rule grows_update)
  qed simp
next
  case (Flush j k)
  then show ?thesis
    using assms(3) by (auto simp: go_at_Some later_def intro!: grows_update split: option.splits)
next
  case (Finish j)
  then show ?thesis
    using assms(3) by (auto simp: go_at_Some later_def intro!: grows_update split: option.splits if_splits)
qed (use assms(3) in simp)

lemma later_served:
  assumes "later g g'" "settled g"
  shows "served cf g' = served cf g" "refused cf g' = refused cf g"
  using assms by (intro served_cong; simp add: later_def)+

lemma serially_grows:
  assumes "serially cf gs log s s'" "grows gs gs'" "\<forall>j \<in> fst ` set log. j < length gs \<and> settled (gs ! j)"
  shows "serially cf gs' log s s'"
  using assms
proof (induction log arbitrary: s)
  case (Cons jm log)
  obtain j m where jm: "jm = (j, m)" by (cases jm)
  have "served cf (gs' ! j) = served cf (gs ! j)"
    using Cons.prems(2,3) jm by (intro later_served) (auto simp: grows_def)
  then show ?case using Cons jm by auto
qed simp

lemma serially_snoc:
  "serially cf gs (log @ [(j, m)]) s s'' \<longleftrightarrow> (\<exists>s'. serially cf gs log s s' \<and> served cf (gs ! j) m s' s'')"
proof (induction log arbitrary: s)
  case (Cons jm log)
  obtain i n where "jm = (i, n)" by (cases jm)
  then show ?case using Cons.IH by (simp del: split_paired_Ex) blast
qed simp

definition log_inv :: "('db, 't) config \<Rightarrow> ('db, 't) app \<Rightarrow> ('db, 't) system \<Rightarrow> bool" where
  "log_inv cf s0 S \<longleftrightarrow> serially cf (sys_go S) (sys_log S) s0 (sys_app S) \<and> distinct (map fst (sys_log S))
     \<and> (\<forall>j \<in> fst ` set (sys_log S). j < length (sys_go S) \<and> settled (sys_go S ! j))
     \<and> (\<forall>j < length (sys_go S). settled (sys_go S ! j) \<longrightarrow> j \<in> fst ` set (sys_log S) \<or> refused cf (sys_go S ! j))"

text \<open>A step that answers nothing keeps the log right.\<close>

lemma log_inv_grows:
  assumes "log_inv cf s0 S" "grows (sys_go S) gs'"
    and "\<forall>j < length gs'. settled (gs' ! j) \<longrightarrow>
      j < length (sys_go S) \<and> settled (sys_go S ! j) \<or> refused cf (gs' ! j)"
  shows "serially cf gs' (sys_log S) s0 (sys_app S)" "distinct (map fst (sys_log S))"
    "\<forall>j \<in> fst ` set (sys_log S). j < length gs' \<and> settled (gs' ! j)"
    "\<forall>j < length gs'. settled (gs' ! j) \<longrightarrow> j \<in> fst ` set (sys_log S) \<or> refused cf (gs' ! j)"
proof -
  note inv = assms(1) [unfolded log_inv_def]
  show "serially cf gs' (sys_log S) s0 (sys_app S)" using inv serially_grows [OF _ assms(2)] by blast
  show "distinct (map fst (sys_log S))" using inv by blast
  show "\<forall>j \<in> fst ` set (sys_log S). j < length gs' \<and> settled (gs' ! j)"
    using inv assms(2) by (auto simp: grows_def later_def)
  show "\<forall>j < length gs'. settled (gs' ! j) \<longrightarrow> j \<in> fst ` set (sys_log S) \<or> refused cf (gs' ! j)"
  proof (intro allI impI)
    fix j assume j: "j < length gs'" "settled (gs' ! j)"
    show "j \<in> fst ` set (sys_log S) \<or> refused cf (gs' ! j)"
    proof (cases "j < length (sys_go S) \<and> settled (sys_go S ! j)")
      case True
      then have "refused cf (gs' ! j) = refused cf (sys_go S ! j)"
        using assms(2) by (intro later_served) (simp_all add: grows_def)
      then show ?thesis using inv True by blast
    qed (use assms(3) j in blast)
  qed
qed

lemma log_step:
  assumes "log_inv cf s0 S" "sys_inv cf S" "event_ok cf ev" "go_step cf ev S = Ok S'"
  shows "log_inv cf s0 S'"
proof -
  have grows: "grows (sys_go S) (sys_go S')" by (rule go_step_grows [OF assms(2-4)])
  have quiet: "log_inv cf s0 S'" if "sys_log S' = sys_log S" "sys_app S' = sys_app S"
    "\<forall>j < length (sys_go S'). settled (sys_go S' ! j) \<longrightarrow>
      j < length (sys_go S) \<and> settled (sys_go S ! j) \<or> refused cf (sys_go S' ! j)"
    using log_inv_grows [OF assms(1) grows that(3)] that(1,2) by (simp add: log_inv_def)
  show ?thesis
  proof (cases ev)
    case (Accept rnd)
    show ?thesis
      using assms(4) Accept
      by (intro quiet) (auto simp: nth_append spawn_def split: option.splits if_splits)
  next
    case (Fetch j n)
    have "\<not> settled (take_read r g)" if "awaits g" for r g
      using that by (cases r) (auto simp: take_read_def awaits_def)
    then show ?thesis
      using assms(4) Fetch
      by (intro quiet) (auto simp: go_at_Some nth_list_update split: option.splits if_splits)
  next
    case (Flush j k)
    show ?thesis
      using assms(4) Flush by (intro quiet) (auto simp: go_at_Some nth_list_update split: option.splits if_splits)
  next
    case (Finish j)
    show ?thesis
      using assms(4) Finish by (intro quiet) (auto simp: go_at_Some nth_list_update split: option.splits if_splits)
  next
    case (Advance j m)
    consider "S' = S" | g s' g' where "go_at S j = Some g" "awaits g" "advanced cf m g (sys_app S) (s', g')"
      "S' = (put_go j g' S)\<lparr>sys_app := s', sys_log :=
        (if g_phase g = AwaitRequest \<and> g_phase g' = Answered then sys_log S @ [(j, m)] else sys_log S)\<rparr>"
      using go_step_advance [OF assms(2)] assms(3,4) Advance by blast
    then show ?thesis
    proof cases
      case (2 g s' g')
      have j: "j < length (sys_go S)" "sys_go S ! j = g" using 2(1) by (simp_all add: go_at_Some)
      note adv = 2(3) [unfolded advanced_def prod.case]
      show ?thesis
      proof (cases "g_phase g = AwaitRequest \<and> g_phase g' = Answered")
        case False
        then show ?thesis
          using 2(4) adv j by (intro quiet) (auto simp: nth_list_update split: if_splits)
      next
        case True
        have go: "sys_go S' = (sys_go S)[j := g']" "sys_log S' = sys_log S @ [(j, m)]" "sys_app S' = s'"
          using 2(4) True by simp_all
        note inv = assms(1) [unfolded log_inv_def]
        have fresh: "j \<notin> fst ` set (sys_log S)" using inv j True by auto
        have old: "serially cf (sys_go S') (sys_log S) s0 (sys_app S)"
          using inv serially_grows [OF _ grows] by blast
        have "served cf (sys_go S' ! j) m (sys_app S) s'" using adv True go(1) j by simp
        then have "serially cf (sys_go S') (sys_log S') s0 s'" unfolding go(2) serially_snoc using old by blast
        moreover have "distinct (map fst (sys_log S'))" using inv fresh go(2) by auto
        moreover have "\<forall>k \<in> fst ` set (sys_log S'). k < length (sys_go S') \<and> settled (sys_go S' ! k)"
          using inv go True j by (auto simp: nth_list_update)
        moreover have "\<forall>k < length (sys_go S'). settled (sys_go S' ! k) \<longrightarrow>
            k \<in> fst ` set (sys_log S') \<or> refused cf (sys_go S' ! k)"
          using inv go by (auto simp: nth_list_update)
        ultimately show ?thesis using go(3) by (simp add: log_inv_def)
      qed
    qed (use assms(1) in simp)
  qed (use assms(1,4) in simp)
qed

lemma log_run:
  assumes "log_inv cf s0 S" "sys_inv cf S" "list_all (event_ok cf) evs" "sys_run cf evs S = Ok (S', out)"
  shows "log_inv cf s0 S'"
  using assms
proof (induction evs arbitrary: S out)
  case (Cons ev evs)
  obtain S1 o1 o2 where 1: "sys_exec cf ev S = Ok (S1, o1)" "sys_run cf evs S1 = Ok (S', o2)"
    using Cons.prems(4) by (auto simp: rbind_eq_Ok)
  have inv: "sys_inv cf S1" using sys_exec_keeps [OF Cons.prems(2), of ev] Cons.prems(3) 1(1) by auto
  obtain S2 st where "go_step cf ev S = Ok S2" "S1 = S2\<lparr>sys_stack := st\<rparr>"
    using 1(1) by (auto simp: sys_exec_def rbind_eq_Ok)
  then have "log_inv cf s0 S1"
    using log_step [OF Cons.prems(1,2), of ev S2] Cons.prems(3) by (simp add: log_inv_def)
  from Cons.IH [OF this inv _ 1(2)] Cons.prems(3) show ?case by simp
qed simp

subsection \<open>What a goroutine reads and writes\<close>

text \<open>
  The books of TCP connection \<open>i\<close>: \<open>R\<close> is what its \<^verbatim>\<open>Read\<close>s have returned and \<open>W\<close> what its \<^verbatim>\<open>Write\<close>s were given.
\<close>

definition ledger :: "nat \<Rightarrow> bytes \<Rightarrow> bytes \<Rightarrow> ('db, 't) system \<Rightarrow> bool" where
  "ledger i R W S \<longleftrightarrow>
     (\<forall>g \<in> set (sys_go S). g_tcp g = i \<longrightarrow> g_got g = R \<and> take (g_sent g) (c_out (g_conn g)) = W)
     \<and> (i \<notin> g_tcp ` set (sys_go S) \<longrightarrow> R = [] \<and> W = [])"

text \<open>The operation that a step performs on the stack, as a run of at most one event.\<close>

abbreviation step_trace :: "('db, 't) config \<Rightarrow> ('db, 't) sys_event \<Rightarrow> ('db, 't) system \<Rightarrow> event list" where
  "step_trace cf ev S \<equiv> case tcp_event cf ev S of None \<Rightarrow> [] | Some e \<Rightarrow> [e]"

lemma net_event_silent: "net_event e \<Longrightarrow> reads_of i e s = [] \<and> writes_of i e = [] \<and> e \<noteq> OnConn i OpClose"
  by (cases e rule: net_event.cases) auto

lemma set_update_distinct:
  assumes "distinct (map f xs)" "j < length xs" "y \<in> set (xs[j := z])"
  shows "y = z \<or> (y \<in> set xs \<and> f y \<noteq> f (xs ! j))"
proof -
  obtain k where k: "k < length xs" "y = xs[j := z] ! k" using assms(3) by (auto simp: in_set_conv_nth)
  show ?thesis
  proof (cases "k = j")
    case False
    then have "f (xs ! k) \<noteq> f (xs ! j)"
      using assms(1,2) k(1) nth_eq_iff_index_eq [OF assms(1), of k j] by simp
    then show ?thesis using k False by simp
  qed (use k assms(2) in simp)
qed

lemma ledger_update:
  assumes "ledger i R W S" "distinct (map g_tcp (sys_go S))" "go_at S j = Some g" "g_tcp g' = g_tcp g"
    and "g_tcp g = i \<Longrightarrow> g_got g' = g_got g @ r \<and> take (g_sent g') (c_out (g_conn g')) = take (g_sent g) (c_out (g_conn g)) @ w"
    and "g_tcp g \<noteq> i \<Longrightarrow> r = [] \<and> w = []" and "sys_go S' = (sys_go S)[j := g']"
  shows "ledger i (R @ r) (W @ w) S'"
proof -
  have j: "j < length (sys_go S)" "g = sys_go S ! j" "g \<in> set (sys_go S)" using assms(3) by (auto simp: go_at_Some)
  have one: "y = g' \<or> (y \<in> set (sys_go S) \<and> g_tcp y \<noteq> g_tcp g)" if "y \<in> set (sys_go S')" for y
    using set_update_distinct [OF assms(2) j(1)] that j(2) assms(7) by metis
  have mem: "g_tcp ` set (sys_go S') = g_tcp ` set (sys_go S)"
    using arg_cong [OF map_update [of g_tcp "sys_go S" j g'], of set] assms(4,7) j
    by (metis (no_types, lifting) list.set_map list_update_id map_update nth_map)
  note books = assms(1) [unfolded ledger_def]
  have "g_got y = R @ r \<and> take (g_sent y) (c_out (g_conn y)) = W @ w" if y: "y \<in> set (sys_go S')" "g_tcp y = i" for y
  proof (cases "g_tcp g = i")
    case True
    then have "y = g'" using one [OF y(1)] y(2) by auto
    then show ?thesis using assms(5) [OF True] books j(3) True by auto
  next
    case False
    then have "y \<in> set (sys_go S)" using one [OF y(1)] y(2) assms(4) by auto
    then show ?thesis using books y(2) assms(6) [OF False] by simp
  qed
  moreover have "R @ r = [] \<and> W @ w = []" if out: "i \<notin> g_tcp ` set (sys_go S')"
  proof -
    have "g_tcp g \<noteq> i" "i \<notin> g_tcp ` set (sys_go S)" using out j(3) unfolding mem by auto
    then show ?thesis using books assms(6) by simp
  qed
  ultimately show ?thesis unfolding ledger_def by blast
qed

lemma ledger_step:
  assumes "ledger i R W S" "distinct (map g_tcp (sys_go S'))" "sys_inv cf S" "event_ok cf ev"
    "go_step cf ev S = Ok S'"
  shows "ledger i (R @ concat (map (\<lambda>e. reads_of i e (sys_stack S)) (step_trace cf ev S)))
    (W @ written i (step_trace cf ev S)) S'"
proof -
  have same: ?thesis if "sys_go S' = sys_go S"
    "\<And>e. tcp_event cf ev S = Some e \<Longrightarrow> reads_of i e (sys_stack S) = [] \<and> writes_of i e = []"
    using that assms(1) by (cases "tcp_event cf ev S") (auto simp: ledger_def written_def)
  have dist: "distinct (map g_tcp (sys_go S))"
    using grows_keys [OF go_step_grows [OF assms(3-5)]] assms(2) by (auto elim!: prefixE)
  note upd = ledger_update [OF assms(1) dist]
  show ?thesis
  proof (cases ev)
    case (Net e)
    then show ?thesis using assms(5) net_event_silent by (intro same) (auto split: if_splits)
  next
    case (Accept rnd)
    show ?thesis
    proof (cases "stack_Accept (cf_listener cf) (sys_stack S)")
      case None
      then show ?thesis using assms(5) Accept by (intro same) auto
    next
      case (Some is1)
      then have go: "sys_go S' = sys_go S @ [spawn cf (fst is1) rnd]" using assms(5) Accept by (auto split: prod.splits)
      then have "fst is1 \<notin> g_tcp ` set (sys_go S)" using assms(2) by (simp add: spawn_def)
      then show ?thesis using assms(1) go Accept by (auto simp: ledger_def written_def spawn_def)
    qed
  next
    case (Fetch j n)
    show ?thesis
    proof (cases "\<exists>g. go_at S j = Some g \<and> awaits g \<and> g_end g = Blocked")
      case True
      then obtain g where g: "go_at S j = Some g" "awaits g" "g_end g = Blocked" by blast
      show ?thesis
      proof (cases "conn_at (sys_stack S) (g_tcp g)")
        case None
        then show ?thesis using assms(5) Fetch g by (intro same) auto
      next
        case (Some c)
        let ?r = "fst (conn_Read n c)"
        have "sys_go S' = (sys_go S)[j := take_read ?r g]" using assms(5) Fetch g Some by auto
        from upd [OF g(1) _ _ _ this, of "concat (map (\<lambda>e. reads_of i e (sys_stack S)) (step_trace cf ev S))"
            "written i (step_trace cf ev S)"] show ?thesis
          using Fetch g Some by (cases ?r) (auto simp: take_read_def written_def)
      qed
    next
      case False
      then show ?thesis using assms(5) Fetch by (intro same) (auto split: option.splits if_splits)
    qed
  next
    case (Advance j m)
    consider "S' = S" | g s' g' where "go_at S j = Some g" "awaits g" "advanced cf m g (sys_app S) (s', g')"
        "sys_go S' = (sys_go S)[j := g']"
      using go_step_advance [OF assms(3), of j m S'] assms(4,5) Advance by fastforce
    then show ?thesis
    proof cases
      case (2 g s' g')
      then have "g_tcp g' = g_tcp g" "g_got g' = g_got g" "g_sent g' = g_sent g" "prefix (c_out (g_conn g)) (c_out (g_conn g'))"
        "g_sent g = length (c_out (g_conn g))"
        by (auto simp: advanced_def same_input_def awaits_def)
      from upd [OF 2(1) this(1) _ _ 2(4), of "[]" "[]"] this show ?thesis
        using Advance by (auto simp: written_def elim!: prefixE)
    qed (use Advance in \<open>intro same; simp\<close>)
  next
    case (Flush j k)
    show ?thesis
    proof (cases "go_at S j")
      case None
      then show ?thesis using assms(5) Flush by (intro same) auto
    next
      case (Some g)
      let ?g = "g\<lparr>g_sent := min (g_sent g + k) (length (c_out (g_conn g)))\<rparr>"
      have "sys_go S' = (sys_go S)[j := ?g]" using assms(5) Flush Some by auto
      from upd [OF Some _ _ _ this, of "[]" "written i (step_trace cf ev S)"] show ?thesis
        using Flush Some by (cases "g_sent g < length (c_out (g_conn g))") (auto simp: written_def take_add min_def)
    qed
  next
    case (Finish j)
    show ?thesis
    proof (cases "\<exists>g. go_at S j = Some g \<and> g_phase g = Answered \<and> g_sent g = length (c_out (g_conn g))")
      case True
      then obtain g where g: "go_at S j = Some g" "g_phase g = Answered" "g_sent g = length (c_out (g_conn g))" by blast
      then have "sys_go S' = (sys_go S)[j := g\<lparr>g_phase := Closed\<rparr>]" using assms(5) Finish by auto
      from upd [OF g(1) _ _ _ this, of "[]" "[]"] show ?thesis using Finish g by (auto simp: written_def)
    next
      case False
      then show ?thesis using assms(5) Finish by (intro same) (auto split: option.splits if_splits)
    qed
  qed
qed

text \<open>The same over a whole run.\<close>

lemma sys_exec_split:
  assumes "sys_exec cf ev S = Ok (S', out)"
  obtains T where "go_step cf ev S = Ok T" "sys_go S' = sys_go T" "sys_app S' = sys_app T" "sys_log S' = sys_log T"
    "run_events (step_trace cf ev S) (sys_stack S) = Ok (sys_stack S', out)"
  using assms by (cases "tcp_event cf ev S") (auto simp: sys_exec_def rbind_eq_Ok)

lemma tcp_trace_step:
  "sys_exec cf ev S = Ok (S1, o1) \<Longrightarrow> tcp_trace cf (ev # evs) S = step_trace cf ev S @ tcp_trace cf evs S1"
  by simp

lemma app_bytes_append:
  "run_events es s = Ok (s1, o1) \<Longrightarrow> Tcp_Behaviour.app_bytes i (es @ fs) s =
    Tcp_Behaviour.app_bytes i es s @ Tcp_Behaviour.app_bytes i fs s1"
  by (induction es arbitrary: s o1) (auto simp: rbind_eqs split: prod.splits)

lemma sys_run_grows:
  assumes "sys_inv cf S" "list_all (event_ok cf) evs" "sys_run cf evs S = Ok (S', out)"
  shows "grows (sys_go S) (sys_go S')"
  using assms
proof (induction evs arbitrary: S out)
  case (Cons ev evs)
  obtain S1 o1 o2 where 1: "sys_exec cf ev S = Ok (S1, o1)" "sys_run cf evs S1 = Ok (S', o2)"
    using Cons.prems(3) by (auto simp: rbind_eq_Ok)
  have inv: "sys_inv cf S1" using sys_exec_keeps [OF Cons.prems(1), of ev] Cons.prems(2) 1(1) by auto
  obtain T where T: "go_step cf ev S = Ok T" "sys_go S1 = sys_go T" by (rule sys_exec_split [OF 1(1)])
  have "grows (sys_go S) (sys_go T)" using go_step_grows [OF Cons.prems(1) _ T(1)] Cons.prems(2) by simp
  then show ?case using grows_trans Cons.IH [OF inv _ 1(2)] Cons.prems(2) T(2) by simp
qed simp

lemma ledger_run:
  assumes "ledger i R W S" "distinct (map g_tcp (sys_go S'))" "sys_inv cf S" "list_all (event_ok cf) evs"
    "sys_run cf evs S = Ok (S', out)"
  shows "ledger i (R @ Tcp_Behaviour.app_bytes i (tcp_trace cf evs S) (sys_stack S)) (W @ written i (tcp_trace cf evs S)) S'"
  using assms
proof (induction evs arbitrary: S R W out)
  case (Cons ev evs)
  obtain S1 o1 o2 where 1: "sys_exec cf ev S = Ok (S1, o1)" "sys_run cf evs S1 = Ok (S', o2)"
    using Cons.prems(5) by (auto simp: rbind_eq_Ok)
  have inv: "sys_inv cf S1" using sys_exec_keeps [OF Cons.prems(3), of ev] Cons.prems(4) 1(1) by auto
  obtain T where T: "go_step cf ev S = Ok T" "sys_go S1 = sys_go T"
      "run_events (step_trace cf ev S) (sys_stack S) = Ok (sys_stack S1, o1)"
    by (rule sys_exec_split [OF 1(1)])
  have evs: "event_ok cf ev" "list_all (event_ok cf) evs" using Cons.prems(4) by simp_all
  have "distinct (map g_tcp (sys_go S1))"
    using grows_keys [OF sys_run_grows [OF inv evs(2) 1(2)]] Cons.prems(2) by (auto elim!: prefixE)
  then have dist: "distinct (map g_tcp (sys_go T))" using T(2) by simp
  let ?r = "concat (map (\<lambda>e. reads_of i e (sys_stack S)) (step_trace cf ev S))"
  have "ledger i (R @ ?r) (W @ written i (step_trace cf ev S)) T"
    by (rule ledger_step [OF Cons.prems(1) dist Cons.prems(3) evs(1) T(1)])
  then have "ledger i (R @ ?r) (W @ written i (step_trace cf ev S)) S1"
    unfolding ledger_def T(2) .
  from Cons.IH [OF this Cons.prems(2) inv evs(2) 1(2)]
  have fin: "ledger i ((R @ ?r) @ Tcp_Behaviour.app_bytes i (tcp_trace cf evs S1) (sys_stack S1))
      ((W @ written i (step_trace cf ev S)) @ written i (tcp_trace cf evs S1)) S'" .
  have "?r = Tcp_Behaviour.app_bytes i (step_trace cf ev S) (sys_stack S)"
    by (cases "tcp_event cf ev S") (auto split: res.split)
  moreover have "written i (es @ fs) = written i es @ written i fs" for es fs by (simp add: written_def)
  ultimately show ?case
    using fin unfolding tcp_trace_step [OF 1(1)] app_bytes_append [OF T(3)] by (simp only: append_assoc)
qed (simp add: written_def)

text \<open>Each accepted connection gets its goroutine, in order.\<close>

lemma go_step_keys:
  assumes "sys_inv cf S" "event_ok cf ev" "sys_exec cf ev S = Ok (S', out)"
  shows "map g_tcp (sys_go S') = map g_tcp (sys_go S) @ accepted (step_trace cf ev S) (sys_stack S)"
proof -
  obtain T where T: "go_step cf ev S = Ok T" "sys_go S' = sys_go T" by (rule sys_exec_split [OF assms(3)])
  have grown: "prefix (map g_tcp (sys_go S)) (map g_tcp (sys_go S'))"
    using grows_keys [OF go_step_grows [OF assms(1,2) T(1)]] T(2) by simp
  show ?thesis
  proof (cases "\<exists>rnd. ev = Accept rnd")
    case True
    then show ?thesis using T by (auto simp: spawn_def split: option.splits res.split)
  next
    case False
    have len: "length (sys_go S') = length (sys_go S)"
    proof (cases ev)
      case (Advance j m)
      then show ?thesis
        using T(2) go_step_advance [OF assms(1) _ T(1) [unfolded Advance]] assms(2) by (auto simp del: split_paired_Ex)
    qed (use False T in \<open>auto split: option.splits if_splits\<close>)
    have "accepts_of e (sys_stack S) = []" if "tcp_event cf ev S = Some e" for e
      using that False by (cases e; cases ev) (auto split: option.splits if_splits)
    then have "accepted (step_trace cf ev S) (sys_stack S) = []"
      by (cases "tcp_event cf ev S") (auto split: res.split)
    then show ?thesis using grown len by (auto simp: prefix_def) (metis append_eq_append_conv append_Nil2 length_map)
  qed
qed

lemma accepted_append:
  "run_events es s = Ok (s1, o1) \<Longrightarrow> accepted (es @ fs) s = accepted es s @ accepted fs s1"
  by (induction es arbitrary: s o1) (auto simp: rbind_eqs split: prod.splits)

lemma sys_run_keys:
  assumes "sys_inv cf S" "list_all (event_ok cf) evs" "sys_run cf evs S = Ok (S', out)"
  shows "map g_tcp (sys_go S') = map g_tcp (sys_go S) @ accepted (tcp_trace cf evs S) (sys_stack S)"
  using assms
proof (induction evs arbitrary: S out)
  case (Cons ev evs)
  obtain S1 o1 o2 where 1: "sys_exec cf ev S = Ok (S1, o1)" "sys_run cf evs S1 = Ok (S', o2)"
    using Cons.prems(3) by (auto simp: rbind_eq_Ok)
  have evs: "event_ok cf ev" "list_all (event_ok cf) evs" using Cons.prems(2) by simp_all
  have inv: "sys_inv cf S1" using sys_exec_keeps [OF Cons.prems(1) evs(1)] 1(1) by auto
  obtain T where T: "run_events (step_trace cf ev S) (sys_stack S) = Ok (sys_stack S1, o1)"
    by (rule sys_exec_split [OF 1(1)])
  show ?case
    unfolding Cons.IH [OF inv evs(2) 1(2)] go_step_keys [OF Cons.prems(1) evs(1) 1(1)] tcp_trace_step [OF 1(1)]
      accepted_append [OF T] by (simp only: append_assoc)
qed simp

text \<open>Each goroutine closes its connection once, and is closed then.\<close>

lemma closes_simps [simp]: "closes i [] = 0" "closes i (e # es) = (if e = OnConn i OpClose then 1 else 0) + closes i es"
  by (simp_all add: closes_def)

lemma closed_stays:
  assumes "grows (sys_go S) (sys_go S')" "\<exists>g \<in> set (sys_go S). g_tcp g = i \<and> g_phase g = Closed"
  shows "\<exists>g \<in> set (sys_go S'). g_tcp g = i \<and> g_phase g = Closed"
proof -
  obtain j where "j < length (sys_go S)" "g_tcp (sys_go S ! j) = i" "g_phase (sys_go S ! j) = Closed"
    using assms(2) by (auto simp: in_set_conv_nth)
  then have "j < length (sys_go S')" "g_tcp (sys_go S' ! j) = i" "g_phase (sys_go S' ! j) = Closed"
    using assms(1) by (auto simp: grows_def later_def)
  then show ?thesis using nth_mem by blast
qed

lemma closes_run:
  assumes "sys_inv cf S" "list_all (event_ok cf) evs" "sys_run cf evs S = Ok (S', out)" "distinct (map g_tcp (sys_go S'))"
  shows "closes i (tcp_trace cf evs S) \<le> 1
    \<and> ((\<exists>g \<in> set (sys_go S). g_tcp g = i \<and> g_phase g = Closed) \<longrightarrow> closes i (tcp_trace cf evs S) = 0)
    \<and> (closes i (tcp_trace cf evs S) = 1 \<longrightarrow> (\<exists>g \<in> set (sys_go S'). g_tcp g = i \<and> g_phase g = Closed))"
  using assms
proof (induction evs arbitrary: S out)
  case (Cons ev evs)
  obtain S1 o1 o2 where 1: "sys_exec cf ev S = Ok (S1, o1)" "sys_run cf evs S1 = Ok (S', o2)"
    using Cons.prems(3) by (auto simp: rbind_eq_Ok)
  have evs: "event_ok cf ev" "list_all (event_ok cf) evs" using Cons.prems(2) by simp_all
  have inv: "sys_inv cf S1" using sys_exec_keeps [OF Cons.prems(1) evs(1)] 1(1) by auto
  obtain T where T: "go_step cf ev S = Ok T" "sys_go S1 = sys_go T" by (rule sys_exec_split [OF 1(1)])
  have grown: "grows (sys_go S) (sys_go S1)" using go_step_grows [OF Cons.prems(1) evs(1) T(1)] T(2) by simp
  have later: "grows (sys_go S1) (sys_go S')" by (rule sys_run_grows [OF inv evs(2) 1(2)])
  note ih = Cons.IH [OF inv evs(2) 1(2) Cons.prems(4)]
  have trace: "closes i (tcp_trace cf (ev # evs) S) =
      (if tcp_event cf ev S = Some (OnConn i OpClose) then 1 else 0) + closes i (tcp_trace cf evs S1)"
    unfolding tcp_trace_step [OF 1(1)] by (cases "tcp_event cf ev S") simp_all
  show ?case
  proof (cases "tcp_event cf ev S = Some (OnConn i OpClose)")
    case True
    then obtain j g where g: "ev = Finish j" "go_at S j = Some g" "g_phase g = Answered"
        "g_sent g = length (c_out (g_conn g))" "g_tcp g = i"
      by (cases ev) (auto split: option.splits if_splits)
    then have "sys_go S1 = (sys_go S)[j := g\<lparr>g_phase := Closed\<rparr>]" using T by auto
    then have "j < length (sys_go S1)" "sys_go S1 ! j = g\<lparr>g_phase := Closed\<rparr>"
      using g(2) by (auto simp: go_at_Some)
    then have closed: "\<exists>g \<in> set (sys_go S1). g_tcp g = i \<and> g_phase g = Closed"
      using g(5) by (metis nth_mem goroutine.simps goroutine.select_convs goroutine.surjective goroutine.update_convs)
    have "prefix (map g_tcp (sys_go S)) (map g_tcp (sys_go S'))"
      by (rule grows_keys [OF grows_trans [OF grown later]])
    then have "distinct (map g_tcp (sys_go S))" using Cons.prems(4) by (auto simp: prefix_def)
    then have "g' = g" if "g' \<in> set (sys_go S)" "g_tcp g' = i" for g'
      using that g(2,5) by (auto simp: distinct_map inj_on_def go_at_Some)
    then have "\<not> (\<exists>g \<in> set (sys_go S). g_tcp g = i \<and> g_phase g = Closed)" using g(3) by fastforce
    moreover have "closes i (tcp_trace cf evs S1) = 0" using ih closed by blast
    ultimately show ?thesis using True closed_stays [OF later closed] unfolding trace by simp
  next
    case False
    have "\<exists>g \<in> set (sys_go S1). g_tcp g = i \<and> g_phase g = Closed"
      if "\<exists>g \<in> set (sys_go S). g_tcp g = i \<and> g_phase g = Closed" by (rule closed_stays [OF grown that])
    then show ?thesis using ih False unfolding trace by simp
  qed
qed simp

subsection \<open>The server from its start\<close>

lemma boot_start:
  assumes "boot cr x lib sq t = Ok (cf, S)"
  shows "sys_go S = []" "sys_log S = []" "run_events [DoListen 443] NewStack = Ok (sys_stack S, [])"
    "cf_crypto cf = cr" "cf_lib cf = lib" "cf_sql cf = sq"
  using assms
  by (auto simp: boot_def main_setup_def rbind_eq_Ok sys_start_def split: res.splits prod.splits)

lemma boot_inv:
  assumes "boot cr x lib sq t = Ok (cf, S)"
  shows "sys_inv cf S"
  using boot_start(1,3) [OF assms] run_events_keeps [OF stack_inv_NewStack, of "[DoListen 443]"]
  by (simp add: sys_inv_def)

lemma boot_keys:
  assumes "boot cr x lib sq t = Ok (cf, S0)" "list_all (event_ok cf) evs" "sys_run cf evs S0 = Ok (S, out)"
  shows "map g_tcp (sys_go S) = accepted (tcp_trace cf evs S0) (sys_stack S0)" "distinct (map g_tcp (sys_go S))"
proof -
  note start = boot_start [OF assms(1)]
  show keys: "map g_tcp (sys_go S) = accepted (tcp_trace cf evs S0) (sys_stack S0)"
    using sys_run_keys [OF boot_inv [OF assms(1)] assms(2,3)] start(1) by simp
  have "accept_ok [] NewStack" by (simp add: accept_ok_def queues_ok_def offered_def NewStack_def)
  from accept_run [OF this stack_inv_NewStack start(3)] have "accept_ok [] (sys_stack S0)" by (simp split: res.splits)
  from accept_run [OF this _ sys_run_trace [OF assms(3)]] boot_inv [OF assms(1)]
  show "distinct (map g_tcp (sys_go S))" by (simp add: keys accept_ok_def sys_inv_def)
qed

lemma boot_log:
  assumes "boot cr x lib sq t = Ok (cf, S0)" "list_all (event_ok cf) evs" "sys_run cf evs S0 = Ok (S, out)"
  shows "log_inv cf (sys_app S0) S"
proof -
  have "log_inv cf (sys_app S0) S0" using boot_start [OF assms(1)] by (simp add: log_inv_def)
  from log_run [OF this boot_inv [OF assms(1)] assms(2,3)] show ?thesis .
qed

text \<open>
  C5: the whole server never panics. Whatever frames arrive from the network, in whatever order with timers, full
  channels, accepts, reads of any size, writes in any pieces and runs of the goroutines, and whatever the clients
  send over TLS and HTTP: every step is defined, from the start that \<^verbatim>\<open>main\<close> makes.
\<close>
theorem server_never_panics:
  assumes "boot cr x lib sq t = Ok (cf, S0)" "list_all (event_ok cf) evs"
  shows "\<exists>S out. sys_run cf evs S0 = Ok (S, out)"
  using sys_run_keeps [OF boot_inv [OF assms(1)] assms(2)] by blast

text \<open>
  C2: requests are served one at a time, whatever the interleaving. After every run of the server there is an order
  of the goroutines that have answered (\<open>sys_log\<close>, each once) in which serving their connections one after the
  other, each with its whole input, by the sequential \<^verbatim>\<open>Handshake\<close> and \<^verbatim>\<open>http.Serve\<close>, leads from the first
  state of the shop to the present one, with the very output bytes that each of them sent; a goroutine that has
  come to its end and is not in this order is one whose handshake fails, with its output. Each goroutine has a
  connection of its own.
\<close>
theorem requests_are_serialized:
  assumes "boot cr x lib sq t = Ok (cf, S0)" "list_all (event_ok cf) evs" "sys_run cf evs S0 = Ok (S, out)"
  shows "serially cf (sys_go S) (sys_log S) (sys_app S0) (sys_app S) \<and> distinct (map fst (sys_log S))
    \<and> (\<forall>j < length (sys_go S). settled (sys_go S ! j) \<longrightarrow> j \<in> fst ` set (sys_log S) \<or> refused cf (sys_go S ! j))
    \<and> distinct (map g_tcp (sys_go S))"
  using boot_log [OF assms] boot_keys(2) [OF assms] by (simp add: log_inv_def)

subsection \<open>From the frames of a client to the frames it gets\<close>

text \<open>A connection that is opening: the client's SYN was answered and nothing else has happened on it.\<close>

definition half_open :: "nat \<Rightarrow> TCPConnection \<Rightarrow> Stack \<Rightarrow> bool" where
  "half_open i c s \<longleftrightarrow> conn_at s i = Some c \<and> State c = SYN_RECEIVED \<and> readCh c = [] \<and> overflow c = []
     \<and> sendQueue c = [] \<and> sendUnsent c = [] \<and> i \<notin> set (sleepers s) \<and> blocked s = None"

text \<open>Every segment on the four-tuple \<open>k\<close> that arrives is a slice of the client's stream.\<close>

fun net_of_stream :: "ConnectionKey \<Rightarrow> u32 \<Rightarrow> bytes \<Rightarrow> ('db, 't) sys_event \<Rightarrow> bool" where
  "net_of_stream k base B (Net e) \<longleftrightarrow> event_of_stream k base B e"
| "net_of_stream k base B _ \<longleftrightarrow> True"

lemma net_of_stream_trace:
  "list_all (net_of_stream k base B) evs \<Longrightarrow> list_all (event_of_stream k base B) (tcp_trace cf evs S)"
proof (induction evs arbitrary: S)
  case (Cons ev evs)
  have "list_all (event_of_stream k base B) (step_trace cf ev S)"
    using Cons.prems by (cases ev) (auto split: option.split)
  moreover have "list_all (event_of_stream k base B) (tcp_trace cf evs S1)" for S1 using Cons by simp
  ultimately show ?case by (auto split: res.split)
qed simp

lemma sys_run_append:
  assumes "sys_run cf evs1 S = Ok (S1, o1)" "sys_run cf evs2 S1 = Ok (S2, o2)"
  shows "sys_run cf (evs1 @ evs2) S = Ok (S2, o1 @ o2)"
  using assms by (induction evs1 arbitrary: S o1) (auto simp: rbind_eq_Ok)

text \<open>What a goroutine has read is a prefix of the client's stream, what it has written is part of its output.\<close>

lemma half_open_ledger:
  assumes "boot cr x lib sq t = Ok (cf, S0)" "list_all (event_ok cf) (evs1 @ evs2)"
    "sys_run cf evs1 S0 = Ok (S1, o1)" "sys_run cf evs2 S1 = Ok (S, o2)"
    "half_open i c (sys_stack S1)" "list_all (net_of_stream (conn_key c) (RecvSeqNum c) B) evs2" "length B < 4294967296"
    "g \<in> set (sys_go S)" "g_tcp g = i"
  shows "prefix (g_got g) B" "take (g_sent g) (c_out (g_conn g)) = written i (tcp_trace cf evs2 S1)"
proof -
  have evs: "list_all (event_ok cf) evs1" "list_all (event_ok cf) evs2" using assms(2) by simp_all
  obtain S1' o1' where "sys_run cf evs1 S0 = Ok (S1', o1')" "sys_inv cf S1'"
    using sys_run_keeps [OF boot_inv [OF assms(1)] evs(1)] by blast
  then have inv: "sys_inv cf S1" using assms(3) by simp
  have "accept_ok [] NewStack" by (simp add: accept_ok_def queues_ok_def offered_def NewStack_def)
  from accept_run [OF this stack_inv_NewStack boot_start(3) [OF assms(1)]]
  have "accept_ok [] (sys_stack S0)" by (simp split: res.splits)
  from accept_run [OF this _ sys_run_trace [OF assms(3)]] boot_inv [OF assms(1)]
  have "\<forall>j \<in> set (map g_tcp (sys_go S1)). past_handshake j (sys_stack S1)"
    by (simp add: boot_keys(1) [OF assms(1) evs(1) assms(3)] accept_ok_def sys_inv_def)
  then have "i \<notin> set (map g_tcp (sys_go S1))" using assms(5) by (auto simp: past_handshake_def half_open_def)
  then have "ledger i [] [] S1" by (auto simp: ledger_def)
  moreover have "distinct (map g_tcp (sys_go S))"
    using boot_keys(2) [OF assms(1,2) sys_run_append [OF assms(3,4)]] .
  ultimately have books: "ledger i (Tcp_Behaviour.app_bytes i (tcp_trace cf evs2 S1) (sys_stack S1))
      (written i (tcp_trace cf evs2 S1)) S"
    using ledger_run [OF _ _ inv evs(2) assms(4), of i "[]" "[]"] by simp
  then show "take (g_sent g) (c_out (g_conn g)) = written i (tcp_trace cf evs2 S1)"
    using assms(8,9) by (simp add: ledger_def)
  have "tracks (conn_key c) B (RecvSeqNum c) i [] (sys_stack S1)"
    using assms(5) by (auto simp: half_open_def tracks_def rx_at_def rx_bytes_def pending_bytes_def)
  from tracks_run [OF this _ net_of_stream_trace [OF assms(6)] assms(7)] inv
  have "g_got g = take (length (g_got g)) B" using books assms(8,9) by (simp add: ledger_def sys_inv_def)
  then show "prefix (g_got g) B" by (metis take_is_prefix)
qed

lemma half_open_frames:
  assumes "boot cr x lib sq t = Ok (cf, S0)" "list_all (event_ok cf) (evs1 @ evs2)"
    "sys_run cf evs1 S0 = Ok (S1, o1)" "sys_run cf evs2 S1 = Ok (S, o2)"
    "half_open i c (sys_stack S1)" "take (g_sent g) (c_out (g_conn g)) = written i (tcp_trace cf evs2 S1)"
    "g \<in> set (sys_go S)" "g_tcp g = i"
  shows "\<exists>fins sent. length fins \<le> (if g_phase g = Closed then 1 else 0) \<and> sent \<le> g_sent g \<and> (\<forall>f \<in> set fins. f \<le> sent)
    \<and> (\<forall>y \<in> set (sent_frames i (tcp_trace cf evs2 S1) (sys_stack S1)).
         carries (conn_key c) (SendSeqNum c) fins (c_out (g_conn g)) sent y)"
proof -
  let ?es = "tcp_trace cf evs2 S1"
  have evs: "list_all (event_ok cf) evs1" "list_all (event_ok cf) evs2" using assms(2) by simp_all
  obtain S1' o1' where "sys_run cf evs1 S0 = Ok (S1', o1')" "sys_inv cf S1'"
    using sys_run_keeps [OF boot_inv [OF assms(1)] evs(1)] by blast
  then have inv: "sys_inv cf S1" "stack_inv (sys_stack S1)" using assms(3) by (simp_all add: sys_inv_def)
  have keys: "distinct (map g_tcp (sys_go S))"
    using boot_keys(2) [OF assms(1,2) sys_run_append [OF assms(3,4)]] .
  then have "g' = g" if "g' \<in> set (sys_go S)" "g_tcp g' = i" for g'
    using assms(7,8) that by (auto simp: distinct_map inj_on_def)
  then have closes: "closes i ?es \<le> (if g_phase g = Closed then 1 else 0)"
    using closes_run [OF inv(1) evs(2) assms(4) keys, of i] by (cases "closes i ?es = 1") auto
  have "tx_at (conn_key c) (SendSeqNum c) [] [] 0 i (sys_stack S1)"
    using assms(5) by (simp add: tx_at_def tx_ok_def half_open_def)
  from tx_run [OF inv(2) this _ sys_run_trace [OF assms(4)]] obtain fins sent where
      f: "sent \<le> length (written i ?es)" "\<forall>f \<in> set fins. f \<le> sent" "length fins \<le> closes i ?es"
      "\<forall>y \<in> set (sent_frames i ?es (sys_stack S1)). carries (conn_key c) (SendSeqNum c) fins (written i ?es) sent y"
    by auto
  have out: "c_out (g_conn g) = written i ?es @ drop (g_sent g) (c_out (g_conn g))" by (simp flip: assms(6))
  have "carries (conn_key c) (SendSeqNum c) fins (c_out (g_conn g)) sent y"
    if "y \<in> set (sent_frames i ?es (sys_stack S1))" for y
    by (subst out) (use f(4) that carries_mono [of _ _ fins _ sent y sent "[]"] in simp)
  moreover have "sent \<le> g_sent g" using f(1) by (simp flip: assms(6))
  ultimately show ?thesis using f(2,3) closes by (intro exI [of _ fins] exI [of _ sent]) auto
qed

text \<open>The input that the sequential service takes: all of the client's stream, unless the connection ended before.\<close>

definition heard :: "goroutine \<Rightarrow> bytes \<Rightarrow> bytes" where
  "heard g B = (if g_end g = Blocked then B else g_got g)"

lemma settled_serve:
  assumes "go_inv cf g" "settled g" "prefix (g_got g) B"
  shows "\<exists>now order s s' k0. route_order order (cf_mux cf) \<and> (\<forall>k \<ge> k0. \<exists>c'.
    serve_conn (cf_crypto cf) (g_rnd g) (replicate k bufio_size) now order (cf_mux cf)
      (conn_on cf (heard g B) EOF) s = (Ok s', c') \<and> c_out c' = c_out (g_conn g))"
proof -
  obtain d where d: "continues g d EOF" "heard g B = g_got g @ d"
    using assms(3) go_inv_start(1) [OF assms(1)]
    by (cases "g_end g = Blocked") (auto simp: prefix_def heard_def continues_def)
  have "finished cf g" using assms(1,2) by (auto simp: go_inv_def Let_def)
  then consider "refused cf g" | m s s' where "route_order (fst (snd m)) (cf_mux cf)" "served cf g m s s'"
    unfolding finished_def by blast
  then show ?thesis
  proof cases
    case 1
    obtain e c' where "Handshake (cf_crypto cf) (g_rnd g) (conn_on cf (g_got g @ d) EOF) = (Err e, c')"
        "c_out c' = c_out (g_conn g)"
      using 1 d(1) unfolding refused_def by blast
    moreover have "route_order (mux_prefix (cf_mux cf)) (cf_mux cf)" by (simp add: route_order_def server_mux_routes str_def)
    ultimately show ?thesis unfolding d(2) by (fastforce simp: serve_conn_def raw_close_def)
  next
    case (2 m s s')
    obtain now order t where m: "m = (now, order, t)" by (cases m)
    show ?thesis using 2 d(1) unfolding served_def m prod.case d(2) fst_conv snd_conv by blast
  qed
qed

text \<open>
  C1: from frames to frames. Let a client's connection be opening at some moment of a run, and let every segment
  that arrives for it later be a slice of the byte stream \<open>B\<close> of the client; frames may be lost, repeated, reordered
  and mixed with any other traffic and any scheduling of the server. When the goroutine of the connection has come
  to its end, before and after it closes the connection, it has read a prefix of \<open>B\<close>, and every frame that the stack
  sent for the connection, until it was torn down, is addressed to the client and is a bare acknowledgement, a FIN,
  or carries a slice of what the sequential service \<^verbatim>\<open>Handshake\<close>, \<^verbatim>\<open>http.Serve\<close> outputs on \<open>B\<close> (on what was read, if
  the connection ended before), from the bytes that have been handed to TCP. Before the goroutine has closed, there
  is no FIN and the slice stands at its place in the sequence space. \<^verbatim>\<open>Close\<close> puts one FIN into it, behind the bytes
  that had gone out then: those that had not, go out one number later.
\<close>
theorem frames_in_frames_out:
  assumes "boot cr x lib sq t = Ok (cf, S0)" "list_all (event_ok cf) (evs1 @ evs2)"
    "sys_run cf evs1 S0 = Ok (S1, o1)" "sys_run cf evs2 S1 = Ok (S, o2)"
    "half_open i c (sys_stack S1)" "list_all (net_of_stream (conn_key c) (RecvSeqNum c) B) evs2" "length B < 4294967296"
    "g \<in> set (sys_go S)" "g_tcp g = i" "g_phase g = Answered \<or> g_phase g = Closed"
  shows "prefix (g_got g) B \<and> (\<exists>now order s s' k0 fins sent. route_order order (server_mux lib sq)
    \<and> length fins \<le> (if g_phase g = Closed then 1 else 0) \<and> (\<forall>f \<in> set fins. f \<le> sent) \<and> sent \<le> g_sent g
    \<and> (\<forall>k \<ge> k0. \<exists>c'. serve_conn cr (g_rnd g) (replicate k bufio_size) now order (server_mux lib sq)
          (conn_on cf (heard g B) EOF) s = (Ok s', c')
        \<and> (\<forall>y \<in> set (sent_frames i (tcp_trace cf evs2 S1) (sys_stack S1)).
             carries (conn_key c) (SendSeqNum c) fins (c_out c') sent y)))"
proof -
  note books = half_open_ledger [OF assms(1-9)]
  have "sys_inv cf S"
    using sys_run_keeps [OF boot_inv [OF assms(1)] assms(2)] sys_run_append [OF assms(3,4)] by auto
  then have "go_inv cf g" using assms(8) by (simp add: sys_inv_def)
  from settled_serve [OF this assms(10) books(1)]
  obtain now order s s' k0 where run: "route_order order (server_mux lib sq)" "\<forall>k \<ge> k0. \<exists>c'. serve_conn cr (g_rnd g) (replicate k bufio_size) now order
      (server_mux lib sq) (conn_on cf (heard g B) EOF) s = (Ok s', c') \<and> c_out c' = c_out (g_conn g)"
    using boot_start(4-6) [OF assms(1)] by auto
  from half_open_frames [OF assms(1-5) books(2) assms(8,9)] obtain fins sent where
    "length fins \<le> (if g_phase g = Closed then 1 else 0)" "sent \<le> g_sent g" "\<forall>f \<in> set fins. f \<le> sent"
    "\<forall>y \<in> set (sent_frames i (tcp_trace cf evs2 S1) (sys_stack S1)).
       carries (conn_key c) (SendSeqNum c) fins (c_out (g_conn g)) sent y" by blast
  then show ?thesis using books(1) run by metis
qed

subsection \<open>A server and a client for the witnesses\<close>

definition demo_x509 :: "unit x509" where
  "demo_x509 = \<lparr>x_GenerateKey = Inr (), x_randInt = \<lambda>_. Inr 1, x_Now = 0, x_CreateCertificate = \<lambda>_ _ _ _. Inr [48, 0],
     x_SignASN1 = \<lambda>_ _ _. Some [7, 7]\<rparr>"

definition demo_cf :: "(row list, instant) config" where
  "demo_cf = \<lparr>cf_crypto = null_crypto, cf_identity = demo_identity, cf_lib = demo_library, cf_sql = table_sql, cf_listener = 0\<rparr>"

definition demo_start :: "(row list, instant) system" where
  "demo_start = sys_start (snd (stack_Listen 443 NewStack)) \<lparr>app_db = [], app_clock = instant_of 0\<rparr>"

lemma demo_boot: "boot null_crypto demo_x509 demo_library table_sql (instant_of 0) = Ok (demo_cf, demo_start)"
  by (simp add: boot_def main_setup_def NewServerIdentity_def demo_x509_def NewStore_def table_sql_def stack_Listen_def
      NewStack_def demo_cf_def demo_start_def demo_identity_def Let_def)

text \<open>The client's frames: its SYN has number 99, so its stream starts at 100.\<close>

definition demo_peer :: TCPConnection where
  "demo_peer = sample_peer\<lparr>RemotePort := 443\<rparr>"

definition demo_frame :: "byte \<Rightarrow> u32 \<Rightarrow> bytes \<Rightarrow> bytes" where
  "demo_frame flags sq payload = out_bytes demo_peer flags payload sq [] sample_frame"

definition demo_moment :: "(row list, instant) moment" where
  "demo_moment = ([], mux_prefix (server_mux demo_library table_sql), instant_of 0)"

definition demo_open :: "(row list, instant) sys_event list" where
  "demo_open = [Net (Recv (Some 1000) (demo_frame SYN 99 []) 7)]"

definition demo_conn :: "u16 \<Rightarrow> IPv4Packet \<Rightarrow> EthernetFrame \<Rightarrow> TCPConnection" where
  "demo_conn m p f = (new_conn 1000 m p (out_segment demo_peer SYN [] 99 []) f 7)\<lparr>SendSeqNum := 1001\<rparr>"

definition demo_key :: ConnectionKey where
  "demo_key = \<lparr>key_SrcIP = IP4 10 0 0 2, key_SrcPort = 40000, key_DstIP = IP4 10 0 0 1, key_DstPort = 443\<rparr>"

lemma handleRaw_parsed:
  "parse_layers data = Ok (f, p, t) \<Longrightarrow> EtherType f = 0x0800 \<Longrightarrow> Protocol p = 6 \<Longrightarrow>
   handleRaw isn data a s = dispatch isn p t f a s"
  by (auto simp: parse_layers_def handleRaw_def rbind_eq_Ok)

lemma demo_handleRaw:
  assumes "length payload \<le> 65435"
  shows "\<exists>f p. parse_layers (demo_frame flags sq payload) = Ok (f, p, (out_segment demo_peer flags payload sq [])
      \<lparr>tcp_Checksum := out_checksum demo_peer flags payload sq []\<rparr>)
    \<and> ip_SrcIP p = IP4 10 0 0 2 \<and> ip_DstIP p = IP4 10 0 0 1
    \<and> (\<forall>isn a s. handleRaw isn (demo_frame flags sq payload) a s = dispatch isn p
         ((out_segment demo_peer flags payload sq [])\<lparr>tcp_Checksum := out_checksum demo_peer flags payload sq []\<rparr>) f a s)"
proof -
  have "options_aligned []" by (simp add: options_aligned_def)
  from parse_layers_out_bytes [OF this assms, of demo_peer flags sq sample_frame "[]"] obtain f p where
    "parse_layers (demo_frame flags sq payload) = Ok (f, p, (out_segment demo_peer flags payload sq [])
      \<lparr>tcp_Checksum := out_checksum demo_peer flags payload sq []\<rparr>)" "EtherType f = 0x0800" "Protocol p = 6"
    "ip_SrcIP p = IP4 10 0 0 2" "ip_DstIP p = IP4 10 0 0 1"
    by (auto simp: demo_frame_def demo_peer_def sample_peer_def)
  with handleRaw_parsed [OF this(1-3)] show ?thesis by blast
qed

lemma demo_opened:
  "\<exists>m p f out. sys_run demo_cf demo_open demo_start = Ok (demo_start\<lparr>sys_stack :=
      SYN_stack (sys_stack demo_start) demo_key (demo_conn m p f)\<rparr>, out)
    \<and> ip_SrcIP p = IP4 10 0 0 2 \<and> ip_DstIP p = IP4 10 0 0 1"
proof -
  let ?t = "(out_segment demo_peer SYN [] 99 [])\<lparr>tcp_Checksum := out_checksum demo_peer SYN [] 99 []\<rparr>"
  obtain f p where 1: "ip_SrcIP p = IP4 10 0 0 2" "ip_DstIP p = IP4 10 0 0 1"
      "\<And>isn a s. handleRaw isn (demo_frame SYN 99 []) a s = dispatch isn p ?t f a s"
    using demo_handleRaw [of "[]" SYN 99] by auto
  obtain m where "handleSYN 1000 p ?t f demo_key 7 (sys_stack demo_start) =
     (let c = new_conn 1000 m p ?t f 7 in
      Ok (SYN_stack (sys_stack demo_start) demo_key (c\<lparr>SendSeqNum := 1000 + 1\<rparr>),
          [(7, out_bytes c (SYN OR ACK) [] 1000 (buildMSSOption ourMSS) f)]))"
    using handleSYN_spec [where seg = ?t and isn = 1000 and pkt = p and frame = f and key = demo_key] by blast
  moreover have "new_conn 1000 m p ?t f 7 = new_conn 1000 m p (out_segment demo_peer SYN [] 99 []) f 7"
    by (simp add: new_conn_def)
  moreover have "dispatch 1000 p ?t f 7 (sys_stack demo_start) = handleSYN 1000 p ?t f demo_key 7 (sys_stack demo_start)"
    using 1 by (simp add: dispatch_def Let_def segment_key_def demo_key_def out_segment_def demo_peer_def sample_peer_def sample_conn_def
      demo_start_def sys_start_def stack_Listen_def NewStack_def SYN_def)
  moreover have "blocked (sys_stack demo_start) = None" "generateISN (Some 1000) = 1000"
    by (simp_all add: demo_start_def sys_start_def stack_Listen_def NewStack_def generateISN_def Let_def)
  ultimately show ?thesis using 1
    by (auto simp: demo_open_def sys_exec_def demo_conn_def Let_def)
qed

lemma demo_data_stack:
  assumes "ip_SrcIP p = IP4 10 0 0 2" "ip_DstIP p = IP4 10 0 0 1" "d \<noteq> []" "length d \<le> 65435"
  shows "\<exists>c st out. exec (Recv None (demo_frame ACK 100 d) 7) (SYN_stack (sys_stack demo_start) demo_key (demo_conn m p f))
      = Ok (st, out) \<and> conn_at st 0 = Some c \<and> readCh c = [d] \<and> overflow c = []
    \<and> listener_at st 0 = Some \<lparr>lst_port = 443, lst_accept = [0]\<rparr>
    \<and> State c = ESTABLISHED \<and> 0 < window_room c \<and> sendUnsent c = []"
proof -
  let ?t = "(out_segment demo_peer ACK d 100 [])\<lparr>tcp_Checksum := out_checksum demo_peer ACK d 100 []\<rparr>"
  obtain f' p' where 1: "ip_SrcIP p' = IP4 10 0 0 2" "ip_DstIP p' = IP4 10 0 0 1"
      "\<And>isn a s. handleRaw isn (demo_frame ACK 100 d) a s = dispatch isn p' ?t f' a s"
    using demo_handleRaw [OF assms(4), of ACK 100] by auto
  let ?s = "SYN_stack (sys_stack demo_start) demo_key (demo_conn m p f)"
  have "segment_key p' ?t = demo_key"
    using 1 by (simp add: segment_key_def demo_key_def out_segment_def demo_peer_def sample_peer_def sample_conn_def)
  then have "exec (Recv None (demo_frame ACK 100 d) 7) ?s = handleSegment 0 ?t f' 7 ?s"
    using 1 by (simp add: dispatch_def Let_def SYN_stack_def demo_start_def sys_start_def stack_Listen_def NewStack_def)
  moreover have "conn_at ?s 0 = Some (demo_conn m p f)"
    by (simp add: SYN_stack_def demo_start_def sys_start_def stack_Listen_def NewStack_def)
  moreover have "Flags ?t = ACK" "tcp_Payload ?t = d" "SeqNum ?t = 100" "AckNum ?t = 1001"
    by (simp_all add: out_segment_def demo_peer_def sample_peer_def)
  moreover have "listeners ?s 443 = Some 0" "listener_at ?s 0 = Some \<lparr>lst_port = 443, lst_accept = []\<rparr>"
    by (simp_all add: SYN_stack_def demo_start_def sys_start_def stack_Listen_def NewStack_def Let_def)
  moreover have "State (demo_conn m p f) = SYN_RECEIVED" "LocalPort (demo_conn m p f) = 443"
      "SendSeqNum (demo_conn m p f) = 1001" "RecvSeqNum (demo_conn m p f) = 100" "readCh (demo_conn m p f) = []"
      "overflow (demo_conn m p f) = []" "RecvBuffer (demo_conn m p f) = []" "\<not> readChClosed (demo_conn m p f)"
      "sendUnsent (demo_conn m p f) = []" "0 < unat (Window ?t)"
    by (simp_all add: demo_conn_def new_conn_def out_segment_def demo_peer_def sample_peer_def sample_conn_def DefaultWindow_def)
  moreover have "ACK AND RST = 0" "ACK AND FIN = 0" "ACK AND ACK \<noteq> 0" by (simp_all add: ACK_def RST_def FIN_def)
  moreover have "\<not> seqGT (1001 :: u32) 1001" by (simp add: seqGT_def)
  ultimately show ?thesis using assms(3)
    by (simp add: handleSegment_def segment_SYN_RECEIVED_def Let_def segment_ESTABLISHED_def processAck_def
      established_data_def established_fin_def push_read_def accept_cap_def read_cap_def window_room_def in_flight_def)
qed

text \<open>The client's bytes arrive, its connection is accepted, and the goroutine reads them.\<close>

definition demo_data :: "bytes \<Rightarrow> (row list, instant) sys_event list" where
  "demo_data d = [Net (Recv None (demo_frame ACK 100 d) 7), Accept null_entropy, Fetch 0 (length d)]"

lemma demo_data_run:
  assumes "ip_SrcIP p = IP4 10 0 0 2" "ip_DstIP p = IP4 10 0 0 1" "d \<noteq> []" "length d \<le> 65435"
    "S1 = demo_start\<lparr>sys_stack := SYN_stack (sys_stack demo_start) demo_key (demo_conn m p f)\<rparr>"
  shows "\<exists>S out c. sys_run demo_cf (demo_data d) S1 = Ok (S, out)
    \<and> sys_go S = [take_read (ReadData d) (spawn demo_cf 0 null_entropy)]
    \<and> conn_at (sys_stack S) 0 = Some c \<and> State c = ESTABLISHED \<and> 0 < window_room c \<and> sendUnsent c = []
    \<and> stays_up 0 (tcp_trace demo_cf (demo_data d) S1) (sys_stack S1) \<and> written 0 (tcp_trace demo_cf (demo_data d) S1) = []"
proof -
  let ?ev = "Net (Recv None (demo_frame ACK 100 d) 7)"
  obtain c st o1 where st: "exec (Recv None (demo_frame ACK 100 d) 7) (sys_stack S1) = Ok (st, o1)"
      "conn_at st 0 = Some c" "readCh c = [d]" "overflow c = []"
      "listener_at st 0 = Some \<lparr>lst_port = 443, lst_accept = [0]\<rparr>"
      "State c = ESTABLISHED" "0 < window_room c" "sendUnsent c = []"
    using demo_data_stack [OF assms(1-4), of m f] assms(5) by auto
  define S2 where "S2 = demo_start\<lparr>sys_stack := st\<rparr>"
  have 2: "sys_exec demo_cf ?ev S1 = Ok (S2, o1)" using st(1) assms(5) by (simp add: sys_exec_def S2_def)
  define st3 where "st3 = put_listener 0 \<lparr>lst_port = 443, lst_accept = []\<rparr> st"
  define S3 where "S3 = S2\<lparr>sys_go := [spawn demo_cf 0 null_entropy], sys_stack := st3\<rparr>"
  have accept: "exec (DoAccept 0) st = Ok (st3, [])" using st(5) by (simp add: st3_def stack_Accept_def)
  then have 3: "sys_exec demo_cf (Accept null_entropy) S2 = Ok (S3, [])"
    using st(5) by (simp add: sys_exec_def S2_def S3_def st3_def stack_Accept_def demo_cf_def demo_start_def sys_start_def)
  have read: "conn_Read (length d) c = (ReadData d, c\<lparr>readCh := []\<rparr>)" using st(3,4) by (simp add: conn_Read_def)
  let ?c = "c\<lparr>readCh := []\<rparr>"
  let ?S = "S3\<lparr>sys_go := [take_read (ReadData d) (spawn demo_cf 0 null_entropy)], sys_stack := put_conn 0 ?c st3\<rparr>"
  have event: "tcp_event demo_cf (Fetch 0 (length d)) S3 = Some (OnConn 0 (OpRead (length d)))"
    by (simp add: S3_def go_at_def spawn_def awaits_def tls_Server_def)
  have 4: "sys_exec demo_cf (Fetch 0 (length d)) S3 = Ok (?S, [])"
    using st(2) read by (simp add: sys_exec_def S3_def st3_def go_at_def spawn_def awaits_def tls_Server_def put_go_def op_Read_def)
  have trace: "tcp_trace demo_cf (demo_data d) S1 =
      [Recv None (demo_frame ACK 100 d) 7, DoAccept 0, OnConn 0 (OpRead (length d))]"
    using 2 3 4 event by (simp add: demo_data_def) (simp add: demo_cf_def)
  have up: "conn_at (sys_stack S1) 0 = Some (demo_conn m p f)" "State (demo_conn m p f) = SYN_RECEIVED"
    "conn_at st3 0 = Some c"
    using st(2) by (simp_all add: assms(5) SYN_stack_def demo_start_def sys_start_def stack_Listen_def NewStack_def Let_def
        st3_def demo_conn_def new_conn_def)
  have "stays_up 0 (tcp_trace demo_cf (demo_data d) S1) (sys_stack S1)"
    unfolding trace
    using st(1,2,6) up accept read
    by (simp add: torn_down_def op_Read_def del: exec.simps(1,4))
  moreover have "written 0 (tcp_trace demo_cf (demo_data d) S1) = []" unfolding trace by (simp add: written_def)
  moreover have "window_room ?c = window_room c" by (simp add: window_room_def in_flight_def)
  ultimately show ?thesis using 2 3 4 st(6-8) by (simp add: demo_data_def)
qed

text \<open>A record that is no ClientHello ends the handshake.\<close>

lemma demo_advance:
  "\<exists>c. advance demo_cf demo_moment (take_read (ReadData [23, 3, 3, 0, 0]) (spawn demo_cf 0 null_entropy)) s =
     Ok (s, (take_read (ReadData [23, 3, 3, 0, 0]) (spawn demo_cf 0 null_entropy))\<lparr>g_phase := Answered, g_conn := c\<rparr>)
   \<and> c_out c = []"
proof -
  let ?c = "feed [23, 3, 3, 0, 0] Blocked (tls_Server ([], Blocked) [] (Some demo_identity))"
  have "tls_readRecord (record_header 23 (length ([] :: bytes)) @ [] @ [], Blocked) =
      (Ok (record_header 23 (length ([] :: bytes)), []), ([], Blocked))"
    by (rule tls_readRecord_framed) simp
  moreover have "(771 :: byte) = 3" by simp
  ultimately have "tls_readRecord ([23, 3, 3, 0, 0], Blocked) = (Ok ([23, 3, 3, 0, 0], []), ([], Blocked))"
    by (simp add: record_header_def u16_bytes_def legacyRecordVersion_def)
  then have "readHandshakeMessage ?c = (Err (ErrRecordType 23), ?c\<lparr>c_in := ([], Blocked)\<rparr>)"
    by (subst readHandshakeMessage.simps) (simp add: conn_readRecord_def feed_def tls_Server_def takeBufferedHandshake_def
      handshakeHeaderLen_def content_types)
  then obtain c where "hello_part null_crypto null_entropy demo_identity ?c =
      (Err (ErrWrap ''read ClientHello'' (ErrRecordType 23)), c)" "c_out c = []"
    by (simp add: hello_part_def receiveClientHello_def bindS_def wrapS_def feed_def tls_Server_def)
  then show ?thesis
    by (simp add: advance_def demo_moment_def spawn_def take_read_def demo_cf_def)
qed

definition demo_garbage :: "(row list, instant) sys_event list" where
  "demo_garbage = demo_data [23, 3, 3, 0, 0] @ [Advance 0 demo_moment, Flush 0 5]"

lemma demo_env_ok: "tls_env null_crypto null_entropy (conn_on demo_cf B e)"
  by (simp add: tls_env_def demo_cf_def null_crypto_def null_entropy_def demo_identity_def hash_ok_def conn_on_def
      tls_Server_def hashLen_def)

lemma demo_events_ok: "list_all (event_ok demo_cf) (demo_open @ demo_data d)"
  "list_all (event_ok demo_cf) (demo_open @ demo_garbage)"
proof -
  have "cf_crypto demo_cf = null_crypto" by (simp add: demo_cf_def)
  then show "list_all (event_ok demo_cf) (demo_open @ demo_data d)" for d
    by (simp add: demo_open_def demo_data_def demo_env_ok)
  then show "list_all (event_ok demo_cf) (demo_open @ demo_garbage)"
    by (simp add: demo_garbage_def demo_moment_def demo_cf_def route_order_def server_mux_routes str_def)
qed

lemma demo_garbage_run:
  assumes "ip_SrcIP p = IP4 10 0 0 2" "ip_DstIP p = IP4 10 0 0 1"
    "S1 = demo_start\<lparr>sys_stack := SYN_stack (sys_stack demo_start) demo_key (demo_conn m p f)\<rparr>"
  shows "\<exists>S out g. sys_run demo_cf demo_garbage S1 = Ok (S, out) \<and> sys_go S = [g] \<and> g_tcp g = 0
    \<and> g_phase g = Answered \<and> c_out (g_conn g) = []"
proof -
  let ?g = "take_read (ReadData [23, 3, 3, 0, 0]) (spawn demo_cf 0 null_entropy)"
  obtain S4 o4 where S4: "sys_run demo_cf (demo_data [23, 3, 3, 0, 0]) S1 = Ok (S4, o4)" "sys_go S4 = [?g]"
    using demo_data_run [OF assms(1,2) _ _ assms(3), of "[23, 3, 3, 0, 0]"] by auto
  obtain c' where c': "advance demo_cf demo_moment ?g (sys_app S4) = Ok (sys_app S4, ?g\<lparr>g_phase := Answered, g_conn := c'\<rparr>)"
      "c_out c' = []"
    using demo_advance by blast
  let ?S5 = "S4\<lparr>sys_go := [?g\<lparr>g_phase := Answered, g_conn := c'\<rparr>]\<rparr>"
  have "awaits ?g" "g_phase ?g \<noteq> AwaitRequest" by (simp_all add: take_read_def awaits_def spawn_def feed_def tls_Server_def)
  then have 5: "sys_exec demo_cf (Advance 0 demo_moment) S4 = Ok (?S5, [])"
    using c' S4(2) by (simp add: sys_exec_def go_at_def put_go_def)
  have 6: "sys_exec demo_cf (Flush 0 5) ?S5 = Ok (?S5, [])"
    using c'(2) by (simp add: sys_exec_def go_at_def put_go_def take_read_def spawn_def)
  have "sys_run demo_cf (demo_data [23, 3, 3, 0, 0] @ [Advance 0 demo_moment, Flush 0 5]) S1 = Ok (?S5, o4 @ [] @ [])"
    by (rule sys_run_append [OF S4(1)]) (simp add: 5 6)
  then show ?thesis using c'(2) by (simp add: demo_garbage_def) (simp add: take_read_def spawn_def)
qed

theorem server_never_panics_witness:
  "\<exists>S out. sys_run demo_cf (demo_open @ demo_garbage) demo_start = Ok (S, out)"
  by (rule server_never_panics [OF demo_boot demo_events_ok(2)])

theorem requests_are_serialized_witness:
  "\<exists>S out. sys_run demo_cf (demo_open @ demo_garbage) demo_start = Ok (S, out)
    \<and> serially demo_cf (sys_go S) (sys_log S) (sys_app demo_start) (sys_app S)"
proof -
  obtain S out where "sys_run demo_cf (demo_open @ demo_garbage) demo_start = Ok (S, out)"
    using sys_run_keeps [OF boot_inv [OF demo_boot] demo_events_ok(2)] by blast
  with requests_are_serialized [OF demo_boot demo_events_ok(2) this] show ?thesis by blast
qed

end
