(* ===== verification/Server_Liveness.thy ===== *)
theory Server_Liveness
  imports Server_Behaviour
begin

unbundle bit_operations_syntax

section \<open>No goroutine waits for ever\<close>

text \<open>
  Progress of the server: a goroutine that has read a complete exchange comes to its answer whenever it runs, and the
  exchange of a client that follows the protocol is complete.
\<close>

text \<open>
  The input of a goroutine is complete when the sequential service comes to an answer on it: the handshake succeeds
  and what the client has sent after it holds a request.
\<close>

definition complete :: "('db, 't) config \<Rightarrow> entropy \<Rightarrow> bytes \<Rightarrow> bool" where
  "complete cf rnd B \<longleftrightarrow> (\<exists>c data c1 req r. Handshake (cf_crypto cf) rnd (conn_on cf B EOF) = (Ok (), c)
     \<and> tls_drain bufio_size c = (data, Err (ErrIO EOF), c1) \<and> ReadRequest (data, EOF) = Ok (req, r))"

lemma completeE:
  assumes "complete cf (g_rnd g) (g_got g)" "g_end g = Blocked \<or> g_end g = EOF"
  obtains c schedule tx ch where
    "hello_part (cf_crypto cf) (g_rnd g) (cf_identity cf) (conn_on cf (g_got g) (g_end g)) = (Ok (schedule, tx), ch)"
    "receiveFinished (cf_crypto cf) schedule tx ch = (Ok (), c)"
    "\<not> request_blocked (tls_drain bufio_size (c\<lparr>c_handshakeDone := True\<rparr>))"
proof -
  let ?run = "hs_parts (cf_crypto cf) (g_rnd g) (cf_identity cf)"
  obtain cE data c1 req r where full: "Handshake (cf_crypto cf) (g_rnd g) (conn_on cf (g_got g) EOF) = (Ok (), cE)"
      "tls_drain bufio_size cE = (data, Err (ErrIO EOF), c1)" "ReadRequest (data, EOF) = Ok (req, r)"
    using assms(1) unfolding complete_def by blast
  obtain c0 where c0: "?run (conn_on cf (g_got g) EOF) = (Ok (), c0)" "cE = c0\<lparr>c_handshakeDone := True\<rparr>"
    using full(1) by (auto simp: Handshake_conn_on split: prod.splits res.splits)
  have "\<exists>c. ?run (conn_on cf (g_got g) (g_end g)) = (Ok (), c)
      \<and> \<not> request_blocked (tls_drain bufio_size (c\<lparr>c_handshakeDone := True\<rparr>))"
    using assms(2)
  proof
    assume "g_end g = EOF"
    then show ?thesis using c0 full(2) by (auto simp: request_blocked_def Blocked_def)
  next
    assume blocked: "g_end g = Blocked"
    let ?c = "conn_on cf (g_got g) Blocked"
    obtain r1 c where rc: "?run ?c = (r1, c)" by (cases "?run ?c")
    have at: "resumes_at ?run ?c" by (rule resumesD [OF resumes_hs_parts]) simp_all
    have free: "\<not> blocked_res r1" using resumes_at_blocked [OF at rc] c0(1) by auto
    note run = resumes_at_run [OF at rc free]
    have ok: "r1 = Ok ()" "c0 = feed [] EOF c" using run(3) [of "[]" EOF] c0(1) by simp_all
    let ?d = "c\<lparr>c_handshakeDone := True\<rparr>"
    obtain ds r2 c2 where dr: "tls_drain bufio_size ?d = (ds, r2, c2)" by (cases "tls_drain bufio_size ?d")
    have pos: "0 < bufio_size" by (simp add: bufio_size_def)
    have dE: "tls_drain bufio_size (feed [] EOF ?d) = (data, Err (ErrIO EOF), c1)" using full(2) c0(2) ok(2) by simp
    have "\<not> request_blocked (ds, r2, c2)"
    proof
      assume bl: "request_blocked (ds, r2, c2)"
      then have "blocked_res r2" by (simp add: request_blocked_def)
      then have "ds = data" using tls_drain_resumes [OF pos _ _ dr] run(1,2) dE by simp
      then have wait: "ReadRequest (data, Blocked) = Err (IOError Blocked)" using bl by (simp add: request_blocked_def)
      show False
        using waits_ReadRequest
      proof (cases rule: waits_cases [where B = data])
        case Waits
        then show ?thesis using full(3) by (metis res.distinct(1))
      next
        case (Refuses x)
        then show ?thesis using Refuses(2) [of "[]"] full(3) by simp
      next
        case Panics
        then show ?thesis using Panics [of "[]"] full(3) by simp
      next
        case (Returns a R)
        then show ?thesis using Returns [of "[]" Blocked] wait by simp
      qed
    qed
    then show ?thesis using rc ok(1) blocked dr by auto
  qed
  then obtain c where c: "?run (conn_on cf (g_got g) (g_end g)) = (Ok (), c)"
      "\<not> request_blocked (tls_drain bufio_size (c\<lparr>c_handshakeDone := True\<rparr>))" by blast
  then show ?thesis using that unfolding hs_parts_def bindS_def by (fastforce split: prod.splits res.splits)
qed

fun stage :: "phase \<Rightarrow> nat" where
  "stage AwaitHello = 0"
| "stage (AwaitFinished schedule tx) = 1"
| "stage AwaitRequest = 2"
| "stage Answered = 3"
| "stage Closed = 4"

lemma settled_stage: "settled g \<longleftrightarrow> 3 \<le> stage (g_phase g)"
  by (cases "g_phase g") simp_all

text \<open>
  With its input complete, or at its end, a goroutine that runs comes to a later phase.
\<close>

definition ready :: "('db, 't) config \<Rightarrow> goroutine \<Rightarrow> bool" where
  "ready cf g \<longleftrightarrow> g_end g = EOF \<or> complete cf (g_rnd g) (g_got g)"

lemma Handshake_parts:
  assumes "Handshake cr rnd (conn_on cf B e) = (Ok (), c)"
  obtains schedule tx ch c0 where "hello_part cr rnd (cf_identity cf) (conn_on cf B e) = (Ok (schedule, tx), ch)"
    "receiveFinished cr schedule tx ch = (Ok (), c0)" "c = c0\<lparr>c_handshakeDone := True\<rparr>"
  using assms that
  by (fastforce simp: Handshake_conn_on hs_parts_def bindS_def split: prod.splits res.splits)

lemma at_end_moves:
  assumes inv: "go_inv cf g" and wait: "awaits g" and e: "g_end g = EOF"
    and adv: "advance cf m g s = Ok (s', g')"
  shows "stage (g_phase g) < stage (g_phase g')"
proof -
  let ?start = "conn_on cf (g_got g) EOF"
  note hello = resumes_EOF [OF resumes_hello_part, of ?start]
  show ?thesis
  proof (cases "g_phase g")
    case AwaitHello
    then show ?thesis
      using adv inv e hello(1) by (fastforce simp: advance_def go_inv_def Let_def split: prod.splits res.splits if_splits)
  next
    case (AwaitFinished schedule tx)
    have h: "hello_part (cf_crypto cf) (g_rnd g) (cf_identity cf) ?start = (Ok (schedule, tx), g_conn g)"
      using inv e AwaitFinished by (simp add: go_inv_def Let_def)
    have "c_faults (g_conn g) = []" "snd (c_in (g_conn g)) = EOF" using hello(2) [OF _ _ h] by simp_all
    note fin = resumes_EOF(1) [OF resumes_receiveFinished this]
    show ?thesis
      using adv AwaitFinished fin by (fastforce simp: advance_def split: prod.splits res.splits if_splits)
  next
    case AwaitRequest
    then have "Handshake (cf_crypto cf) (g_rnd g) ?start = (Ok (), g_conn g)" using inv e by (simp add: go_inv_def Let_def)
    then obtain schedule tx ch c0 where p: "hello_part (cf_crypto cf) (g_rnd g) (cf_identity cf) ?start = (Ok (schedule, tx), ch)"
        "receiveFinished (cf_crypto cf) schedule tx ch = (Ok (), c0)" "g_conn g = c0\<lparr>c_handshakeDone := True\<rparr>"
      by (rule Handshake_parts)
    have "c_faults ch = []" "snd (c_in ch) = EOF" using hello(2) [OF _ _ p(1)] by simp_all
    from resumes_EOF(2) [OF resumes_receiveFinished this p(2)]
    have c: "c_faults (g_conn g) = []" "snd (c_in (g_conn g)) = EOF" using p(3) by simp_all
    obtain ds r c1 where dr: "tls_drain bufio_size (g_conn g) = (ds, r, c1)" by (cases "tls_drain bufio_size (g_conn g)")
    then have "\<not> request_blocked (tls_drain bufio_size (g_conn g))"
      using tls_drain_EOF [OF c dr] by (auto simp: request_blocked_def)
    then show ?thesis
      using AwaitRequest adv by (auto simp: advance_def Let_def split: prod.splits res.splits)
  qed (use wait in \<open>simp_all add: awaits_def\<close>)
qed

lemma complete_moves:
  assumes inv: "go_inv cf g" and wait: "awaits g" and full: "complete cf (g_rnd g) (g_got g)"
    and adv: "advance cf m g s = Ok (s', g')"
  shows "stage (g_phase g) < stage (g_phase g')"
proof -
  obtain c schedule tx ch where run:
    "hello_part (cf_crypto cf) (g_rnd g) (cf_identity cf) (conn_on cf (g_got g) (g_end g)) = (Ok (schedule, tx), ch)"
    "receiveFinished (cf_crypto cf) schedule tx ch = (Ok (), c)"
    "\<not> request_blocked (tls_drain bufio_size (c\<lparr>c_handshakeDone := True\<rparr>))"
    by (rule completeE [OF full go_inv_start(1) [OF inv]])
  show ?thesis
  proof (cases "g_phase g")
    case AwaitHello
    then show ?thesis using adv run(1) inv by (auto simp: advance_def go_inv_def Let_def split: prod.splits)
  next
    case (AwaitFinished schedule' tx')
    then show ?thesis using adv run(1,2) inv by (auto simp: advance_def go_inv_def Let_def split: prod.splits)
  next
    case AwaitRequest
    then have "g_conn g = c\<lparr>c_handshakeDone := True\<rparr>"
      using run(1,2) inv by (simp add: go_inv_def Let_def Handshake_conn_on hs_parts_def bindS_def)
    then show ?thesis
      using AwaitRequest adv run(3) by (auto simp: advance_def Let_def split: prod.splits res.splits)
  qed (use wait in \<open>simp_all add: awaits_def\<close>)
qed

lemma advance_moves:
  assumes "go_inv cf g" "awaits g" "ready cf g" "route_order (fst (snd m)) (cf_mux cf)"
  shows "\<exists>s' g'. advance cf m g s = Ok (s', g') \<and> same_input g g' \<and> stage (g_phase g) < stage (g_phase g')"
proof -
  obtain s' g' where adv: "advance cf m g s = Ok (s', g')" "same_input g g'"
    using advance_keeps [OF assms(1,2,4), of s] by (auto simp: advanced_def)
  then show ?thesis
    using assms(3) at_end_moves [OF assms(1,2) _ adv(1)] complete_moves [OF assms(1,2) _ adv(1)]
    unfolding ready_def by blast
qed

text \<open>Writing what is to be written and running once brings goroutine \<open>j\<close> forward, whatever has happened before.\<close>

definition same_go :: "goroutine \<Rightarrow> goroutine \<Rightarrow> bool" where
  "same_go g g' \<longleftrightarrow> g_tcp g' = g_tcp g \<and> g_rnd g' = g_rnd g \<and> g_got g' = g_got g \<and> g_end g' = g_end g"

lemma same_go_ready: "same_go g g' \<Longrightarrow> ready cf g' = ready cf g"
  by (simp add: same_go_def ready_def)

lemma same_go_trans: "same_go g g1 \<Longrightarrow> same_go g1 g2 \<Longrightarrow> same_go g g2"
  by (simp add: same_go_def)

lemma flush_all:
  assumes inv: "sys_inv cf S" and j: "j < length (sys_go S)"
  shows "\<exists>n S' out. sys_exec cf (Flush j n) S = Ok (S', out) \<and> sys_inv cf S' \<and> j < length (sys_go S')
    \<and> same_go (sys_go S ! j) (sys_go S' ! j) \<and> g_phase (sys_go S' ! j) = g_phase (sys_go S ! j)
    \<and> g_sent (sys_go S' ! j) = length (c_out (g_conn (sys_go S' ! j)))"
proof -
  let ?g = "sys_go S ! j" let ?n = "length (c_out (g_conn ?g))"
  obtain S1 o1 where S1: "sys_exec cf (Flush j ?n) S = Ok (S1, o1)" "sys_inv cf S1"
    using sys_exec_keeps [OF inv, of "Flush j ?n"] by auto
  then have "sys_go S1 = (sys_go S)[j := ?g\<lparr>g_sent := min (g_sent ?g + ?n) ?n\<rparr>]"
    using j by (auto simp: sys_exec_def rbind_eq_Ok go_at_def)
  then show ?thesis using S1 j by (intro exI [of _ ?n] exI [of _ S1]) (auto simp: same_go_def)
qed

lemma advance_round:
  assumes inv: "sys_inv cf S" and j: "j < length (sys_go S)" and order: "route_order (fst (snd m)) (cf_mux cf)"
    and ready: "ready cf (sys_go S ! j)"
  shows "\<exists>n S' out. sys_run cf [Flush j n, Advance j m] S = Ok (S', out) \<and> sys_inv cf S' \<and> j < length (sys_go S')
    \<and> same_go (sys_go S ! j) (sys_go S' ! j)
    \<and> min 3 (Suc (stage (g_phase (sys_go S ! j)))) \<le> stage (g_phase (sys_go S' ! j))"
proof -
  let ?g = "sys_go S ! j"
  obtain n S1 o1 where S1: "sys_exec cf (Flush j n) S = Ok (S1, o1)" "sys_inv cf S1" "j < length (sys_go S1)"
      "same_go ?g (sys_go S1 ! j)" "g_phase (sys_go S1 ! j) = g_phase ?g"
      "g_sent (sys_go S1 ! j) = length (c_out (g_conn (sys_go S1 ! j)))"
    using flush_all [OF inv j] by blast
  let ?g1 = "sys_go S1 ! j"
  have at1: "go_at S1 j = Some ?g1" using S1(3) by (simp add: go_at_def)
  obtain S2 o2 where S2: "sys_exec cf (Advance j m) S1 = Ok (S2, o2)" "sys_inv cf S2"
    using sys_exec_keeps [OF S1(2), of "Advance j m"] order by auto
  have "j < length (sys_go S2) \<and> same_go ?g (sys_go S2 ! j)
    \<and> min 3 (Suc (stage (g_phase ?g))) \<le> stage (g_phase (sys_go S2 ! j))"
  proof (cases "awaits ?g1")
    case True
    have "ready cf ?g1" using ready same_go_ready [OF S1(4), of cf] by simp
    then obtain s' g' where g': "advance cf m ?g1 (sys_app S1) = Ok (s', g')" "same_input ?g1 g'"
        "stage (g_phase ?g1) < stage (g_phase g')"
      using advance_moves [OF go_at_inv [OF S1(2) at1] True _ order, of "sys_app S1"] by blast
    then have "sys_go S2 = (sys_go S1)[j := g']" using S2(1) at1 True by (auto simp: sys_exec_def rbind_eq_Ok)
    then show ?thesis using g' S1(3-5) by (auto simp: same_input_def same_go_def)
  next
    case False
    then have "sys_go S2 = sys_go S1" using S2(1) at1 by (auto simp: sys_exec_def rbind_eq_Ok)
    moreover have "3 \<le> stage (g_phase ?g1)" using False S1(6) settled_stage [of ?g1] by (auto simp: awaits_def)
    ultimately show ?thesis using S1(3-5) by simp
  qed
  then show ?thesis using S1(1) S2 by (intro exI [of _ n] exI [of _ S2] exI [of _ "o1 @ o2"]) simp
qed

lemma three_rounds:
  assumes inv: "sys_inv cf S" and j: "j < length (sys_go S)" and order: "route_order (fst (snd m)) (cf_mux cf)"
    and ready: "ready cf (sys_go S ! j)"
  shows "\<exists>n1 n2 n3 n4 S' out. sys_run cf [Flush j n1, Advance j m, Flush j n2, Advance j m, Flush j n3, Advance j m, Flush j n4] S
      = Ok (S', out) \<and> sys_inv cf S' \<and> j < length (sys_go S') \<and> same_go (sys_go S ! j) (sys_go S' ! j)
    \<and> settled (sys_go S' ! j) \<and> g_sent (sys_go S' ! j) = length (c_out (g_conn (sys_go S' ! j)))"
proof -
  let ?g = "\<lambda>S. sys_go S ! j"
  obtain n1 S1 o1 where 1: "sys_run cf [Flush j n1, Advance j m] S = Ok (S1, o1)" "sys_inv cf S1" "j < length (sys_go S1)"
      "same_go (?g S) (?g S1)" "1 \<le> stage (g_phase (?g S1))"
    using advance_round [OF assms] by fastforce
  have r1: "ready cf (?g S1)" using ready same_go_ready [OF 1(4), of cf] by simp
  obtain n2 S2 o2 where 2: "sys_run cf [Flush j n2, Advance j m] S1 = Ok (S2, o2)" "sys_inv cf S2" "j < length (sys_go S2)"
      "same_go (?g S1) (?g S2)" "2 \<le> stage (g_phase (?g S2))"
    using advance_round [OF 1(2,3) order r1] 1(5) by fastforce
  have r2: "ready cf (?g S2)" using r1 same_go_ready [OF 2(4), of cf] by simp
  obtain n3 S3 o3 where 3: "sys_run cf [Flush j n3, Advance j m] S2 = Ok (S3, o3)" "sys_inv cf S3" "j < length (sys_go S3)"
      "same_go (?g S2) (?g S3)" "3 \<le> stage (g_phase (?g S3))"
    using advance_round [OF 2(2,3) order r2] 2(5) by fastforce
  obtain n4 S4 o4 where 4: "sys_exec cf (Flush j n4) S3 = Ok (S4, o4)" "sys_inv cf S4" "j < length (sys_go S4)"
      "same_go (?g S3) (?g S4)" "g_phase (?g S4) = g_phase (?g S3)" "g_sent (?g S4) = length (c_out (g_conn (?g S4)))"
    using flush_all [OF 3(2,3)] by blast
  have "sys_run cf ([Flush j n1, Advance j m] @ [Flush j n2, Advance j m] @ [Flush j n3, Advance j m] @ [Flush j n4]) S
      = Ok (S4, o1 @ o2 @ o3 @ o4 @ [])"
    by (intro sys_run_append [OF 1(1)] sys_run_append [OF 2(1)] sys_run_append [OF 3(1)]) (simp add: 4(1))
  moreover have "same_go (?g S) (?g S4)" using 1(4) 2(4) 3(4) 4(4) same_go_trans by blast
  moreover have "settled (?g S4)" using 3(5) 4(5) by (simp add: settled_stage)
  ultimately show ?thesis
    using 4 by (intro exI [of _ n1] exI [of _ n2] exI [of _ n3] exI [of _ n4] exI [of _ S4]) auto
qed

text \<open>The whole of a good client's exchange is complete, and what the sequential service makes of it.\<close>

lemma client_complete:
  assumes "crypto_ok (cf_crypto cf)" "server_ok rnd (cf_identity cf)" "good_hello ch hello" "first_flight rs ch []"
    "hs_reference (cf_crypto cf) rnd (cf_identity cf) ch hello = Ok plan" "plan_keys (cf_crypto cf) plan ck sk rk wk"
    "request_ok me p hs body" "concat ps = render_request me p hs body @ rest"
  shows "complete cf rnd (client_bytes rs plan ck rk ps)"
proof -
  obtain c1 where hs: "Handshake (cf_crypto cf) rnd (conn_on cf (client_bytes rs plan ck rk ps) EOF) = (Ok (), c1)"
      and fields: "c_handshakeDone c1" "c_readKeys c1 = Some rk" "c_inAppData c1 = []"
      "c_in c1 = (fst (wire_bytes (app_records (concat (map chunks ps))) rk), EOF)"
    using client_handshake [OF assms(1-6)] unfolding conn_on_def by blast
  have pos: "0 < bufio_size" by (simp add: bufio_size_def)
  obtain k0 where k0: "\<forall>k \<ge> k0. tls_stream (cf_crypto cf) rnd (replicate k bufio_size) c1 = tls_drain bufio_size c1"
    using tls_stream_drain [OF pos fields(1)] by blast
  let ?ns = "replicate (max k0 (Suc (length (concat ps)))) bufio_size"
  have "list_all (\<lambda>n. 0 < n) ?ns" "length (concat ps) < length ?ns" using pos by (simp_all add: list_all_iff)
  then obtain s d where "tls_stream (cf_crypto cf) rnd ?ns c1 = (concat ps, Err (ErrIO EOF), put_src s (c1\<lparr>c_inAppData := d\<rparr>))"
    using tls_stream_request [OF fields(1-3) plan_keys_correct(3) [OF assms(1,6)] fields(4)] by blast
  then have "tls_drain bufio_size c1 = (concat ps, Err (ErrIO EOF), put_src s (c1\<lparr>c_inAppData := d\<rparr>))"
    using k0 by (metis max.cobounded1)
  moreover have "\<exists>req r. ReadRequest (concat ps, EOF) = Ok (req, r)"
    using ReadRequest_render [OF assms(7), of rest EOF] assms(8) by auto
  ultimately show ?thesis using hs unfolding complete_def by blast
qed

lemma client_settled:
  assumes tls: "crypto_ok (cf_crypto cf)" "server_ok (g_rnd g) (cf_identity cf)" "good_hello ch hello" "first_flight rs ch []"
      "hs_reference (cf_crypto cf) (g_rnd g) (cf_identity cf) ch hello = Ok plan" "plan_keys (cf_crypto cf) plan ck sk rk wk"
    and http: "request_ok me p hs body" "concat ps = render_request me p hs body @ rest"
      "\<forall>order. route_order order (cf_mux cf) \<longrightarrow> mux_match order (cf_mux cf) p = Some h"
    and g: "go_inv cf g" "settled g" "g_got g = client_bytes rs plan ck rk ps"
  shows "\<exists>now s s' resp. h \<lparr>Method = me, Path = p, req_Version = str ''HTTP/1.1'', Headers = lower_names hs, Body = body\<rparr>
      \<lparr>StatusCode = 200, w_Headers = [], w_Body = []\<rparr> s = Ok (resp, s')
    \<and> c_out (g_conn g) = server_out plan sk @ fst (wire_bytes (app_records (chunks (snd (WriteResponse now resp)))) wk)"
proof -
  have "heard g (g_got g) = g_got g" by (simp add: heard_def)
  then obtain now order s s' k0 where run: "route_order order (cf_mux cf)"
      "\<forall>k \<ge> k0. \<exists>c'. serve_conn (cf_crypto cf) (g_rnd g) (replicate k bufio_size) now order (cf_mux cf)
        (conn_on cf (g_got g) EOF) s = (Ok s', c') \<and> c_out c' = c_out (g_conn g)"
    using settled_serve [OF g(1,2), of "g_got g"] by auto
  let ?req = "\<lparr>Method = me, Path = p, req_Version = str ''HTTP/1.1'', Headers = lower_names hs, Body = body\<rparr>"
  have h: "mux_match order (cf_mux cf) p = Some h" using http(3) run(1) by blast
  have "\<exists>resp s1. h ?req \<lparr>StatusCode = 200, w_Headers = [], w_Body = []\<rparr> s = Ok (resp, s1)"
    using server_match_cases [OF run(1) h] handlers_return(1,2) [of "cf_lib cf" "cf_sql cf" ?req _ s]
      handlers_return(3-5) [of ?req _ s] by auto
  then obtain resp s1 where resp: "h ?req \<lparr>StatusCode = 200, w_Headers = [], w_Body = []\<rparr> s = Ok (resp, s1)" by blast
  define k where "k = max k0 (Suc (length (concat ps)))"
  have sizes: "list_all (\<lambda>n. 0 < n) (replicate k bufio_size)" "length (concat ps) < length (replicate k bufio_size)"
    by (simp_all add: k_def list_all_iff bufio_size_def)
  obtain c1 where "serve_conn (cf_crypto cf) (g_rnd g) (replicate k bufio_size) now order (cf_mux cf)
        (conn_on cf (g_got g) EOF) s = (Ok s1, c1)"
      "c_out c1 = server_out plan sk @ fst (wire_bytes (app_records (chunks (snd (WriteResponse now resp)))) wk)"
    using client_served [OF tls http(1,2) h resp sizes, of now] g(3) unfolding conn_on_def by auto
  moreover have "\<exists>c'. serve_conn (cf_crypto cf) (g_rnd g) (replicate k bufio_size) now order (cf_mux cf)
        (conn_on cf (g_got g) EOF) s = (Ok s', c') \<and> c_out c' = c_out (g_conn g)"
    using run(2) by (simp add: k_def)
  ultimately have "c_out (g_conn g) =
      server_out plan sk @ fst (wire_bytes (app_records (chunks (snd (WriteResponse now resp)))) wk)" by auto
  with resp show ?thesis by blast
qed

text \<open>
  C3: no client waits for ever. Suppose that at some moment of a run a goroutine has read from its TCP connection,
  in pieces of any sizes and with any waits in between, all that a good client sends: an acceptable ClientHello, the
  right Finished message, and a well-formed request as application data in any split. Whatever the other
  connections do, it then only has to run: three times at most, writing what it has to write before each, and its
  output, all of it handed to TCP, is the server's handshake flight and the sealed response of the handler to
  exactly that request. It does not wait for bytes that the client has no reason to send.
\<close>
theorem good_client_is_answered:
  assumes start: "boot cr x lib sq t = Ok (cf, S0)" "list_all (event_ok cf) evs" "sys_run cf evs S0 = Ok (S, o1)"
    and go: "j < length (sys_go S)" "g = sys_go S ! j" "route_order (fst (snd m)) (server_mux lib sq)"
    and tls: "crypto_ok cr" "server_ok (g_rnd g) (cf_identity cf)" "good_hello ch hello" "first_flight rs ch []"
      "hs_reference cr (g_rnd g) (cf_identity cf) ch hello = Ok plan" "plan_keys cr plan ck sk rk wk"
    and http: "request_ok me p hs body" "concat ps = render_request me p hs body @ rest"
      "\<forall>order. route_order order (server_mux lib sq) \<longrightarrow> mux_match order (server_mux lib sq) p = Some h"
    and got: "g_got g = client_bytes rs plan ck rk ps"
  shows "\<exists>n1 n2 n3 n4 S' out. sys_run cf [Flush j n1, Advance j m, Flush j n2, Advance j m, Flush j n3, Advance j m, Flush j n4] S
      = Ok (S', out)
    \<and> settled (sys_go S' ! j) \<and> g_sent (sys_go S' ! j) = length (c_out (g_conn (sys_go S' ! j)))
    \<and> (\<exists>now s s' resp. h \<lparr>Method = me, Path = p, req_Version = str ''HTTP/1.1'', Headers = lower_names hs, Body = body\<rparr>
          \<lparr>StatusCode = 200, w_Headers = [], w_Body = []\<rparr> s = Ok (resp, s')
        \<and> c_out (g_conn (sys_go S' ! j)) =
            server_out plan sk @ fst (wire_bytes (app_records (chunks (snd (WriteResponse now resp)))) wk))"
proof -
  have inv: "sys_inv cf S" using sys_run_keeps [OF boot_inv [OF start(1)] start(2)] start(3) by auto
  note cf = boot_start(4-6) [OF start(1)]
  have full: "ready cf (sys_go S ! j)"
    using client_complete [OF _ _ _ _ _ _ http(1,2), of cf "g_rnd g"] tls got cf(1) go(2) by (simp add: ready_def)
  obtain n1 n2 n3 n4 S' out where run:
      "sys_run cf [Flush j n1, Advance j m, Flush j n2, Advance j m, Flush j n3, Advance j m, Flush j n4] S = Ok (S', out)"
      "sys_inv cf S'" "j < length (sys_go S')" "g_rnd (sys_go S' ! j) = g_rnd g"
      "g_got (sys_go S' ! j) = g_got g" "settled (sys_go S' ! j)"
      "g_sent (sys_go S' ! j) = length (c_out (g_conn (sys_go S' ! j)))"
    using three_rounds [OF inv go(1) _ full, of m] go(2,3) cf(2,3) by (auto simp: same_go_def)
  have fin: "go_inv cf (sys_go S' ! j)" using run(2,3) by (simp add: sys_inv_def)
  have "\<exists>now s s' resp. h \<lparr>Method = me, Path = p, req_Version = str ''HTTP/1.1'', Headers = lower_names hs, Body = body\<rparr>
          \<lparr>StatusCode = 200, w_Headers = [], w_Body = []\<rparr> s = Ok (resp, s')
        \<and> c_out (g_conn (sys_go S' ! j)) =
            server_out plan sk @ fst (wire_bytes (app_records (chunks (snd (WriteResponse now resp)))) wk)"
    by (rule client_settled [OF _ _ tls(3,4) _ _ http(1,2) _ fin run(6)]) (use tls http(3) run(4,5) got cf in simp_all)
  then show ?thesis using run(1,6,7) by blast
qed

text \<open>How many bytes a client sends.\<close>

lemma wire_bytes_length:
  "aead_correct (rk_aead k) \<Longrightarrow> length (fst (wire_bytes ws k)) \<le> (\<Sum>w \<leftarrow> ws. length (snd (carried w)) + 22)"
proof (induction ws arbitrary: k)
  case (Cons w ws)
  note aead = Cons.prems
  then have sealed: "aead_Overhead (rk_aead k) = 16" "length (aead_Seal (rk_aead k) n q d) = length q + 16" for n q d
    by (simp_all add: aead_correct_def aeadOverhead_def)
  show ?case
  proof (cases w)
    case (Protected t q)
    have k': "aead_correct (rk_aead (k\<lparr>rk_seq := rk_seq k + 1\<rparr>))" using aead by simp
    show ?thesis
      using Cons.IH [OF aead] Cons.IH [OF k'] Protected sealed
      by (simp add: case_prod_beta rk_Seal_def Let_def record_header_def u16_bytes_def)
  qed (use Cons.IH [OF aead] in \<open>simp add: case_prod_beta record_header_def u16_bytes_def\<close>)
qed simp

text \<open>A demonstration client: its hello, its Finished message and a request in one piece.\<close>

definition demo_request :: bytes where
  "demo_request = render_request (str ''GET'') (str ''/healthz'') [(str ''Host'', str ''x''), (str ''Content-Length'', str ''0'')] []"

definition demo_bytes :: "hs_plan \<Rightarrow> recordKeys \<Rightarrow> recordKeys \<Rightarrow> bytes" where
  "demo_bytes plan ck rk = client_bytes [(contentTypeHandshake, demo_ch @ [])] plan ck rk [demo_request]"

lemma demo_request_ok:
  "request_ok (str ''GET'') (str ''/healthz'') [(str ''Host'', str ''x''), (str ''Content-Length'', str ''0'')] []"
  by (simp add: request_ok_def isValidToken_def isTokenChar_def path_ok_def str_def ctl_defs http_limits
      field_ok_def value_ok_def trim_set_def lower_names_def to_lower_def lower_byte_def Itoa.simps)

lemma demo_bytes_size:
  assumes "hs_reference null_crypto null_entropy demo_identity demo_ch demo_hello = Ok plan" "plan_keys null_crypto plan ck sk rk wk"
  shows "demo_bytes plan ck rk \<noteq> []" "length (demo_bytes plan ck rk) \<le> 65435"
proof -
  show "demo_bytes plan ck rk \<noteq> []" by (simp add: demo_bytes_def client_bytes_def plain_bytes_def record_header_def)
  obtain v where v: "p_clientFinished plan = [20, 0, 0, 32] @ v" "length v = 32"
    by (rule reference_clientFinished [OF demo_env(1) assms(1)])
  have "length (fst (wire_bytes [Protected contentTypeHandshake (p_clientFinished plan)] ck)) \<le> 58"
    using wire_bytes_length [OF plan_keys_correct(1) [OF demo_env(1) assms(2)], of "[Protected contentTypeHandshake (p_clientFinished plan)]"] v
    by simp
  moreover have "chunks demo_request = [demo_request]"
    by (subst chunks.simps, subst chunks.simps)
      (simp add: demo_request_def render_request_def field_block_def field_line_def str_def maxPlaintextLength_def)
  then have "length (fst (wire_bytes (app_records (concat (map chunks [demo_request]))) rk)) \<le> 1000"
    using wire_bytes_length [OF plan_keys_correct(3) [OF demo_env(1) assms(2)], of "app_records [demo_request]"]
    by (simp add: demo_request_def render_request_def field_block_def field_line_def str_def)
  moreover have "length demo_ch \<le> 1004" using length_demo_body by (simp add: demo_ch_def u24_bytes_def)
  ultimately show "length (demo_bytes plan ck rk) \<le> 65435"
    by (simp add: demo_bytes_def client_bytes_def plain_bytes_def record_header_def u16_bytes_def)
qed

lemma demo_plan:
  assumes "keyExchange null_entropy demo_hello = Ok (pub, shared)" "length pub = 32"
  obtains plan ck sk rk wk where "hs_reference null_crypto null_entropy demo_identity demo_ch demo_hello = Ok plan"
    "plan_keys null_crypto plan ck sk rk wk"
proof -
  have "parseClientHello (drop 4 demo_ch) = Ok demo_hello" using demo_good by (simp add: good_hello_def)
  then obtain plan where plan: "hs_reference null_crypto null_entropy demo_identity demo_ch demo_hello = Ok plan"
    using hs_reference_total [OF demo_env hello_session_id assms] by blast
  obtain ck sk rk wk where "plan_keys null_crypto plan ck sk rk wk" by (rule plan_keys_exist [OF demo_env(1)])
  with plan that show ?thesis by blast
qed

lemma demo_order: "route_order (fst (snd demo_moment)) (server_mux demo_library table_sql)"
  by (simp add: demo_moment_def route_order_def server_mux_routes str_def)

lemma demo_route:
  "\<forall>order. route_order order (server_mux demo_library table_sql) \<longrightarrow>
    mux_match order (server_mux demo_library table_sql) (str ''/healthz'') = Some healthz_handler"
  by (simp add: mux_match_def server_mux_routes str_def)

lemma demo_reads:
  assumes "sys_go S = [take_read (ReadData B) (spawn demo_cf 0 null_entropy)]"
  shows "0 < length (sys_go S)" "g_rnd (sys_go S ! 0) = null_entropy" "g_got (sys_go S ! 0) = B" "cf_identity demo_cf = demo_identity"
  using assms by (simp_all add: take_read_def spawn_def demo_cf_def)

theorem good_client_is_answered_witness:
  "case keyExchange null_entropy demo_hello of
      Ok _ \<Rightarrow> \<exists>plan ck sk rk wk S out n1 n2 n3 n4 S' out'.
        hs_reference null_crypto null_entropy demo_identity demo_ch demo_hello = Ok plan
        \<and> plan_keys null_crypto plan ck sk rk wk
        \<and> sys_run demo_cf (demo_open @ demo_data (client_bytes [(contentTypeHandshake, demo_ch @ [])] plan ck rk
            [render_request (str ''GET'') (str ''/healthz'') [(str ''Host'', str ''x''), (str ''Content-Length'', str ''0'')] []]))
            demo_start = Ok (S, out)
        \<and> sys_run demo_cf [Flush 0 n1, Advance 0 demo_moment, Flush 0 n2, Advance 0 demo_moment, Flush 0 n3,
            Advance 0 demo_moment, Flush 0 n4] S = Ok (S', out')
        \<and> settled (sys_go S' ! 0)
    | Err x \<Rightarrow> x = ErrWrap ''x25519 ECDHE'' ErrZeroSharedSecret
    | Panic \<Rightarrow> False"
  using demo_env(2)
proof (cases rule: keyExchange_cases [of null_entropy demo_identity demo_hello])
  case (1 pub shared)
  obtain plan ck sk rk wk where plan: "hs_reference null_crypto null_entropy demo_identity demo_ch demo_hello = Ok plan"
      and keys: "plan_keys null_crypto plan ck sk rk wk" by (rule demo_plan [OF 1(1,2)])
  let ?B = "demo_bytes plan ck rk"
  have c: "concat [demo_request] = render_request (str ''GET'') (str ''/healthz'')
      [(str ''Host'', str ''x''), (str ''Content-Length'', str ''0'')] [] @ []" by (simp add: demo_request_def)
  obtain m p f o1 where 1: "sys_run demo_cf demo_open demo_start = Ok (demo_start\<lparr>sys_stack :=
      SYN_stack (sys_stack demo_start) demo_key (demo_conn m p f)\<rparr>, o1)" (is "_ = Ok (?S1, _)")
      and ip: "ip_SrcIP p = IP4 10 0 0 2" "ip_DstIP p = IP4 10 0 0 1"
    using demo_opened by blast
  obtain S o2 where 2: "sys_run demo_cf (demo_data ?B) ?S1 = Ok (S, o2)"
      "sys_go S = [take_read (ReadData ?B) (spawn demo_cf 0 null_entropy)]"
    using demo_data_run [OF ip demo_bytes_size [OF plan keys] refl] by blast
  note run = sys_run_append [OF 1 2(1)]
  note reads = demo_reads [OF 2(2)]
  have fl: "length ([] :: bytes) \<le> 4" by simp
  obtain n1 n2 n3 n4 S' out where "sys_run demo_cf [Flush 0 n1, Advance 0 demo_moment, Flush 0 n2, Advance 0 demo_moment, Flush 0 n3,
      Advance 0 demo_moment, Flush 0 n4] S = Ok (S', out)" "settled (sys_go S' ! 0)"
    using good_client_is_answered [OF demo_boot demo_events_ok(1) run reads(1) refl demo_order demo_env(1) _ demo_good
      demo_flight [OF fl] _ keys demo_request_ok c demo_route reads(3) [unfolded demo_bytes_def]] demo_env(2) plan
    unfolding reads(2,4) by blast
  then show ?thesis
    unfolding \<open>keyExchange null_entropy demo_hello = Ok (pub, shared)\<close> res.case
    using plan keys run unfolding demo_bytes_def demo_request_def by blast
qed simp

text \<open>
  C4: a client that goes away does not leave its goroutine behind. Once the reads of a goroutine have come to the end
  of its TCP connection, by a FIN or a reset, at whatever point of the exchange and whatever was sent until then, it
  terminates: three runs at most, each after writing what it has to write, and it closes the connection.
\<close>
theorem closed_client_ends_goroutine:
  assumes start: "boot cr x lib sq t = Ok (cf, S0)" "list_all (event_ok cf) evs" "sys_run cf evs S0 = Ok (S, o1)"
    and go: "j < length (sys_go S)" "g_end (sys_go S ! j) = EOF" "route_order (fst (snd m)) (server_mux lib sq)"
  shows "\<exists>n1 n2 n3 n4 S' out. sys_run cf [Flush j n1, Advance j m, Flush j n2, Advance j m, Flush j n3, Advance j m,
      Flush j n4, Finish j] S = Ok (S', out)
    \<and> g_phase (sys_go S' ! j) = Closed \<and> g_tcp (sys_go S' ! j) = g_tcp (sys_go S ! j)"
proof -
  have inv: "sys_inv cf S" using sys_run_keeps [OF boot_inv [OF start(1)] start(2)] start(3) by auto
  note cf = boot_start(4-6) [OF start(1)]
  obtain n1 n2 n3 n4 S1 o2 where run:
      "sys_run cf [Flush j n1, Advance j m, Flush j n2, Advance j m, Flush j n3, Advance j m, Flush j n4] S = Ok (S1, o2)"
      "sys_inv cf S1" "j < length (sys_go S1)" "same_go (sys_go S ! j) (sys_go S1 ! j)" "settled (sys_go S1 ! j)"
      "g_sent (sys_go S1 ! j) = length (c_out (g_conn (sys_go S1 ! j)))"
    using three_rounds [OF inv go(1), of m] go(2,3) cf(2,3) by (auto simp: ready_def)
  obtain S2 o3 where 2: "sys_exec cf (Finish j) S1 = Ok (S2, o3)"
    using sys_exec_keeps [OF run(2), of "Finish j"] by auto
  have "sys_go S2 = (if g_phase (sys_go S1 ! j) = Answered then (sys_go S1)[j := (sys_go S1 ! j)\<lparr>g_phase := Closed\<rparr>] else sys_go S1)"
    using 2 run(3,6) by (auto simp: sys_exec_def rbind_eq_Ok go_at_def)
  then have "g_phase (sys_go S2 ! j) = Closed \<and> g_tcp (sys_go S2 ! j) = g_tcp (sys_go S ! j)"
    using run(3-5) by (auto simp: same_go_def)
  moreover have "sys_run cf ([Flush j n1, Advance j m, Flush j n2, Advance j m, Flush j n3, Advance j m, Flush j n4] @ [Finish j]) S
      = Ok (S2, o2 @ o3 @ [])"
    by (rule sys_run_append [OF run(1)]) (simp add: 2)
  ultimately show ?thesis
    by (intro exI [of _ n1] exI [of _ n2] exI [of _ n3] exI [of _ n4] exI [of _ S2]) auto
qed

text \<open>For the witness: a client that completes the TCP handshake and closes at once.\<close>

lemma demo_fin_stack:
  assumes "ip_SrcIP p = IP4 10 0 0 2" "ip_DstIP p = IP4 10 0 0 1"
  shows "\<exists>c st out. exec (Recv None (demo_frame (FIN OR ACK) 100 []) 7) (SYN_stack (sys_stack demo_start) demo_key (demo_conn m p f))
      = Ok (st, out) \<and> conn_at st 0 = Some c \<and> readCh c = [] \<and> overflow c = [] \<and> readChClosed c
    \<and> listener_at st 0 = Some \<lparr>lst_port = 443, lst_accept = [0]\<rparr>"
proof -
  let ?t = "(out_segment demo_peer (FIN OR ACK) [] 100 [])\<lparr>tcp_Checksum := out_checksum demo_peer (FIN OR ACK) [] 100 []\<rparr>"
  obtain f' p' where 1: "ip_SrcIP p' = IP4 10 0 0 2" "ip_DstIP p' = IP4 10 0 0 1"
      "\<And>isn a s. handleRaw isn (demo_frame (FIN OR ACK) 100 []) a s = dispatch isn p' ?t f' a s"
    using demo_handleRaw [of "[]" "FIN OR ACK" 100] by auto
  let ?s = "SYN_stack (sys_stack demo_start) demo_key (demo_conn m p f)"
  have "segment_key p' ?t = demo_key"
    using 1 by (simp add: segment_key_def demo_key_def out_segment_def demo_peer_def sample_peer_def sample_conn_def)
  then have "exec (Recv None (demo_frame (FIN OR ACK) 100 []) 7) ?s = handleSegment 0 ?t f' 7 ?s"
    using 1 by (simp add: dispatch_def Let_def SYN_stack_def demo_start_def sys_start_def stack_Listen_def NewStack_def)
  moreover have "conn_at ?s 0 = Some (demo_conn m p f)"
    by (simp add: SYN_stack_def demo_start_def sys_start_def stack_Listen_def NewStack_def)
  moreover have "Flags ?t = FIN OR ACK" "tcp_Payload ?t = []" "SeqNum ?t = 100" "AckNum ?t = 1001"
    by (simp_all add: out_segment_def demo_peer_def sample_peer_def)
  moreover have "listeners ?s 443 = Some 0" "listener_at ?s 0 = Some \<lparr>lst_port = 443, lst_accept = []\<rparr>"
    by (simp_all add: SYN_stack_def demo_start_def sys_start_def stack_Listen_def NewStack_def Let_def)
  moreover have "State (demo_conn m p f) = SYN_RECEIVED" "LocalPort (demo_conn m p f) = 443"
      "SendSeqNum (demo_conn m p f) = 1001" "readCh (demo_conn m p f) = []" "overflow (demo_conn m p f) = []"
      "\<not> readChClosed (demo_conn m p f)"
    by (simp_all add: demo_conn_def new_conn_def out_segment_def demo_peer_def sample_peer_def)
  moreover have "(FIN OR ACK) AND RST = 0" "(FIN OR ACK) AND FIN \<noteq> 0" "(FIN OR ACK) AND ACK \<noteq> 0"
    by (simp_all add: ACK_def RST_def FIN_def)
  moreover have "\<not> seqGT (1001 :: u32) 1001" by (simp add: seqGT_def)
  ultimately show ?thesis
    by (simp add: handleSegment_def segment_SYN_RECEIVED_def Let_def segment_ESTABLISHED_def processAck_def
      established_data_def established_fin_def closeReadChLocked_def accept_cap_def)
qed

definition demo_fin :: "(row list, instant) sys_event list" where
  "demo_fin = [Net (Recv None (demo_frame (FIN OR ACK) 100 []) 7), Accept null_entropy, Fetch 0 10]"

lemma demo_fin_run:
  assumes "ip_SrcIP p = IP4 10 0 0 2" "ip_DstIP p = IP4 10 0 0 1"
    "S1 = demo_start\<lparr>sys_stack := SYN_stack (sys_stack demo_start) demo_key (demo_conn m p f)\<rparr>"
  shows "\<exists>S out. sys_run demo_cf demo_fin S1 = Ok (S, out) \<and> sys_go S = [take_read ReadEOF (spawn demo_cf 0 null_entropy)]"
proof -
  obtain c st o1 where st: "exec (Recv None (demo_frame (FIN OR ACK) 100 []) 7) (sys_stack S1) = Ok (st, o1)"
      "conn_at st 0 = Some c" "readCh c = []" "overflow c = []" "readChClosed c"
      "listener_at st 0 = Some \<lparr>lst_port = 443, lst_accept = [0]\<rparr>"
    using demo_fin_stack [OF assms(1,2), of m f] assms(3) by auto
  define S2 where "S2 = demo_start\<lparr>sys_stack := st\<rparr>"
  have 2: "sys_exec demo_cf (Net (Recv None (demo_frame (FIN OR ACK) 100 []) 7)) S1 = Ok (S2, o1)"
    using st(1) assms(3) by (simp add: sys_exec_def S2_def)
  define st3 where "st3 = put_listener 0 \<lparr>lst_port = 443, lst_accept = []\<rparr> st"
  define S3 where "S3 = S2\<lparr>sys_go := [spawn demo_cf 0 null_entropy], sys_stack := st3\<rparr>"
  have 3: "sys_exec demo_cf (Accept null_entropy) S2 = Ok (S3, [])"
    using st(6) by (simp add: sys_exec_def S2_def S3_def st3_def stack_Accept_def demo_cf_def demo_start_def sys_start_def)
  have "conn_Read 10 c = (ReadEOF, c)" using st(3-5) by (simp add: conn_Read_def)
  then have "\<exists>S4. sys_exec demo_cf (Fetch 0 10) S3 = Ok (S4, []) \<and> sys_go S4 = [take_read ReadEOF (spawn demo_cf 0 null_entropy)]"
    using st(2) by (simp add: sys_exec_def S3_def st3_def go_at_def spawn_def awaits_def tls_Server_def put_go_def op_Read_def)
  then show ?thesis using 2 3 by (auto simp: demo_fin_def)
qed

theorem closed_client_ends_goroutine_witness:
  "\<exists>S o1 n1 n2 n3 n4 S' out. sys_run demo_cf (demo_open @ demo_fin) demo_start = Ok (S, o1)
    \<and> sys_run demo_cf [Flush 0 n1, Advance 0 demo_moment, Flush 0 n2, Advance 0 demo_moment, Flush 0 n3,
        Advance 0 demo_moment, Flush 0 n4, Finish 0] S = Ok (S', out)
    \<and> g_phase (sys_go S' ! 0) = Closed"
proof -
  obtain m p f o1 where 1: "sys_run demo_cf demo_open demo_start = Ok (demo_start\<lparr>sys_stack :=
      SYN_stack (sys_stack demo_start) demo_key (demo_conn m p f)\<rparr>, o1)" (is "_ = Ok (?S1, _)")
      and ip: "ip_SrcIP p = IP4 10 0 0 2" "ip_DstIP p = IP4 10 0 0 1"
    using demo_opened by blast
  obtain S o2 where 2: "sys_run demo_cf demo_fin ?S1 = Ok (S, o2)" "sys_go S = [take_read ReadEOF (spawn demo_cf 0 null_entropy)]"
    using demo_fin_run [OF ip refl] by blast
  note run = sys_run_append [OF 1 2(1)]
  have "event_ok demo_cf (Accept null_entropy)" using demo_events_ok(1) by (simp add: demo_data_def)
  then have ok: "list_all (event_ok demo_cf) (demo_open @ demo_fin)" by (simp add: demo_open_def demo_fin_def)
  have go: "0 < length (sys_go S)" "g_end (sys_go S ! 0) = EOF"
    using 2(2) by (simp_all add: take_read_def)
  have order: "route_order (fst (snd demo_moment)) (server_mux demo_library table_sql)"
    by (simp add: demo_moment_def route_order_def server_mux_routes str_def)
  from closed_client_ends_goroutine [OF demo_boot ok run go order] run show ?thesis by blast
qed

subsection \<open>A whole exchange, frame by frame\<close>

text \<open>A frame with bytes of the stream in it; the first bytes handed to an open window go out at once.\<close>

definition has_data :: "emission \<Rightarrow> bool" where
  "has_data y \<longleftrightarrow> (\<exists>f p seg. parse_layers (snd y) = Ok (f, p, seg) \<and> tcp_Payload seg \<noteq> [])"

lemma sent_frames_append:
  "stays_up i as s \<Longrightarrow> run_events as s = Ok (s1, o1) \<Longrightarrow>
   sent_frames i (as @ bs) s = sent_frames i as s @ sent_frames i bs s1"
  by (induction as arbitrary: s o1) (auto simp: rbind_eqs split: prod.splits)

lemma first_write_sends:
  assumes "stack_inv s" "conn_at s i = Some c" "State c \<noteq> CLOSED" "0 < window_room c" "sendUnsent c = []"
    "list_all (\<lambda>e. \<exists>d. e = OnConn i (OpWrite d)) es" "written i es \<noteq> []"
  shows "\<exists>y \<in> set (sent_frames i (es @ fs) s). has_data y"
  using assms
proof (induction es arbitrary: s c)
  case (Cons e es)
  obtain d where e: "e = OnConn i (OpWrite d)" using Cons.prems(6) by auto
  obtain s1 o1 where x: "exec e s = Ok (s1, o1)" "stack_inv s1" using exec_keeps [OF Cons.prems(1)] by blast
  let ?b = "c\<lparr>sendUnsent := d\<rparr>"
  obtain c1 where c1: "pumpSendLocked ?b = Ok (c1, o1)" "s1 = put_conn i c1 s"
    using x(1) Cons.prems(2,5) by (auto simp: e rbind_eqs op_Write_eq)
  have room: "window_room ?b = window_room c" by (simp add: window_room_def in_flight_def)
  have up: "\<not> torn_down i s" using Cons.prems(2,3) by (simp add: torn_down_def)
  show ?case
  proof (cases "d = []")
    case True
    then have "c1 = c" using c1(1) Cons.prems(5) pump_segs_eq_Nil [of ?b]
      by (auto simp: pumpSendLocked_spec after_pump_def pump_amount_def)
    moreover have "written i es \<noteq> []" "list_all (\<lambda>e. \<exists>d. e = OnConn i (OpWrite d)) es"
      using Cons.prems(6,7) True by (simp_all add: written_def e)
    ultimately have "\<exists>y \<in> set (sent_frames i (es @ fs) s1). has_data y"
      using Cons.IH [OF x(2), of c] Cons.prems(3-5) c1(2) by simp
    then show ?thesis using x(1) up by (auto simp del: exec.simps)
  next
    case False
    then have "0 < pump_amount ?b" using Cons.prems(4) room by (simp add: pump_amount_def)
    then obtain s0 q where segs: "pump_segs (pump_mss ?b) ?b = s0 # q"
      using pump_segs_eq_Nil [of ?b] by (cases "pump_segs (pump_mss ?b) ?b") auto
    have "queue_ok c" using stack_inv_conn [OF Cons.prems(1,2)] by (simp add: inv_defs)
    then have "pump_mss ?b \<le> 1460" by (auto simp: pump_mss_def queue_ok_def defaultMSS_def)
    then have len: "ss_data s0 \<noteq> []" "length (ss_data s0) \<le> 65435" using pump_segs_sizes [of ?b] segs by auto
    have "options_aligned []" by (simp add: options_aligned_def)
    from parse_layers_out_bytes [OF this len(2), of ?b "ss_flags s0" "ss_seqNum s0" "conn_frame ?b" "[]"]
    have "has_data (seg_emission ?b s0)" using len(1) by (auto simp: has_data_def seg_emission_def out_segment_def)
    moreover have "seg_emission ?b s0 \<in> set o1" using c1(1) segs by (auto simp: pumpSendLocked_spec)
    ultimately show ?thesis using x(1) up by (auto simp: e simp del: exec.simps)
  qed
qed (simp add: written_def)

lemma flush_trace:
  assumes "sys_inv cf S" "list_all (event_ok cf) evs" "sys_run cf evs S = Ok (S', out)" "j < length (sys_go S)"
    "list_all (\<lambda>ev. \<exists>n m. ev = Flush j n \<or> ev = Advance j m) evs"
  shows "list_all (\<lambda>e. \<exists>d. e = OnConn (g_tcp (sys_go S ! j)) (OpWrite d)) (tcp_trace cf evs S)"
  using assms
proof (induction evs arbitrary: S out)
  case (Cons ev evs)
  obtain S1 o1 o2 where 1: "sys_exec cf ev S = Ok (S1, o1)" "sys_run cf evs S1 = Ok (S', o2)"
    using Cons.prems(3) by (auto simp: rbind_eq_Ok)
  have evs: "event_ok cf ev" "list_all (event_ok cf) evs" using Cons.prems(2) by simp_all
  have inv: "sys_inv cf S1" using sys_exec_keeps [OF Cons.prems(1) evs(1)] 1(1) by auto
  obtain T where T: "go_step cf ev S = Ok T" "sys_go S1 = sys_go T" by (rule sys_exec_split [OF 1(1)])
  have grown: "grows (sys_go S) (sys_go S1)" using go_step_grows [OF Cons.prems(1) evs(1) T(1)] T(2) by simp
  then have j: "j < length (sys_go S1)" "g_tcp (sys_go S1 ! j) = g_tcp (sys_go S ! j)"
    using Cons.prems(4) by (auto simp: grows_def later_def)
  have "list_all (\<lambda>e. \<exists>d. e = OnConn (g_tcp (sys_go S ! j)) (OpWrite d)) (step_trace cf ev S)"
    using Cons.prems(4,5) by (auto simp: go_at_def)
  moreover have "list_all (\<lambda>e. \<exists>d. e = OnConn (g_tcp (sys_go S1 ! j)) (OpWrite d)) (tcp_trace cf evs S1)"
    using Cons.IH [OF inv evs(2) 1(2) j(1)] Cons.prems(5) by simp
  ultimately show ?case unfolding tcp_trace_step [OF 1(1)] j(2) list_all_append by blast
qed simp

lemma tcp_trace_append:
  "sys_run cf evs1 S = Ok (S1, out) \<Longrightarrow> tcp_trace cf (evs1 @ evs2) S = tcp_trace cf evs1 S @ tcp_trace cf evs2 S1"
  by (induction evs1 arbitrary: S out) (auto simp: rbind_eq_Ok)

lemma written_append: "written i (es @ fs) = written i es @ written i fs"
  by (simp add: written_def)
lemma demo_stream:
  assumes "length B \<le> 65435" "list_all (net_of_stream k 100 B) evs"
  shows "list_all (net_of_stream k 100 B) (demo_data B @ evs)"
proof -
  obtain f' p' where "parse_layers (demo_frame ACK 100 B) = Ok (f', p', (out_segment demo_peer ACK B 100 [])
      \<lparr>tcp_Checksum := out_checksum demo_peer ACK B 100 []\<rparr>)"
    using demo_handleRaw [OF assms(1), of ACK 100] by auto
  then show "list_all (net_of_stream k 100 B) (demo_data B @ evs)"
    using assms(2) by (simp add: demo_data_def seg_of_stream_def out_segment_def)
qed

lemma demo_conn_start: "RecvSeqNum (demo_conn m p f) = 100"
  by (simp add: demo_conn_def new_conn_def out_segment_def)

lemma demo_exchange:
  assumes plan: "hs_reference null_crypto null_entropy demo_identity demo_ch demo_hello = Ok plan"
    and keys: "plan_keys null_crypto plan ck sk rk wk"
    and opened: "sys_run demo_cf demo_open demo_start = Ok (S1, o1)"
    and S1: "S1 = demo_start\<lparr>sys_stack := SYN_stack (sys_stack demo_start) demo_key (demo_conn m p f)\<rparr>"
    and ip: "ip_SrcIP p = IP4 10 0 0 2" "ip_DstIP p = IP4 10 0 0 1" and half: "half_open 0 (demo_conn m p f) (sys_stack S1)"
  shows "\<exists>evs S o2. sys_run demo_cf (demo_data (demo_bytes plan ck rk) @ evs) S1 = Ok (S, o2)
    \<and> list_all (event_ok demo_cf) (demo_data (demo_bytes plan ck rk) @ evs) \<and> (\<forall>k b B. list_all (net_of_stream k b B) evs)
    \<and> 0 < length (sys_go S) \<and> g_tcp (sys_go S ! 0) = 0 \<and> g_rnd (sys_go S ! 0) = null_entropy
    \<and> g_got (sys_go S ! 0) = demo_bytes plan ck rk \<and> g_phase (sys_go S ! 0) = Closed
    \<and> (\<exists>y \<in> set (sent_frames 0 (tcp_trace demo_cf (demo_data (demo_bytes plan ck rk) @ evs) S1) (sys_stack S1)). has_data y)"
proof -
  let ?B = "demo_bytes plan ck rk" and ?g = "\<lambda>S. sys_go S ! 0"
  have cf: "cf_crypto demo_cf = null_crypto" "cf_identity demo_cf = demo_identity" "cf_lib demo_cf = demo_library"
    "cf_sql demo_cf = table_sql" by (simp_all add: demo_cf_def)
  have events: "list_all (event_ok demo_cf) demo_open" "list_all (event_ok demo_cf) (demo_data ?B)"
    using demo_events_ok(1) [of ?B] by simp_all
  have inv1: "sys_inv demo_cf S1" using sys_run_keeps [OF boot_inv [OF demo_boot] events(1)] opened by auto
  obtain S2 o2 c2 where 2: "sys_run demo_cf (demo_data ?B) S1 = Ok (S2, o2)"
      "sys_go S2 = [take_read (ReadData ?B) (spawn demo_cf 0 null_entropy)]"
      "conn_at (sys_stack S2) 0 = Some c2" "State c2 = ESTABLISHED" "0 < window_room c2" "sendUnsent c2 = []"
      "stays_up 0 (tcp_trace demo_cf (demo_data ?B) S1) (sys_stack S1)" "written 0 (tcp_trace demo_cf (demo_data ?B) S1) = []"
    using demo_data_run [OF ip demo_bytes_size [OF plan keys] S1] by blast
  have inv2: "sys_inv demo_cf S2" using sys_run_keeps [OF inv1 events(2)] 2(1) by auto
  note reads = demo_reads [OF 2(2)]
  have fl: "length ([] :: bytes) \<le> 4" by simp
  have c: "concat [demo_request] = render_request (str ''GET'') (str ''/healthz'')
      [(str ''Host'', str ''x''), (str ''Content-Length'', str ''0'')] [] @ []" by (simp add: demo_request_def)
  note tls = demo_env(1) demo_env(2) demo_good demo_flight [OF fl] plan keys
  have "complete demo_cf null_entropy ?B"
    unfolding demo_bytes_def by (rule client_complete [OF _ _ _ _ _ _ demo_request_ok c]) (use tls cf in simp_all)
  then have ready: "ready demo_cf (?g S2)" using reads by (simp add: ready_def)
  have order: "route_order (fst (snd demo_moment)) (cf_mux demo_cf)" using demo_order cf by simp
  obtain n1 n2 n3 n4 S3 o3 where 3: "sys_run demo_cf [Flush 0 n1, Advance 0 demo_moment, Flush 0 n2, Advance 0 demo_moment, Flush 0 n3,
        Advance 0 demo_moment, Flush 0 n4] S2 = Ok (S3, o3)" (is "sys_run _ ?rounds _ = _")
      "sys_inv demo_cf S3" "0 < length (sys_go S3)" "same_go (?g S2) (?g S3)" "settled (?g S3)"
      "g_sent (?g S3) = length (c_out (g_conn (?g S3)))"
    using three_rounds [OF inv2 reads(1) order ready] by blast
  have g3: "g_got (?g S3) = ?B" "g_rnd (?g S3) = null_entropy" "g_tcp (?g S3) = 0"
    using 3(4) reads 2(2) by (simp_all add: same_go_def) (simp add: take_read_def spawn_def)
  have rounds: "list_all (event_ok demo_cf) ?rounds" using order by simp
  have go3: "go_inv demo_cf (?g S3)" using 3(2,3) by (simp add: sys_inv_def)
  have "c_out (g_conn (?g S3)) \<noteq> []"
  proof -
    obtain x where "c_out (g_conn (?g S3)) = server_out plan sk @ x"
      using client_settled [where cf = demo_cf and g = "?g S3", OF _ _ demo_good demo_flight [OF fl] _ _ demo_request_ok c _ go3 3(5)]
        g3 tls cf demo_route unfolding demo_bytes_def by fastforce
    then show ?thesis by (simp add: server_out_def record_header_def)
  qed
  moreover have "take (g_sent (?g S3)) (c_out (g_conn (?g S3))) = written 0 (tcp_trace demo_cf (demo_data ?B @ ?rounds) S1)"
  proof -
    have "list_all (net_of_stream (conn_key (demo_conn m p f)) (RecvSeqNum (demo_conn m p f)) ?B) (demo_data ?B @ ?rounds)"
      unfolding demo_conn_start by (rule demo_stream [OF demo_bytes_size(2) [OF plan keys]]) simp
    moreover have "length ?B < 4294967296" using demo_bytes_size(2) [OF plan keys] by simp
    moreover have "list_all (event_ok demo_cf) (demo_open @ demo_data ?B @ ?rounds)" using events rounds by simp
    ultimately show ?thesis
      using half_open_ledger(2) [OF demo_boot _ opened sys_run_append [OF 2(1) 3(1)] half _ _ nth_mem [OF 3(3)] g3(3)] by blast
  qed
  ultimately have w: "written 0 (tcp_trace demo_cf ?rounds S2) \<noteq> []"
    using 3(6) 2(8) by (simp add: tcp_trace_append [OF 2(1)] written_append del: tcp_trace.simps)
  obtain S4 o4 where 4: "sys_exec demo_cf (Finish 0) S3 = Ok (S4, o4)" using sys_exec_keeps [OF 3(2), of "Finish 0"] by auto
  have "sys_go S4 = (if g_phase (?g S3) = Answered then (sys_go S3)[0 := (?g S3)\<lparr>g_phase := Closed\<rparr>] else sys_go S3)"
    using 4 3(3,6) by (auto simp: sys_exec_def rbind_eq_Ok go_at_def)
  then have g4: "0 < length (sys_go S4)" "g_tcp (?g S4) = 0" "g_rnd (?g S4) = null_entropy" "g_got (?g S4) = ?B" "g_phase (?g S4) = Closed"
    using 3(3,5) g3 by auto
  have "sys_run demo_cf [Finish 0] S3 = Ok (S4, o4 @ [])" using 4 by simp
  note run = sys_run_append [OF 2(1) sys_run_append [OF 3(1) this]]
  have first: "g_tcp (?g S2) = 0" using 2(2) by (simp add: take_read_def spawn_def)
  have "list_all (\<lambda>ev. \<exists>n m. ev = Flush 0 n \<or> ev = Advance 0 m) ?rounds" by (simp del: split_paired_Ex)
  note writes = flush_trace [OF inv2 rounds 3(1) reads(1) this, unfolded first]
  from first_write_sends [OF _ 2(3) _ 2(5,6) writes w, of "tcp_trace demo_cf [Finish 0] S3"] inv2 2(4)
  have "\<exists>y \<in> set (sent_frames 0 (tcp_trace demo_cf ?rounds S2 @ tcp_trace demo_cf [Finish 0] S3) (sys_stack S2)). has_data y"
    by (simp add: sys_inv_def del: tcp_trace.simps)
  then have "\<exists>y \<in> set (sent_frames 0 (tcp_trace demo_cf (demo_data ?B @ ?rounds @ [Finish 0]) S1) (sys_stack S1)). has_data y"
    unfolding tcp_trace_append [OF 2(1)] tcp_trace_append [OF 3(1)] sent_frames_append [OF 2(7) sys_run_trace [OF 2(1)]]
    by auto
  moreover have "list_all (event_ok demo_cf) (demo_data ?B @ ?rounds @ [Finish 0])" using events(2) rounds by simp
  ultimately show ?thesis using run g4 by (intro exI [of _ "?rounds @ [Finish 0]"] exI [of _ S4]) auto
qed

text \<open>The whole exchange of the demonstration client, up to the close of its connection.\<close>

theorem frames_in_frames_out_witness:
  "case keyExchange null_entropy demo_hello of
      Ok _ \<Rightarrow> \<exists>B S1 c evs S o1 o2 g fins sent now order s s' k c'.
        sys_run demo_cf demo_open demo_start = Ok (S1, o1) \<and> half_open 0 c (sys_stack S1)
        \<and> sys_run demo_cf (demo_data B @ evs) S1 = Ok (S, o2) \<and> g = sys_go S ! 0 \<and> g_got g = B \<and> g_phase g = Closed
        \<and> (\<exists>y \<in> set (sent_frames 0 (tcp_trace demo_cf (demo_data B @ evs) S1) (sys_stack S1)). has_data y)
        \<and> length fins \<le> 1
        \<and> serve_conn null_crypto null_entropy (replicate k bufio_size) now order (server_mux demo_library table_sql)
            (conn_on demo_cf B EOF) s = (Ok s', c')
        \<and> (\<forall>y \<in> set (sent_frames 0 (tcp_trace demo_cf (demo_data B @ evs) S1) (sys_stack S1)).
             carries (conn_key c) (SendSeqNum c) fins (c_out c') sent y)
    | Err x \<Rightarrow> x = ErrWrap ''x25519 ECDHE'' ErrZeroSharedSecret
    | Panic \<Rightarrow> False"
  using demo_env(2)
proof (cases rule: keyExchange_cases [of null_entropy demo_identity demo_hello])
  case (1 pub shared)
  obtain plan ck sk rk wk where plan: "hs_reference null_crypto null_entropy demo_identity demo_ch demo_hello = Ok plan"
      and keys: "plan_keys null_crypto plan ck sk rk wk" by (rule demo_plan [OF 1(1,2)])
  let ?B = "demo_bytes plan ck rk"
  obtain m p f o1 where opened: "sys_run demo_cf demo_open demo_start = Ok (demo_start\<lparr>sys_stack :=
      SYN_stack (sys_stack demo_start) demo_key (demo_conn m p f)\<rparr>, o1)" (is "_ = Ok (?S1, _)")
      and ip: "ip_SrcIP p = IP4 10 0 0 2" "ip_DstIP p = IP4 10 0 0 1"
    using demo_opened by blast
  let ?c = "demo_conn m p f"
  note size = demo_bytes_size [OF plan keys]
  have half: "half_open 0 ?c (sys_stack ?S1)"
    by (simp add: half_open_def SYN_stack_def demo_start_def sys_start_def stack_Listen_def NewStack_def Let_def)
      (simp add: demo_conn_def new_conn_def)
  obtain evs S o2 where run: "sys_run demo_cf (demo_data ?B @ evs) ?S1 = Ok (S, o2)" "list_all (event_ok demo_cf) (demo_data ?B @ evs)"
      "list_all (net_of_stream (conn_key ?c) 100 ?B) evs"
      "0 < length (sys_go S)" "g_tcp (sys_go S ! 0) = 0" "g_rnd (sys_go S ! 0) = null_entropy"
      "g_got (sys_go S ! 0) = ?B" "g_phase (sys_go S ! 0) = Closed"
      "\<exists>y \<in> set (sent_frames 0 (tcp_trace demo_cf (demo_data ?B @ evs) ?S1) (sys_stack ?S1)). has_data y"
    using demo_exchange [OF plan keys opened refl ip half] by blast
  let ?g = "sys_go S ! 0"
  have events: "list_all (event_ok demo_cf) (demo_open @ (demo_data ?B @ evs))"
    using run(2) demo_events_ok(1) [of ?B] by simp
  have stream: "list_all (net_of_stream (conn_key ?c) (RecvSeqNum ?c) ?B) (demo_data ?B @ evs)"
    unfolding demo_conn_start by (rule demo_stream [OF size(2) run(3)])
  have "length ?B < 4294967296" using size(2) by simp
  from frames_in_frames_out [OF demo_boot events opened run(1) half stream this nth_mem [OF run(4)] run(5)] run(8)
  obtain now order s s' k0 fins sent where served: "length fins \<le> 1" "sent \<le> g_sent ?g"
      "\<forall>k \<ge> k0. \<exists>c'. serve_conn null_crypto (g_rnd ?g) (replicate k bufio_size) now order (server_mux demo_library table_sql)
          (conn_on demo_cf (heard ?g ?B) EOF) s = (Ok s', c')
        \<and> (\<forall>y \<in> set (sent_frames 0 (tcp_trace demo_cf (demo_data ?B @ evs) ?S1) (sys_stack ?S1)).
             carries (conn_key ?c) (SendSeqNum ?c) fins (c_out c') sent y)"
    by auto
  have "heard ?g ?B = ?B" using run(7) by (simp add: heard_def)
  with served(3) run(6) obtain c' where "serve_conn null_crypto null_entropy (replicate k0 bufio_size) now order (server_mux demo_library table_sql)
          (conn_on demo_cf ?B EOF) s = (Ok s', c')"
        "\<forall>y \<in> set (sent_frames 0 (tcp_trace demo_cf (demo_data ?B @ evs) ?S1) (sys_stack ?S1)).
             carries (conn_key ?c) (SendSeqNum ?c) fins (c_out c') sent y" by auto
  then show ?thesis
    unfolding \<open>keyExchange null_entropy demo_hello = Ok (pub, shared)\<close> res.case
    using opened half run(1,7-9) served(1) by blast
qed simp

end
