(* ===== verification/Server_Orders.thy ===== *)
theory Server_Orders
  imports Server_Behaviour Orders_Json
begin

section \<open>What every handler keeps, the server keeps\<close>

text \<open>
  The handlers are the only code that changes the state the goroutines share. So whatever relation every handler
  guarantees between the state it finds and the state it leaves, be it reflexive, transitive and blind to the clock, holds
  between the shared states of any two moments of the server, under every interleaving. The locale is this interface between
  the handlers and the server; the order book is the instance of it that the order API provides.
\<close>

locale handler_guarantee =
  fixes cf :: "('db, 't) config" and R :: "('db, 't) app \<Rightarrow> ('db, 't) app \<Rightarrow> bool"
  assumes same: "app_db s = app_db s' \<Longrightarrow> R s s'"
    and chain: "R s s' \<Longrightarrow> R s' s'' \<Longrightarrow> R s s''"
    and handled: "route_order order (cf_mux cf) \<Longrightarrow> mux_Handle order (cf_mux cf) req s = Ok (w, s') \<Longrightarrow> R s s'"
begin

lemma Serve_guarantee:
  assumes "route_order order (cf_mux cf)" "Serve now order (cf_mux cf) r s = Ok (out, s')"
  shows "R s s'"
  using assms handled [OF assms(1)]
  by (auto simp: Serve_def rbind_eq_Ok same split: res.splits prod.splits if_splits)

lemma advance_guarantee:
  assumes "route_order (fst (snd m)) (cf_mux cf)" "advance cf m g s = Ok (s', g')"
  shows "R s s'"
proof -
  obtain now order t where m: "m = (now, order, t)" by (metis prod_cases3)
  have answer: "R s s1" if "answer (cf_crypto cf) (g_rnd g) now order (cf_mux cf) drained (s\<lparr>app_clock := t\<rparr>) = Ok (s1, c)"
    for drained s1 c
  proof -
    have "R (s\<lparr>app_clock := t\<rparr>) s1"
      using that assms(1) Serve_guarantee [of order now _ "s\<lparr>app_clock := t\<rparr>"]
      by (auto simp: answer_def m split: prod.splits res.splits if_splits)
    then show ?thesis by (rule chain [OF same, rotated]) simp
  qed
  show ?thesis
    using assms(2) answer
    by (auto simp: advance_def m Let_def same split: phase.splits prod.splits res.splits if_splits)
qed

lemma sys_run_guarantee:
  assumes "list_all (event_ok cf) evs" "sys_run cf evs S = Ok (S', out)"
  shows "R (sys_app S) (sys_app S')"
  using assms
proof (induction evs arbitrary: S out)
  case Nil
  then show ?case by (simp add: same)
next
  case (Cons ev evs)
  obtain S1 o1 o2 where 1: "sys_exec cf ev S = Ok (S1, o1)" "sys_run cf evs S1 = Ok (S', o2)"
    using Cons.prems(2) by (auto simp: rbind_eq_Ok)
  obtain T where T: "go_step cf ev S = Ok T" "sys_app S1 = sys_app T" by (rule sys_exec_split [OF 1(1)])
  have "R (sys_app S) (sys_app T)"
  proof (cases ev)
    case (Advance j m)
    then show ?thesis
      using T(1) Cons.prems(1) advance_guarantee [of m _ "sys_app S"]
      by (auto simp: rbind_eq_Ok same split: option.splits if_splits)
  qed (use T(1) in \<open>auto simp: same put_go_def split: option.splits prod.splits if_splits\<close>)
  then show ?case using chain Cons.IH [OF _ 1(2)] Cons.prems(1) T(2) by simp
qed

end

subsection \<open>The order book under interleaving\<close>

text \<open>What the order API guarantees: the book only grows, at its end, by valid orders.\<close>

definition book_grows :: "('db, 't) config \<Rightarrow> ('db \<Rightarrow> row list) \<Rightarrow> ('db, 't) app \<Rightarrow> ('db, 't) app \<Rightarrow> bool" where
  "book_grows cf rows s s' \<longleftrightarrow> (library_ok (cf_lib cf) \<longrightarrow> sqlite_ok (cf_sql cf) rows \<longrightarrow>
     (\<forall>book. book_of (cf_lib cf) rows book (app_db s) \<longrightarrow>
       (\<exists>new. list_all valid_order new \<and> book_of (cf_lib cf) rows (book @ new) (app_db s'))))"

interpretation order_book: handler_guarantee cf "book_grows cf rows" for cf :: "('db, 't) config" and rows
proof
  show "book_grows cf rows s s'" if "app_db s = app_db s'" for s s'
    using that by (auto simp: book_grows_def intro: exI [of _ "[]"])
  show "book_grows cf rows s s''" if steps: "book_grows cf rows s s'" "book_grows cf rows s' s''" for s s' s''
    unfolding book_grows_def
  proof (intro impI allI)
    fix book assume l: "library_ok (cf_lib cf)" "sqlite_ok (cf_sql cf) rows" "book_of (cf_lib cf) rows book (app_db s)"
    then obtain n1 where n1: "list_all valid_order n1" "book_of (cf_lib cf) rows (book @ n1) (app_db s')"
      using steps(1) by (auto simp: book_grows_def)
    then obtain n2 where "list_all valid_order n2" "book_of (cf_lib cf) rows ((book @ n1) @ n2) (app_db s'')"
      using steps(2) l by (auto simp: book_grows_def)
    then show "\<exists>new. list_all valid_order new \<and> book_of (cf_lib cf) rows (book @ new) (app_db s'')"
      using n1(1) by (intro exI [of _ "n1 @ n2"]) simp
  qed
  show "book_grows cf rows s s'"
    if "route_order order (cf_mux cf)" "mux_Handle order (cf_mux cf) req s = Ok (w, s')" for order req s w s'
    unfolding book_grows_def
  proof (intro impI allI)
    fix book assume l: "library_ok (cf_lib cf)" "sqlite_ok (cf_sql cf) rows" "book_of (cf_lib cf) rows book (app_db s)"
    have "server_handle (cf_mux cf) order (req, app_clock s) s = Ok (w, s')"
      using that(2) by (simp add: server_handle_def)
    then show "\<exists>new. list_all valid_order new \<and> book_of (cf_lib cf) rows (book @ new) (app_db s')"
      using server_handle_book [OF l(1,2) that(1) l(3), of "(req, app_clock s)"]
      by (auto intro: exI [of _ "[]"] exI [of _ "[_]"])
  qed
qed


text \<open>What the shop lists, as a client reads it, if it were asked now.\<close>

definition lists :: "('db, instant) config \<Rightarrow> ('db, instant) system \<Rightarrow> instant Order list \<Rightarrow> bool" where
  "lists cf S book \<longleftrightarrow> (\<forall>order t. route_order order (cf_mux cf) \<longrightarrow>
     (\<exists>w s'. server_handle (cf_mux cf) order (get_request (str ''/orders''), t) (sys_app S) = Ok (w, s')
       \<and> StatusCode w = 200 \<and> read_orders (w_Body w) = Some book))"

lemma lists_book:
  "sqlite_ok (cf_sql cf) rows \<Longrightarrow> cf_lib cf = go_library other \<Longrightarrow> book_of (cf_lib cf) rows book (app_db (sys_app S)) \<Longrightarrow>
   list_all valid_order book \<Longrightarrow> lists cf S book"
  unfolding lists_def using get_lists_book by metis

text \<open>
  C20: no order is lost or changed, whatever happens to the server. From the start that \<^verbatim>\<open>main\<close> makes on an empty table,
  let any frames, timers, accepts, reads, writes and runs of the goroutines happen, in any interleaving, and then any more.
  What \<^verbatim>\<open>GET /orders\<close> would list after the first part, read as JSON, is listed after the second part too, unchanged and in
  the same place; the orders that were added come behind, and the identifiers ascend.
\<close>
theorem orders_survive_every_interleaving:
  assumes "boot cr x (go_library other) sq t0 = Ok (cf, S0)" "sqlite_ok sq rows" "rows (app_db (sys_app S0)) = []"
    and "list_all (event_ok cf) (evs1 @ evs2)" "sys_run cf evs1 S0 = Ok (S1, o1)" "sys_run cf evs2 S1 = Ok (S2, o2)"
  shows "\<exists>book new. lists cf S1 book \<and> lists cf S2 (book @ new) \<and> sorted_wrt (<) (map ID (book @ new))"
proof -
  have cf: "cf_lib cf = go_library other" "cf_sql cf = sq" using boot_start [OF assms(1)] by simp_all
  have ok: "library_ok (cf_lib cf)" "sqlite_ok (cf_sql cf) rows" using assms(2) by (simp_all add: cf go_library_ok)
  have evs: "list_all (event_ok cf) evs1" "list_all (event_ok cf) evs2" using assms(4) by simp_all
  have "book_of (cf_lib cf) rows [] (app_db (sys_app S0))" using assms(3) by (simp add: book_of_def)
  then obtain book where 1: "list_all valid_order book" "book_of (cf_lib cf) rows book (app_db (sys_app S1))"
    using order_book.sys_run_guarantee [OF evs(1) assms(5), of rows] ok by (auto simp: book_grows_def)
  then obtain new where 2: "list_all valid_order new" "book_of (cf_lib cf) rows (book @ new) (app_db (sys_app S2))"
    using order_book.sys_run_guarantee [OF evs(2) assms(6), of rows] ok by (auto simp: book_grows_def)
  have "lists cf S1 book" "lists cf S2 (book @ new)"
    using lists_book [OF ok(2) cf(1) 1(2,1)] lists_book [OF ok(2) cf(1) 2(2)] 1(1) 2(1) by simp_all
  then show ?thesis using 2(2) by (auto simp: book_of_def)
qed

theorem orders_survive_every_interleaving_witness:
  "\<exists>S1 o1 S2 o2 book new. sys_run demo_cf demo_open demo_start = Ok (S1, o1) \<and> sys_run demo_cf demo_garbage S1 = Ok (S2, o2)
    \<and> lists demo_cf S1 book \<and> lists demo_cf S2 (book @ new) \<and> sorted_wrt (<) (map ID (book @ new))"
proof -
  have ev: "list_all (event_ok demo_cf) (demo_open @ demo_garbage)" by (rule demo_events_ok(2))
  obtain S1 o1 where 1: "sys_run demo_cf demo_open demo_start = Ok (S1, o1)" "sys_inv demo_cf S1"
    using sys_run_keeps [OF boot_inv [OF demo_boot], of demo_open] ev by auto
  obtain S2 o2 where 2: "sys_run demo_cf demo_garbage S1 = Ok (S2, o2)"
    using sys_run_keeps [OF 1(2), of demo_garbage] ev by auto
  have "(\<lambda>tab. tab) (app_db (sys_app demo_start)) = []" by (simp add: demo_start_def sys_start_def)
  from orders_survive_every_interleaving [OF demo_boot [unfolded demo_library_def] parameters_ok(2) this ev 1(1) 2] 1(1) 2
  show ?thesis by blast
qed

end
