(* ===== verification/Spec2Isabelle.thy ===== *)
theory Spec2Isabelle
  imports Tcp_Behaviour Icmp_Echo Http_Date Orders_Json Go_Crypto Https_Server Tls_Types Server_Liveness Server_Orders
begin

text \<open>
  A verified model of a web server that brings its own network stack: Go code that reads Ethernet frames from
  a raw socket and implements IPv4, TCP, ICMP echo, TLS 1.3, HTTP/1.1 and a small order service on top.

  \<^bold>\<open>The program and how its parts interact.\<close> \<^verbatim>\<open>main.go\<close> opens the raw socket, creates a TLS identity and the
  order store, starts the TCP stack listening on port 443, registers the routes, and serves each accepted
  connection in its own goroutine: TLS handshake, one HTTP request, one response, close. Frames come in
  through \<^verbatim>\<open>Stack.handleRaw\<close>, which parses them (\<^verbatim>\<open>model\<close>), finds the connection of their four-tuple and runs
  its state machine (\<^verbatim>\<open>tcp\<close>); data reaches the application through a channel that \<^verbatim>\<open>TCPConnection.Read\<close>
  empties. \<^verbatim>\<open>tls.Conn\<close> reads and writes records on that connection; \<^verbatim>\<open>http.Serve\<close> reads a request from it, asks
  the router for a handler (\<^verbatim>\<open>orders\<close> registers two), and writes the response.

  \<^bold>\<open>Theories and sources.\<close>
    \<^item> Net_Prelude: byte strings, outcomes (value, error, panic), checked slices, readers, big-endian integers;
      the rule collections \<open>go_simps\<close> and \<open>wire_simps\<close>.
    \<^item> Checksum: the one's-complement sum of \<^verbatim>\<open>model/serialize.go\<close>, \<^verbatim>\<open>tcp/send.go\<close> and \<^verbatim>\<open>icmp/server.go\<close>.
    \<^item> Packet_Model: \<^verbatim>\<open>model/\<close> (headers, parsers, serializers). Icmp_Echo: \<^verbatim>\<open>icmp/server.go\<close>.
    \<^item> Tcp_Seq: \<^verbatim>\<open>tcp/seq.go\<close>, \<^verbatim>\<open>tcp/options.go\<close>. Tcp_Send: \<^verbatim>\<open>tcp/send.go\<close> and the connection record. Tcp_Conn:
      the operations of \<^verbatim>\<open>tcp/connection.go\<close> (Read, Write, Close, send pump, retransmission timer). Tcp_Stack:
      \<^verbatim>\<open>tcp/stack.go\<close> as operations on one state that holds the table, the listeners and all connection objects.
      Tcp_Behaviour: the properties of the stack. Tcp_Transmit: what it sends for a connection over any run, each
      byte at its place, with the FINs of \<^verbatim>\<open>Close\<close> between them, and the stall of a connection in CLOSE-WAIT.
      Tcp_Accept: that it accepts each connection once.
    \<^item> Http_Request: \<^verbatim>\<open>http/parse.go\<close>. Http_Server: \<^verbatim>\<open>http/http.go\<close>, \<^verbatim>\<open>http/response.go\<close>, \<^verbatim>\<open>http/server.go\<close> and
      the handlers of \<^verbatim>\<open>main.go\<close>. Http_Date: the Date header, and responses with any spelling of their header names. Orders: \<^verbatim>\<open>orders/handlers.go\<close>, \<^verbatim>\<open>orders/store.go\<close>.
      Orders_Json: what the answers of the order API mean to a client that reads JSON.
    \<^item> Go_Json, Go_Time, Go_Crypto: what the program uses of Go's library: the JSON scanner, decoder and encoder, instants
      with their RFC 3339 texts, and SHA-256 and AES-128-GCM.
    \<^item> Tls_Base: errors and the state-and-error style of \<^verbatim>\<open>tls/\<close>. Tls_Record: \<^verbatim>\<open>tls/record.go\<close>. Tls_Messages:
      \<^verbatim>\<open>tls/messages.go\<close>. Tls_Keys: \<^verbatim>\<open>tls/keyschedule.go\<close>, \<^verbatim>\<open>tls/transcript.go\<close> and the signing part of
      \<^verbatim>\<open>tls/cert.go\<close>. Rfc8446: the key schedule, Finished value and handshake messages as RFC 2104, RFC 5869 and RFC 8446
      define them, without any function of the code, and the proof that the code computes them. X25519_Ladder: \<^verbatim>\<open>tls/x25519.go\<close>. Tls_Conn: \<^verbatim>\<open>tls/conn.go\<close> up to handshake messages.
      Tls_Handshake: \<^verbatim>\<open>tls/handshake.go\<close> and \<^verbatim>\<open>Read\<close>, \<^verbatim>\<open>Write\<close>, \<^verbatim>\<open>Close\<close> of \<^verbatim>\<open>tls/conn.go\<close>.
    \<^item> Tls_Types: the sizes of the key material. Tls_Transport: \<^verbatim>\<open>readRecord\<close> on a TCP connection, as \<^verbatim>\<open>main.go\<close> stacks the two.
    \<^item> Https_Server: the goroutine of \<^verbatim>\<open>main.go\<close>, \<^verbatim>\<open>NewServerIdentity\<close> of \<^verbatim>\<open>tls/cert.go\<close> and the start of \<^verbatim>\<open>main\<close>.
    \<^item> Tls_Resume, Http_Resume: a TLS connection and the HTTP parser on input that arrives piece by piece; what they do
      when they come to an end does not depend on what arrives later.
    \<^item> Server_System: the accept loop of \<^verbatim>\<open>main.go\<close> with its goroutines and the TCP stack below, as one state and its
      steps. Server_Behaviour, Server_Liveness: the properties of the whole server. Server_Orders: what every handler
      guarantees of the shared state holds of the whole server (locale \<open>handler_guarantee\<close>), for one the order book.

  \<^bold>\<open>State and operations.\<close> A struct is a record; Go's \<^verbatim>\<open>error\<close> results and panics are the \<open>Err\<close> and \<open>Panic\<close> of
  \<open>res\<close>; what is sent is returned or appended to an output field. A pointer to a connection is an index into
  the stack's heap, so a connection that the table has dropped is still there for whoever holds it. Operations
  of the TCP stack are atomic: goroutines and timers interleave per operation and per frame, in any order
  (\<open>reachable\<close>). A goroutine of the server is in one of the places where it waits for bytes (\<open>phase\<close>); the steps of
  \<open>sys_event\<close> interleave freely: frames, timers, accepts, reads of any size, runs of a goroutine to its next wait,
  writes in any pieces. Since a run that finds too little starts again from its last wait when more has come, it
  is the same as a blocking read that goes on. A run of a handler on the shared state is one step. Channels are lists with their capacity (16 for accepting and reading); a send on a full one
  blocks the receive loop (field \<open>blocked\<close>). Go maps that are iterated over are association lists with the
  order of iteration as an argument.

  \<^bold>\<open>What the lemmas show.\<close>
    \<^item> TCP: an invariant of every operation and frame, no panics, the peer's byte stream is delivered in order,
      what is written is segmented without loss, windows and acknowledgements are respected, the three-way
      handshake, resets, FIN, back-off, the state diagram; and, as theorems about the code, where it departs
      from the protocol: \<^verbatim>\<open>Close\<close> overtakes unsent data, a FIN out of order cuts the stream, a connection in CLOSE-WAIT
      stalls, a late cleanup removes a newer connection.
    \<^item> TLS: the ClientHello parser accepts exactly the framed messages; handshake messages survive any
      fragmentation; nonces do not repeat; the ladder with delayed swaps is the textbook ladder; the
      handshake sends the messages, installs the keys and accepts exactly the Finished message of RFC 8446 (\<open>rfc_plan\<close>;
      \<open>hs_reference\<close> collects the same from the code's own functions); Read and Write carry a byte stream; nothing
      a peer sends causes a panic; an error is final; with GCM a record is accepted exactly if it was sealed for its place.
    \<^item> HTTP: requests are read back, refused requests get the status of their error, responses read back, routing. Orders: the API
      over the store refines an order book (\<open>book_of\<close>), and
      what a client reads as JSON in its answers are the orders of the book. Https_Server composes TLS, HTTP and the router.
    \<^item> The whole server: under every interleaving nothing panics; the requests are served as if one after the other;
      the frames that leave carry what the sequential service makes of the byte stream in the frames that come;
      a client that has sent a complete request is answered, and the goroutine of one that is gone terminates;
      the order book only grows.

  \<^bold>\<open>Bounds and termination.\<close> There is no fuel: loops are structural or have a measure (the bytes left to read,
  the header lines left of 100, the bytes left to write), so every operation is total and returns. The limits of
  the code (8192 bytes per line, 100 header lines, 1 MiB of body, 16 KiB per record) are those of the source.

  \<^bold>\<open>Parameters.\<close> The hash function and the AEAD (records \<open>crypto\<close>, \<open>aead\<close>), ECDSA (field \<open>si_priv\<close>), the random draws
  (\<open>entropy\<close>), X.509 (\<open>x509\<close>), SQLite (\<open>sql\<close>), the type of instants with its texts (\<open>library\<close>), the clock. What is
  relied on is stated where it is used: \<open>aead_correct\<close>, \<open>hash_ok\<close>, \<open>crypto_ok\<close>, \<open>server_ok\<close>, \<open>sqlite_ok\<close>,
  \<open>library_ok\<close>; no secrecy or collision resistance is assumed or proved. The ones that Go's library implements are
  written out and proved to be of that kind: SHA-256 and AES-128-GCM (\<open>go_crypto_ok\<close>) and the times of the years 1 to 9999
  (\<open>go_library_ok\<close>). JSON, HMAC, HKDF and the string functions over bytes are definitions.

  \<^bold>\<open>Not modelled.\<close> The syscalls on the raw socket (their results are arguments of \<open>recvLoop\<close>) and the messages on stdout;
  races inside an operation (fields that the code touches without its lock); two handlers that run their SQL statements at the
  same time; the text of the SQL schema, SQLite, ECDSA and X.509, which are no code of the repository; what \<^verbatim>\<open>time.Parse\<close> does
  with texts that are not RFC 3339 in UTC; the meaning of the ladder on the curve; tests and scripts.
\<close>

end
